(* ===== verification/Booth_Prelude.thy ===== *)
theory Booth_Prelude
  imports Main "HOL-Library.Word"
begin

text \<open>
  Shared vocabulary of the development: the machine integer types of the C sources, the
  return codes of \<open>src/src/barracuda.h\<close>, C arrays, and the generic facts about
  bit masks, block moves and counted loops that the component theories use.

  Conventions.  A fixed-size C array is a total function from indices, so that stale
  slots past the live count are kept, as the C arenas keep them; the live count is a
  separate field.  Counts and positions in an arena are natural numbers (every arena is
  bounded far below \<open>2^32\<close>, and the operations check the bound before they grow it);
  values on which the source does width-dependent arithmetic are words.
\<close>

unbundle bit_operations_syntax

type_synonym u8 = "8 word"
type_synonym u16 = "16 word"
type_synonym u32 = "32 word"
type_synonym u64 = "64 word"

text \<open>The return codes of \<open>barracuda.h\<close>, lines 46 to 61.\<close>

datatype bc_code =
    BC_OK | BC_ERR_IO | BC_ERR_LEX | BC_ERR_PARSE | BC_ERR_OVERFLOW | BC_ERR_VERIFY
  | BC_ERR_AMDGPU | BC_ERR_TENSIX | BC_ERR_METAL | BC_ERR_INTEL | BC_ERR_TRITON
  | BC_ERR_TDF | BC_ERR_PREPROC | BC_ERR_LOWER | BC_ERR_SEMA | BC_ERR_NVIDIA

subsection \<open>Collections of rewrite rules\<close>

named_theorems bir_simps \<open>unfolding rules of the IR helpers\<close>
named_theorems wf_intros \<open>well-formedness of the results of operations\<close>
named_theorems rv_simps \<open>field extraction from RISC-V instruction words\<close>

subsection \<open>Arrays\<close>

text \<open>\<open>blit\<close> is \<open>memmove\<close> between two positions of one array.\<close>

definition blit :: "(nat \<Rightarrow> 'a) \<Rightarrow> nat \<Rightarrow> nat \<Rightarrow> nat \<Rightarrow> (nat \<Rightarrow> 'a)" where
  "blit a dst src n = (\<lambda>i. if dst \<le> i \<and> i < dst + n then a (src + (i - dst)) else a i)"

text \<open>\<open>paste\<close> is \<open>memcpy\<close> of a separate list into an array.\<close>

definition paste :: "(nat \<Rightarrow> 'a) \<Rightarrow> nat \<Rightarrow> 'a list \<Rightarrow> (nat \<Rightarrow> 'a)" where
  "paste a dst xs = (\<lambda>i. if dst \<le> i \<and> i < dst + length xs then xs ! (i - dst) else a i)"

lemma blit_in [simp]: "dst \<le> i \<Longrightarrow> i < dst + n \<Longrightarrow> blit a dst src n i = a (src + (i - dst))"
  by (simp add: blit_def)

lemma blit_below [simp]: "i < dst \<Longrightarrow> blit a dst src n i = a i"
  by (auto simp: blit_def)

lemma blit_above [simp]: "dst + n \<le> i \<Longrightarrow> blit a dst src n i = a i"
  by (auto simp: blit_def)

lemma blit_0 [simp]: "blit a dst src 0 = a"
  by (auto simp: blit_def fun_eq_iff)

lemma paste_in [simp]:
  "dst \<le> i \<Longrightarrow> i < dst + length xs \<Longrightarrow> paste a dst xs i = xs ! (i - dst)"
  by (simp add: paste_def)

lemma paste_below [simp]: "i < dst \<Longrightarrow> paste a dst xs i = a i"
  by (auto simp: paste_def)

lemma paste_above [simp]: "dst + length xs \<le> i \<Longrightarrow> paste a dst xs i = a i"
  by (auto simp: paste_def)

lemma paste_Nil [simp]: "paste a dst [] = a"
  by (auto simp: paste_def fun_eq_iff)

text \<open>Updating every slot of a list of distinct slots in turn.\<close>

lemma fold_update_slots:
  "distinct js \<Longrightarrow> fold (\<lambda>j a. a(j := f (a j))) js g = (\<lambda>j. if j \<in> set js then f (g j) else g j)"
  by (induction js arbitrary: g) (auto simp: fun_eq_iff)

subsection \<open>Counted loops\<close>

text \<open>
  A C loop \<open>for (i = lo; i < hi; i++) s = step(i, s)\<close> is \<open>for_loop lo hi step s\<close>.
\<close>

definition for_loop :: "nat \<Rightarrow> nat \<Rightarrow> (nat \<Rightarrow> 's \<Rightarrow> 's) \<Rightarrow> 's \<Rightarrow> 's" where
  "for_loop lo hi step s = fold step [lo..<hi] s"

lemma for_loop_empty [simp]: "hi \<le> lo \<Longrightarrow> for_loop lo hi step s = s"
  by (simp add: for_loop_def)

lemma for_loop_Suc: "lo \<le> hi \<Longrightarrow> for_loop lo (Suc hi) step s = step hi (for_loop lo hi step s)"
  by (simp add: for_loop_def)

lemma for_loop_rec:
  "lo < hi \<Longrightarrow> for_loop lo hi step s = for_loop (Suc lo) hi step (step lo s)"
  by (simp add: for_loop_def upt_rec)

text \<open>The invariant rule for counted loops: the proof obligation of every loop below.\<close>

lemma for_loop_inv [consumes 1, case_names init step]:
  assumes "lo \<le> hi" and "P lo s"
    and "\<And>i t. lo \<le> i \<Longrightarrow> i < hi \<Longrightarrow> P i t \<Longrightarrow> P (Suc i) (step i t)"
  shows "P hi (for_loop lo hi step s)"
  using assms(1)
proof (induction hi rule: dec_induct)
  case base
  then show ?case using assms(2) by simp
next
  case (step n)
  from step show ?case by (simp add: for_loop_Suc assms(3))
qed

lemma for_loop_keeps:
  assumes "P s" and "\<And>i t. lo \<le> i \<Longrightarrow> i < hi \<Longrightarrow> P t \<Longrightarrow> P (step i t)"
  shows "P (for_loop lo hi step s)"
proof (cases "lo \<le> hi")
  case True
  then show ?thesis
    by (induction rule: for_loop_inv [where P = "\<lambda>_ t. P t"]) (use assms in auto)
next
  case False
  then show ?thesis using assms(1) by simp
qed

lemma for_loop_proj:
  assumes "\<And>i t. lo \<le> i \<Longrightarrow> i < hi \<Longrightarrow> f (step i t) = f t"
  shows "f (for_loop lo hi step s) = f s"
  by (rule for_loop_keeps [where P = "\<lambda>t. f t = f s"]) (use assms in auto)

lemma for_loop_split:
  assumes "lo \<le> mid" "mid \<le> hi"
  shows "for_loop lo hi f s = for_loop mid hi f (for_loop lo mid f s)"
proof -
  obtain k where "hi = mid + k" using assms(2) le_Suc_ex by blast
  moreover have "[lo..<mid + k] = [lo..<mid] @ [mid..<mid + k]" using assms(1) by (rule upt_add_eq_append)
  ultimately show ?thesis by (simp only: for_loop_def fold_append comp_apply)
qed

lemma for_loop_offset: "for_loop 0 n (\<lambda>j. f (lo + j)) s = for_loop lo (lo + n) f s"
proof (induction n)
  case (Suc n)
  then show ?case by (simp add: for_loop_Suc)
qed simp

subsection \<open>Bounded arenas\<close>

text \<open>
  The contract of an append to a fixed-size arena: it either refuses and leaves the arena alone,
  or it takes the next index, stays within the limit and keeps every earlier entry.  The result
  is read as the index or as a refusal by \<open>idx\<close>.
\<close>

locale bounded_arena =
  fixes count :: "'m \<Rightarrow> nat" and entry :: "'m \<Rightarrow> nat \<Rightarrow> 'e" and limit :: nat
    and add :: "'m \<Rightarrow> 'm \<times> 'r" and idx :: "'r \<Rightarrow> nat option"
  assumes refuse: "add m = (m', r) \<Longrightarrow> idx r = None \<Longrightarrow> m' = m"
    and accept: "add m = (m', r) \<Longrightarrow> idx r = Some i \<Longrightarrow>
      i = count m \<and> count m' = count m + 1 \<and> count m < limit \<and> (\<forall>j < count m. entry m' j = entry m j)"
begin

lemma fresh: "add m = (m', r) \<Longrightarrow> idx r = Some i \<Longrightarrow> \<not> i < count m \<and> i < count m'"
  using accept by fastforce

lemma within: "count m \<le> limit \<Longrightarrow> add m = (m', r) \<Longrightarrow> count m' \<le> limit"
  using refuse [of m m' r] accept [of m m' r] by (cases "idx r") auto

lemma keeps: "add m = (m', r) \<Longrightarrow> j < count m \<Longrightarrow> j < count m' \<and> entry m' j = entry m j"
  using refuse [of m m' r] accept [of m m' r] by (cases "idx r") auto

text \<open>Any number of further appends leaves an entry where its index says.\<close>

lemma keeps_repeated: "j < count m \<Longrightarrow> entry (((\<lambda>m. fst (add m)) ^^ n) m) j = entry m j \<and> j < count (((\<lambda>m. fst (add m)) ^^ n) m)"
proof (induction n)
  case (Suc n)
  let ?k = "((\<lambda>m. fst (add m)) ^^ n) m"
  from Suc show ?case using keeps [of ?k "fst (add ?k)" "snd (add ?k)" j] by simp
qed simp

end

subsection \<open>Linear searches\<close>

lemma find_upt_Some:
  "find P [0..<n] = Some i \<longleftrightarrow> i < n \<and> P i \<and> (\<forall>j < i. \<not> P j)"
  by (auto simp: find_Some_iff)

lemma find_upt_None: "find P [0..<n] = None \<longleftrightarrow> (\<forall>j < n. \<not> P j)"
  by (auto simp: find_None_iff)

subsection \<open>Bit masks\<close>

lemma and_mask_eq_take_bit: "(x :: 'a::len word) AND mask n = take_bit n x"
  by (simp add: take_bit_eq_mask)

lemma unat_take_bit: "unat (take_bit n (x :: 'a::len word)) = unat x mod 2 ^ n"
  by (subst unsigned_take_bit_eq) (simp only: take_bit_eq_mod)

lemma u32_msb_iff: "((v :: u32) AND 0x80000000 \<noteq> 0) \<longleftrightarrow> bit v 31"
  using and_exp_eq_0_iff_not_bit [of v 31] by simp

lemma unat_drop_bit: "unat (drop_bit n (x :: 'a::len word)) = unat x div 2 ^ n"
  by (metis drop_bit_eq_div unsigned_drop_bit_eq take_bit_nat_eq_self_iff unsigned_less)

lemma unat_and_one: "unat ((x :: 'a::len word) AND 1) = unat x mod 2"
  by (subst unsigned_and_eq) (simp only: unsigned_1 and_one_eq)

lemma nat_or_one_bit: "(v :: nat) OR (b mod 2) = v + of_bool (odd b \<and> even v)"
  using or_one_eq [of v] by (cases "odd b") (simp_all add: mod_2_eq_odd)

lemma unat_push_bit_small:
  "unat (x :: 'a::len word) * 2 ^ n < 2 ^ LENGTH('a) \<Longrightarrow> unat (push_bit n x) = unat x * 2 ^ n"
  by (subst unsigned_push_bit_eq) (simp add: push_bit_eq_mult take_bit_nat_eq_self)

lemma unat_inject_nonzero: "(x :: 'a::len word) \<noteq> 0 \<longleftrightarrow> unat x \<noteq> 0"
  by (simp add: unat_eq_0)

end
