(* ===== verification/Bir_Module.thy ===== *)
theory Bir_Module
  imports Booth_Prelude
begin

text \<open>
  The data model of the Booth intermediate representation, \<open>src/src/ir/bir.h\<close>: tagged
  operand references, the enumerations, and the module record with its arenas; the name
  tables and the tensor-fragment table at the top of \<open>src/src/ir/bir.c\<close>.

  A module is one record.  Its arenas are total functions (see \<open>Booth_Prelude\<close>) with
  their live counts beside them.  An operand slot is a 32-bit word, because bit 31 is the
  constant tag; the operand array of an instruction has six live slots.  A constant's
  payload is the 64-bit union of the source.
\<close>

subsection \<open>Limits\<close>

abbreviation (input) BIR_MAX_TYPES :: nat where "BIR_MAX_TYPES \<equiv> 16384"
abbreviation (input) BIR_MAX_TYPE_FIELDS :: nat where "BIR_MAX_TYPE_FIELDS \<equiv> 65536"
abbreviation (input) BIR_MAX_CONSTS :: nat where "BIR_MAX_CONSTS \<equiv> 65536"
abbreviation (input) BIR_MAX_INSTS :: nat where "BIR_MAX_INSTS \<equiv> 8388608"
abbreviation (input) BIR_MAX_EXTRA_OPS :: nat where "BIR_MAX_EXTRA_OPS \<equiv> 524288"
abbreviation (input) BIR_MAX_BLOCKS :: nat where "BIR_MAX_BLOCKS \<equiv> 524288"
abbreviation (input) BIR_MAX_FUNCS :: nat where "BIR_MAX_FUNCS \<equiv> 16384"
abbreviation (input) BIR_MAX_GLOBALS :: nat where "BIR_MAX_GLOBALS \<equiv> 4096"
abbreviation (input) BIR_MAX_STRINGS :: nat where "BIR_MAX_STRINGS \<equiv> 4194304"
abbreviation (input) BIR_MAX_ASMS :: nat where "BIR_MAX_ASMS \<equiv> 256"
abbreviation (input) BIR_FUNC_MAX_BLOCKS :: nat where "BIR_FUNC_MAX_BLOCKS \<equiv> 0xFFFF"
abbreviation (input) BIR_BSZ_DEEP :: nat where "BIR_BSZ_DEEP \<equiv> 16"
abbreviation (input) BIR_OPERANDS_INLINE :: nat where "BIR_OPERANDS_INLINE \<equiv> 6"
abbreviation (input) BIR_OPERANDS_OVERFLOW :: nat where "BIR_OPERANDS_OVERFLOW \<equiv> 0xFF"
abbreviation (input) BIR_TU_EXT :: nat where "BIR_TU_EXT \<equiv> 0xFFFF"
abbreviation (input) BIR_SYM_NONE :: u32 where "BIR_SYM_NONE \<equiv> 0xFFFFFFFF"
abbreviation (input) BIR_SYM_MAX :: nat where "BIR_SYM_MAX \<equiv> 160"

subsection \<open>Operand references\<close>

abbreviation (input) BIR_VAL_NONE :: u32 where "BIR_VAL_NONE \<equiv> 0xFFFFFFFF"

definition BIR_VAL_INDEX :: "u32 \<Rightarrow> nat" where
  "BIR_VAL_INDEX v = unat (v AND 0x7FFFFFFF)"

definition BIR_VAL_IS_CONST :: "u32 \<Rightarrow> bool" where
  "BIR_VAL_IS_CONST v \<longleftrightarrow> v AND 0x80000000 \<noteq> 0"

definition BIR_MAKE_CONST :: "nat \<Rightarrow> u32" where
  "BIR_MAKE_CONST i = 0x80000000 OR word_of_nat i"

definition BIR_MAKE_VAL :: "nat \<Rightarrow> u32" where
  "BIR_MAKE_VAL i = word_of_nat i"

subsection \<open>Enumerations\<close>

datatype bir_addrspace =
    BIR_AS_PRIVATE | BIR_AS_SHARED | BIR_AS_GLOBAL | BIR_AS_CONSTANT | BIR_AS_GENERIC

datatype bir_type_kind =
    BIR_TYPE_VOID | BIR_TYPE_INT | BIR_TYPE_FLOAT | BIR_TYPE_BFLOAT | BIR_TYPE_PTR
  | BIR_TYPE_VECTOR | BIR_TYPE_STRUCT | BIR_TYPE_ARRAY | BIR_TYPE_FUNC

text \<open>
  Predicates and opcodes are stored in integer fields (\<open>subop\<close>, \<open>op\<close>), so their
  enumerators are the C enumeration values.
\<close>

abbreviation (input) BIR_ICMP_EQ :: nat where "BIR_ICMP_EQ \<equiv> 0"
abbreviation (input) BIR_ICMP_NE :: nat where "BIR_ICMP_NE \<equiv> 1"
abbreviation (input) BIR_ICMP_SLT :: nat where "BIR_ICMP_SLT \<equiv> 2"
abbreviation (input) BIR_ICMP_SLE :: nat where "BIR_ICMP_SLE \<equiv> 3"
abbreviation (input) BIR_ICMP_SGT :: nat where "BIR_ICMP_SGT \<equiv> 4"
abbreviation (input) BIR_ICMP_SGE :: nat where "BIR_ICMP_SGE \<equiv> 5"
abbreviation (input) BIR_ICMP_ULT :: nat where "BIR_ICMP_ULT \<equiv> 6"
abbreviation (input) BIR_ICMP_ULE :: nat where "BIR_ICMP_ULE \<equiv> 7"
abbreviation (input) BIR_ICMP_UGT :: nat where "BIR_ICMP_UGT \<equiv> 8"
abbreviation (input) BIR_ICMP_UGE :: nat where "BIR_ICMP_UGE \<equiv> 9"
abbreviation (input) BIR_FCMP_OEQ :: nat where "BIR_FCMP_OEQ \<equiv> 10"
abbreviation (input) BIR_FCMP_ONE :: nat where "BIR_FCMP_ONE \<equiv> 11"
abbreviation (input) BIR_FCMP_OLT :: nat where "BIR_FCMP_OLT \<equiv> 12"
abbreviation (input) BIR_FCMP_OLE :: nat where "BIR_FCMP_OLE \<equiv> 13"
abbreviation (input) BIR_FCMP_OGT :: nat where "BIR_FCMP_OGT \<equiv> 14"
abbreviation (input) BIR_FCMP_OGE :: nat where "BIR_FCMP_OGE \<equiv> 15"
abbreviation (input) BIR_FCMP_UEQ :: nat where "BIR_FCMP_UEQ \<equiv> 16"
abbreviation (input) BIR_FCMP_UNE :: nat where "BIR_FCMP_UNE \<equiv> 17"
abbreviation (input) BIR_FCMP_ULT :: nat where "BIR_FCMP_ULT \<equiv> 18"
abbreviation (input) BIR_FCMP_ULE :: nat where "BIR_FCMP_ULE \<equiv> 19"
abbreviation (input) BIR_FCMP_UGT :: nat where "BIR_FCMP_UGT \<equiv> 20"
abbreviation (input) BIR_FCMP_UGE :: nat where "BIR_FCMP_UGE \<equiv> 21"
abbreviation (input) BIR_FCMP_ORD :: nat where "BIR_FCMP_ORD \<equiv> 22"
abbreviation (input) BIR_FCMP_UNO :: nat where "BIR_FCMP_UNO \<equiv> 23"
abbreviation (input) BIR_CMP_COUNT :: nat where "BIR_CMP_COUNT \<equiv> 24"

datatype bir_mem_order =
    BIR_ORDER_RELAXED | BIR_ORDER_ACQUIRE | BIR_ORDER_RELEASE | BIR_ORDER_ACQ_REL
  | BIR_ORDER_SEQ_CST

abbreviation (input) BIR_ADD :: nat where "BIR_ADD \<equiv> 0"
abbreviation (input) BIR_SUB :: nat where "BIR_SUB \<equiv> 1"
abbreviation (input) BIR_MUL :: nat where "BIR_MUL \<equiv> 2"
abbreviation (input) BIR_SDIV :: nat where "BIR_SDIV \<equiv> 3"
abbreviation (input) BIR_UDIV :: nat where "BIR_UDIV \<equiv> 4"
abbreviation (input) BIR_SREM :: nat where "BIR_SREM \<equiv> 5"
abbreviation (input) BIR_UREM :: nat where "BIR_UREM \<equiv> 6"
abbreviation (input) BIR_FADD :: nat where "BIR_FADD \<equiv> 7"
abbreviation (input) BIR_FSUB :: nat where "BIR_FSUB \<equiv> 8"
abbreviation (input) BIR_FMUL :: nat where "BIR_FMUL \<equiv> 9"
abbreviation (input) BIR_FDIV :: nat where "BIR_FDIV \<equiv> 10"
abbreviation (input) BIR_FREM :: nat where "BIR_FREM \<equiv> 11"
abbreviation (input) BIR_AND :: nat where "BIR_AND \<equiv> 12"
abbreviation (input) BIR_OR :: nat where "BIR_OR \<equiv> 13"
abbreviation (input) BIR_XOR :: nat where "BIR_XOR \<equiv> 14"
abbreviation (input) BIR_SHL :: nat where "BIR_SHL \<equiv> 15"
abbreviation (input) BIR_LSHR :: nat where "BIR_LSHR \<equiv> 16"
abbreviation (input) BIR_ASHR :: nat where "BIR_ASHR \<equiv> 17"
abbreviation (input) BIR_ICMP :: nat where "BIR_ICMP \<equiv> 18"
abbreviation (input) BIR_FCMP :: nat where "BIR_FCMP \<equiv> 19"
abbreviation (input) BIR_TRUNC :: nat where "BIR_TRUNC \<equiv> 20"
abbreviation (input) BIR_ZEXT :: nat where "BIR_ZEXT \<equiv> 21"
abbreviation (input) BIR_SEXT :: nat where "BIR_SEXT \<equiv> 22"
abbreviation (input) BIR_FPTRUNC :: nat where "BIR_FPTRUNC \<equiv> 23"
abbreviation (input) BIR_FPEXT :: nat where "BIR_FPEXT \<equiv> 24"
abbreviation (input) BIR_FPTOSI :: nat where "BIR_FPTOSI \<equiv> 25"
abbreviation (input) BIR_FPTOUI :: nat where "BIR_FPTOUI \<equiv> 26"
abbreviation (input) BIR_SITOFP :: nat where "BIR_SITOFP \<equiv> 27"
abbreviation (input) BIR_UITOFP :: nat where "BIR_UITOFP \<equiv> 28"
abbreviation (input) BIR_PTRTOINT :: nat where "BIR_PTRTOINT \<equiv> 29"
abbreviation (input) BIR_INTTOPTR :: nat where "BIR_INTTOPTR \<equiv> 30"
abbreviation (input) BIR_BITCAST :: nat where "BIR_BITCAST \<equiv> 31"
abbreviation (input) BIR_SQRT :: nat where "BIR_SQRT \<equiv> 32"
abbreviation (input) BIR_RSQ :: nat where "BIR_RSQ \<equiv> 33"
abbreviation (input) BIR_RCP :: nat where "BIR_RCP \<equiv> 34"
abbreviation (input) BIR_EXP2 :: nat where "BIR_EXP2 \<equiv> 35"
abbreviation (input) BIR_LOG2 :: nat where "BIR_LOG2 \<equiv> 36"
abbreviation (input) BIR_SIN :: nat where "BIR_SIN \<equiv> 37"
abbreviation (input) BIR_COS :: nat where "BIR_COS \<equiv> 38"
abbreviation (input) BIR_FABS :: nat where "BIR_FABS \<equiv> 39"
abbreviation (input) BIR_FLOOR :: nat where "BIR_FLOOR \<equiv> 40"
abbreviation (input) BIR_CEIL :: nat where "BIR_CEIL \<equiv> 41"
abbreviation (input) BIR_FTRUNC :: nat where "BIR_FTRUNC \<equiv> 42"
abbreviation (input) BIR_RNDNE :: nat where "BIR_RNDNE \<equiv> 43"
abbreviation (input) BIR_FMAX :: nat where "BIR_FMAX \<equiv> 44"
abbreviation (input) BIR_FMIN :: nat where "BIR_FMIN \<equiv> 45"
abbreviation (input) BIR_ALLOCA :: nat where "BIR_ALLOCA \<equiv> 46"
abbreviation (input) BIR_SHARED_ALLOC :: nat where "BIR_SHARED_ALLOC \<equiv> 47"
abbreviation (input) BIR_GLOBAL_REF :: nat where "BIR_GLOBAL_REF \<equiv> 48"
abbreviation (input) BIR_LOAD :: nat where "BIR_LOAD \<equiv> 49"
abbreviation (input) BIR_STORE :: nat where "BIR_STORE \<equiv> 50"
abbreviation (input) BIR_GEP :: nat where "BIR_GEP \<equiv> 51"
abbreviation (input) BIR_BR :: nat where "BIR_BR \<equiv> 52"
abbreviation (input) BIR_BR_COND :: nat where "BIR_BR_COND \<equiv> 53"
abbreviation (input) BIR_SWITCH :: nat where "BIR_SWITCH \<equiv> 54"
abbreviation (input) BIR_RET :: nat where "BIR_RET \<equiv> 55"
abbreviation (input) BIR_UNREACHABLE :: nat where "BIR_UNREACHABLE \<equiv> 56"
abbreviation (input) BIR_PHI :: nat where "BIR_PHI \<equiv> 57"
abbreviation (input) BIR_PARAM :: nat where "BIR_PARAM \<equiv> 58"
abbreviation (input) BIR_THREAD_ID :: nat where "BIR_THREAD_ID \<equiv> 59"
abbreviation (input) BIR_BLOCK_ID :: nat where "BIR_BLOCK_ID \<equiv> 60"
abbreviation (input) BIR_BLOCK_DIM :: nat where "BIR_BLOCK_DIM \<equiv> 61"
abbreviation (input) BIR_GRID_DIM :: nat where "BIR_GRID_DIM \<equiv> 62"
abbreviation (input) BIR_BARRIER :: nat where "BIR_BARRIER \<equiv> 63"
abbreviation (input) BIR_BARRIER_GROUP :: nat where "BIR_BARRIER_GROUP \<equiv> 64"
abbreviation (input) BIR_ATOMIC_ADD :: nat where "BIR_ATOMIC_ADD \<equiv> 65"
abbreviation (input) BIR_ATOMIC_SUB :: nat where "BIR_ATOMIC_SUB \<equiv> 66"
abbreviation (input) BIR_ATOMIC_AND :: nat where "BIR_ATOMIC_AND \<equiv> 67"
abbreviation (input) BIR_ATOMIC_OR :: nat where "BIR_ATOMIC_OR \<equiv> 68"
abbreviation (input) BIR_ATOMIC_XOR :: nat where "BIR_ATOMIC_XOR \<equiv> 69"
abbreviation (input) BIR_ATOMIC_MIN :: nat where "BIR_ATOMIC_MIN \<equiv> 70"
abbreviation (input) BIR_ATOMIC_MAX :: nat where "BIR_ATOMIC_MAX \<equiv> 71"
abbreviation (input) BIR_ATOMIC_XCHG :: nat where "BIR_ATOMIC_XCHG \<equiv> 72"
abbreviation (input) BIR_ATOMIC_CAS :: nat where "BIR_ATOMIC_CAS \<equiv> 73"
abbreviation (input) BIR_ATOMIC_LOAD :: nat where "BIR_ATOMIC_LOAD \<equiv> 74"
abbreviation (input) BIR_ATOMIC_STORE :: nat where "BIR_ATOMIC_STORE \<equiv> 75"
abbreviation (input) BIR_SHFL :: nat where "BIR_SHFL \<equiv> 76"
abbreviation (input) BIR_SHFL_UP :: nat where "BIR_SHFL_UP \<equiv> 77"
abbreviation (input) BIR_SHFL_DOWN :: nat where "BIR_SHFL_DOWN \<equiv> 78"
abbreviation (input) BIR_SHFL_XOR :: nat where "BIR_SHFL_XOR \<equiv> 79"
abbreviation (input) BIR_BALLOT :: nat where "BIR_BALLOT \<equiv> 80"
abbreviation (input) BIR_VOTE_ANY :: nat where "BIR_VOTE_ANY \<equiv> 81"
abbreviation (input) BIR_VOTE_ALL :: nat where "BIR_VOTE_ALL \<equiv> 82"
abbreviation (input) BIR_MFMA :: nat where "BIR_MFMA \<equiv> 83"
abbreviation (input) BIR_MMA :: nat where "BIR_MMA \<equiv> 84"
abbreviation (input) BIR_MFRG :: nat where "BIR_MFRG \<equiv> 85"
abbreviation (input) BIR_WLD :: nat where "BIR_WLD \<equiv> 86"
abbreviation (input) BIR_WST :: nat where "BIR_WST \<equiv> 87"
abbreviation (input) BIR_WMMA :: nat where "BIR_WMMA \<equiv> 88"
abbreviation (input) BIR_CALL :: nat where "BIR_CALL \<equiv> 89"
abbreviation (input) BIR_SELECT :: nat where "BIR_SELECT \<equiv> 90"
abbreviation (input) BIR_INLINE_ASM :: nat where "BIR_INLINE_ASM \<equiv> 91"
abbreviation (input) BIR_UMULHI :: nat where "BIR_UMULHI \<equiv> 92"
abbreviation (input) BIR_POPCOUNT :: nat where "BIR_POPCOUNT \<equiv> 93"
abbreviation (input) BIR_CTZ :: nat where "BIR_CTZ \<equiv> 94"
abbreviation (input) BIR_CLZ :: nat where "BIR_CLZ \<equiv> 95"
abbreviation (input) BIR_BREV :: nat where "BIR_BREV \<equiv> 96"
abbreviation (input) BIR_TRAP :: nat where "BIR_TRAP \<equiv> 97"
abbreviation (input) BIR_FNREF :: nat where "BIR_FNREF \<equiv> 98"
abbreviation (input) BIR_PRINTF :: nat where "BIR_PRINTF \<equiv> 99"
abbreviation (input) BIR_FENCE :: nat where "BIR_FENCE \<equiv> 100"
abbreviation (input) BIR_NANOSLP :: nat where "BIR_NANOSLP \<equiv> 101"
abbreviation (input) BIR_BARRED :: nat where "BIR_BARRED \<equiv> 102"
abbreviation (input) BIR_GRIDBAR :: nat where "BIR_GRIDBAR \<equiv> 103"
abbreviation (input) BIR_OP_IMPLEMENTED :: nat where "BIR_OP_IMPLEMENTED \<equiv> 104"
abbreviation (input) BIR_OP_COUNT :: nat where "BIR_OP_COUNT \<equiv> 144"

datatype bir_const_kind =
    BIR_CONST_INT | BIR_CONST_FLOAT | BIR_CONST_NULL | BIR_CONST_UNDEF | BIR_CONST_ZERO
  | BIR_CONST_BYTES

subsection \<open>Structures\<close>

record bir_type =
  t_kind :: bir_type_kind
  t_addrspace :: bir_addrspace
  t_width :: nat
  t_inner :: nat
  t_count :: nat
  t_num_fields :: nat
  t_uni :: bool
  t_cst :: bool

record bir_inst =
  i_op :: nat
  i_num_operands :: nat
  i_subop :: nat
  i_type :: nat
  i_operands :: "nat \<Rightarrow> u32"

record bir_const =
  c_kind :: bir_const_kind
  c_type :: nat
  c_d :: u64

record bir_block =
  b_name :: nat
  b_first_inst :: nat
  b_num_insts :: nat

record bir_func =
  f_name :: nat
  f_type :: nat
  f_first_block :: nat
  f_total_insts :: nat
  f_num_blocks :: nat
  f_num_params :: nat
  f_cuda_flags :: u16
  f_tu :: nat
  f_sret :: nat

record bir_global =
  g_name :: nat
  g_type :: nat
  g_initializer :: u32
  g_cuda_flags :: u16
  g_addrspace :: bir_addrspace
  g_is_const :: bool
  g_tu :: nat

record bir_asm =
  a_tmpl :: nat
  a_cons :: nat
  a_nout :: nat
  a_nops :: nat
  a_vol :: nat

record bir_module =
  types :: "nat \<Rightarrow> bir_type"
  type_fields :: "nat \<Rightarrow> nat"
  num_types :: nat
  num_type_fields :: nat
  bir_consts :: "nat \<Rightarrow> bir_const"
  num_consts :: nat
  insts :: "nat \<Rightarrow> bir_inst"
  inst_lines :: "nat \<Rightarrow> nat"
  extra_operands :: "nat \<Rightarrow> u32"
  num_insts :: nat
  num_extra_ops :: nat
  blocks :: "nat \<Rightarrow> bir_block"
  num_blocks :: nat
  funcs :: "nat \<Rightarrow> bir_func"
  num_funcs :: nat
  globals :: "nat \<Rightarrow> bir_global"
  num_globals :: nat
  asms :: "nat \<Rightarrow> bir_asm"
  num_asms :: nat
  strings :: "nat \<Rightarrow> char"
  string_len :: nat
  pool_full :: u32

text \<open>All-zero structures, as \<open>memset\<close> leaves them.\<close>

definition zero_type :: bir_type where
  "zero_type = \<lparr>t_kind = BIR_TYPE_VOID, t_addrspace = BIR_AS_PRIVATE, t_width = 0, t_inner = 0,
     t_count = 0, t_num_fields = 0, t_uni = False, t_cst = False\<rparr>"

definition zero_inst :: bir_inst where
  "zero_inst = \<lparr>i_op = BIR_ADD, i_num_operands = 0, i_subop = 0, i_type = 0,
     i_operands = (\<lambda>_. 0)\<rparr>"

definition zero_const :: bir_const where
  "zero_const = \<lparr>c_kind = BIR_CONST_INT, c_type = 0, c_d = 0\<rparr>"

definition zero_block :: bir_block where
  "zero_block = \<lparr>b_name = 0, b_first_inst = 0, b_num_insts = 0\<rparr>"

definition zero_func :: bir_func where
  "zero_func = \<lparr>f_name = 0, f_type = 0, f_first_block = 0, f_total_insts = 0, f_num_blocks = 0,
     f_num_params = 0, f_cuda_flags = 0, f_tu = 0, f_sret = 0\<rparr>"

definition zero_global :: bir_global where
  "zero_global = \<lparr>g_name = 0, g_type = 0, g_initializer = 0, g_cuda_flags = 0,
     g_addrspace = BIR_AS_PRIVATE, g_is_const = False, g_tu = 0\<rparr>"

definition zero_asm :: bir_asm where
  "zero_asm = \<lparr>a_tmpl = 0, a_cons = 0, a_nout = 0, a_nops = 0, a_vol = 0\<rparr>"

text \<open>The operand array holding the given words, zero elsewhere.\<close>

definition ops_of :: "u32 list \<Rightarrow> nat \<Rightarrow> u32" where
  "ops_of xs j = (if j < length xs then xs ! j else 0)"

subsection \<open>Name tables\<close>

definition op_names :: "string list" where
  "op_names = [''add'', ''sub'', ''mul'', ''sdiv'', ''udiv'', ''srem'', ''urem'', ''fadd'',
     ''fsub'', ''fmul'', ''fdiv'', ''frem'', ''and'', ''or'', ''xor'', ''shl'', ''lshr'',
     ''ashr'', ''icmp'', ''fcmp'', ''trunc'', ''zext'', ''sext'', ''fptrunc'', ''fpext'',
     ''fptosi'', ''fptoui'', ''sitofp'', ''uitofp'', ''ptrtoint'', ''inttoptr'',
     ''bitcast'', ''sqrt'', ''rsq'', ''rcp'', ''exp2'', ''log2'', ''sin'', ''cos'',
     ''fabs'', ''floor'', ''ceil'', ''ftrunc'', ''rndne'', ''fmax'', ''fmin'', ''alloca'',
     ''shared_alloc'', ''global_ref'', ''load'', ''store'', ''gep'', ''br'', ''br_cond'',
     ''switch'', ''ret'', ''unreachable'', ''phi'', ''param'', ''thread_id'', ''block_id'',
     ''block_dim'', ''grid_dim'', ''barrier'', ''barrier_group'', ''atomic_add'',
     ''atomic_sub'', ''atomic_and'', ''atomic_or'', ''atomic_xor'', ''atomic_min'',
     ''atomic_max'', ''atomic_xchg'', ''atomic_cas'', ''atomic_load'', ''atomic_store'',
     ''shfl'', ''shfl_up'', ''shfl_down'', ''shfl_xor'', ''ballot'', ''vote_any'',
     ''vote_all'', ''mfma'', ''mma'', ''mfrg'', ''wmma_load'', ''wmma_store'',
     ''wmma_mma'', ''call'', ''select'', ''inline_asm'', ''umulhi'', ''popcount'', ''ctz'',
     ''clz'', ''brev'', ''trap'', ''fnref'', ''printf'', ''fence'', ''nanosleep'',
     ''barrier_red'', ''gridbar'']"

definition cmp_names :: "string list" where
  "cmp_names = [''eq'', ''ne'', ''slt'', ''sle'', ''sgt'', ''sge'', ''ult'', ''ule'',
     ''ugt'', ''uge'', ''oeq'', ''one'', ''olt'', ''ole'', ''ogt'', ''oge'', ''ueq'',
     ''une'', ''ult'', ''ule'', ''ugt'', ''uge'', ''ord'', ''uno'']"

primrec addrspace_names :: "bir_addrspace \<Rightarrow> string" where
  "addrspace_names BIR_AS_PRIVATE = ''private''"
| "addrspace_names BIR_AS_SHARED = ''shared''"
| "addrspace_names BIR_AS_GLOBAL = ''global''"
| "addrspace_names BIR_AS_CONSTANT = ''constant''"
| "addrspace_names BIR_AS_GENERIC = ''generic''"

primrec type_kind_names :: "bir_type_kind \<Rightarrow> string" where
  "type_kind_names BIR_TYPE_VOID = ''void''"
| "type_kind_names BIR_TYPE_INT = ''int''"
| "type_kind_names BIR_TYPE_FLOAT = ''float''"
| "type_kind_names BIR_TYPE_BFLOAT = ''bfloat''"
| "type_kind_names BIR_TYPE_PTR = ''ptr''"
| "type_kind_names BIR_TYPE_VECTOR = ''vector''"
| "type_kind_names BIR_TYPE_STRUCT = ''struct''"
| "type_kind_names BIR_TYPE_ARRAY = ''array''"
| "type_kind_names BIR_TYPE_FUNC = ''func''"

primrec order_names :: "bir_mem_order \<Rightarrow> string" where
  "order_names BIR_ORDER_RELAXED = ''relaxed''"
| "order_names BIR_ORDER_ACQUIRE = ''acquire''"
| "order_names BIR_ORDER_RELEASE = ''release''"
| "order_names BIR_ORDER_ACQ_REL = ''acq_rel''"
| "order_names BIR_ORDER_SEQ_CST = ''seq_cst''"

text \<open>The accessors: an index outside the table gives the question-mark name.\<close>

definition bir_op_name :: "int \<Rightarrow> string" where
  "bir_op_name opc = (if 0 \<le> opc \<and> opc < int (length op_names) then op_names ! nat opc else ''???'')"

definition bir_cmp_name :: "int \<Rightarrow> string" where
  "bir_cmp_name pred =
     (if 0 \<le> pred \<and> pred < int BIR_CMP_COUNT then cmp_names ! nat pred else ''???'')"

subsection \<open>Tensor-fragment shapes\<close>

record bir_wmma_row =
  w_shp :: string
  w_abt :: string
  w_act :: string
  w_na :: nat
  w_nb :: nat
  w_nc :: nat

definition wmma_row :: "string \<Rightarrow> string \<Rightarrow> string \<Rightarrow> nat \<Rightarrow> nat \<Rightarrow> nat \<Rightarrow> bir_wmma_row" where
  "wmma_row s a b x y z =
     \<lparr>w_shp = s, w_abt = a, w_act = b, w_na = x, w_nb = y, w_nc = z\<rparr>"

definition bir_wmma :: "bir_wmma_row list" where
  "bir_wmma = [
     wmma_row ''m16n16k16'' ''f16'' ''f16'' 8 8 4,
     wmma_row ''m16n16k16'' ''f16'' ''f32'' 8 8 8,
     wmma_row ''m8n32k16'' ''f16'' ''f16'' 8 8 4,
     wmma_row ''m8n32k16'' ''f16'' ''f32'' 8 8 8,
     wmma_row ''m32n8k16'' ''f16'' ''f16'' 8 8 4,
     wmma_row ''m32n8k16'' ''f16'' ''f32'' 8 8 8,
     wmma_row ''m16n16k16'' ''bf16'' ''f32'' 4 4 8,
     wmma_row ''m8n32k16'' ''bf16'' ''f32'' 2 8 8,
     wmma_row ''m32n8k16'' ''bf16'' ''f32'' 8 2 8,
     wmma_row ''m16n16k8'' ''tf32'' ''f32'' 4 4 8,
     wmma_row ''m16n16k16'' ''s8'' ''s32'' 2 2 8,
     wmma_row ''m8n32k16'' ''s8'' ''s32'' 1 4 8,
     wmma_row ''m32n8k16'' ''s8'' ''s32'' 4 1 8,
     wmma_row ''m16n16k16'' ''u8'' ''s32'' 2 2 8,
     wmma_row ''m8n32k16'' ''u8'' ''s32'' 1 4 8,
     wmma_row ''m32n8k16'' ''u8'' ''s32'' 4 1 8,
     wmma_row ''m8n8k32'' ''s4'' ''s32'' 1 1 2,
     wmma_row ''m8n8k32'' ''u4'' ''s32'' 1 1 2,
     wmma_row ''m8n8k128'' ''b1'' ''s32'' 1 1 2,
     wmma_row ''m8n8k4'' ''f64'' ''f64'' 1 1 2]"

text \<open>A null argument of the C function is \<open>None\<close>; the result \<open>-1\<close> is \<open>None\<close>.\<close>

definition wmma_match :: "string option \<Rightarrow> string option \<Rightarrow> string option \<Rightarrow> bir_wmma_row \<Rightarrow> bool"
  where
  "wmma_match shp abt act w \<longleftrightarrow>
     (case shp of None \<Rightarrow> True | Some s \<Rightarrow> w_shp w = s) \<and>
     (case abt of None \<Rightarrow> True | Some s \<Rightarrow> w_abt w = s) \<and>
     (case act of None \<Rightarrow> True | Some s \<Rightarrow> w_act w = s)"

definition bir_wmrow :: "string option \<Rightarrow> string option \<Rightarrow> string option \<Rightarrow> nat option" where
  "bir_wmrow shp abt act = find (\<lambda>i. wmma_match shp abt act (bir_wmma ! i)) [0..<20]"

definition bir_wmn :: "nat \<Rightarrow> nat \<Rightarrow> nat" where
  "bir_wmn row role =
     (let w = bir_wmma ! (row mod 20)
      in if role = 0 then w_na w else if role = 1 then w_nb w else w_nc w)"

subsection \<open>Facts about operand references\<close>

lemma val_is_const_iff_bit: "BIR_VAL_IS_CONST v \<longleftrightarrow> bit v 31"
  by (simp add: BIR_VAL_IS_CONST_def u32_msb_iff)

lemma val_index_mod: "BIR_VAL_INDEX v = unat v mod 2 ^ 31"
proof -
  have "v AND 0x7FFFFFFF = take_bit 31 v"
    using and_mask_eq_take_bit [of v 31] by (simp add: mask_eq_exp_minus_1)
  then show ?thesis by (simp add: BIR_VAL_INDEX_def unat_take_bit)
qed

lemma val_is_const_iff_ge: "BIR_VAL_IS_CONST v \<longleftrightarrow> 2 ^ 31 \<le> unat v"
proof -
  have "bit v 31 \<longleftrightarrow> bit (unat v) 31"
    by (simp add: bit_unsigned_iff)
  moreover have "unat v < 2 ^ 32"
    using unsigned_less [of v] by simp
  then have "unat v div 2 ^ 31 = (if 2 ^ 31 \<le> unat v then 1 else 0)"
    by auto
  ultimately show ?thesis
    by (auto simp: val_is_const_iff_bit bit_iff_odd split: if_splits)
qed

lemma val_index_value: "\<not> BIR_VAL_IS_CONST v \<Longrightarrow> BIR_VAL_INDEX v = unat v"
  by (simp add: val_is_const_iff_ge val_index_mod)

lemma val_none_is_const [simp]: "BIR_VAL_IS_CONST BIR_VAL_NONE"
  by (simp add: BIR_VAL_IS_CONST_def)

lemma make_val_index [simp]: "i < 2 ^ 31 \<Longrightarrow> BIR_VAL_INDEX (BIR_MAKE_VAL i) = i"
  by (simp add: val_index_mod BIR_MAKE_VAL_def unat_of_nat take_bit_nat_eq_self)

lemma make_val_not_const [simp]: "i < 2 ^ 31 \<Longrightarrow> \<not> BIR_VAL_IS_CONST (BIR_MAKE_VAL i)"
  by (simp add: val_is_const_iff_ge BIR_MAKE_VAL_def unat_of_nat take_bit_nat_eq_self)

lemma make_val_of_index: "\<not> BIR_VAL_IS_CONST v \<Longrightarrow> BIR_MAKE_VAL (BIR_VAL_INDEX v) = v"
  by (simp add: val_index_value BIR_MAKE_VAL_def)

lemma make_val_inject:
  "i < 2 ^ 31 \<Longrightarrow> j < 2 ^ 31 \<Longrightarrow> BIR_MAKE_VAL i = BIR_MAKE_VAL j \<longleftrightarrow> i = j"
  by (metis make_val_index)

lemma make_const_is_const [simp]: "BIR_VAL_IS_CONST (BIR_MAKE_CONST i)"
  by (simp add: val_is_const_iff_bit BIR_MAKE_CONST_def bit_or_iff)

end
