(* ===== verification/Bir_Pools.thy ===== *)
theory Bir_Pools
  imports Bir_Module
begin

text \<open>
  The growing arenas of a module, \<open>src/src/ir/bir.c\<close>: the overflow mask, module
  initialisation, interning of types and constants, the string table, inline-assembly
  descriptors and symbol lookup.

  The operations that intern share one contract, stated as the locale \<open>intern_pool\<close>: look
  for an equal cell, else append, else refuse.  Its lemmas are proved once and hold of every
  interning operation through the interpretations in this theory.
\<close>

subsection \<open>Overflow mask\<close>

abbreviation (input) BIR_P_TYPES :: u32 where "BIR_P_TYPES \<equiv> 0x001"
abbreviation (input) BIR_P_TFIELDS :: u32 where "BIR_P_TFIELDS \<equiv> 0x002"
abbreviation (input) BIR_P_STRINGS :: u32 where "BIR_P_STRINGS \<equiv> 0x004"
abbreviation (input) BIR_P_CONSTS :: u32 where "BIR_P_CONSTS \<equiv> 0x008"
abbreviation (input) BIR_P_INSTS :: u32 where "BIR_P_INSTS \<equiv> 0x010"
abbreviation (input) BIR_P_BLOCKS :: u32 where "BIR_P_BLOCKS \<equiv> 0x020"
abbreviation (input) BIR_P_FUNCS :: u32 where "BIR_P_FUNCS \<equiv> 0x040"
abbreviation (input) BIR_P_GLOBALS :: u32 where "BIR_P_GLOBALS \<equiv> 0x080"
abbreviation (input) BIR_P_EXTRAOPS :: u32 where "BIR_P_EXTRAOPS \<equiv> 0x100"
abbreviation (input) BIR_P_PHIS :: u32 where "BIR_P_PHIS \<equiv> 0x200"
abbreviation (input) BIR_P_ASMS :: u32 where "BIR_P_ASMS \<equiv> 0x400"

definition bir_pfull :: "bir_module \<Rightarrow> u32 \<Rightarrow> bir_module" where
  "bir_pfull M b = M\<lparr>pool_full := pool_full M OR b\<rparr>"

text \<open>
  \<open>bir_pchk\<close> returns its code and the names of the pools it reports, in table order; a
  null module is \<open>None\<close>.
\<close>

definition pool_tab :: "(u32 \<times> string \<times> nat) list" where
  "pool_tab = [
     (BIR_P_TYPES, ''type'', BIR_MAX_TYPES),
     (BIR_P_TFIELDS, ''type field'', BIR_MAX_TYPE_FIELDS),
     (BIR_P_STRINGS, ''string table'', BIR_MAX_STRINGS),
     (BIR_P_CONSTS, ''constant'', BIR_MAX_CONSTS),
     (BIR_P_INSTS, ''instruction'', BIR_MAX_INSTS),
     (BIR_P_BLOCKS, ''block'', BIR_MAX_BLOCKS),
     (BIR_P_FUNCS, ''function'', BIR_MAX_FUNCS),
     (BIR_P_GLOBALS, ''global'', BIR_MAX_GLOBALS),
     (BIR_P_EXTRAOPS, ''extra operand'', BIR_MAX_EXTRA_OPS),
     (BIR_P_PHIS, ''mem2reg phi'', 0)]"

definition bir_pchk :: "bir_module option \<Rightarrow> bc_code \<times> string list" where
  "bir_pchk Mo = (case Mo of
      None \<Rightarrow> (BC_OK, [])
    | Some M \<Rightarrow>
        if pool_full M = 0 then (BC_OK, [])
        else (BC_ERR_OVERFLOW,
              map (\<lambda>(b, nm, cap). nm) (filter (\<lambda>(b, nm, cap). pool_full M AND b \<noteq> 0) pool_tab)))"

subsection \<open>Interning of types\<close>

definition type_eq_simple :: "bir_type \<Rightarrow> bir_type \<Rightarrow> bool" where
  "type_eq_simple a b \<longleftrightarrow>
     t_kind a = t_kind b \<and> t_addrspace a = t_addrspace b \<and> t_width a = t_width b \<and>
     t_inner a = t_inner b \<and> t_count a = t_count b \<and> t_num_fields a = t_num_fields b \<and>
     t_cst a = t_cst b"

definition intern_type :: "bir_module \<Rightarrow> bir_type \<Rightarrow> nat \<times> bir_module" where
  "intern_type M t =
     (case find (\<lambda>i. type_eq_simple (types M i) t) [0..<num_types M] of
        Some i \<Rightarrow> (i, M)
      | None \<Rightarrow>
          if num_types M \<ge> BIR_MAX_TYPES then (0, bir_pfull M BIR_P_TYPES)
          else (num_types M,
                M\<lparr>num_types := Suc (num_types M), types := (types M)(num_types M := t)\<rparr>))"

text \<open>Field lists of compound types: the caller's pointer and count are one list.\<close>

definition compound_match :: "bir_module \<Rightarrow> bir_type_kind \<Rightarrow> nat \<Rightarrow> nat list \<Rightarrow> bir_type \<Rightarrow> bool" where
  "compound_match M kind inner flds t \<longleftrightarrow>
     t_kind t = kind \<and> t_inner t = inner \<and> \<not> t_uni t \<and> \<not> t_cst t \<and>
     t_num_fields t = length flds mod 2 ^ 16 \<and>
     (\<forall>j \<in> {0..<length flds}. type_fields M (t_count t + j) = flds ! j)"

definition intern_compound ::
  "bir_module \<Rightarrow> bir_type_kind \<Rightarrow> nat \<Rightarrow> nat list \<Rightarrow> nat \<times> bir_module" where
  "intern_compound M kind inner flds =
     (case find (\<lambda>i. compound_match M kind inner flds (types M i)) [0..<num_types M] of
        Some i \<Rightarrow> (i, M)
      | None \<Rightarrow>
          if num_type_fields M + length flds > BIR_MAX_TYPE_FIELDS
          then (0, bir_pfull M BIR_P_TFIELDS)
          else if num_types M \<ge> BIR_MAX_TYPES then (0, bir_pfull M BIR_P_TYPES)
          else (num_types M,
                M\<lparr>type_fields := paste (type_fields M) (num_type_fields M) flds,
                  num_type_fields := num_type_fields M + length flds,
                  types := (types M)(num_types M :=
                     zero_type\<lparr>t_kind := kind, t_inner := inner, t_count := num_type_fields M,
                       t_num_fields := length flds mod 2 ^ 16\<rparr>),
                  num_types := Suc (num_types M)\<rparr>))"

definition bir_type_void :: "bir_module \<Rightarrow> nat \<times> bir_module" where
  "bir_type_void M = intern_type M (zero_type\<lparr>t_kind := BIR_TYPE_VOID\<rparr>)"

text \<open>The casts of an \<open>int\<close> width to \<open>uint16_t\<close> are written out.\<close>

definition u16_of_int :: "int \<Rightarrow> nat" where
  "u16_of_int x = nat (x mod 2 ^ 16)"

definition bir_type_int :: "bir_module \<Rightarrow> int \<Rightarrow> nat \<times> bir_module" where
  "bir_type_int M width_bits =
     intern_type M (zero_type\<lparr>t_kind := BIR_TYPE_INT, t_width := u16_of_int width_bits\<rparr>)"

definition bir_type_float :: "bir_module \<Rightarrow> int \<Rightarrow> nat \<times> bir_module" where
  "bir_type_float M width_bits =
     intern_type M (zero_type\<lparr>t_kind := BIR_TYPE_FLOAT, t_width := u16_of_int width_bits\<rparr>)"

definition bir_type_bfloat :: "bir_module \<Rightarrow> nat \<times> bir_module" where
  "bir_type_bfloat M = intern_type M (zero_type\<lparr>t_kind := BIR_TYPE_BFLOAT, t_width := 16\<rparr>)"

definition bir_type_ptr :: "bir_module \<Rightarrow> nat \<Rightarrow> bir_addrspace \<Rightarrow> nat \<times> bir_module" where
  "bir_type_ptr M pointee addrspace =
     intern_type M (zero_type\<lparr>t_kind := BIR_TYPE_PTR, t_addrspace := addrspace, t_inner := pointee\<rparr>)"

definition bir_type_array :: "bir_module \<Rightarrow> nat \<Rightarrow> nat \<Rightarrow> nat \<times> bir_module" where
  "bir_type_array M elem cnt =
     intern_type M (zero_type\<lparr>t_kind := BIR_TYPE_ARRAY, t_inner := elem, t_count := cnt\<rparr>)"

definition bir_type_vector :: "bir_module \<Rightarrow> nat \<Rightarrow> nat \<Rightarrow> nat \<times> bir_module" where
  "bir_type_vector M elem cnt =
     intern_type M (zero_type\<lparr>t_kind := BIR_TYPE_VECTOR, t_inner := elem, t_width := cnt mod 2 ^ 16\<rparr>)"

definition bir_type_struct :: "bir_module \<Rightarrow> nat list \<Rightarrow> nat \<times> bir_module" where
  "bir_type_struct M flds = intern_compound M BIR_TYPE_STRUCT 0 flds"

definition bir_type_func :: "bir_module \<Rightarrow> nat \<Rightarrow> nat list \<Rightarrow> nat \<times> bir_module" where
  "bir_type_func M ret params = intern_compound M BIR_TYPE_FUNC ret params"

definition bir_sfwd :: "bir_module \<Rightarrow> nat \<times> bir_module" where
  "bir_sfwd M =
     (if num_types M \<ge> BIR_MAX_TYPES then (0, bir_pfull M BIR_P_TYPES)
      else (num_types M,
            M\<lparr>num_types := Suc (num_types M),
              types := (types M)(num_types M := zero_type\<lparr>t_kind := BIR_TYPE_STRUCT\<rparr>)\<rparr>))"

definition bir_sfin :: "bir_module \<Rightarrow> nat \<Rightarrow> nat list \<Rightarrow> bool \<times> bir_module" where
  "bir_sfin M ty flds =
     (if ty \<ge> num_types M \<or> t_kind (types M ty) \<noteq> BIR_TYPE_STRUCT then (False, M)
      else if length flds > 0xFFFF then (False, M)
      else if num_type_fields M + length flds > BIR_MAX_TYPE_FIELDS
      then (False, bir_pfull M BIR_P_TFIELDS)
      else (True,
            M\<lparr>types := (types M)(ty := (types M ty)\<lparr>t_count := num_type_fields M,
                          t_num_fields := length flds mod 2 ^ 16\<rparr>),
              type_fields := paste (type_fields M) (num_type_fields M) flds,
              num_type_fields := num_type_fields M + length flds\<rparr>))"

definition bir_umrk :: "bir_module \<Rightarrow> nat \<Rightarrow> bool \<times> bir_module" where
  "bir_umrk M ty =
     (if ty \<ge> num_types M \<or> t_kind (types M ty) \<noteq> BIR_TYPE_STRUCT then (False, M)
      else (True, M\<lparr>types := (types M)(ty := (types M ty)\<lparr>t_uni := True\<rparr>)\<rparr>))"

definition bir_salg :: "bir_module \<Rightarrow> nat \<Rightarrow> u32 \<Rightarrow> bool \<times> bir_module" where
  "bir_salg M ty a =
     (if ty \<ge> num_types M \<or> t_kind (types M ty) \<noteq> BIR_TYPE_STRUCT then (False, M)
      else if a = 0 \<or> a > 0xFFFF \<or> a AND (a - 1) \<noteq> 0 then (False, M)
      else (True, M\<lparr>types := (types M)(ty := (types M ty)\<lparr>t_width := unat a mod 2 ^ 16\<rparr>)\<rparr>))"

definition bir_tcst :: "bir_module \<Rightarrow> nat \<Rightarrow> nat \<times> bir_module" where
  "bir_tcst M ty =
     (if ty \<ge> num_types M then (ty, M)
      else let t = types M ty in
           if t_cst t then (ty, M) else intern_type M (t\<lparr>t_cst := True\<rparr>))"

definition bir_tunq :: "bir_module \<Rightarrow> nat \<Rightarrow> nat" where
  "bir_tunq M ty =
     (if ty \<ge> num_types M \<or> \<not> t_cst (types M ty) then ty
      else let q = types M ty in
           case find (\<lambda>i. let c = types M i in
                \<not> t_cst c \<and> t_kind c = t_kind q \<and> t_addrspace c = t_addrspace q \<and>
                t_width c = t_width q \<and> t_inner c = t_inner q \<and> t_count c = t_count q \<and>
                t_num_fields c = t_num_fields q) [0..<num_types M] of
             Some i \<Rightarrow> i | None \<Rightarrow> ty)"

text \<open>
  Module initialisation clears every arena but the instructions, whose old contents
  (\<open>stale\<close>) remain; then it pins void as type 0.
\<close>

definition cleared_module :: "(nat \<Rightarrow> bir_inst) \<Rightarrow> bir_module" where
  "cleared_module stale = \<lparr>types = (\<lambda>_. zero_type), type_fields = (\<lambda>_. 0), num_types = 0,
     num_type_fields = 0, bir_consts = (\<lambda>_. zero_const), num_consts = 0, insts = stale,
     inst_lines = (\<lambda>_. 0), extra_operands = (\<lambda>_. 0), num_insts = 0, num_extra_ops = 0,
     blocks = (\<lambda>_. zero_block), num_blocks = 0, funcs = (\<lambda>_. zero_func), num_funcs = 0,
     globals = (\<lambda>_. zero_global), num_globals = 0, asms = (\<lambda>_. zero_asm), num_asms = 0,
     strings = (\<lambda>_. CHR 0x00), string_len = 0, pool_full = 0\<rparr>"

definition bir_module_init :: "(nat \<Rightarrow> bir_inst) \<Rightarrow> bir_module" where
  "bir_module_init stale = snd (bir_type_void (cleared_module stale))"

subsection \<open>String table\<close>

text \<open>
  The C string at an offset.  Every entry of the table is terminated below \<open>string_len\<close>
  (\<open>add_string_lookup\<close>), so reading stops there.
\<close>

definition cstr_at :: "bir_module \<Rightarrow> nat \<Rightarrow> string" where
  "cstr_at M off = takeWhile (\<lambda>c. c \<noteq> CHR 0x00) (map (strings M) [off..<string_len M])"

definition bir_add_string :: "bir_module \<Rightarrow> string \<Rightarrow> nat \<times> bir_module" where
  "bir_add_string M s =
     (if string_len M + length s + 1 > BIR_MAX_STRINGS then (0, bir_pfull M BIR_P_STRINGS)
      else (string_len M,
            M\<lparr>strings := paste (strings M) (string_len M) (s @ [CHR 0x00]),
              string_len := string_len M + length s + 1\<rparr>))"

definition bir_oper :: "bir_module \<Rightarrow> bir_inst \<Rightarrow> nat \<Rightarrow> u32" where
  "bir_oper M I j =
     (if i_num_operands I = BIR_OPERANDS_OVERFLOW then
        let s = unat (i_operands I 0); c = unat (i_operands I 1)
        in if j \<ge> c \<or> s + j \<ge> num_extra_ops M then BIR_VAL_NONE else extra_operands M (s + j)
      else if j \<ge> i_num_operands I \<or> j \<ge> BIR_OPERANDS_INLINE then BIR_VAL_NONE
      else i_operands I j)"

subsection \<open>Inline-assembly descriptors\<close>

text \<open>An index of the table, or \<open>None\<close> for \<open>BIR_SYM_NONE\<close>.\<close>

definition asm_match :: "bir_module \<Rightarrow> bir_asm \<Rightarrow> bir_asm \<Rightarrow> bool" where
  "asm_match M A D \<longleftrightarrow>
     a_nout A = a_nout D \<and> a_nops A = a_nops D \<and> a_vol A = a_vol D \<and>
     cstr_at M (a_tmpl A) = cstr_at M (a_tmpl D) \<and> cstr_at M (a_cons A) = cstr_at M (a_cons D)"

definition bir_asmd ::
  "bir_module \<Rightarrow> nat \<Rightarrow> nat \<Rightarrow> nat \<Rightarrow> nat \<Rightarrow> nat \<Rightarrow> nat option \<times> bir_module" where
  "bir_asmd M tmpl cons nout nops vol =
     (let D = \<lparr>a_tmpl = tmpl, a_cons = cons, a_nout = nout, a_nops = nops, a_vol = vol\<rparr>
      in if tmpl \<ge> string_len M \<or> cons \<ge> string_len M then (None, M)
         else case find (\<lambda>i. asm_match M (asms M i) D) [0..<num_asms M] of
           Some i \<Rightarrow> (Some i, M)
         | None \<Rightarrow>
             if num_asms M \<ge> BIR_MAX_ASMS then (None, bir_pfull M BIR_P_ASMS)
             else (Some (num_asms M),
                   M\<lparr>num_asms := Suc (num_asms M), asms := (asms M)(num_asms M := D)\<rparr>))"

subsection \<open>Constants\<close>

text \<open>
  C's \<open>==\<close> on doubles, on the bit patterns: false on a NaN, and the two zeros are equal.
\<close>

definition dbl_is_nan :: "u64 \<Rightarrow> bool" where
  "dbl_is_nan d \<longleftrightarrow>
     d AND 0x7FF0000000000000 = 0x7FF0000000000000 \<and> d AND 0x000FFFFFFFFFFFFF \<noteq> 0"

definition dbl_is_zero :: "u64 \<Rightarrow> bool" where
  "dbl_is_zero d \<longleftrightarrow> d AND 0x7FFFFFFFFFFFFFFF = 0"

definition dbl_eq :: "u64 \<Rightarrow> u64 \<Rightarrow> bool" where
  "dbl_eq a b \<longleftrightarrow>
     \<not> dbl_is_nan a \<and> \<not> dbl_is_nan b \<and> (a = b \<or> dbl_is_zero a \<and> dbl_is_zero b)"

text \<open>
  The three interning constructors of constants share their shape: scan for an equal
  constant, else append, else record the refusal and answer 0.
\<close>

definition intern_const ::
  "(bir_const \<Rightarrow> bir_const \<Rightarrow> bool) \<Rightarrow> bir_module \<Rightarrow> bir_const \<Rightarrow> nat \<times> bir_module" where
  "intern_const same M c =
     (case find (\<lambda>i. same (bir_consts M i) c) [0..<num_consts M] of
        Some i \<Rightarrow> (i, M)
      | None \<Rightarrow>
          if num_consts M \<ge> BIR_MAX_CONSTS then (0, bir_pfull M BIR_P_CONSTS)
          else (num_consts M,
                M\<lparr>num_consts := Suc (num_consts M),
                  bir_consts := (bir_consts M)(num_consts M := c)\<rparr>))"

definition same_int :: "bir_const \<Rightarrow> bir_const \<Rightarrow> bool" where
  "same_int a c \<longleftrightarrow> c_kind a = BIR_CONST_INT \<and> c_type a = c_type c \<and> c_d a = c_d c"

definition same_float :: "bir_const \<Rightarrow> bir_const \<Rightarrow> bool" where
  "same_float a c \<longleftrightarrow> c_kind a = BIR_CONST_FLOAT \<and> c_type a = c_type c \<and> dbl_eq (c_d a) (c_d c)"

definition same_null :: "bir_const \<Rightarrow> bir_const \<Rightarrow> bool" where
  "same_null a c \<longleftrightarrow> c_kind a = BIR_CONST_NULL \<and> c_type a = c_type c"

definition bir_const_int :: "bir_module \<Rightarrow> nat \<Rightarrow> u64 \<Rightarrow> nat \<times> bir_module" where
  "bir_const_int M ty val =
     intern_const same_int M \<lparr>c_kind = BIR_CONST_INT, c_type = ty, c_d = val\<rparr>"

definition bir_const_float :: "bir_module \<Rightarrow> nat \<Rightarrow> u64 \<Rightarrow> nat \<times> bir_module" where
  "bir_const_float M ty val =
     intern_const same_float M \<lparr>c_kind = BIR_CONST_FLOAT, c_type = ty, c_d = val\<rparr>"

definition bir_const_null :: "bir_module \<Rightarrow> nat \<Rightarrow> nat \<times> bir_module" where
  "bir_const_null M ty =
     intern_const same_null M \<lparr>c_kind = BIR_CONST_NULL, c_type = ty, c_d = 0\<rparr>"

text \<open>The byte-slice payload is the pair of 32-bit halves of the union.\<close>

definition bytes_payload :: "nat \<Rightarrow> nat \<Rightarrow> u64" where
  "bytes_payload off len = word_of_nat (off + 2 ^ 32 * len)"

definition bir_const_bytes :: "bir_module \<Rightarrow> nat \<Rightarrow> nat \<Rightarrow> nat \<Rightarrow> nat \<times> bir_module" where
  "bir_const_bytes M ty off len =
     (if num_consts M \<ge> BIR_MAX_CONSTS then (0, bir_pfull M BIR_P_CONSTS)
      else (num_consts M,
            M\<lparr>num_consts := Suc (num_consts M),
              bir_consts := (bir_consts M)(num_consts M :=
                \<lparr>c_kind = BIR_CONST_BYTES, c_type = ty, c_d = bytes_payload off len\<rparr>)\<rparr>))"

definition bir_global_is_bytes :: "bir_module \<Rightarrow> nat \<Rightarrow> bool" where
  "bir_global_is_bytes M gi =
     (if gi \<ge> num_globals M then False
      else let ini = g_initializer (globals M gi) in
        if ini = BIR_VAL_NONE then False
        else if \<not> BIR_VAL_IS_CONST ini then False
        else let ci = BIR_VAL_INDEX ini in
          if ci \<ge> num_consts M then False
          else c_kind (bir_consts M ci) = BIR_CONST_BYTES)"

subsection \<open>Symbols\<close>

text \<open>\<open>%u\<close>: decimal digits.\<close>

fun dec_digits :: "nat \<Rightarrow> string" where
  "dec_digits n =
     (if n < 10 then [char_of (48 + n)] else dec_digits (n div 10) @ [char_of (48 + n mod 10)])"

declare dec_digits.simps [simp del]

text \<open>\<open>None\<close> is the non-zero return: the mangled name does not fit the buffer.\<close>

definition bir_mang :: "string \<Rightarrow> nat \<Rightarrow> nat \<Rightarrow> string option" where
  "bir_mang nm tu sz =
     (let s = nm @ ''__'' @ dec_digits tu in if length s \<ge> sz then None else Some s)"

definition fsym_scan :: "bir_module \<Rightarrow> string \<Rightarrow> nat \<Rightarrow> int \<Rightarrow> nat option" where
  "fsym_scan M want wtu nargs =
     find (\<lambda>i. let F = funcs M i in
        f_tu F = wtu \<and> f_name F < string_len M \<and> cstr_at M (f_name F) = want \<and>
        (nargs < 0 \<or> int (f_num_params F) - int (f_sret F) = nargs mod 2 ^ 16))
       [0..<num_funcs M]"

definition bir_fsym :: "bir_module \<Rightarrow> string \<Rightarrow> nat \<Rightarrow> int \<Rightarrow> nat option" where
  "bir_fsym M nm tu nargs =
     (case (if tu = BIR_TU_EXT then None
            else case bir_mang nm tu BIR_SYM_MAX of
                   None \<Rightarrow> None | Some mng \<Rightarrow> fsym_scan M mng tu nargs) of
        Some i \<Rightarrow> Some i
      | None \<Rightarrow> fsym_scan M nm BIR_TU_EXT nargs)"

definition gsym_scan :: "bir_module \<Rightarrow> string \<Rightarrow> nat \<Rightarrow> nat option" where
  "gsym_scan M want wtu =
     find (\<lambda>i. let G = globals M i in
        g_tu G = wtu \<and> g_name G < string_len M \<and> cstr_at M (g_name G) = want)
       [0..<num_globals M]"

definition bir_gsym :: "bir_module \<Rightarrow> string \<Rightarrow> nat \<Rightarrow> nat option" where
  "bir_gsym M nm tu =
     (case (if tu \<noteq> BIR_TU_EXT then
              case bir_mang nm tu BIR_SYM_MAX of
                None \<Rightarrow> None | Some mng \<Rightarrow> gsym_scan M mng tu
            else None) of
        Some i \<Rightarrow> Some i
      | None \<Rightarrow> gsym_scan M nm BIR_TU_EXT)"

subsection \<open>The contract of an interning pool\<close>

text \<open>
  \<open>count\<close> and \<open>cell\<close> read the pool out of the state, \<open>same old new\<close> is the comparison
  the scan makes, \<open>good\<close> the keys that compare equal to themselves.
\<close>

locale intern_pool =
  fixes pool_count :: "'m \<Rightarrow> nat"
    and cell :: "'m \<Rightarrow> nat \<Rightarrow> 'c"
    and same :: "'c \<Rightarrow> 'c \<Rightarrow> bool"
    and good :: "'c \<Rightarrow> bool"
    and cap :: nat
    and intern :: "'m \<Rightarrow> 'c \<Rightarrow> nat \<times> 'm"
  assumes hit: "find (\<lambda>i. same (cell m i) c) [0..<pool_count m] = Some i \<Longrightarrow> intern m c = (i, m)"
    and miss: "find (\<lambda>i. same (cell m i) c) [0..<pool_count m] = None \<Longrightarrow> pool_count m < cap \<Longrightarrow>
      intern m c = (i, m') \<Longrightarrow>
      i = pool_count m \<and> pool_count m' = Suc (pool_count m) \<and> cell m' = (cell m)(pool_count m := c)"
    and refuse: "find (\<lambda>i. same (cell m i) c) [0..<pool_count m] = None \<Longrightarrow> cap \<le> pool_count m \<Longrightarrow>
      intern m c = (i, m') \<Longrightarrow> i = 0 \<and> pool_count m' = pool_count m \<and> cell m' = cell m"
    and good_same: "good c \<Longrightarrow> same c c"
begin

text \<open>Room for one more cell, or a cell that already matches.\<close>

definition fits :: "'m \<Rightarrow> 'c \<Rightarrow> bool" where
  "fits m c \<longleftrightarrow> pool_count m < cap \<or> (\<exists>i < pool_count m. same (cell m i) c)"

lemma intern_cases:
  assumes "intern m c = (i, m')"
  obtains (found) "i < pool_count m" "same (cell m i) c" "\<forall>j < i. \<not> same (cell m j) c" "m' = m"
  | (added) "i = pool_count m" "pool_count m < cap" "\<forall>j < pool_count m. \<not> same (cell m j) c"
      "pool_count m' = Suc (pool_count m)" "cell m' = (cell m)(pool_count m := c)"
  | (refused) "i = 0" "cap \<le> pool_count m" "\<forall>j < pool_count m. \<not> same (cell m j) c"
      "pool_count m' = pool_count m" "cell m' = cell m"
proof (cases "find (\<lambda>i. same (cell m i) c) [0..<pool_count m]")
  case None
  then have "\<forall>j < pool_count m. \<not> same (cell m j) c"
    by (simp add: find_upt_None)
  with None assms miss [of m c i m'] refuse [of m c i m'] added refused show ?thesis
    by (cases "pool_count m < cap") auto
next
  case (Some k)
  with assms hit [OF Some] have "i = k" "m' = m" by auto
  with Some found show ?thesis by (simp add: find_upt_Some)
qed

text \<open>Cells already in the pool keep their index and contents.\<close>

lemma stable:
  assumes "intern m c = (i, m')" and "j < pool_count m"
  shows "j < pool_count m' \<and> cell m' j = cell m j"
  using assms(1) by (cases rule: intern_cases) (use assms(2) in auto)

text \<open>The index names a live cell that matches the key.\<close>

lemma lookup_after:
  assumes "intern m c = (i, m')" and "fits m c" and "good c"
  shows "i < pool_count m' \<and> same (cell m' i) c"
  using assms(1) by (cases rule: intern_cases) (use assms(2,3) good_same in \<open>auto simp: fits_def\<close>)

text \<open>Interning the same key again finds the same cell and changes nothing.\<close>

lemma idempotent:
  assumes "intern m c = (i, m')" and "fits m c" and "good c"
  shows "intern m' c = (i, m')"
  using assms(1)
proof (cases rule: intern_cases)
  case found
  with assms(1) show ?thesis by simp
next
  case added
  have "find (\<lambda>k. same (cell m' k) c) [0..<pool_count m'] = Some i"
    unfolding find_upt_Some using added assms(3) good_same by auto
  then show ?thesis by (rule hit)
next
  case refused
  with assms(2) show ?thesis by (auto simp: fits_def)
qed

text \<open>No two live cells match each other.\<close>

definition no_dups :: "'m \<Rightarrow> bool" where
  "no_dups m \<longleftrightarrow> (\<forall>i j. i < j \<longrightarrow> j < pool_count m \<longrightarrow> \<not> same (cell m i) (cell m j))"

lemma no_dups_intern:
  assumes "no_dups m" and "intern m c = (i, m')"
  shows "no_dups m'"
  using assms(2)
  by (cases rule: intern_cases) (use assms(1) in \<open>auto simp: no_dups_def less_Suc_eq\<close>)

lemma count_le_cap:
  assumes "pool_count m \<le> cap" and "intern m c = (i, m')"
  shows "pool_count m' \<le> cap"
  using assms(2) by (cases rule: intern_cases) (use assms(1) in auto)

end

text \<open>Every interning operation of \<open>bir.c\<close> meets the contract.\<close>

interpretation type_pool: intern_pool num_types types type_eq_simple "\<lambda>_. True" BIR_MAX_TYPES intern_type
  by unfold_locales
    (auto simp: intern_type_def bir_pfull_def type_eq_simple_def)

interpretation int_pool: intern_pool num_consts bir_consts same_int
  "\<lambda>c. c_kind c = BIR_CONST_INT" BIR_MAX_CONSTS "intern_const same_int"
  by unfold_locales (auto simp: intern_const_def bir_pfull_def same_int_def)

interpretation null_pool: intern_pool num_consts bir_consts same_null
  "\<lambda>c. c_kind c = BIR_CONST_NULL" BIR_MAX_CONSTS "intern_const same_null"
  by unfold_locales (auto simp: intern_const_def bir_pfull_def same_null_def)

interpretation float_pool: intern_pool num_consts bir_consts same_float
  "\<lambda>c. c_kind c = BIR_CONST_FLOAT \<and> \<not> dbl_is_nan (c_d c)" BIR_MAX_CONSTS "intern_const same_float"
  by unfold_locales (auto simp: intern_const_def bir_pfull_def same_float_def dbl_eq_def)

subsection \<open>Properties of the pools\<close>



text \<open>
  Property C39. A compound type gets back exactly the fields it was built from: unless a
  pool refuses, \<open>bir_type_struct\<close> answers a live struct type whose field slice in the
  module is the given list, whether it was found or appended.
\<close>

theorem bir_type_struct_fields:
  assumes "bir_type_struct M flds = (i, M')" and "length flds < 2 ^ 16"
    and "num_types M < BIR_MAX_TYPES" and "num_type_fields M + length flds \<le> BIR_MAX_TYPE_FIELDS"
  shows "i < num_types M' \<and> t_kind (types M' i) = BIR_TYPE_STRUCT \<and>
    map (\<lambda>j. type_fields M' (t_count (types M' i) + j)) [0..<t_num_fields (types M' i)] = flds"
proof (cases "find (\<lambda>i. compound_match M BIR_TYPE_STRUCT 0 flds (types M i)) [0..<num_types M]")
  case None
  with assms have "i = num_types M"
    "types M' i = zero_type\<lparr>t_kind := BIR_TYPE_STRUCT, t_inner := 0, t_count := num_type_fields M,
       t_num_fields := length flds mod 2 ^ 16\<rparr>"
    "num_types M' = Suc (num_types M)"
    "type_fields M' = paste (type_fields M) (num_type_fields M) flds"
    by (auto simp: bir_type_struct_def intern_compound_def)
  with assms(2) show ?thesis by (auto intro!: nth_equalityI)
next
  case (Some k)
  with assms(1) have "i = k" "M' = M" by (auto simp: bir_type_struct_def intern_compound_def)
  with Some assms(2) show ?thesis
    by (auto simp: find_upt_Some compound_match_def intro!: nth_equalityI)
qed

theorem bir_type_struct_fields_witness:
  "let M = bir_module_init (\<lambda>_. zero_inst); (i, M') = bir_type_struct M [0, 0]
   in map (\<lambda>j. type_fields M' (t_count (types M' i) + j)) [0..<t_num_fields (types M' i)] = [0, 0]"
proof -
  let ?M = "bir_module_init (\<lambda>_. zero_inst)"
  have n: "num_types ?M < BIR_MAX_TYPES"
    "num_type_fields ?M + length [0 :: nat, 0] \<le> BIR_MAX_TYPE_FIELDS"
    by (simp_all add: bir_module_init_def bir_type_void_def cleared_module_def intern_type_def)
  show ?thesis
    using bir_type_struct_fields [of ?M "[0, 0]" "fst (bir_type_struct ?M [0, 0])"
        "snd (bir_type_struct ?M [0, 0])"] n
    by (simp add: Let_def case_prod_beta)
qed

text \<open>
  Integer constants are interned: the index names an \<open>INT\<close> constant of the
  given type and value, and asking again gives the same index and the same module.
\<close>

theorem bir_const_int_correct:
  assumes "bir_const_int M ty v = (i, M')" and "num_consts M < BIR_MAX_CONSTS"
  shows "i < num_consts M' \<and> bir_consts M' i = \<lparr>c_kind = BIR_CONST_INT, c_type = ty, c_d = v\<rparr> \<and>
    bir_const_int M' ty v = (i, M')"
proof -
  let ?c = "\<lparr>c_kind = BIR_CONST_INT, c_type = ty, c_d = v\<rparr>"
  have f: "int_pool.fits M ?c" using assms(2) by (simp add: int_pool.fits_def)
  have r: "intern_const same_int M ?c = (i, M')" using assms(1) by (simp add: bir_const_int_def)
  from int_pool.lookup_after [OF r f] int_pool.idempotent [OF r f]
  show ?thesis by (simp add: bir_const_int_def same_int_def)
qed

theorem bir_const_int_correct_witness:
  "let M = bir_module_init (\<lambda>_. zero_inst); (i, M') = bir_const_int M 1 42
   in c_d (bir_consts M' i) = 42"
proof -
  let ?M = "bir_module_init (\<lambda>_. zero_inst)"
  have n: "num_consts ?M < BIR_MAX_CONSTS"
    by (simp add: bir_module_init_def bir_type_void_def cleared_module_def intern_type_def)
  show ?thesis
    using bir_const_int_correct [of ?M 1 42 "fst (bir_const_int ?M 1 42)"
        "snd (bir_const_int ?M 1 42)"] n
    by (simp add: Let_def case_prod_beta)
qed

text \<open>
  Float constants are interned with C's \<open>==\<close>, under which the two zeros are
  equal: once a pool holds \<open>+0.0\<close> of a type as its first such match, asking for \<open>-0.0\<close>
  answers the index of \<open>+0.0\<close>, so the sign of the zero is lost.
\<close>

theorem bir_const_float_loses_zero_sign:
  "let M = bir_module_init (\<lambda>_. zero_inst);
       (i, M1) = bir_const_float M ty 0;
       (j, M2) = bir_const_float M1 ty 0x8000000000000000
   in j = i \<and> M2 = M1 \<and> c_d (bir_consts M2 j) = 0"
  by (simp add: bir_const_float_def intern_const_def bir_module_init_def bir_type_void_def
      intern_type_def cleared_module_def same_float_def dbl_eq_def dbl_is_nan_def dbl_is_zero_def)

lemma takeWhile_append_stop: "takeWhile P (xs @ y # ys) = takeWhile P xs" if "\<not> P y"
  using that by (induction xs) auto

lemma map_paste_after:
  "map (paste a n xs) [n..<n + length xs] = xs"
  by (auto intro!: nth_equalityI)

text \<open>
  The string table round-trips: a NUL-free string that fits is read back from
  the offset it was stored at, and every string stored before reads as it did.
\<close>

theorem bir_add_string_roundtrip:
  assumes "bir_add_string M s = (off, M')" and "string_len M + length s + 1 \<le> BIR_MAX_STRINGS"
    and "CHR 0x00 \<notin> set s"
  shows "cstr_at M' off = s \<and> off < string_len M' \<and>
    (\<forall>o'. o' < string_len M \<longrightarrow> strings M (string_len M - 1) = CHR 0x00 \<longrightarrow>
       cstr_at M' o' = cstr_at M o')"
proof -
  let ?n = "string_len M" and ?s = "s @ [CHR 0x00]"
  from assms(1,2) have off: "off = ?n" and len: "string_len M' = ?n + length ?s"
    and str: "strings M' = paste (strings M) ?n ?s"
    by (auto simp: bir_add_string_def)
  have "cstr_at M' off = takeWhile (\<lambda>c. c \<noteq> CHR 0x00) ?s"
    by (simp only: cstr_at_def off len str map_paste_after)
  also have "\<dots> = s"
    using assms(3) by (induction s) auto
  finally have new: "cstr_at M' off = s" .
  have old: "cstr_at M' o' = cstr_at M o'"
    if lt: "o' < ?n" and nul: "strings M (?n - 1) = CHR 0x00" for o'
  proof -
    obtain k where k: "?n = Suc k" using lt by (cases ?n) auto
    with lt have le: "o' \<le> k" by simp
    have split: "[o'..<?n + length ?s] = [o'..<?n - 1] @ (?n - 1) # [?n..<?n + length ?s]"
      using upt_add_eq_append [OF le, of "Suc (length ?s)"] upt_conv_Cons [of k "k + Suc (length ?s)"]
      by (simp add: k)
    have split0: "[o'..<?n] = [o'..<?n - 1] @ [?n - 1]"
      using le by (simp add: k)
    have low: "map (strings M') [o'..<?n - 1] = map (strings M) [o'..<?n - 1]"
      by (auto simp: str)
    have stop: "strings M' (?n - 1) = CHR 0x00" "strings M (?n - 1) = CHR 0x00"
      using lt nul by (auto simp: str)
    show ?thesis
      unfolding cstr_at_def len split split0 map_append low
      using stop by (simp add: takeWhile_append_stop)
  qed
  show ?thesis using new old off len by auto
qed

theorem bir_add_string_roundtrip_witness:
  "let M = bir_module_init (\<lambda>_. zero_inst); (off, M') = bir_add_string M ''kern''
   in cstr_at M' off = ''kern''"
proof -
  let ?M = "bir_module_init (\<lambda>_. zero_inst)"
  have n: "string_len ?M + length ''kern'' + 1 \<le> BIR_MAX_STRINGS"
    by (simp add: bir_module_init_def bir_type_void_def cleared_module_def intern_type_def)
  show ?thesis
    using bir_add_string_roundtrip [of ?M "''kern''" "fst (bir_add_string ?M ''kern'')"
        "snd (bir_add_string ?M ''kern'')"] n
    by (simp add: Let_def case_prod_beta)
qed

end
