(* ===== verification/Bir_Sizes.thy ===== *)
theory Bir_Sizes
  imports Bir_Pools
begin

text \<open>
  Sizes, alignments and field offsets of types: \<open>bsz_al\<close> to \<open>bir_fgep\<close> of
  \<open>src/src/ir/bir.c\<close>.  Sizes are 32-bit words, with the overflow tests and the wrap-around
  of the source.  The explicit stack of the C walk is a list of frames with its top first;
  its guard counter is the fuel of the walk.

  The results show that the alignment rounding is exact below the wrap, that
  struct alignments stay powers of two, that the offset \<open>bir_fgep\<close> answers is aligned for the
  field and that neighbouring fields do not overlap, and where the rounding wraps.
\<close>

subsection \<open>Rounding\<close>

text \<open>
  The doubling loop of \<open>bsz_al\<close>.  It ends within 31 rounds for every pointer size below
  \<open>2^31\<close> (\<open>bsz_al_loop_spec\<close>); the callers pass 4 or 8.
\<close>

fun bsz_al_loop :: "nat \<Rightarrow> u32 \<Rightarrow> u32 \<Rightarrow> u32" where
  "bsz_al_loop 0 a sz = a"
| "bsz_al_loop (Suc n) a sz = (if a * 2 \<le> sz then bsz_al_loop n (a * 2) sz else a)"

definition bsz_al :: "u32 \<Rightarrow> u32 \<Rightarrow> u32" where
  "bsz_al sz psz = bsz_al_loop 32 1 (if sz > psz then psz else sz)"

definition bsz_up :: "u32 \<Rightarrow> u32 \<Rightarrow> u32" where
  "bsz_up x a = (x + a - 1) AND NOT (a - 1)"

subsection \<open>Size of a type\<close>

record bsz_frame =
  fr_ty :: nat
  fr_mul :: u32
  fr_fld :: nat
  fr_sum :: u32
  fr_alg :: u32

definition new_frame :: "nat \<Rightarrow> bsz_frame" where
  "new_frame ty = \<lparr>fr_ty = ty, fr_mul = 1, fr_fld = 0, fr_sum = 0, fr_alg = 1\<rparr>"

text \<open>The size of a scalar type; 0 for the kinds that have none.\<close>

definition scalar_width :: "bir_type \<Rightarrow> u32 \<Rightarrow> u32" where
  "scalar_width T psz =
     (case t_kind T of
        BIR_TYPE_INT \<Rightarrow> (word_of_nat (t_width T) + 7) div 8
      | BIR_TYPE_FLOAT \<Rightarrow> (word_of_nat (t_width T) + 7) div 8
      | BIR_TYPE_BFLOAT \<Rightarrow> (word_of_nat (t_width T) + 7) div 8
      | BIR_TYPE_PTR \<Rightarrow> psz
      | _ \<Rightarrow> 0)"

text \<open>
  A finished member of size \<open>w\<close> and alignment \<open>va\<close>: scale it, pop its frame and add it to
  the struct below, or answer the size when the stack is empty.
\<close>

definition bsz_pop :: "bir_module \<Rightarrow> bsz_frame \<Rightarrow> bsz_frame list \<Rightarrow> u32 \<Rightarrow> u32 \<Rightarrow> u32 + bsz_frame list" where
  "bsz_pop M F rest w va =
     (if w = 0 then Inl 0
      else if fr_mul F > 0xFFFFFFFF div w then Inl 0
      else let val = fr_mul F * w in
        case rest of
          [] \<Rightarrow> Inl val
        | P # below \<Rightarrow>
            let P1 = (if va > fr_alg P then P\<lparr>fr_alg := va\<rparr> else P) in
            if t_uni (types M (fr_ty P1)) then
              Inr ((if val > fr_sum P1 then P1\<lparr>fr_sum := val\<rparr> else P1) # below)
            else if bsz_up (fr_sum P1) va > 0xFFFFFFFF - val then Inl 0
            else Inr (P1\<lparr>fr_sum := bsz_up (fr_sum P1) va + val\<rparr> # below))"

definition bsz_step :: "bir_module \<Rightarrow> u32 \<Rightarrow> bsz_frame \<Rightarrow> bsz_frame list \<Rightarrow> u32 + bsz_frame list" where
  "bsz_step M psz F rest =
     (if fr_ty F \<ge> num_types M then Inl 0
      else let T = types M (fr_ty F) in
        if t_kind T = BIR_TYPE_ARRAY \<or> t_kind T = BIR_TYPE_VECTOR then
          let n = (if t_kind T = BIR_TYPE_ARRAY then word_of_nat (t_count T)
                   else word_of_nat (t_width T))
          in if n \<noteq> 0 \<and> fr_mul F > 0xFFFFFFFF div n then Inl 0
             else Inr (F\<lparr>fr_mul := fr_mul F * n, fr_ty := t_inner T\<rparr> # rest)
        else if t_kind T = BIR_TYPE_STRUCT then
          if fr_fld F < t_num_fields T then
            let f = t_count T + fr_fld F
            in if f \<ge> num_type_fields M \<or> Suc (length rest) \<ge> BIR_BSZ_DEEP then Inl 0
               else Inr (new_frame (type_fields M f) # F\<lparr>fr_fld := Suc (fr_fld F)\<rparr> # rest)
          else
            let F1 = (if word_of_nat (t_width T) > fr_alg F
                      then F\<lparr>fr_alg := word_of_nat (t_width T)\<rparr> else F)
            in bsz_pop M F1 rest (bsz_up (fr_sum F1) (fr_alg F1)) (fr_alg F1)
        else let w = scalar_width T psz in bsz_pop M F rest w (bsz_al w psz))"

fun bsz_run :: "nat \<Rightarrow> bir_module \<Rightarrow> u32 \<Rightarrow> bsz_frame list \<Rightarrow> u32" where
  "bsz_run n M psz [] = 0"
| "bsz_run n M psz (F # rest) =
     (if n = 0 then 0
      else case bsz_step M psz F rest of
        Inl r \<Rightarrow> r
      | Inr st \<Rightarrow> bsz_run (n - 1) M psz st)"

definition bir_bsz :: "bir_module \<Rightarrow> nat \<Rightarrow> u32 \<Rightarrow> u32" where
  "bir_bsz M ty psz = bsz_run (4 * BIR_MAX_TYPE_FIELDS) M psz [new_frame ty]"

subsection \<open>Alignment of a type\<close>

text \<open>
  Frames of the alignment walk: a type and the next field.  A step answers a result or the
  new stack and the best alignment so far.
\<close>

definition balg_step ::
  "bir_module \<Rightarrow> u32 \<Rightarrow> nat \<times> nat \<Rightarrow> (nat \<times> nat) list \<Rightarrow> u32 \<Rightarrow> ((nat \<times> nat) list \<times> u32) option" where
  "balg_step M psz F rest best =
     (let (ty, fld) = F in
      if ty \<ge> num_types M then None
      else let T = types M ty in
        if t_kind T = BIR_TYPE_ARRAY \<or> t_kind T = BIR_TYPE_VECTOR then
          Some ((t_inner T, fld) # rest, best)
        else if t_kind T = BIR_TYPE_STRUCT then
          let best1 = (if word_of_nat (t_width T) > best then word_of_nat (t_width T) else best)
          in if fld < t_num_fields T then
               let f = t_count T + fld
               in if f \<ge> num_type_fields M \<or> Suc (length rest) \<ge> BIR_BSZ_DEEP then None
                  else Some ((type_fields M f, 0) # (ty, Suc fld) # rest, best1)
             else Some (rest, best1)
        else if t_kind T \<in> {BIR_TYPE_INT, BIR_TYPE_FLOAT, BIR_TYPE_BFLOAT, BIR_TYPE_PTR} then
          let w = bsz_al (scalar_width T psz) psz
          in Some (rest, if w > best then w else best)
        else None)"

fun balg_run :: "nat \<Rightarrow> bir_module \<Rightarrow> u32 \<Rightarrow> (nat \<times> nat) list \<Rightarrow> u32 \<Rightarrow> u32" where
  "balg_run n M psz [] best = best"
| "balg_run n M psz (F # rest) best =
     (if n = 0 then 0
      else case balg_step M psz F rest best of
        None \<Rightarrow> 0
      | Some (st, b) \<Rightarrow> balg_run (n - 1) M psz st b)"

definition bir_balg :: "bir_module \<Rightarrow> nat \<Rightarrow> u32 \<Rightarrow> u32" where
  "bir_balg M ty psz = balg_run (4 * BIR_MAX_TYPE_FIELDS) M psz [(ty, 0)] 1"

definition bir_gsz :: "bir_module \<Rightarrow> nat \<Rightarrow> u32 \<Rightarrow> u32" where
  "bir_gsz M ty psz =
     (if ty < num_types M \<and> t_kind (types M ty) = BIR_TYPE_PTR
      then bir_bsz M (t_inner (types M ty)) psz else bir_bsz M ty psz)"

definition bir_gstr :: "bir_module \<Rightarrow> nat \<Rightarrow> u32 \<Rightarrow> u32" where
  "bir_gstr M ty psz =
     (if ty < num_types M \<and> t_kind (types M ty) = BIR_TYPE_PTR \<and>
         t_inner (types M ty) < num_types M \<and>
         t_kind (types M (t_inner (types M ty))) = BIR_TYPE_ARRAY \<and>
         t_count (types M (t_inner (types M ty))) = 0
      then bir_bsz M (t_inner (types M (t_inner (types M ty)))) psz
      else bir_gsz M ty psz)"

subsection \<open>Field addresses\<close>

definition bvty :: "bir_module \<Rightarrow> u32 \<Rightarrow> nat" where
  "bvty M v =
     (let i = BIR_VAL_INDEX v
      in if v = BIR_VAL_NONE then num_types M
         else if BIR_VAL_IS_CONST v then
           (if i < num_consts M then c_type (bir_consts M i) else num_types M)
         else if i < num_insts M then i_type (insts M i) else num_types M)"

text \<open>
  The offset loop over the types of the fields up to the addressed one, from offset \<open>o\<close>.
\<close>

fun fgep_walk :: "bir_module \<Rightarrow> u32 \<Rightarrow> nat list \<Rightarrow> u32 \<Rightarrow> u32 option" where
  "fgep_walk M psz [] o1 = None"
| "fgep_walk M psz (ft # rest) o1 =
     (let a = bir_balg M ft psz in
      if a = 0 then None
      else let o2 = bsz_up o1 a in
        if rest = [] then Some o2
        else let s = bir_bsz M ft psz in
          if s = 0 then None
          else if o2 > 0xFFFFFFFF - s then None
          else fgep_walk M psz rest (o2 + s))"

definition bir_fgep :: "bir_module \<Rightarrow> bir_inst \<Rightarrow> u32 \<Rightarrow> u32 option" where
  "bir_fgep M I psz =
     (if i_op I \<noteq> BIR_GEP \<or> i_num_operands I < 2 then None
      else let bt = bvty M (i_operands I 0) in
      if bt \<ge> num_types M \<or> t_kind (types M bt) \<noteq> BIR_TYPE_PTR then None
      else let st = t_inner (types M bt) in
      if st \<ge> num_types M \<or> t_kind (types M st) \<noteq> BIR_TYPE_STRUCT then None
      else let iv = i_operands I 1 in
      if iv = BIR_VAL_NONE \<or> \<not> BIR_VAL_IS_CONST iv then None
      else if BIR_VAL_INDEX iv \<ge> num_consts M then None
      else if c_kind (bir_consts M (BIR_VAL_INDEX iv)) \<noteq> BIR_CONST_INT then None
      else let d = c_d (bir_consts M (BIR_VAL_INDEX iv)); fi = unat (ucast d :: u32) in
      if sint d < 0 \<or> fi \<ge> t_num_fields (types M st) then None
      else let fs = t_count (types M st) in
      if (word_of_nat fs :: u32) > word_of_nat (num_type_fields M) - word_of_nat (t_num_fields (types M st))
      then None
      else if i_type I \<ge> num_types M \<or> t_kind (types M (i_type I)) \<noteq> BIR_TYPE_PTR \<or>
              t_inner (types M (i_type I)) \<noteq> type_fields M (fs + fi) then None
      else if t_uni (types M st) then Some 0
      else fgep_walk M psz (map (type_fields M) [fs..<fs + fi + 1]) 0)"

subsection \<open>Rounding is exact below the wrap\<close>

definition is_pow2 :: "u32 \<Rightarrow> bool" where
  "is_pow2 a \<longleftrightarrow> (\<exists>k < 32. unat a = 2 ^ k)"

lemma pow2_mask:
  assumes "k < 32" "unat (a :: u32) = 2 ^ k"
  shows "a - 1 = mask k"
proof -
  have "(2 :: nat) ^ k < 2 ^ LENGTH(32)" using assms(1) by (intro power_strict_increasing) simp_all
  then have "unat (push_bit k 1 :: u32) = 2 ^ k" by (subst unat_push_bit_small) simp_all
  then have "a = push_bit k 1" using assms(2) by (simp only: word_unat_eq_iff)
  then show ?thesis by (simp add: mask_eq_exp_minus_1)
qed

lemma and_not_mask: "(x :: 'a::len word) AND NOT (mask k) = push_bit k (drop_bit k x)"
  by (rule bit_word_eqI) (auto simp: bit_simps)

lemma bsz_up_unat:
  assumes "k < 32" "unat a = 2 ^ k"
  shows "unat (bsz_up x a) = unat (x + a - 1) div 2 ^ k * 2 ^ k"
proof -
  define y where "y = x + a - 1"
  have "unat y div 2 ^ k * 2 ^ k \<le> unat y" by simp
  also have "unat y < 2 ^ LENGTH(32)" by (rule unsigned_less)
  finally have lt: "unat (drop_bit k y) * 2 ^ k < 2 ^ LENGTH(32)" by (simp add: unat_drop_bit)
  have "bsz_up x a = push_bit k (drop_bit k y)"
    unfolding bsz_up_def pow2_mask [OF assms] and_not_mask y_def ..
  then show ?thesis unfolding y_def [symmetric] by (simp add: unat_push_bit_small [OF lt] unat_drop_bit)
qed

lemma bsz_up_dvd: "is_pow2 a \<Longrightarrow> unat a dvd unat (bsz_up x a)"
  by (auto simp: is_pow2_def bsz_up_unat)

lemma bsz_up_ge:
  assumes "is_pow2 a" "unat x + unat a \<le> 2 ^ 32"
  shows "unat x \<le> unat (bsz_up x a)" "unat (bsz_up x a) < unat x + unat a"
proof -
  obtain k where k: "k < 32" "unat a = 2 ^ k" using assms(1) by (auto simp: is_pow2_def)
  have "a \<noteq> 0" using k by (metis power_eq_0_iff unsigned_0 zero_neq_numeral)
  then have "1 \<le> a" by (simp add: word_le_nat_alt unat_gt_0 Suc_le_eq)
  then have a1: "unat (a - 1) = unat a - 1" by (simp add: unat_sub)
  have "unat (x + (a - 1)) = unat x + unat (a - 1)"
    using assms(2) k by (subst unat_add_lem [THEN iffD1]) (simp_all add: a1)
  then have u: "unat (x + a - 1) = unat x + 2 ^ k - 1" using a1 k by (simp add: algebra_simps)
  define P :: nat where "P = 2 ^ k"
  have P: "0 < P" by (simp add: P_def)
  have "unat x \<le> (unat x + P - 1) div P * P" "(unat x + P - 1) div P * P < unat x + P"
    using div_mult_mod_eq [of "unat x + P - 1" P] mod_less_divisor [OF P, of "unat x + P - 1"] P
    by linarith+
  then show "unat x \<le> unat (bsz_up x a)" "unat (bsz_up x a) < unat x + unat a"
    unfolding bsz_up_unat [OF k] u k(2) P_def by simp_all
qed

lemma bsz_al_loop_spec:
  assumes "unat sz < 2 ^ 31" "unat a = 2 ^ j" "32 \<le> j + n" "j < 32" "j = 0 \<or> 2 ^ j \<le> unat sz"
  shows "\<exists>k < 32. unat (bsz_al_loop n a sz) = 2 ^ k \<and> (k = 0 \<or> 2 ^ k \<le> unat sz) \<and> unat sz < 2 ^ Suc k"
  using assms
proof (induction n arbitrary: a j)
  case 0
  then show ?case by simp
next
  case (Suc n)
  show ?case
  proof (cases "j < 31")
    case True
    then have "(2 :: nat) ^ Suc j \<le> 2 ^ 31" by (intro power_increasing) simp_all
    then have d: "unat (a * 2) = 2 ^ Suc j"
      using Suc.prems(2) by (subst unat_mult_lem [THEN iffD1]) simp_all
    show ?thesis
    proof (cases "a * 2 \<le> sz")
      case True
      then have "2 ^ Suc j \<le> unat sz" using d by (simp add: word_le_nat_alt)
      then show ?thesis
        using Suc.IH [of "a * 2" "Suc j"] Suc.prems d True \<open>j < 31\<close> by simp
    next
      case False
      then have "unat sz < 2 ^ Suc j" using d by (simp add: word_le_nat_alt)
      then show ?thesis using False Suc.prems by auto
    qed
  next
    case False
    then have "j = 31" using Suc.prems by simp
    then show ?thesis using Suc.prems by simp
  qed
qed

lemma bsz_al_pow2:
  assumes "unat psz < 2 ^ 31"
  shows "is_pow2 (bsz_al sz psz)"
proof -
  let ?s = "if sz > psz then psz else sz"
  have "unat ?s < 2 ^ 31" using assms by (simp add: word_less_nat_alt)
  from bsz_al_loop_spec [OF this, of 1 0 32] show ?thesis by (auto simp: bsz_al_def is_pow2_def)
qed

subsection \<open>Alignments are powers of two\<close>

text \<open>Every struct alignment recorded in the module is 0 or a power of two.\<close>

definition aligns_ok :: "bir_module \<Rightarrow> bool" where
  "aligns_ok M \<longleftrightarrow>
     (\<forall>i < num_types M. t_kind (types M i) = BIR_TYPE_STRUCT \<longrightarrow>
        t_width (types M i) = 0 \<or> is_pow2 (word_of_nat (t_width (types M i))))"

lemma aligns_okD:
  "aligns_ok M \<Longrightarrow> i < num_types M \<Longrightarrow> t_kind (types M i) = BIR_TYPE_STRUCT \<Longrightarrow>
   b < word_of_nat (t_width (types M i)) \<Longrightarrow> is_pow2 (word_of_nat (t_width (types M i)))"
  by (auto simp: aligns_ok_def)

lemma balg_step_pow2:
  assumes "aligns_ok M" "unat psz < 2 ^ 31" "is_pow2 best" "balg_step M psz F rest best = Some (st, b)"
  shows "is_pow2 b"
  using assms bsz_al_pow2 [OF assms(2)]
  by (auto simp: balg_step_def Let_def not_le intro: aligns_okD split: if_splits prod.splits)

lemma balg_run_pow2:
  assumes "aligns_ok M" "unat psz < 2 ^ 31" "is_pow2 best" "balg_run n M psz st best \<noteq> 0"
  shows "is_pow2 (balg_run n M psz st best)"
  using assms
proof (induction n M psz st best rule: balg_run.induct)
  case (2 n M psz F rest best)
  then show ?case
    by (cases "balg_step M psz F rest best") (auto dest: balg_step_pow2 split: if_splits)
qed simp

lemma bir_balg_pow2:
  assumes "aligns_ok M" "unat psz < 2 ^ 31" "bir_balg M ty psz \<noteq> 0"
  shows "is_pow2 (bir_balg M ty psz)"
  using assms unfolding bir_balg_def by (intro balg_run_pow2) (auto simp: is_pow2_def intro: exI [of _ 0])

subsection \<open>Layout\<close>

lemma fgep_walk_step:
  "rest \<noteq> [] \<Longrightarrow> fgep_walk M psz (ft # rest) o1 =
     (let a = bir_balg M ft psz; s = bir_bsz M ft psz; o2 = bsz_up o1 a
      in if a = 0 \<or> s = 0 \<or> o2 > 0xFFFFFFFF - s then None else fgep_walk M psz rest (o2 + s))"
  by (simp add: Let_def)

lemma fgep_walk_snoc:
  assumes "fgep_walk M psz (pre @ [x]) o0 = Some o1"
  shows "fgep_walk M psz (pre @ [x, y]) o0 =
    (let s = bir_bsz M x psz; a = bir_balg M y psz
     in if s = 0 \<or> o1 > 0xFFFFFFFF - s \<or> a = 0 then None else Some (bsz_up (o1 + s) a))"
  using assms
proof (induction pre arbitrary: o0)
  case Nil
  then show ?case by (auto simp: Let_def split: if_splits)
next
  case (Cons z pre)
  then show ?case by (simp add: fgep_walk_step Let_def del: fgep_walk.simps split: if_splits)
qed

lemma fgep_walk_last:
  assumes "fgep_walk M psz (pre @ [x]) o0 = Some o1"
  shows "bir_balg M x psz \<noteq> 0 \<and> (\<exists>o2. o1 = bsz_up o2 (bir_balg M x psz))"
  using assms
proof (induction pre arbitrary: o0)
  case Nil
  then show ?case by (auto simp: Let_def split: if_splits)
next
  case (Cons z pre)
  then show ?case by (simp add: fgep_walk_step Let_def del: fgep_walk.simps split: if_splits)
qed

text \<open>
  Property C37.  The offset \<open>bir_fgep\<close> computes for a field is a multiple of the alignment of
  the field's type, for every module whose struct alignments are powers of two.
\<close>

theorem bir_fgep_aligned:
  assumes "aligns_ok M" "unat psz < 2 ^ 31" "bir_fgep M I psz = Some off"
    and "st = t_inner (types M (bvty M (i_operands I 0)))" "\<not> t_uni (types M st)"
    and "ft = t_inner (types M (i_type I))"
  shows "bir_balg M ft psz \<noteq> 0 \<and> unat (bir_balg M ft psz) dvd unat off"
proof -
  define fs fi where "fs = t_count (types M st)"
    and "fi = unat (ucast (c_d (bir_consts M (BIR_VAL_INDEX (i_operands I 1)))) :: u32)"
  have "fgep_walk M psz (map (type_fields M) [fs..<fs + fi + 1]) 0 = Some off"
    and ft: "ft = type_fields M (fs + fi)"
    using assms(3-6) by (auto simp: bir_fgep_def Let_def fs_def fi_def split: if_splits)
  then have "fgep_walk M psz (map (type_fields M) [fs..<fs + fi] @ [ft]) 0 = Some off" by simp
  from fgep_walk_last [OF this] show ?thesis
    using bir_balg_pow2 [OF assms(1,2)] bsz_up_dvd by blast
qed

text \<open>
  Neighbouring fields do not overlap: in the walk of \<open>bir_fgep\<close> the offset of a
  field is at least the offset of the field before it plus that field's size, as long as the
  struct ends below the 32-bit wrap.
\<close>

theorem fgep_fields_disjoint:
  assumes "aligns_ok M" "unat psz < 2 ^ 31"
    and "fgep_walk M psz (pre @ [x]) 0 = Some o1" "fgep_walk M psz (pre @ [x, y]) 0 = Some o2"
    and "unat o1 + unat (bir_bsz M x psz) + unat (bir_balg M y psz) \<le> 2 ^ 32"
  shows "unat o1 + unat (bir_bsz M x psz) \<le> unat o2 \<and>
    unat o2 < unat o1 + unat (bir_bsz M x psz) + unat (bir_balg M y psz)"
proof -
  let ?s = "bir_bsz M x psz" and ?a = "bir_balg M y psz"
  have o2: "o2 = bsz_up (o1 + ?s) ?a" and a: "?a \<noteq> 0"
    using assms(4) unfolding fgep_walk_snoc [OF assms(3)] by (auto simp: Let_def split: if_splits)
  have p: "is_pow2 ?a" by (rule bir_balg_pow2 [OF assms(1,2) a])
  have "0 < unat ?a" using a by (simp add: unat_gt_0)
  then have u: "unat (o1 + ?s) = unat o1 + unat ?s"
    using assms(5) by (subst unat_add_lem [THEN iffD1]) simp_all
  show ?thesis using bsz_up_ge [OF p, of "o1 + ?s"] assms(5) unfolding o2 u by simp
qed

subsection \<open>Examples\<close>

text \<open>A module with the types i8, i32, a struct of the two, and one of a huge array and an i32.\<close>

definition int_type :: "nat \<Rightarrow> bir_type" where
  "int_type w = zero_type\<lparr>t_kind := BIR_TYPE_INT, t_width := w\<rparr>"

definition layout_module :: bir_module where
  "layout_module = (cleared_module (\<lambda>_. zero_inst))\<lparr>
     types := (\<lambda>_. zero_type)(0 := int_type 8, 1 := int_type 32,
       2 := zero_type\<lparr>t_kind := BIR_TYPE_STRUCT, t_count := 0, t_num_fields := 2\<rparr>,
       3 := zero_type\<lparr>t_kind := BIR_TYPE_ARRAY, t_inner := 0, t_count := 0xFFFFFFFF\<rparr>,
       4 := zero_type\<lparr>t_kind := BIR_TYPE_STRUCT, t_count := 2, t_num_fields := 2\<rparr>,
       5 := zero_type\<lparr>t_kind := BIR_TYPE_PTR, t_inner := 2\<rparr>,
       6 := zero_type\<lparr>t_kind := BIR_TYPE_PTR, t_inner := 1\<rparr>),
     num_types := 7,
     type_fields := (\<lambda>_. 0)(0 := 0, 1 := 1, 2 := 3, 3 := 1), num_type_fields := 4,
     bir_consts := (\<lambda>_. zero_const)(0 := zero_const\<lparr>c_type := 1, c_d := 1\<rparr>), num_consts := 1,
     insts := (\<lambda>_. zero_inst)(0 := zero_inst\<lparr>i_op := BIR_ALLOCA, i_type := 5\<rparr>), num_insts := 1\<rparr>"

definition layout_gep :: bir_inst where
  "layout_gep = zero_inst\<lparr>i_op := BIR_GEP, i_num_operands := 2, i_type := 6,
     i_operands := ops_of [BIR_MAKE_VAL 0, BIR_MAKE_CONST 0]\<rparr>"

lemma bsz_al_loop_numeral [simp]:
  "bsz_al_loop (numeral k) a sz =
     (if a * 2 \<le> sz then bsz_al_loop (pred_numeral k) (a * 2) sz else a)"
  by (simp add: numeral_eq_Suc)

lemmas layout_defs = layout_module_def cleared_module_def int_type_def zero_type_def bsz_al_def
  scalar_width_def bsz_up_def new_frame_def balg_step_def bsz_step_def bsz_pop_def
  word_le_nat_alt word_less_nat_alt

lemma layout_align: "bir_balg layout_module 0 8 = 1" "bir_balg layout_module 1 8 = 4"
  by (simp_all add: bir_balg_def layout_defs)

lemma layout_size: "bir_bsz layout_module 0 8 = 1"
  by (simp add: bir_bsz_def layout_defs)

text \<open>
  The size of a struct can wrap: a struct of \<open>2^32 - 1\<close> bytes and a 32-bit
  integer is given the size 4 instead of the overflow answer 0, because \<open>bsz_up\<close> wraps before
  the overflow test.
\<close>

theorem bir_bsz_wraps: "bir_bsz layout_module 4 8 = 4 \<and> bir_bsz layout_module 3 8 = 0xFFFFFFFF"
  by (simp add: bir_bsz_def layout_defs)

lemma layout_aligns_ok: "aligns_ok layout_module"
  unfolding aligns_ok_def by (auto simp: layout_defs)

lemma layout_walk:
  "fgep_walk layout_module 8 [0] 0 = Some 0" "fgep_walk layout_module 8 [0, 1] 0 = Some 4"
  by (simp_all add: layout_align layout_align(2) [unfolded One_nat_def] layout_size bsz_up_def word_less_nat_alt)

lemma layout_fgep: "bir_fgep layout_module layout_gep 8 = Some 4"
proof -
  have "[0..<Suc (Suc 0)] = [0, 1]" by (simp add: upt_rec)
  then show ?thesis
    using layout_walk(2)
    by (simp add: bir_fgep_def layout_gep_def layout_module_def cleared_module_def int_type_def
        zero_type_def zero_inst_def zero_const_def bvty_def ops_of_def BIR_MAKE_VAL_def
        BIR_MAKE_CONST_def BIR_VAL_INDEX_def BIR_VAL_IS_CONST_def word_less_nat_alt)
qed

theorem bir_fgep_aligned_witness: "unat (bir_balg layout_module 1 8) dvd unat (4 :: u32)"
  using bir_fgep_aligned [OF layout_aligns_ok _ layout_fgep refl _ refl]
  by (simp add: layout_gep_def layout_module_def cleared_module_def int_type_def zero_type_def
      zero_inst_def bvty_def ops_of_def BIR_MAKE_VAL_def BIR_VAL_INDEX_def BIR_VAL_IS_CONST_def)

theorem fgep_fields_disjoint_witness: "unat (0 :: u32) + unat (bir_bsz layout_module 0 8) \<le> unat (4 :: u32)"
  using fgep_fields_disjoint [OF layout_aligns_ok, of 8 "[]" 0 0 1 4]
  by (simp add: layout_walk layout_align layout_size del: fgep_walk.simps)

end
