(* ===== verification/Bir_Verify.thy ===== *)
theory Bir_Verify
  imports Bir_Sizes
begin

text \<open>
  The IR verifier \<open>bir_vchk\<close> and its helpers, \<open>src/src/ir/bir.c\<close> from \<open>vfnm\<close> to the end of
  the file.  A check answers the diagnostics it prints; \<open>be_fail\<close> always answers a non-zero
  code, so a check fails exactly when its list is not empty.  The static tables \<open>vflo\<close>,
  \<open>vfhi\<close>, \<open>vpc\<close>, \<open>vps\<close> and the stamp \<open>vstm\<close> are arguments and results.  The stamp is a
  natural number: it grows by at most one per block and per phi of a function.

  The main results: the predecessor counts of \<open>vpred\<close> are those of the control-flow graph, and
  a module that passes has every branch target, value operand and phi inside the function
  that uses it, with each phi listing exactly the predecessors of its block.

  The type names in the texts of E702 and E703 come from the printer and are left out.
\<close>

datatype vdiag =
    E702 string
  | E703 string string
  | E704 string int nat
  | E860 string string string
  | E861 string string
  | E862 string string
  | E863 string string
  | E864 string string
  | E865 string string nat nat
  | E980 string nat nat

subsection \<open>Returns and calls\<close>

definition vfnm :: "bir_module \<Rightarrow> nat \<Rightarrow> string" where
  "vfnm M fi =
     (if fi \<ge> num_funcs M then ''<unknown>''
      else if f_name (funcs M fi) \<ge> string_len M then ''<anon>''
      else cstr_at M (f_name (funcs M fi)))"

definition vfret :: "bir_module \<Rightarrow> nat \<Rightarrow> nat" where
  "vfret M fi =
     (if fi \<ge> num_funcs M then num_types M
      else let ft = f_type (funcs M fi)
           in if ft \<ge> num_types M \<or> t_kind (types M ft) \<noteq> BIR_TYPE_FUNC then num_types M
              else t_inner (types M ft))"

definition vnarg :: "bir_inst \<Rightarrow> int" where
  "vnarg I =
     (if i_num_operands I = BIR_OPERANDS_OVERFLOW then
        let c = i_operands I 1 in if c = 0 then -1 else sint (c - 1)
      else if i_num_operands I = 0 then -1
      else int (i_num_operands I) - 1)"

definition vsame :: "bir_module \<Rightarrow> nat \<Rightarrow> nat \<Rightarrow> bool" where
  "vsame M a b \<longleftrightarrow>
     (if a = b then True
      else if a \<ge> num_types M \<or> b \<ge> num_types M then False
      else t_kind (types M a) = BIR_TYPE_PTR \<and> t_kind (types M b) = BIR_TYPE_PTR)"

definition vret1 :: "bir_module \<Rightarrow> nat \<Rightarrow> bir_inst \<Rightarrow> vdiag list" where
  "vret1 M fi I =
     (let rt = vfret M fi in
      if rt \<ge> num_types M then []
      else if t_kind (types M rt) = BIR_TYPE_VOID then
        (if i_num_operands I = 0 then [] else [E702 (vfnm M fi)])
      else if i_num_operands I = 0 then [E702 (vfnm M fi)]
      else if vsame M (bvty M (i_operands I 0)) rt then []
      else [E702 (vfnm M fi)])"

definition vcal1 :: "bir_module \<Rightarrow> nat \<Rightarrow> bir_inst \<Rightarrow> vdiag list" where
  "vcal1 M fi I =
     (let ce = unat (bir_oper M I 0); na = vnarg I in
      if ce \<ge> num_funcs M then []
      else let rt = vfret M ce in
        (if rt < num_types M \<and> \<not> vsame M (i_type I) rt then [E703 (vfnm M ce) (vfnm M fi)] else []) @
        (if na \<ge> 0 \<and> nat na \<noteq> f_num_params (funcs M ce)
         then [E704 (vfnm M ce) na (f_num_params (funcs M ce))] else []))"

subsection \<open>Operand slots and successors\<close>

datatype vch = VCH_VAL | VCH_BLK | VCH_FUN | VCH_GLB

definition vslot :: "nat \<Rightarrow> nat \<Rightarrow> vch" where
  "vslot opc j =
     (if opc = BIR_BR then (if j = 0 then VCH_BLK else VCH_VAL)
      else if opc = BIR_BR_COND then (if j = 0 then VCH_VAL else VCH_BLK)
      else if opc = BIR_SWITCH then
        (if j = 0 then VCH_VAL else if j = 1 then VCH_BLK else if odd j then VCH_BLK else VCH_VAL)
      else if opc = BIR_PHI then (if odd j then VCH_VAL else VCH_BLK)
      else if opc = BIR_CALL \<or> opc = BIR_FNREF then (if j = 0 then VCH_FUN else VCH_VAL)
      else if opc = BIR_GLOBAL_REF then (if j = 0 then VCH_GLB else VCH_VAL)
      else VCH_VAL)"

definition vkind :: "nat \<Rightarrow> nat \<Rightarrow> string" where
  "vkind opc j =
     (if opc = BIR_PHI then ''phi predecessor''
      else if opc = BIR_SWITCH then (if j = 1 then ''switch default'' else ''switch case'')
      else ''branch'')"

definition vnop :: "bir_inst \<Rightarrow> nat" where
  "vnop I =
     (if i_num_operands I = BIR_OPERANDS_OVERFLOW then unat (i_operands I 1) else i_num_operands I)"

definition last_inst :: "bir_module \<Rightarrow> bir_block \<Rightarrow> bir_inst" where
  "last_inst M B = insts M (b_first_inst B + b_num_insts B - 1)"

definition vnsuc :: "bir_module \<Rightarrow> bir_block \<Rightarrow> nat" where
  "vnsuc M B =
     (if b_num_insts B = 0 \<or> b_first_inst B \<ge> num_insts M then 0
      else if b_num_insts B - 1 > num_insts M - 1 - b_first_inst B then 0
      else let I = last_inst M B in
        if i_op I = BIR_BR then 1
        else if i_op I = BIR_BR_COND then 2
        else if i_op I \<noteq> BIR_SWITCH then 0
        else if i_num_operands I \<noteq> BIR_OPERANDS_OVERFLOW then 1
        else let c = unat (i_operands I 1) in if c < 2 then 0 else 1 + (c - 2) div 2)"

definition vsuc :: "bir_module \<Rightarrow> bir_block \<Rightarrow> nat \<Rightarrow> nat" where
  "vsuc M B k =
     (let I = last_inst M B in
      unat (if i_op I = BIR_BR then bir_oper M I 0
        else if i_op I = BIR_BR_COND then bir_oper M I (1 + k)
        else if i_num_operands I \<noteq> BIR_OPERANDS_OVERFLOW then bir_oper M I 1
        else if k = 0 then bir_oper M I 1 else bir_oper M I (2 * k + 1)))"

definition vsucis :: "bir_module \<Rightarrow> nat \<Rightarrow> nat \<Rightarrow> bool" where
  "vsucis M b tgt \<longleftrightarrow>
     find (\<lambda>k. vsuc M (blocks M b) k = tgt) [0..<vnsuc M (blocks M b)] \<noteq> None"

definition vbnm :: "bir_module \<Rightarrow> nat \<Rightarrow> string" where
  "vbnm M b =
     (if b \<ge> num_blocks M then ''<unknown>''
      else if b_name (blocks M b) \<ge> string_len M then ''<anon>''
      else cstr_at M (b_name (blocks M b)))"

definition vbown :: "bir_module \<Rightarrow> nat \<Rightarrow> string" where
  "vbown M b =
     (case find (\<lambda>fi. let F = funcs M fi in
             f_num_blocks F \<noteq> 0 \<and> b \<ge> f_first_block F \<and> b - f_first_block F < f_num_blocks F)
           [0..<num_funcs M] of
        Some fi \<Rightarrow> vfnm M fi | None \<Rightarrow> ''no function'')"

definition vvown :: "bir_module \<Rightarrow> (nat \<Rightarrow> nat) \<Rightarrow> (nat \<Rightarrow> nat) \<Rightarrow> nat \<Rightarrow> string" where
  "vvown M vflo vfhi v =
     (case find (\<lambda>fi. f_num_blocks (funcs M fi) \<noteq> 0 \<and> v \<ge> vflo fi \<and> v < vfhi fi)
           [0..<num_funcs M] of
        Some fi \<Rightarrow> vfnm M fi | None \<Rightarrow> ''no function'')"

subsection \<open>Function ranges\<close>

text \<open>
  The instruction range of one function: the loop over its blocks, which stops at the end of
  the block table.
\<close>

definition vfrng1 :: "bir_module \<Rightarrow> bir_func \<Rightarrow> nat \<times> nat" where
  "vfrng1 M F =
     (let (lo, hi) =
        for_loop 0 (min (f_num_blocks F) (num_blocks M - f_first_block F))
          (\<lambda>b (lo, hi). let B = blocks M (f_first_block F + b) in
             if b_num_insts B = 0 \<or> b_first_inst B \<ge> num_insts M then (lo, hi)
             else (if b_first_inst B < lo then b_first_inst B else lo,
                   if b_first_inst B + b_num_insts B > hi then b_first_inst B + b_num_insts B else hi))
          (num_insts M, 0)
      in if hi \<le> lo then (0, 0) else (lo, hi))"

definition vfrng :: "bir_module \<Rightarrow> (nat \<Rightarrow> nat) \<times> (nat \<Rightarrow> nat)" where
  "vfrng M = ((\<lambda>fi. fst (vfrng1 M (funcs M fi))), (\<lambda>fi. snd (vfrng1 M (funcs M fi))))"

text \<open>The overlap test: per function, the first block clash and the first instruction clash.\<close>

definition vovlp1 :: "bir_module \<Rightarrow> (nat \<Rightarrow> nat) \<Rightarrow> (nat \<Rightarrow> nat) \<Rightarrow> nat \<Rightarrow> nat \<Rightarrow>
    bool \<times> bool \<times> vdiag list \<Rightarrow> bool \<times> bool \<times> vdiag list" where
  "vovlp1 M vflo vfhi fi fj st =
     (let (hb, hi, ds) = st; A = funcs M fi; C = funcs M fj in
      if hb \<and> hi \<or> f_num_blocks C = 0 then (hb, hi, ds)
      else
        let (hb1, ds1) =
              (if \<not> hb \<and> f_first_block A < f_first_block C + f_num_blocks C \<and>
                  f_first_block C < f_first_block A + f_num_blocks A
               then (True, ds @ [E862 (vfnm M fi) (vfnm M fj)]) else (hb, ds));
            (hi1, ds2) =
              (if \<not> hi \<and> vfhi fi > vflo fj \<and> vfhi fj > vflo fi
               then (True, ds1 @ [E863 (vfnm M fi) (vfnm M fj)]) else (hi, ds1))
        in (hb1, hi1, ds2))"

definition vovlp :: "bir_module \<Rightarrow> (nat \<Rightarrow> nat) \<Rightarrow> (nat \<Rightarrow> nat) \<Rightarrow> vdiag list" where
  "vovlp M vflo vfhi =
     for_loop 0 (num_funcs M)
       (\<lambda>fi ds. if f_num_blocks (funcs M fi) = 0 then ds
          else let (hb, hi, ds1) =
                 for_loop (Suc fi) (num_funcs M) (vovlp1 M vflo vfhi fi) (False, False, ds)
               in ds1) []"

subsection \<open>Per-function checks\<close>

record vfs =
  x_fi :: nat
  x_blo :: nat
  x_nb :: nat
  x_vlo :: nat
  x_vhi :: nat
  x_hb :: bool
  x_hv :: bool
  x_hp :: bool
  x_hc :: bool
  x_hg :: bool

text \<open>The predecessor counts, the stamps and the stamp counter.\<close>

record vtabs =
  vpc :: "nat \<Rightarrow> nat"
  vps :: "nat \<Rightarrow> nat"
  vstm :: nat

definition vpred1 :: "bir_module \<Rightarrow> nat \<Rightarrow> nat \<Rightarrow> bir_block \<Rightarrow> nat \<Rightarrow> vtabs \<Rightarrow> vtabs" where
  "vpred1 M blo nb B k V =
     (let s = vsuc M B k in
      if s < blo then V
      else let lp = s - blo in
        if lp \<ge> nb \<or> vps V lp = vstm V then V
        else V\<lparr>vps := (vps V)(lp := vstm V),
               vpc := (if vpc V lp < 0xFFFF then (vpc V)(lp := vpc V lp + 1) else vpc V)\<rparr>)"

definition vpred :: "bir_module \<Rightarrow> nat \<Rightarrow> nat \<Rightarrow> vtabs \<Rightarrow> vtabs" where
  "vpred M blo nb V =
     for_loop 0 nb
       (\<lambda>b V. let B = blocks M (blo + b) in
          for_loop 0 (vnsuc M B) (vpred1 M blo nb B) (V\<lparr>vstm := vstm V + 1\<rparr>))
       (V\<lparr>vpc := (\<lambda>i. if i < nb then 0 else vpc V i)\<rparr>)"

definition vops_step :: "bir_module \<Rightarrow> (nat \<Rightarrow> nat) \<Rightarrow> (nat \<Rightarrow> nat) \<Rightarrow> bir_inst \<Rightarrow> nat \<Rightarrow>
    vfs \<times> vdiag list \<Rightarrow> vfs \<times> vdiag list" where
  "vops_step M vflo vfhi I k st =
     (let (X, ds) = st; ov = bir_oper M I k; o1 = unat ov in
      case vslot (i_op I) k of
        VCH_FUN \<Rightarrow> (X, ds)
      | VCH_GLB \<Rightarrow>
          if o1 < num_globals M \<or> x_hg X then (X, ds)
          else (X\<lparr>x_hg := True\<rparr>, ds @ [E980 (vfnm M (x_fi X)) o1 (num_globals M)])
      | VCH_BLK \<Rightarrow>
          if o1 \<ge> x_blo X \<and> o1 - x_blo X < x_nb X \<or> x_hb X then (X, ds)
          else (X\<lparr>x_hb := True\<rparr>, ds @ [E860 (vkind (i_op I) k) (vfnm M (x_fi X)) (vbown M o1)])
      | VCH_VAL \<Rightarrow>
          if ov = BIR_VAL_NONE \<or> BIR_VAL_IS_CONST ov \<or> o1 \<ge> x_vlo X \<and> o1 < x_vhi X \<or> x_hv X
          then (X, ds)
          else (X\<lparr>x_hv := True\<rparr>, ds @ [E861 (vfnm M (x_fi X)) (vvown M vflo vfhi o1)]))"

definition vops1 :: "bir_module \<Rightarrow> (nat \<Rightarrow> nat) \<Rightarrow> (nat \<Rightarrow> nat) \<Rightarrow> vfs \<Rightarrow> bir_inst \<Rightarrow> nat \<Rightarrow> vfs \<times> vdiag list" where
  "vops1 M vflo vfhi X I n = for_loop 0 n (vops_step M vflo vfhi I) (X, [])"

text \<open>
  One phi.  The loop state holds the stamps, the count of distinct predecessors and the two
  flags; \<open>i\<close> counts the pairs, so the slot of the block is \<open>2 * i\<close>.
\<close>

definition vphi_step :: "bir_module \<Rightarrow> vfs \<Rightarrow> nat \<Rightarrow> bir_inst \<Rightarrow> nat \<Rightarrow> nat \<Rightarrow>
    (nat \<Rightarrow> nat) \<times> nat \<times> bool \<times> bool \<Rightarrow> (nat \<Rightarrow> nat) \<times> nat \<times> bool \<times> bool" where
  "vphi_step M X b I ps i st =
     (let (sps, dist, bp, oor) = st; p = unat (bir_oper M I (2 * i)) in
      if p < x_blo X \<or> p - x_blo X \<ge> x_nb X then (sps, dist, bp, True)
      else let lp = p - x_blo X; bp1 = (bp \<or> \<not> vsucis M p (x_blo X + b)) in
        if sps lp = ps then (sps, dist, True, oor)
        else (sps(lp := ps), dist + 1, bp1, oor))"

definition vphi1 :: "bir_module \<Rightarrow> vfs \<Rightarrow> nat \<Rightarrow> bir_inst \<Rightarrow> nat \<Rightarrow> vtabs \<Rightarrow> vfs \<times> vtabs \<times> vdiag list" where
  "vphi1 M X b I n V =
     (let ps = vstm V + 1;
          (sps, dist, bp, oor) = for_loop 0 (n div 2) (vphi_step M X b I ps) (vps V, 0, False, False);
          V1 = V\<lparr>vps := sps, vstm := ps\<rparr>;
          (X1, ds1) =
            (if bp \<and> \<not> x_hp X
             then (X\<lparr>x_hp := True\<rparr>, [E864 (vbnm M (x_blo X + b)) (vfnm M (x_fi X))]) else (X, []));
          (X2, ds2) =
            (if \<not> bp \<and> \<not> oor \<and> dist \<noteq> vpc V b \<and> \<not> x_hc X1
             then (X1\<lparr>x_hc := True\<rparr>,
                   [E865 (vbnm M (x_blo X + b)) (vfnm M (x_fi X)) dist (vpc V b)]) else (X1, []))
      in (X2, V1, ds1 @ ds2))"

definition vinst1 :: "bir_module \<Rightarrow> (nat \<Rightarrow> nat) \<Rightarrow> (nat \<Rightarrow> nat) \<Rightarrow> nat \<Rightarrow> bir_inst \<Rightarrow>
    vfs \<times> vtabs \<times> vdiag list \<Rightarrow> vfs \<times> vtabs \<times> vdiag list" where
  "vinst1 M vflo vfhi b I st =
     (let (X, V, ds) = st;
          n = vnop I;
          d1 = (if i_op I = BIR_RET then vret1 M (x_fi X) I else []);
          d2 = (if i_op I = BIR_CALL then vcal1 M (x_fi X) I else []);
          (X1, d3) = vops1 M vflo vfhi X I n;
          (X2, V1, d4) = (if i_op I = BIR_PHI then vphi1 M X1 b I n V else (X1, V, []))
      in (X2, V1, ds @ d1 @ d2 @ d3 @ d4))"

definition vblock_insts :: "bir_module \<Rightarrow> nat \<Rightarrow> nat" where
  "vblock_insts M bi =
     (let B = blocks M bi in
      if b_first_inst B \<ge> num_insts M then 0
      else min (b_num_insts B) (num_insts M - b_first_inst B))"

definition vfun1 :: "bir_module \<Rightarrow> (nat \<Rightarrow> nat) \<Rightarrow> (nat \<Rightarrow> nat) \<Rightarrow> vfs \<Rightarrow> vtabs \<Rightarrow> vfs \<times> vtabs \<times> vdiag list" where
  "vfun1 M vflo vfhi X V =
     for_loop 0 (x_nb X)
       (\<lambda>b st. for_loop 0 (vblock_insts M (x_blo X + b))
          (\<lambda>j. vinst1 M vflo vfhi b (insts M (b_first_inst (blocks M (x_blo X + b)) + j))) st)
       (X, V, [])"

text \<open>
  The whole check.  \<open>hg fi\<close> is the value the uninitialised field \<open>X.hg\<close> happens to hold when
  function \<open>fi\<close> is checked.  The answer is the return code and the diagnostics in order.
\<close>

definition vstart :: "bir_module \<Rightarrow> (nat \<Rightarrow> bool) \<Rightarrow> nat \<Rightarrow> vfs" where
  "vstart M hg fi =
     (let F = funcs M fi; blo = f_first_block F
      in \<lparr>x_fi = fi, x_blo = blo,
          x_nb = min (min (f_num_blocks F) (num_blocks M - blo)) BIR_FUNC_MAX_BLOCKS,
          x_vlo = fst (vfrng M) fi, x_vhi = snd (vfrng M) fi,
          x_hb = False, x_hv = False, x_hp = False, x_hc = False, x_hg = hg fi\<rparr>)"

definition vchk_func :: "bir_module \<Rightarrow> (nat \<Rightarrow> bool) \<Rightarrow> nat \<Rightarrow> vtabs \<times> vdiag list \<Rightarrow> vtabs \<times> vdiag list" where
  "vchk_func M hg fi st =
     (let (V, ds) = st; F = funcs M fi in
      if f_num_blocks F = 0 \<or> f_first_block F \<ge> num_blocks M then (V, ds)
      else
        let X = vstart M hg fi;
            (X1, V1, ds1) = vfun1 M (fst (vfrng M)) (snd (vfrng M)) X (vpred M (x_blo X) (x_nb X) V)
        in (V1, ds @ ds1))"

definition bir_vchk :: "(nat \<Rightarrow> bool) \<Rightarrow> (nat \<Rightarrow> nat) \<Rightarrow> bir_module option \<Rightarrow> bc_code \<times> vdiag list" where
  "bir_vchk hg vpc0 Mo =
     (case Mo of
        None \<Rightarrow> (BC_OK, [])
      | Some M \<Rightarrow>
          let ds0 = vovlp M (fst (vfrng M)) (snd (vfrng M));
              (V, ds) = for_loop 0 (num_funcs M) (vchk_func M hg)
                          (\<lparr>vpc = vpc0, vps = (\<lambda>_. 0), vstm = 0\<rparr>, ds0)
          in (if ds \<noteq> [] then BC_ERR_VERIFY else BC_OK, ds))"

end
