(* ===== verification/Bir_Verify_Sound.thy ===== *)
theory Bir_Verify_Sound
  imports Bir_Verify
begin

text \<open>
  Soundness of the verifier: what a silent run of each check of \<open>Bir_Verify\<close> establishes, from
  the operand slots and the phis up to the whole module, by the loop rule of the prelude.
\<close>

subsection \<open>Specifications\<close>

definition preds :: "bir_module \<Rightarrow> nat \<Rightarrow> nat \<Rightarrow> nat \<Rightarrow> nat set" where
  "preds M blo nb b =
     {p. p < nb \<and> (\<exists>k < vnsuc M (blocks M (blo + p)). vsuc M (blocks M (blo + p)) k = blo + b)}"

definition stamps_ok :: "vtabs \<Rightarrow> bool" where
  "stamps_ok V \<longleftrightarrow> (\<forall>i. vps V i \<le> vstm V)"

definition oper_ok :: "bir_module \<Rightarrow> vfs \<Rightarrow> bir_inst \<Rightarrow> nat \<Rightarrow> bool" where
  "oper_ok M X I k \<longleftrightarrow>
     (let ov = bir_oper M I k; o1 = unat ov in
      case vslot (i_op I) k of
        VCH_FUN \<Rightarrow> True
      | VCH_GLB \<Rightarrow> o1 < num_globals M \<or> x_hg X
      | VCH_BLK \<Rightarrow> x_blo X \<le> o1 \<and> o1 < x_blo X + x_nb X
      | VCH_VAL \<Rightarrow> ov = BIR_VAL_NONE \<or> BIR_VAL_IS_CONST ov \<or> x_vlo X \<le> o1 \<and> o1 < x_vhi X)"

definition phi_preds :: "bir_module \<Rightarrow> vfs \<Rightarrow> bir_inst \<Rightarrow> nat list" where
  "phi_preds M X I = map (\<lambda>i. unat (bir_oper M I (2 * i)) - x_blo X) [0..<vnop I div 2]"

definition inst_ok :: "bir_module \<Rightarrow> vfs \<Rightarrow> nat \<Rightarrow> bir_inst \<Rightarrow> bool" where
  "inst_ok M X b I \<longleftrightarrow>
     (\<forall>k < vnop I. oper_ok M X I k) \<and>
     (i_op I = BIR_RET \<longrightarrow> vret1 M (x_fi X) I = []) \<and>
     (i_op I = BIR_CALL \<longrightarrow> vcal1 M (x_fi X) I = []) \<and>
     (i_op I = BIR_PHI \<longrightarrow>
        distinct (phi_preds M X I) \<and> set (phi_preds M X I) = preds M (x_blo X) (x_nb X) b)"

definition fresh :: "vfs \<Rightarrow> bool" where
  "fresh X \<longleftrightarrow> \<not> x_hb X \<and> \<not> x_hv X \<and> \<not> x_hp X \<and> \<not> x_hc X"

lemma vsucis_iff:
  "vsucis M b tgt \<longleftrightarrow> (\<exists>k < vnsuc M (blocks M b). vsuc M (blocks M b) k = tgt)"
  by (auto simp: vsucis_def find_None_iff)

subsection \<open>Predecessor counts\<close>

lemma preds_finite: "finite (preds M blo nb b)"
  by (simp add: preds_def)

lemma preds_card: "card (preds M blo nb b) \<le> nb"
proof -
  have "preds M blo nb b \<subseteq> {..<nb}" by (auto simp: preds_def)
  from card_mono [OF _ this] show ?thesis by simp
qed

text \<open>Predecessors among the first \<open>m\<close> blocks.\<close>

definition preds_upto :: "bir_module \<Rightarrow> nat \<Rightarrow> nat \<Rightarrow> nat \<Rightarrow> nat set" where
  "preds_upto M blo m b = {p. p < m \<and> vsucis M (blo + p) (blo + b)}"

lemma preds_upto_all: "preds_upto M blo nb b = preds M blo nb b"
  by (auto simp: preds_upto_def preds_def vsucis_iff)

lemma preds_upto_Suc:
  "card (preds_upto M blo (Suc m) b) = card (preds_upto M blo m b) + of_bool (vsucis M (blo + m) (blo + b))"
proof -
  have "preds_upto M blo (Suc m) b =
      (if vsucis M (blo + m) (blo + b) then insert m (preds_upto M blo m b) else preds_upto M blo m b)"
    by (auto simp: preds_upto_def less_Suc_eq)
  moreover have "finite (preds_upto M blo m b)" "m \<notin> preds_upto M blo m b"
    by (auto simp: preds_upto_def)
  ultimately show ?thesis by simp
qed

lemma preds_upto_card: "card (preds_upto M blo m b) \<le> m"
proof -
  have "preds_upto M blo m b \<subseteq> {..<m}" by (auto simp: preds_upto_def)
  from card_mono [OF _ this] show ?thesis by simp
qed

definition pred_inv :: "bir_module \<Rightarrow> nat \<Rightarrow> nat \<Rightarrow> nat \<Rightarrow> vtabs \<Rightarrow> bool" where
  "pred_inv M blo nb m V \<longleftrightarrow> stamps_ok V \<and> (\<forall>b < nb. vpc V b = card (preds_upto M blo m b))"

lemma vpred1_inv:
  fixes M blo nb m B
  defines "seen \<equiv> \<lambda>k b. \<exists>k' < k. vsuc M B k' = blo + b"
  defines "Q \<equiv> \<lambda>k V. (\<forall>i. vps V i \<le> vstm V) \<and>
      (\<forall>b < nb. vpc V b = card (preds_upto M blo m b) + of_bool (seen k b) \<and>
         (vps V b = vstm V \<longleftrightarrow> seen k b))"
  assumes "m < nb" "nb \<le> 0xFFFF" "Q k V"
  shows "Q (Suc k) (vpred1 M blo nb B k V)"
proof (cases "vsuc M B k < blo \<or> vsuc M B k - blo \<ge> nb")
  case True
  then have "seen (Suc k) b = seen k b" if "b < nb" for b
    using that by (auto simp: seen_def less_Suc_eq)
  moreover have "vpred1 M blo nb B k V = V" using True by (auto simp: vpred1_def Let_def)
  ultimately show ?thesis using assms(5) unfolding Q_def by simp
next
  case False
  define lp where "lp = vsuc M B k - blo"
  have lp: "lp < nb" "vsuc M B k = blo + lp" using False by (auto simp: lp_def)
  have s: "seen (Suc k) b = (seen k b \<or> b = lp)" for b
    using lp by (auto simp: seen_def less_Suc_eq)
  have Q: "\<And>i. vps V i \<le> vstm V" "\<And>b. b < nb \<Longrightarrow> vpc V b = card (preds_upto M blo m b) + of_bool (seen k b)"
    "\<And>b. b < nb \<Longrightarrow> vps V b = vstm V \<longleftrightarrow> seen k b"
    using assms(5) unfolding Q_def by auto
  show ?thesis
  proof (cases "seen k lp")
    case True
    then have "vpred1 M blo nb B k V = V" using Q(3) [OF lp(1)] lp by (simp add: vpred1_def)
    moreover have "seen (Suc k) b = seen k b" for b using s True by auto
    ultimately show ?thesis using assms(5) unfolding Q_def by simp
  next
    case F: False
    have "vpc V lp < 0xFFFF"
      using Q(2) [OF lp(1)] F preds_upto_card [of M blo m lp] assms(3,4) by simp
    then have v: "vpred1 M blo nb B k V = V\<lparr>vps := (vps V)(lp := vstm V), vpc := (vpc V)(lp := vpc V lp + 1)\<rparr>"
      using Q(3) [OF lp(1)] lp F by (simp add: vpred1_def)
    show ?thesis unfolding Q_def v using Q s F by auto
  qed
qed

lemma vpred_spec:
  assumes "nb \<le> 0xFFFF" "stamps_ok V"
  shows "stamps_ok (vpred M blo nb V)" "\<And>b. b < nb \<Longrightarrow> vpc (vpred M blo nb V) b = card (preds M blo nb b)"
proof -
  have "pred_inv M blo nb nb (vpred M blo nb V)"
    unfolding vpred_def Let_def
  proof (rule for_loop_inv [where P = "pred_inv M blo nb"])
    show "pred_inv M blo nb 0 (V\<lparr>vpc := \<lambda>i. if i < nb then 0 else vpc V i\<rparr>)"
      using assms(2) by (simp add: pred_inv_def stamps_ok_def preds_upto_def)
  next
    fix m and V :: vtabs
    assume m: "m < nb" and inv: "pred_inv M blo nb m V"
    let ?B = "blocks M (blo + m)" and ?Vs = "V\<lparr>vstm := vstm V + 1\<rparr>"
    let ?V = "for_loop 0 (vnsuc M ?B) (vpred1 M blo nb ?B) ?Vs"
    let ?Q = "\<lambda>k V. (\<forall>i. vps V i \<le> vstm V) \<and>
      (\<forall>b < nb. vpc V b = card (preds_upto M blo m b) + of_bool (\<exists>k' < k. vsuc M ?B k' = blo + b) \<and>
         (vps V b = vstm V \<longleftrightarrow> (\<exists>k' < k. vsuc M ?B k' = blo + b)))"
    have "?Q (vnsuc M ?B) ?V"
    proof (rule for_loop_inv [where P = ?Q])
      have "vps V i \<le> vstm V" for i using inv by (simp add: pred_inv_def stamps_ok_def)
      then have "vps V i \<le> Suc (vstm V)" "vps V i \<noteq> Suc (vstm V)" for i
        by (simp_all add: le_Suc_eq less_Suc_eq_le le_imp_less_Suc less_imp_neq)
      then show "?Q 0 ?Vs" using inv by (simp add: pred_inv_def)
    next
      fix k and V' :: vtabs
      assume "?Q k V'"
      then show "?Q (Suc k) (vpred1 M blo nb ?B k V')" by (rule vpred1_inv [OF m assms(1)])
    qed simp
    then show "pred_inv M blo nb (Suc m) ?V"
      by (simp add: pred_inv_def stamps_ok_def preds_upto_Suc vsucis_iff)
  qed simp
  then show "stamps_ok (vpred M blo nb V)" "\<And>b. b < nb \<Longrightarrow> vpc (vpred M blo nb V) b = card (preds M blo nb b)"
    by (simp_all add: pred_inv_def preds_upto_all)
qed


subsection \<open>Operands\<close>

lemma vops_step_ok:
  assumes "vops_step M vflo vfhi I k (X, ds) = (X', [])" "fresh X"
  shows "ds = [] \<and> X' = X \<and> oper_ok M X I k"
  using assms
  by (cases "vslot (i_op I) k") (auto simp: vops_step_def oper_ok_def fresh_def Let_def split: if_splits)

lemma vops_step_grows: "vops_step M vflo vfhi I k (X, ds) = (X', ds') \<Longrightarrow> ds' = [] \<Longrightarrow> ds = []"
  by (cases "vslot (i_op I) k") (auto simp: vops_step_def Let_def split: if_splits)

lemma vops1_ok:
  assumes "vops1 M vflo vfhi X I n = (X', [])" "fresh X"
  shows "X' = X \<and> (\<forall>k < n. oper_ok M X I k)"
proof -
  let ?P = "\<lambda>i st. snd st = [] \<longrightarrow> fst st = X \<and> (\<forall>k < i. oper_ok M X I k)"
  have "?P n (for_loop 0 n (vops_step M vflo vfhi I) (X, []))"
  proof (rule for_loop_inv [where P = ?P])
    fix i and st :: "vfs \<times> vdiag list"
    assume IH: "?P i st"
    obtain X1 ds X2 ds2 where st: "st = (X1, ds)" "vops_step M vflo vfhi I i st = (X2, ds2)"
      by (metis surj_pair)
    show "?P (Suc i) (vops_step M vflo vfhi I i st)"
    proof
      assume "snd (vops_step M vflo vfhi I i st) = []"
      then have d: "vops_step M vflo vfhi I i (X1, ds) = (X2, [])" using st by simp
      then have "ds = []" by (rule vops_step_grows) simp
      then have "X1 = X" "\<forall>k < i. oper_ok M X I k" using IH st by auto
      with vops_step_ok [OF d] assms(2) st
      show "fst (vops_step M vflo vfhi I i st) = X \<and> (\<forall>k < Suc i. oper_ok M X I k)"
        by (simp add: less_Suc_eq)
    qed
  qed simp_all
  then show ?thesis using assms(1) unfolding vops1_def by simp
qed

subsection \<open>Phis\<close>

text \<open>
  The loop over the pairs of a phi: unless a flag is raised, the blocks seen so far are
  distinct predecessors, counted and stamped.
\<close>

definition phi_inv :: "bir_module \<Rightarrow> vfs \<Rightarrow> nat \<Rightarrow> bir_inst \<Rightarrow> nat \<Rightarrow> nat \<Rightarrow>
    (nat \<Rightarrow> nat) \<times> nat \<times> bool \<times> bool \<Rightarrow> bool" where
  "phi_inv M X b I ps m st =
     (let (sps, dist, bp, oor) = st;
          bs = map (\<lambda>i. unat (bir_oper M I (2 * i)) - x_blo X) [0..<m]
      in (\<forall>i. sps i \<le> ps) \<and>
         (\<not> bp \<and> \<not> oor \<longrightarrow>
            distinct bs \<and> dist = m \<and> set bs \<subseteq> preds M (x_blo X) (x_nb X) b \<and>
            (\<forall>i. sps i = ps \<longleftrightarrow> i \<in> set bs)))"

lemma vphi_step_inv:
  assumes "phi_inv M X b I ps m st"
  shows "phi_inv M X b I ps (Suc m) (vphi_step M X b I ps m st)"
proof -
  obtain sps dist bp oor where st: "st = (sps, dist, bp, oor)" by (metis prod_cases4)
  define p where "p = unat (bir_oper M I (2 * m))"
  define bs where "bs = map (\<lambda>i. unat (bir_oper M I (2 * i)) - x_blo X) [0..<m]"
  have bs': "map (\<lambda>i. unat (bir_oper M I (2 * i)) - x_blo X) [0..<Suc m] = bs @ [p - x_blo X]"
    by (simp add: bs_def p_def)
  have IH: "\<And>i. sps i \<le> ps" "\<not> bp \<Longrightarrow> \<not> oor \<Longrightarrow> distinct bs \<and> dist = m \<and>
      set bs \<subseteq> preds M (x_blo X) (x_nb X) b \<and> (\<forall>i. sps i = ps \<longleftrightarrow> i \<in> set bs)"
    using assms unfolding phi_inv_def st Let_def prod.case bs_def [symmetric] by blast+
  show ?thesis
  proof (cases "p < x_blo X \<or> p - x_blo X \<ge> x_nb X")
    case True
    then show ?thesis
      using IH(1) unfolding phi_inv_def vphi_step_def st Let_def prod.case p_def [symmetric] by auto
  next
    case False
    then have pin: "p - x_blo X < x_nb X" "x_blo X + (p - x_blo X) = p" by auto
    have "vsucis M p (x_blo X + b) \<Longrightarrow> p - x_blo X \<in> preds M (x_blo X) (x_nb X) b"
      using pin by (simp add: preds_def vsucis_iff)
    then show ?thesis
      using IH False
      unfolding phi_inv_def vphi_step_def st Let_def prod.case p_def [symmetric] bs' by (auto simp: p_def [symmetric])
  qed
qed

lemma vphi_loop_inv:
  assumes "stamps_ok V"
  shows "phi_inv M X b I (vstm V + 1) m
    (for_loop 0 m (vphi_step M X b I (vstm V + 1)) (vps V, 0, False, False))"
proof (rule for_loop_inv [where P = "phi_inv M X b I (vstm V + 1)"])
  have "vps V i \<le> vstm V" for i using assms by (simp add: stamps_ok_def)
  then have "vps V i \<le> Suc (vstm V)" "vps V i \<noteq> Suc (vstm V)" for i
    by (simp_all add: le_SucI le_imp_less_Suc less_imp_neq)
  then show "phi_inv M X b I (vstm V + 1) 0 (vps V, 0, False, False)"
    by (simp add: phi_inv_def)
qed (simp_all add: vphi_step_inv)

lemma vphi_loop_oor:
  assumes "\<And>i. i < m \<Longrightarrow> x_blo X \<le> unat (bir_oper M I (2 * i)) \<and>
    unat (bir_oper M I (2 * i)) < x_blo X + x_nb X"
  shows "\<not> snd (snd (snd (for_loop 0 m (vphi_step M X b I ps) (s, d, bp, False))))"
proof (rule for_loop_keeps [where P = "\<lambda>st. \<not> snd (snd (snd st))"])
  fix i and t :: "(nat \<Rightarrow> nat) \<times> nat \<times> bool \<times> bool"
  assume "i < m" "\<not> snd (snd (snd t))"
  moreover obtain s d bp oor where "t = (s, d, bp, oor)" by (metis prod_cases4)
  ultimately show "\<not> snd (snd (snd (vphi_step M X b I ps i t)))"
    using assms [of i] by (auto simp: vphi_step_def Let_def)
qed simp

definition phi_in_range :: "bir_module \<Rightarrow> vfs \<Rightarrow> bir_inst \<Rightarrow> bool" where
  "phi_in_range M X I \<longleftrightarrow>
     (\<forall>i < vnop I div 2. x_blo X \<le> unat (bir_oper M I (2 * i)) \<and>
        unat (bir_oper M I (2 * i)) < x_blo X + x_nb X)"

lemma vphi1_ok:
  assumes v: "vphi1 M X b I (vnop I) V = (X', V', ds)" and s: "stamps_ok V"
  shows "stamps_ok V' \<and> vpc V' = vpc V"
    and "ds = [] \<Longrightarrow> fresh X \<Longrightarrow> vpc V b = card (preds M (x_blo X) (x_nb X) b) \<Longrightarrow> phi_in_range M X I \<Longrightarrow>
      X' = X \<and> distinct (phi_preds M X I) \<and> set (phi_preds M X I) = preds M (x_blo X) (x_nb X) b"
proof -
  define st where "st = for_loop 0 (vnop I div 2) (vphi_step M X b I (vstm V + 1)) (vps V, 0, False, False)"
  obtain sps dist bp oor where st': "st = (sps, dist, bp, oor)" by (metis prod_cases4)
  have inv: "phi_inv M X b I (vstm V + 1) (vnop I div 2) (sps, dist, bp, oor)"
    using vphi_loop_inv [OF s, of M X b I "vnop I div 2"] unfolding st_def [symmetric] st' .
  have V': "V' = V\<lparr>vps := sps, vstm := vstm V + 1\<rparr>"
    using v unfolding vphi1_def Let_def st_def [symmetric] st' by (auto split: if_splits)
  show "stamps_ok V' \<and> vpc V' = vpc V" using inv by (simp add: V' stamps_ok_def phi_inv_def)
  assume ds: "ds = []" and fr: "fresh X" and c: "vpc V b = card (preds M (x_blo X) (x_nb X) b)"
    and r: "phi_in_range M X I"
  have oor: "\<not> oor"
    using vphi_loop_oor [of "vnop I div 2" X M I b "vstm V + 1" "vps V" 0 False] r
    unfolding st_def [symmetric] st' by (simp add: phi_in_range_def)
  have d: "\<not> bp \<and> dist = vpc V b \<and> X' = X"
    using v ds fr oor unfolding vphi1_def Let_def st_def [symmetric] st'
    by (auto simp: fresh_def split: if_splits)
  let ?P = "phi_preds M X I" and ?S = "preds M (x_blo X) (x_nb X) b"
  have p: "distinct ?P" "dist = vnop I div 2" "set ?P \<subseteq> ?S"
    using inv d oor by (simp_all add: phi_inv_def phi_preds_def Let_def)
  have "card (set ?P) = card ?S"
    using distinct_card [OF p(1)] p(2) d c by (simp add: phi_preds_def)
  then have "set ?P = ?S" using p(3) by (simp add: card_subset_eq preds_finite)
  then show "X' = X \<and> distinct ?P \<and> set ?P = ?S" using d p(1) by simp
qed

subsection \<open>Functions\<close>

definition pred_counts :: "bir_module \<Rightarrow> vfs \<Rightarrow> vtabs \<Rightarrow> bool" where
  "pred_counts M X V \<longleftrightarrow> stamps_ok V \<and>
     (\<forall>b < x_nb X. vpc V b = card (preds M (x_blo X) (x_nb X) b))"

lemma phi_slots_in_range:
  assumes "i_op I = BIR_PHI" "\<forall>k < vnop I. oper_ok M X I k"
  shows "phi_in_range M X I"
  unfolding phi_in_range_def
proof (intro allI impI)
  fix i
  assume "i < vnop I div 2"
  then have "oper_ok M X I (2 * i)" using assms(2) by simp
  then show "x_blo X \<le> unat (bir_oper M I (2 * i)) \<and> unat (bir_oper M I (2 * i)) < x_blo X + x_nb X"
    using assms(1) by (simp add: oper_ok_def vslot_def Let_def)
qed

lemma vinst1_tabs:
  assumes "pred_counts M Y V" "vinst1 M vflo vfhi b I (X, V, ds) = (X', V', ds')"
  shows "pred_counts M Y V' \<and> (ds' = [] \<longrightarrow> ds = [])"
proof (cases "i_op I = BIR_PHI")
  case True
  obtain X1 d3 X2 V1 d4 where s: "vops1 M vflo vfhi X I (vnop I) = (X1, d3)"
    "vphi1 M X1 b I (vnop I) V = (X2, V1, d4)" by (metis surj_pair)
  have "stamps_ok V1 \<and> vpc V1 = vpc V" by (rule vphi1_ok(1) [OF s(2)]) (use assms(1) in \<open>simp add: pred_counts_def\<close>)
  then show ?thesis using assms True s by (auto simp: vinst1_def pred_counts_def)
next
  case False
  then show ?thesis using assms by (auto simp: vinst1_def Let_def split: prod.splits)
qed

lemma vinst1_ok:
  assumes "pred_counts M X V" "b < x_nb X" "fresh X" "vinst1 M vflo vfhi b I (X, V, ds) = (X', V', [])"
  shows "X' = X \<and> inst_ok M X b I"
proof -
  obtain X1 d3 where s: "vops1 M vflo vfhi X I (vnop I) = (X1, d3)" by (metis surj_pair)
  have d3: "d3 = []" and rc: "i_op I = BIR_RET \<longrightarrow> vret1 M (x_fi X) I = []"
      "i_op I = BIR_CALL \<longrightarrow> vcal1 M (x_fi X) I = []"
    using assms(4) s by (auto simp: vinst1_def Let_def split: prod.splits if_splits)
  have o: "X1 = X" "\<forall>k < vnop I. oper_ok M X I k" using vops1_ok [OF s [unfolded d3] assms(3)] by auto
  show ?thesis
  proof (cases "i_op I = BIR_PHI")
    case True
    obtain X2 V2 d4 where p: "vphi1 M X b I (vnop I) V = (X2, V2, d4)" by (metis surj_pair)
    then have "d4 = []" "X' = X2" using assms(4) s o True by (auto simp: vinst1_def)
    moreover have "stamps_ok V" "vpc V b = card (preds M (x_blo X) (x_nb X) b)"
      using assms(1,2) by (auto simp: pred_counts_def)
    ultimately show ?thesis
      using vphi1_ok(2) [OF p _ _ assms(3) _ phi_slots_in_range [OF True o(2)]] o rc True
      by (simp add: inst_ok_def)
  next
    case False
    then have "X' = X" using assms(4) s o by (auto simp: vinst1_def Let_def)
    then show ?thesis using o rc False by (simp add: inst_ok_def)
  qed
qed

text \<open>The state of the walk over the instructions: silent so far means unchanged flags.\<close>

definition walk_inv :: "bir_module \<Rightarrow> vfs \<Rightarrow> bool \<Rightarrow> vfs \<times> vtabs \<times> vdiag list \<Rightarrow> bool" where
  "walk_inv M X P st =
     (let (X', V, ds) = st in pred_counts M X V \<and> (ds = [] \<longrightarrow> X' = X \<and> P))"

lemma vblock_ok:
  assumes "fresh X" "b < x_nb X" "walk_inv M X P st"
  shows "walk_inv M X (P \<and> (\<forall>j < n. inst_ok M X b (f j)))
    (for_loop 0 n (\<lambda>j. vinst1 M vflo vfhi b (f j)) st)"
proof (rule for_loop_inv [where P = "\<lambda>m. walk_inv M X (P \<and> (\<forall>j < m. inst_ok M X b (f j)))"])
  show "walk_inv M X (P \<and> (\<forall>j < 0. inst_ok M X b (f j))) st" using assms(3) by simp
next
  fix j and st :: "vfs \<times> vtabs \<times> vdiag list"
  assume IH: "walk_inv M X (P \<and> (\<forall>i < j. inst_ok M X b (f i))) st"
  obtain X1 V1 d1 X2 V2 d2 where st: "st = (X1, V1, d1)" "vinst1 M vflo vfhi b (f j) st = (X2, V2, d2)"
    by (metis prod_cases3)
  have IH': "pred_counts M X V1" "d1 = [] \<Longrightarrow> X1 = X \<and> P \<and> (\<forall>i < j. inst_ok M X b (f i))"
    using IH by (auto simp: walk_inv_def st)
  note t = vinst1_tabs [OF IH'(1) st(2) [unfolded st(1)]]
  have "X2 = X \<and> P \<and> (\<forall>i < Suc j. inst_ok M X b (f i))" if e: "d2 = []"
  proof -
    from t e have X1: "X1 = X" and o: "P" "\<forall>i < j. inst_ok M X b (f i)" using IH'(2) by auto
    from vinst1_ok [OF IH'(1) assms(2,1) st(2) [unfolded st(1) X1 e]] o show ?thesis
      by (simp add: less_Suc_eq)
  qed
  then show "walk_inv M X (P \<and> (\<forall>i < Suc j. inst_ok M X b (f i))) (vinst1 M vflo vfhi b (f j) st)"
    using t by (simp add: walk_inv_def st(2) [unfolded st(1)] st(1))
qed simp

definition func_ok :: "bir_module \<Rightarrow> vfs \<Rightarrow> bool" where
  "func_ok M X \<longleftrightarrow>
     (\<forall>b < x_nb X. \<forall>j < vblock_insts M (x_blo X + b).
        inst_ok M X b (insts M (b_first_inst (blocks M (x_blo X + b)) + j)))"

lemma vfun1_ok:
  assumes "fresh X" "pred_counts M X V"
  shows "walk_inv M X (func_ok M X) (vfun1 M vflo vfhi X V)"
proof -
  let ?I = "\<lambda>b j. insts M (b_first_inst (blocks M (x_blo X + b)) + j)"
  let ?ok = "\<lambda>m. \<forall>b < m. \<forall>j < vblock_insts M (x_blo X + b). inst_ok M X b (?I b j)"
  have "walk_inv M X (?ok (x_nb X)) (vfun1 M vflo vfhi X V)"
    unfolding vfun1_def
  proof (rule for_loop_inv [where P = "\<lambda>m. walk_inv M X (?ok m)"])
    show "walk_inv M X (?ok 0) (X, V, [])" using assms(2) by (simp add: walk_inv_def)
  next
    fix b and st :: "vfs \<times> vtabs \<times> vdiag list"
    assume b: "b < x_nb X" and IH: "walk_inv M X (?ok b) st"
    have "?ok (Suc b) = (?ok b \<and> (\<forall>j < vblock_insts M (x_blo X + b). inst_ok M X b (?I b j)))"
      by (auto simp: less_Suc_eq)
    then show "walk_inv M X (?ok (Suc b))
        (for_loop 0 (vblock_insts M (x_blo X + b)) (\<lambda>j. vinst1 M vflo vfhi b (?I b j)) st)"
      using vblock_ok [OF assms(1) b IH] by simp
  qed simp
  then show ?thesis unfolding func_ok_def .
qed

lemma vstart_fresh: "fresh (vstart M hg fi)"
  by (simp add: fresh_def vstart_def Let_def)

definition checked :: "bir_module \<Rightarrow> nat \<Rightarrow> bool" where
  "checked M fi \<longleftrightarrow> f_num_blocks (funcs M fi) \<noteq> 0 \<and> f_first_block (funcs M fi) < num_blocks M"

lemma vchk_func_ok:
  assumes "stamps_ok V" "vchk_func M hg fi (V, ds) = (V', ds')"
  shows "stamps_ok V' \<and> (ds' = [] \<longrightarrow> ds = [] \<and> (checked M fi \<longrightarrow> func_ok M (vstart M hg fi)))"
proof (cases "checked M fi")
  case False
  then show ?thesis using assms by (auto simp: vchk_func_def checked_def not_le)
next
  case True
  define X where "X = vstart M hg fi"
  have nb: "x_nb X \<le> 0xFFFF" by (simp add: X_def vstart_def Let_def)
  have "pred_counts M X (vpred M (x_blo X) (x_nb X) V)"
    using vpred_spec [OF nb assms(1)] by (simp add: pred_counts_def)
  from vfun1_ok [OF vstart_fresh [of M hg fi, folded X_def] this]
  have "walk_inv M X (func_ok M X)
      (vfun1 M (fst (vfrng M)) (snd (vfrng M)) X (vpred M (x_blo X) (x_nb X) V))" .
  moreover have "\<not> (f_num_blocks (funcs M fi) = 0 \<or> f_first_block (funcs M fi) \<ge> num_blocks M)"
    using True by (simp add: checked_def)
  ultimately show ?thesis
    using assms(2) unfolding vchk_func_def Let_def X_def [symmetric] walk_inv_def
    by (auto simp: pred_counts_def split: prod.splits)
qed

subsection \<open>Overlaps\<close>

definition apart :: "bir_module \<Rightarrow> nat \<Rightarrow> nat \<Rightarrow> bool" where
  "apart M fi fj \<longleftrightarrow>
     (let A = funcs M fi; C = funcs M fj; (lo, hi) = vfrng M
      in f_num_blocks A = 0 \<or> f_num_blocks C = 0 \<or>
         (f_first_block C + f_num_blocks C \<le> f_first_block A \<or>
          f_first_block A + f_num_blocks A \<le> f_first_block C) \<and>
         (hi fi \<le> lo fj \<or> hi fj \<le> lo fi))"

lemma vovlp1_ok:
  assumes "vovlp1 M (fst (vfrng M)) (snd (vfrng M)) fi fj (hb, hi, ds) = (hb', hi', ds')"
  shows "ds' = [] \<Longrightarrow> ds = []" and "ds' = [] \<Longrightarrow> \<not> hb \<Longrightarrow> \<not> hi \<Longrightarrow> \<not> hb' \<and> \<not> hi' \<and> apart M fi fj"
  using assms by (auto simp: vovlp1_def apart_def Let_def split: if_splits prod.splits)

lemma vovlp_row:
  fixes M fi
  defines "step \<equiv> vovlp1 M (fst (vfrng M)) (snd (vfrng M)) fi"
  assumes "lo \<le> hi" "for_loop lo hi step (False, False, ds) = (hb, hj, ds')" "ds' = []"
  shows "ds = [] \<and> (\<forall>fj. lo \<le> fj \<and> fj < hi \<longrightarrow> apart M fi fj)"
proof -
  let ?P = "\<lambda>m st. snd (snd st) = [] \<longrightarrow>
    \<not> fst st \<and> \<not> fst (snd st) \<and> ds = [] \<and> (\<forall>fj. lo \<le> fj \<and> fj < m \<longrightarrow> apart M fi fj)"
  have "?P hi (for_loop lo hi step (False, False, ds))"
  proof (rule for_loop_inv [where P = ?P])
    fix i and t :: "bool \<times> bool \<times> vdiag list"
    assume IH: "?P i t"
    obtain a c e a' c' e' where t: "t = (a, c, e)" "step i t = (a', c', e')" by (metis prod_cases3)
    from vovlp1_ok [OF t(2) [unfolded t(1) step_def]] IH
    show "?P (Suc i) (step i t)" unfolding t(2) unfolding t(1) by (auto simp: less_Suc_eq)
  qed (use assms(2) in auto)
  then show ?thesis using assms(3,4) by simp
qed

lemma vovlp_ok:
  assumes "vovlp M (fst (vfrng M)) (snd (vfrng M)) = []" "fi < fj" "fj < num_funcs M"
  shows "apart M fi fj"
proof -
  let ?n = "num_funcs M"
  let ?step = "\<lambda>fi ds. if f_num_blocks (funcs M fi) = 0 then ds
     else let (hb, hi, ds1) = for_loop (Suc fi) ?n (vovlp1 M (fst (vfrng M)) (snd (vfrng M)) fi)
            (False, False, ds) in ds1"
  let ?P = "\<lambda>m ds. ds = [] \<longrightarrow> (\<forall>fi < m. \<forall>fj. fi < fj \<and> fj < ?n \<longrightarrow> apart M fi fj)"
  have "?P ?n (for_loop 0 ?n ?step [])"
  proof (rule for_loop_inv [where P = ?P])
    fix i and ds :: "vdiag list"
    assume i: "i < ?n" and IH: "?P i ds"
    show "?P (Suc i) (?step i ds)"
    proof (cases "f_num_blocks (funcs M i) = 0")
      case True
      then have "apart M i fj" for fj by (simp add: apart_def Let_def split: prod.splits)
      then show ?thesis using True IH by (auto simp: less_Suc_eq)
    next
      case False
      obtain hb hi d where r: "for_loop (Suc i) ?n (vovlp1 M (fst (vfrng M)) (snd (vfrng M)) i)
          (False, False, ds) = (hb, hi, d)" by (metis prod_cases3)
      from vovlp_row [OF _ r] i IH show ?thesis
        unfolding r using False by (auto simp: less_Suc_eq)
    qed
  qed simp_all
  then show ?thesis using assms unfolding vovlp_def by auto
qed

subsection \<open>The whole check\<close>

lemma vchk_loop:
  assumes "for_loop 0 n (vchk_func M hg) (V, ds) = (V', ds')" "stamps_ok V" "ds' = []"
  shows "ds = [] \<and> (\<forall>fi < n. checked M fi \<longrightarrow> func_ok M (vstart M hg fi))"
proof -
  let ?P = "\<lambda>m st. stamps_ok (fst st) \<and>
    (snd st = [] \<longrightarrow> ds = [] \<and> (\<forall>fi < m. checked M fi \<longrightarrow> func_ok M (vstart M hg fi)))"
  have "?P n (for_loop 0 n (vchk_func M hg) (V, ds))"
  proof (rule for_loop_inv [where P = ?P])
    fix i and st :: "vtabs \<times> vdiag list"
    assume IH: "?P i st"
    obtain V1 d1 V2 d2 where st: "st = (V1, d1)" "vchk_func M hg i st = (V2, d2)" by (metis surj_pair)
    from vchk_func_ok [OF _ st(2) [unfolded st(1)]] IH
    show "?P (Suc i) (vchk_func M hg i st)" unfolding st(2) unfolding st(1) by (auto simp: less_Suc_eq)
  qed (use assms(2) in simp_all)
  then show ?thesis using assms(1,3) by simp
qed

lemma vchk_parts:
  assumes "bir_vchk hg vpc0 (Some M) = (BC_OK, ds)"
  shows "vovlp M (fst (vfrng M)) (snd (vfrng M)) = []"
    and "fi < num_funcs M \<Longrightarrow> checked M fi \<Longrightarrow> func_ok M (vstart M hg fi)"
proof -
  obtain V ds' where l: "for_loop 0 (num_funcs M) (vchk_func M hg)
      (\<lparr>vpc = vpc0, vps = (\<lambda>_. 0), vstm = 0\<rparr>, vovlp M (fst (vfrng M)) (snd (vfrng M))) = (V, ds')"
    by (metis surj_pair)
  have "ds' = []" using assms unfolding bir_vchk_def by (auto simp: Let_def l split: if_splits)
  from vchk_loop [OF l _ this]
  show "vovlp M (fst (vfrng M)) (snd (vfrng M)) = []"
    and "fi < num_funcs M \<Longrightarrow> checked M fi \<Longrightarrow> func_ok M (vstart M hg fi)"
    by (auto simp: stamps_ok_def)
qed



text \<open>
  The predecessor table that the phi check relies on is right: \<open>vpred\<close> counts,
  for each block, the distinct blocks of the function that branch to it, whatever the stamp
  table held before.
\<close>

theorem vpred_counts:
  assumes "nb \<le> BIR_FUNC_MAX_BLOCKS" "stamps_ok V" "b < nb"
  shows "vpc (vpred M blo nb V) b = card (preds M blo nb b)"
  using vpred_spec(2) [OF _ assms(2,3)] assms(1) by simp

subsection \<open>Examples\<close>

text \<open>
  One void function of two blocks: a branch, and a phi of the branching block followed by a
  return.  The second module has a reference to a global that does not exist instead of the
  phi.
\<close>

definition check_base :: "(nat \<Rightarrow> bir_inst) \<Rightarrow> bir_module" where
  "check_base is = (cleared_module is)\<lparr>
     types := (\<lambda>_. zero_type)(1 := zero_type\<lparr>t_kind := BIR_TYPE_FUNC\<rparr>), num_types := 2,
     num_consts := 1, num_insts := 3,
     blocks := (\<lambda>_. zero_block)(0 := zero_block\<lparr>b_num_insts := 1\<rparr>,
        1 := zero_block\<lparr>b_first_inst := 1, b_num_insts := 2\<rparr>), num_blocks := 2,
     funcs := (\<lambda>_. zero_func\<lparr>f_type := 1, f_num_blocks := 2\<rparr>), num_funcs := 1\<rparr>"

definition good_module :: bir_module where
  "good_module = check_base ((\<lambda>_. zero_inst)(
     0 := zero_inst\<lparr>i_op := BIR_BR, i_num_operands := 1, i_operands := ops_of [1]\<rparr>,
     1 := zero_inst\<lparr>i_op := BIR_PHI, i_num_operands := 2, i_operands := ops_of [0, BIR_MAKE_CONST 0]\<rparr>,
     2 := zero_inst\<lparr>i_op := BIR_RET\<rparr>))"

definition bad_global_module :: bir_module where
  "bad_global_module = check_base ((\<lambda>_. zero_inst)(
     0 := zero_inst\<lparr>i_op := BIR_BR, i_num_operands := 1, i_operands := ops_of [1]\<rparr>,
     1 := zero_inst\<lparr>i_op := BIR_GLOBAL_REF, i_num_operands := 1, i_operands := ops_of [7]\<rparr>,
     2 := zero_inst\<lparr>i_op := BIR_RET\<rparr>))"

lemmas check_defs = check_base_def cleared_module_def zero_type_def zero_inst_def zero_block_def
  zero_func_def for_loop_def upt_rec ops_of_def bir_oper_def BIR_MAKE_CONST_def
  vovlp_def vfrng_def vfrng1_def vchk_func_def vstart_def vpred_def vpred1_def vnsuc_def vsuc_def
  last_inst_def vfun1_def vinst1_def vblock_insts_def vops1_def vops_step_def vslot_def vnop_def
  vret1_def vfret_def vphi1_def vphi_step_def vsucis_def BIR_VAL_IS_CONST_def

lemma good_module_ok: "bir_vchk (\<lambda>_. False) (\<lambda>_. 0) (Some good_module) = (BC_OK, [])"
  by (simp add: bir_vchk_def good_module_def check_defs)

text \<open>
  The flag \<open>X.hg\<close> of the per-function state is never initialised: a module with a
  reference to a global that does not exist is rejected when the stale flag happens to be 0
  and accepted when it is not.
\<close>

theorem bir_vchk_uninitialised_flag:
  "fst (bir_vchk (\<lambda>_. False) (\<lambda>_. 0) (Some bad_global_module)) = BC_ERR_VERIFY \<and>
   bir_vchk (\<lambda>_. True) (\<lambda>_. 0) (Some bad_global_module) = (BC_OK, [])"
proof
  show "fst (bir_vchk (\<lambda>_. False) (\<lambda>_. 0) (Some bad_global_module)) = BC_ERR_VERIFY"
    by (simp add: bir_vchk_def bad_global_module_def check_defs)
  show "bir_vchk (\<lambda>_. True) (\<lambda>_. 0) (Some bad_global_module) = (BC_OK, [])"
    by (simp add: bir_vchk_def bad_global_module_def check_defs)
qed


text \<open>Two functions side by side.\<close>

definition two_module :: bir_module where
  "two_module = (check_base (\<lambda>_. zero_inst\<lparr>i_op := BIR_RET\<rparr>))\<lparr>num_funcs := 2,
     funcs := (\<lambda>_. zero_func)(0 := zero_func\<lparr>f_type := 1, f_num_blocks := 1\<rparr>,
       1 := zero_func\<lparr>f_type := 1, f_first_block := 1, f_num_blocks := 1\<rparr>)\<rparr>"

lemma two_module_ok: "bir_vchk (\<lambda>_. False) (\<lambda>_. 0) (Some two_module) = (BC_OK, [])"
  by (simp add: bir_vchk_def two_module_def vovlp1_def check_defs)


theorem vpred_counts_witness:
  "vpc (vpred good_module 0 2 \<lparr>vpc = (\<lambda>_. 0), vps = (\<lambda>_. 0), vstm = 0\<rparr>) 1 = card (preds good_module 0 2 1)"
  using vpred_counts [of 2 "\<lparr>vpc = (\<lambda>_. 0), vps = (\<lambda>_. 0), vstm = 0\<rparr>" 1 good_module 0]
  by (simp add: stamps_ok_def)

end
