(* ===== verification/Bir_Cfold.thy ===== *)
theory Bir_Cfold
  imports Bir_Pools
begin

text \<open>
  Constant folding, \<open>src/src/ir/bir_cfold.c\<close>.  The state is the module and the rewrite table
  \<open>val_rewrite\<close>.  \<open>int64_t\<close> values are 64-bit words, read as signed where the source does;
  signed overflow, which the source leaves to the C compiler, wraps.  A C division by zero
  (which traps) is the outcome \<open>Fold_trap\<close>.

  Double comparisons are modelled on the bit patterns.  The arithmetic of the host's
  floating-point unit and its conversions are the parameter \<open>fpu\<close> of the definitions that
  use them.
\<close>

subsection \<open>Helpers\<close>

definition is_inline_block_ref :: "nat \<Rightarrow> nat \<Rightarrow> bool" where
  "is_inline_block_ref opc j \<longleftrightarrow>
     (if opc = BIR_BR then j = 0
      else if opc = BIR_BR_COND then j \<ge> 1 \<and> j \<le> 3
      else if opc = BIR_SWITCH then j = 1
      else if opc = BIR_PHI then j mod 2 = 0
      else if opc = BIR_CALL then j = 0
      else if opc = BIR_FNREF then j = 0
      else if opc = BIR_GLOBAL_REF then j = 0
      else False)"

definition is_extra_block_ref :: "nat \<Rightarrow> nat \<Rightarrow> bool" where
  "is_extra_block_ref opc j \<longleftrightarrow>
     (if opc = BIR_PHI then j mod 2 = 0
      else if opc = BIR_SWITCH then j = 1 \<or> j \<ge> 3 \<and> j mod 2 = 1
      else if opc = BIR_CALL then j = 0
      else False)"

definition rewrite_val :: "u32 \<Rightarrow> (nat \<Rightarrow> u32) \<Rightarrow> u32" where
  "rewrite_val ref val_rewrite =
     (if ref = BIR_VAL_NONE \<or> BIR_VAL_IS_CONST ref then ref
      else let rw = val_rewrite (BIR_VAL_INDEX ref) in if rw \<noteq> BIR_VAL_NONE then rw else ref)"

definition int_width :: "bir_module \<Rightarrow> nat \<Rightarrow> nat" where
  "int_width M tidx =
     (if tidx \<ge> num_types M then 0
      else if t_kind (types M tidx) \<noteq> BIR_TYPE_INT then 0
      else t_width (types M tidx))"

definition float_width :: "bir_module \<Rightarrow> nat \<Rightarrow> nat" where
  "float_width M tidx =
     (if tidx \<ge> num_types M then 0
      else if t_kind (types M tidx) \<noteq> BIR_TYPE_FLOAT then 0
      else t_width (types M tidx))"

definition mask_to_width :: "u64 \<Rightarrow> nat \<Rightarrow> u64" where
  "mask_to_width val w = (if w \<ge> 64 then val else val AND (push_bit w 1 - 1))"

definition sign_extend :: "u64 \<Rightarrow> nat \<Rightarrow> u64" where
  "sign_extend val w =
     (if w \<ge> 64 then val
      else let v = mask_to_width val w; sign_bit = push_bit (w - 1) 1
           in (v XOR sign_bit) - sign_bit)"

subsection \<open>State and outcomes\<close>

record cf =
  cf_M :: bir_module
  val_rewrite :: "nat \<Rightarrow> u32"

datatype fold_res = Fold_no | Fold_yes cf | Fold_trap

text \<open>Doubles as patterns, and the host operations the folder calls.\<close>

definition dbl_neg :: "u64 \<Rightarrow> bool" where
  "dbl_neg a \<longleftrightarrow> bit a 63"

definition dbl_mag :: "u64 \<Rightarrow> u64" where
  "dbl_mag a = take_bit 63 a"

definition dbl_lt :: "u64 \<Rightarrow> u64 \<Rightarrow> bool" where
  "dbl_lt a b \<longleftrightarrow>
     \<not> dbl_is_nan a \<and> \<not> dbl_is_nan b \<and> \<not> (dbl_is_zero a \<and> dbl_is_zero b) \<and>
     (if dbl_neg a \<noteq> dbl_neg b then dbl_neg a
      else if dbl_neg a then dbl_mag b < dbl_mag a else dbl_mag a < dbl_mag b)"

record fpu =
  fp_add :: "u64 \<Rightarrow> u64 \<Rightarrow> u64"
  fp_sub :: "u64 \<Rightarrow> u64 \<Rightarrow> u64"
  fp_mul :: "u64 \<Rightarrow> u64 \<Rightarrow> u64"
  fp_div :: "u64 \<Rightarrow> u64 \<Rightarrow> u64"
  fp_mod :: "u64 \<Rightarrow> u64 \<Rightarrow> u64"
  fp_f32 :: "u64 \<Rightarrow> u64"
  fp_of_signed :: "u64 \<Rightarrow> u64"
  fp_of_unsigned :: "u64 \<Rightarrow> u64"
  fp_to_signed :: "u64 \<Rightarrow> u64"
  fp_to_unsigned :: "u64 \<Rightarrow> u64"

subsection \<open>Removing a phi edge\<close>

text \<open>
  The compaction loop over the pairs of one phi, on an array from position \<open>st\<close>: pairs whose
  block is \<open>from\<close> are dropped and the others move down to the write position.
\<close>

definition cfpe_step :: "u32 \<Rightarrow> nat \<Rightarrow> nat \<Rightarrow> nat \<times> (nat \<Rightarrow> u32) \<Rightarrow> nat \<times> (nat \<Rightarrow> u32)" where
  "cfpe_step from st i s =
     (let (w, a) = s; k = 2 * i in
      if a (st + k) = from then (w, a)
      else (w + 2, a(st + w := a (st + k), st + w + 1 := a (st + k + 1))))"

definition cfpe_inst :: "u32 \<Rightarrow> bir_module \<Rightarrow> nat \<Rightarrow> bir_module" where
  "cfpe_inst from M ii =
     (let I = insts M ii in
      if i_op I \<noteq> BIR_PHI then M
      else if i_num_operands I = BIR_OPERANDS_OVERFLOW then
        let st = unat (i_operands I 0); n = unat (i_operands I 1);
            pairs = min (n div 2) ((num_extra_ops M - st) div 2);
            (w, a) = for_loop 0 pairs (cfpe_step from st) (0, extra_operands M)
        in M\<lparr>extra_operands := a,
             insts := (insts M)(ii := I\<lparr>i_operands := (i_operands I)(1 := word_of_nat w)\<rparr>)\<rparr>
      else
        let (w, a) = for_loop 0 (i_num_operands I div 2) (cfpe_step from 0) (0, i_operands I)
        in M\<lparr>insts := (insts M)(ii := I\<lparr>i_operands := a, i_num_operands := w\<rparr>)\<rparr>)"

definition cfpe :: "bir_module \<Rightarrow> u32 \<Rightarrow> nat \<Rightarrow> bir_module" where
  "cfpe M from b =
     (if b \<ge> num_blocks M then M
      else let B = blocks M b
           in for_loop 0 (b_num_insts B) (\<lambda>j M. cfpe_inst from M (b_first_inst B + j)) M)"

subsection \<open>Folding one instruction\<close>

text \<open>Integer comparison: None for a predicate that is not one.\<close>

definition icmp_result :: "nat \<Rightarrow> nat \<Rightarrow> u64 \<Rightarrow> u64 \<Rightarrow> bool option" where
  "icmp_result pr sw a b =
     (let sa = sint (sign_extend a sw); sb = sint (sign_extend b sw);
          ua = mask_to_width a sw; ub = mask_to_width b sw
      in if pr = BIR_ICMP_EQ then Some (ua = ub)
         else if pr = BIR_ICMP_NE then Some (ua \<noteq> ub)
         else if pr = BIR_ICMP_SLT then Some (sa < sb)
         else if pr = BIR_ICMP_SLE then Some (sa \<le> sb)
         else if pr = BIR_ICMP_SGT then Some (sa > sb)
         else if pr = BIR_ICMP_SGE then Some (sa \<ge> sb)
         else if pr = BIR_ICMP_ULT then Some (ua < ub)
         else if pr = BIR_ICMP_ULE then Some (ua \<le> ub)
         else if pr = BIR_ICMP_UGT then Some (ua > ub)
         else if pr = BIR_ICMP_UGE then Some (ua \<ge> ub)
         else None)"

text \<open>Signed division and remainder of C, truncating toward zero.\<close>

definition c_sdiv :: "int \<Rightarrow> int \<Rightarrow> int" where
  "c_sdiv x y = (if (x < 0) = (y < 0) then \<bar>x\<bar> div \<bar>y\<bar> else - (\<bar>x\<bar> div \<bar>y\<bar>))"

definition c_srem :: "int \<Rightarrow> int \<Rightarrow> int" where
  "c_srem x y = x - c_sdiv x y * y"

text \<open>
  The integer operations.  The outcome is no fold, a value, or a trap where the C division
  has divisor zero.
\<close>

datatype int_res = Int_no | Int_val u64 | Int_trap

definition int_binop :: "nat \<Rightarrow> nat \<Rightarrow> u64 \<Rightarrow> u64 \<Rightarrow> int_res" where
  "int_binop opc sw a b =
     (let sa = sint (sign_extend a sw); sb = sint (sign_extend b sw);
          ua = mask_to_width a sw; ub = mask_to_width b sw;
          sh = unat (b AND word_of_nat (sw - 1))
      in if opc = BIR_ADD then Int_val (a + b)
         else if opc = BIR_SUB then Int_val (a - b)
         else if opc = BIR_MUL then Int_val (a * b)
         else if opc = BIR_SDIV then
           (if b = 0 then Int_no
            else if sb = -1 \<and> sa = - (2 ^ 63) then Int_no
            else if sb = 0 then Int_trap
            else Int_val (word_of_int (c_sdiv sa sb)))
         else if opc = BIR_UDIV then
           (if b = 0 then Int_no else if ub = 0 then Int_trap else Int_val (ua div ub))
         else if opc = BIR_SREM then
           (if b = 0 then Int_no
            else if sb = -1 \<and> sa = - (2 ^ 63) then Int_no
            else if sb = 0 then Int_trap
            else Int_val (word_of_int (c_srem sa sb)))
         else if opc = BIR_UREM then
           (if b = 0 then Int_no else if ub = 0 then Int_trap else Int_val (ua mod ub))
         else if opc = BIR_AND then Int_val (a AND b)
         else if opc = BIR_OR then Int_val (a OR b)
         else if opc = BIR_XOR then Int_val (a XOR b)
         else if opc = BIR_SHL then Int_val (push_bit sh a)
         else if opc = BIR_LSHR then Int_val (drop_bit sh ua)
         else if opc = BIR_ASHR then Int_val (signed_drop_bit sh (sign_extend a sw))
         else Int_no)"

definition fcmp_result :: "nat \<Rightarrow> u64 \<Rightarrow> u64 \<Rightarrow> bool option" where
  "fcmp_result pr a b =
     (let ord = (\<not> dbl_is_nan a \<and> \<not> dbl_is_nan b);
          lt = dbl_lt a b; gt = dbl_lt b a; eq = dbl_eq a b
      in if pr = BIR_FCMP_OEQ then Some (ord \<and> eq)
         else if pr = BIR_FCMP_ONE then Some (ord \<and> \<not> eq)
         else if pr = BIR_FCMP_OLT then Some (ord \<and> lt)
         else if pr = BIR_FCMP_OLE then Some (ord \<and> (lt \<or> eq))
         else if pr = BIR_FCMP_OGT then Some (ord \<and> gt)
         else if pr = BIR_FCMP_OGE then Some (ord \<and> (gt \<or> eq))
         else if pr = BIR_FCMP_UEQ then Some (\<not> ord \<or> eq)
         else if pr = BIR_FCMP_UNE then Some (\<not> ord \<or> \<not> eq)
         else if pr = BIR_FCMP_ULT then Some (\<not> ord \<or> lt)
         else if pr = BIR_FCMP_ULE then Some (\<not> ord \<or> (lt \<or> eq))
         else if pr = BIR_FCMP_UGT then Some (\<not> ord \<or> gt)
         else if pr = BIR_FCMP_UGE then Some (\<not> ord \<or> (gt \<or> eq))
         else if pr = BIR_FCMP_ORD then Some ord
         else if pr = BIR_FCMP_UNO then Some (\<not> ord)
         else None)"

definition float_binop :: "fpu \<Rightarrow> nat \<Rightarrow> u64 \<Rightarrow> u64 \<Rightarrow> u64 option" where
  "float_binop P opc a b =
     (if opc = BIR_FADD then Some (fp_add P a b)
      else if opc = BIR_FSUB then Some (fp_sub P a b)
      else if opc = BIR_FMUL then Some (fp_mul P a b)
      else if opc = BIR_FDIV then Some (fp_div P a b)
      else if opc = BIR_FREM then Some (fp_mod P a b)
      else if opc = BIR_FMAX then Some (if dbl_lt b a then a else b)
      else if opc = BIR_FMIN then Some (if dbl_lt a b then a else b)
      else None)"

text \<open>A folded integer or float result: intern it and record the rewrite.\<close>

definition fold_int :: "cf \<Rightarrow> nat \<Rightarrow> nat \<Rightarrow> u64 \<Rightarrow> fold_res" where
  "fold_int S ii ty r =
     (let (ci, M1) = bir_const_int (cf_M S) ty r
      in Fold_yes (S\<lparr>cf_M := M1, val_rewrite := (val_rewrite S)(ii := BIR_MAKE_CONST ci)\<rparr>))"

definition fold_float :: "cf \<Rightarrow> nat \<Rightarrow> nat \<Rightarrow> u64 \<Rightarrow> fold_res" where
  "fold_float S ii ty r =
     (let (ci, M1) = bir_const_float (cf_M S) ty r
      in Fold_yes (S\<lparr>cf_M := M1, val_rewrite := (val_rewrite S)(ii := BIR_MAKE_CONST ci)\<rparr>))"

definition fold_bool :: "cf \<Rightarrow> nat \<Rightarrow> nat \<Rightarrow> bool option \<Rightarrow> fold_res" where
  "fold_bool S ii ty r = (case r of None \<Rightarrow> Fold_no | Some b \<Rightarrow> fold_int S ii ty (of_bool b))"

text \<open>The cases on constant operands \<open>c0\<close> and \<open>c1\<close> (\<open>None\<close> for NULL).\<close>

definition fold_consts :: "fpu \<Rightarrow> cf \<Rightarrow> nat \<Rightarrow> bir_const option \<Rightarrow> bir_const option \<Rightarrow> fold_res" where
  "fold_consts P S ii c0 c1 =
     (let M = cf_M S; I = insts M ii; opc = i_op I; ty = i_type I;
          rw = int_width M ty; fw = float_width M ty;
          kind = (\<lambda>c k. case c of None \<Rightarrow> False | Some x \<Rightarrow> c_kind x = k);
          d0 = (case c0 of None \<Rightarrow> 0 | Some x \<Rightarrow> c_d x);
          d1 = (case c1 of None \<Rightarrow> 0 | Some x \<Rightarrow> c_d x);
          sw0 = (case c0 of None \<Rightarrow> 0 | Some x \<Rightarrow> int_width M (c_type x));
          two_ints = (kind c0 BIR_CONST_INT \<and> kind c1 BIR_CONST_INT);
          two_floats = (kind c0 BIR_CONST_FLOAT \<and> kind c1 BIR_CONST_FLOAT);
          single = (\<lambda>r. if fw = 32 then fp_f32 P r else r)
      in if opc = BIR_ICMP \<and> two_ints then
           fold_bool S ii ty (icmp_result (i_subop I) (if sw0 = 0 then 32 else sw0) d0 d1)
         else if two_ints \<and> rw > 0 then
           (case int_binop opc (if sw0 = 0 then rw else sw0) d0 d1 of
              Int_no \<Rightarrow> Fold_no
            | Int_trap \<Rightarrow> Fold_trap
            | Int_val r \<Rightarrow> fold_int S ii ty (mask_to_width r rw))
         else if opc = BIR_FCMP \<and> two_floats then
           fold_bool S ii ty (fcmp_result (i_subop I) d0 d1)
         else if two_floats \<and> fw > 0 then
           (case float_binop P opc d0 d1 of
              None \<Rightarrow> Fold_no | Some r \<Rightarrow> fold_float S ii ty (single r))
         else if kind c0 BIR_CONST_INT \<and> rw > 0 then
           (let sw = (if sw0 = 0 then 32 else sw0)
            in if opc = BIR_TRUNC then fold_int S ii ty (mask_to_width (mask_to_width d0 rw) rw)
               else if opc = BIR_ZEXT then fold_int S ii ty (mask_to_width (mask_to_width d0 sw) rw)
               else if opc = BIR_SEXT then fold_int S ii ty (mask_to_width (sign_extend d0 sw) rw)
               else Fold_no)
         else if kind c0 BIR_CONST_INT \<and> fw > 0 then
           (let sw = (if sw0 = 0 then 32 else sw0)
            in if opc = BIR_SITOFP then
                 fold_float S ii ty (single (fp_of_signed P (sign_extend d0 sw)))
               else if opc = BIR_UITOFP then
                 fold_float S ii ty (single (fp_of_unsigned P (mask_to_width d0 sw)))
               else Fold_no)
         else if kind c0 BIR_CONST_FLOAT \<and> rw > 0 then
           (if opc = BIR_FPTOSI then fold_int S ii ty (mask_to_width (fp_to_signed P d0) rw)
            else if opc = BIR_FPTOUI then fold_int S ii ty (mask_to_width (fp_to_unsigned P d0) rw)
            else Fold_no)
         else if kind c0 BIR_CONST_FLOAT \<and> fw > 0 then
           (if opc = BIR_FPTRUNC then
              (if fw = 32 then fold_float S ii ty (fp_f32 P d0) else Fold_no)
            else if opc = BIR_FPEXT then fold_float S ii ty d0
            else Fold_no)
         else Fold_no)"

text \<open>Operand \<open>j\<close> as a constant of the pool, where it is one.\<close>

definition const_oper :: "bir_module \<Rightarrow> bir_inst \<Rightarrow> nat \<Rightarrow> bir_const option" where
  "const_oper M I j =
     (if i_num_operands I \<ge> j + 1 \<and> \<not> is_inline_block_ref (i_op I) j then
        let idx = BIR_VAL_INDEX (i_operands I j)
        in if idx < num_consts M then Some (bir_consts M idx) else None
      else None)"

definition all_const :: "bir_inst \<Rightarrow> bool" where
  "all_const I \<longleftrightarrow>
     list_all (\<lambda>j. is_inline_block_ref (i_op I) j \<or> i_operands I j = BIR_VAL_NONE \<or>
        BIR_VAL_IS_CONST (i_operands I j))
       [0..<min (i_num_operands I) BIR_OPERANDS_INLINE]"

definition fold_select :: "cf \<Rightarrow> nat \<Rightarrow> fold_res" where
  "fold_select S ii =
     (let M = cf_M S; I = insts M ii; cond = i_operands I 0 in
      if \<not> BIR_VAL_IS_CONST cond then Fold_no
      else let ci = BIR_VAL_INDEX cond in
        if ci \<ge> num_consts M then Fold_no
        else if c_kind (bir_consts M ci) \<noteq> BIR_CONST_INT then Fold_no
        else Fold_yes (S\<lparr>val_rewrite := (val_rewrite S)(ii :=
               if c_d (bir_consts M ci) \<noteq> 0 then i_operands I 1 else i_operands I 2)\<rparr>))"

definition fold_br_cond :: "cf \<Rightarrow> nat \<Rightarrow> nat \<Rightarrow> fold_res" where
  "fold_br_cond S ii ab =
     (let M = cf_M S; I = insts M ii; cond = i_operands I 0 in
      if \<not> BIR_VAL_IS_CONST cond then Fold_no
      else let ci = BIR_VAL_INDEX cond in
        if ci \<ge> num_consts M then Fold_no
        else let c = bir_consts M ci in
          if c_kind c \<noteq> BIR_CONST_INT \<and> c_kind c \<noteq> BIR_CONST_ZERO then Fold_no
          else
            let taken = (c_kind c = BIR_CONST_INT \<and> c_d c \<noteq> 0);
                keep = (if taken then i_operands I 1 else i_operands I 2);
                lost = (if taken then i_operands I 2 else i_operands I 1);
                I1 = I\<lparr>i_operands := (i_operands I)(0 := keep), i_op := BIR_BR, i_num_operands := 1\<rparr>;
                M1 = M\<lparr>insts := (insts M)(ii := I1)\<rparr>
            in Fold_yes (S\<lparr>cf_M := if lost \<noteq> keep then cfpe M1 (word_of_nat ab) (unat lost) else M1\<rparr>))"

definition try_fold :: "fpu \<Rightarrow> cf \<Rightarrow> nat \<Rightarrow> nat \<Rightarrow> fold_res" where
  "try_fold P S ii ab =
     (let M = cf_M S; I = insts M ii; opc = i_op I in
      if opc = BIR_PHI then
        let n = (if i_num_operands I = BIR_OPERANDS_OVERFLOW then unat (i_operands I 1)
                 else i_num_operands I)
        in if n \<noteq> 2 then Fold_no
           else Fold_yes (S\<lparr>val_rewrite := (val_rewrite S)(ii := bir_oper M I 1)\<rparr>)
      else if opc = BIR_SELECT \<and> i_num_operands I \<ge> 3 then fold_select S ii
      else if opc = BIR_BR_COND \<and> i_num_operands I \<ge> 3 then fold_br_cond S ii ab
      else if i_num_operands I = 0 \<or> i_num_operands I = BIR_OPERANDS_OVERFLOW then Fold_no
      else if \<not> all_const I then Fold_no
      else fold_consts P S ii (const_oper M I 0) (const_oper M I 1))"

subsection \<open>The pass\<close>

text \<open>The operand rewriting in front of each fold.\<close>

definition cf_rewrite :: "cf \<Rightarrow> nat \<Rightarrow> cf" where
  "cf_rewrite S i =
     (let M = cf_M S; I = insts M i; vr = val_rewrite S in
      if i_num_operands I = BIR_OPERANDS_OVERFLOW then
        let start = unat (i_operands I 0);
            count = min (unat (i_operands I 1)) (num_extra_ops M - start)
        in S\<lparr>cf_M := M\<lparr>extra_operands :=
               (\<lambda>p. if start \<le> p \<and> p < start + count \<and> \<not> is_extra_block_ref (i_op I) (p - start)
                    then rewrite_val (extra_operands M p) vr else extra_operands M p)\<rparr>\<rparr>
      else
        let n = min (i_num_operands I) BIR_OPERANDS_INLINE
        in S\<lparr>cf_M := M\<lparr>insts := (insts M)(i := I\<lparr>i_operands :=
               (\<lambda>j. if j < n \<and> \<not> is_inline_block_ref (i_op I) j
                    then rewrite_val (i_operands I j) vr else i_operands I j)\<rparr>)\<rparr>\<rparr>)"

text \<open>One instruction: the pass state is the state and the number of changes; \<open>None\<close> traps.\<close>

definition cf_inst :: "fpu \<Rightarrow> nat \<Rightarrow> nat \<Rightarrow> (cf \<times> nat) option \<Rightarrow> (cf \<times> nat) option" where
  "cf_inst P ab i st =
     (case st of
        None \<Rightarrow> None
      | Some (S, changes) \<Rightarrow>
          let S1 = cf_rewrite S i
          in case try_fold P S1 i ab of
               Fold_no \<Rightarrow> Some (S1, changes)
             | Fold_yes S2 \<Rightarrow> Some (S2, changes + 1)
             | Fold_trap \<Rightarrow> None)"

definition cf_block :: "fpu \<Rightarrow> nat \<Rightarrow> (cf \<times> nat) option \<Rightarrow> (cf \<times> nat) option" where
  "cf_block P ab st =
     (case st of
        None \<Rightarrow> None
      | Some (S, changes) \<Rightarrow>
          let BB = blocks (cf_M S) ab
          in for_loop 0 (b_num_insts BB) (\<lambda>bj. cf_inst P ab (b_first_inst BB + bj)) st)"

definition cf_run_func :: "fpu \<Rightarrow> nat \<Rightarrow> cf \<Rightarrow> (cf \<times> nat) option" where
  "cf_run_func P fi S =
     (let M = cf_M S; F = funcs M fi in
      if f_num_blocks F = 0 \<or> f_total_insts F = 0 then Some (S, 0)
      else
        let base = b_first_inst (blocks M (f_first_block F));
            fin = base + f_total_insts F;
            S1 = S\<lparr>val_rewrite := (\<lambda>i. if base \<le> i \<and> i < fin then BIR_VAL_NONE else val_rewrite S i)\<rparr>
        in for_loop 0 (f_num_blocks F) (\<lambda>bi. cf_block P (f_first_block F + bi)) (Some (S1, 0)))"

definition bir_cfold :: "fpu \<Rightarrow> (nat \<Rightarrow> u32) \<Rightarrow> bir_module \<Rightarrow> (cf \<times> nat) option" where
  "bir_cfold P stale M =
     for_loop 0 (num_funcs M)
       (\<lambda>fi st. case st of None \<Rightarrow> None
          | Some (S, tot) \<Rightarrow>
              (case cf_run_func P fi S of None \<Rightarrow> None | Some (S1, n) \<Rightarrow> Some (S1, tot + n)))
       (Some (\<lparr>cf_M = M, val_rewrite = stale\<rparr>, 0))"

end
