(* ===== verification/Bir_Cfold_Correct.thy ===== *)
theory Bir_Cfold_Correct
  imports Bir_Cfold
begin

text \<open>
  Correctness of constant folding: the 64-bit mask and sign-extension tricks against \<open>take_bit\<close>
  and \<open>signed_take_bit\<close>, integer folds against the machine operation at the width of the
  type, the edge removal of a folded branch, and what the pass leaves unchanged.
\<close>

subsection \<open>Masks and sign extension\<close>

lemma push_minus_one: "push_bit w 1 - 1 = (mask w :: u64)"
  by (simp add: mask_eq_exp_minus_1)

lemma mask_to_width_eq: "mask_to_width x w = take_bit w x"
proof (cases "w \<ge> 64")
  case True
  have "take_bit w x = x" using True by (simp add: take_bit_word_eq_self)
  then show ?thesis using True by (simp add: mask_to_width_def)
next
  case False
  then show ?thesis unfolding mask_to_width_def push_minus_one by (simp add: and_mask_eq_take_bit)
qed

lemma uint_mask_to_width: "uint (mask_to_width x w) = uint x mod 2 ^ w"
  unfolding mask_to_width_eq unsigned_take_bit_eq by (rule take_bit_eq_mod)

lemma sign_xor_int: "(take_bit (Suc n) x XOR 2 ^ n) - 2 ^ n = signed_take_bit n (x :: int)"
proof -
  have t: "take_bit (Suc n) x = take_bit n x + of_bool (bit x n) * 2 ^ n"
    by (simp add: take_bit_Suc_from_most)
  have d: "take_bit n x AND 2 ^ n = 0" by (simp add: and_exp_eq_0_iff_not_bit bit_take_bit_iff)
  show ?thesis
  proof (cases "bit x n")
    case True
    have "take_bit (Suc n) x XOR 2 ^ n = take_bit n x"
      by (rule bit_eqI) (use True in \<open>auto simp: bit_simps less_Suc_eq\<close>)
    then show ?thesis using True by (simp add: signed_take_bit_eq_take_bit_minus t)
  next
    case False
    have "take_bit (Suc n) x XOR 2 ^ n = take_bit n x + 2 ^ n"
      using False d t by (simp add: disjunctive_xor_eq_or disjunctive_add_eq_or)
    then show ?thesis using False by (simp add: signed_take_bit_eq_take_bit_minus t)
  qed
qed

lemma sint_sign_extend:
  assumes "1 \<le> w" "w \<le> 64"
  shows "sint (sign_extend x w) = signed_take_bit (w - 1) (uint x)"
proof (cases "w = 64")
  case True
  then show ?thesis by (simp add: sign_extend_def sint_uint)
next
  case False
  define n where "n = w - 1"
  have w: "w = Suc n" "n < 63" using assms False by (simp_all add: n_def)
  have "sign_extend x w = word_of_int ((take_bit (Suc n) (uint x) XOR 2 ^ n) - 2 ^ n)"
  proof -
    have "take_bit (Suc n) x XOR push_bit n 1 = word_of_int (take_bit (Suc n) (uint x) XOR 2 ^ n)"
      by (rule bit_word_eqI) (auto simp: bit_simps bit_uint_iff)
    then show ?thesis
      using w unfolding sign_extend_def mask_to_width_eq Let_def by simp
  qed
  then have "sign_extend x w = word_of_int (signed_take_bit n (uint x))" by (simp only: sign_xor_int)
  then show ?thesis using w by (simp add: signed_of_int min_def)
qed

subsection \<open>Integer operations at their width\<close>

text \<open>
  The reference: the operation on the unsigned \<open>w\<close>-bit values \<open>X\<close> and \<open>Y\<close>, as the target
  machine computes it.  \<open>None\<close> is a division by zero or an operation that is not one of these.
\<close>

definition ref_binop :: "nat \<Rightarrow> nat \<Rightarrow> int \<Rightarrow> int \<Rightarrow> int option" where
  "ref_binop opc w X Y =
     (let sX = signed_take_bit (w - 1) X; sY = signed_take_bit (w - 1) Y;
          sh = nat (Y AND int (w - 1))
      in if opc = BIR_ADD then Some ((X + Y) mod 2 ^ w)
         else if opc = BIR_SUB then Some ((X - Y) mod 2 ^ w)
         else if opc = BIR_MUL then Some ((X * Y) mod 2 ^ w)
         else if opc = BIR_SDIV then (if Y = 0 then None else Some (c_sdiv sX sY mod 2 ^ w))
         else if opc = BIR_UDIV then (if Y = 0 then None else Some (X div Y))
         else if opc = BIR_SREM then (if Y = 0 then None else Some (c_srem sX sY mod 2 ^ w))
         else if opc = BIR_UREM then (if Y = 0 then None else Some (X mod Y))
         else if opc = BIR_AND then Some (X AND Y)
         else if opc = BIR_OR then Some (X OR Y)
         else if opc = BIR_XOR then Some (X XOR Y)
         else if opc = BIR_SHL then Some ((X * 2 ^ sh) mod 2 ^ w)
         else if opc = BIR_LSHR then Some (X div 2 ^ sh)
         else if opc = BIR_ASHR then Some ((sX div 2 ^ sh) mod 2 ^ w)
         else None)"

definition low :: "nat \<Rightarrow> u64 \<Rightarrow> int" where
  "low w x = uint x mod 2 ^ w"

lemma low_of_int: "w \<le> 64 \<Longrightarrow> low w (word_of_int k) = k mod 2 ^ w"
  by (simp add: low_def uint_word_of_int_eq min_def flip: take_bit_eq_mod)

lemma low_mask: "uint (mask_to_width r w) = low w r"
  by (simp add: low_def uint_mask_to_width)

lemma low_signed:
  assumes "1 \<le> w"
  shows "signed_take_bit (w - 1) (low w x) = signed_take_bit (w - 1) (uint x)"
  using assms unfolding low_def take_bit_eq_mod [symmetric] by (cases w) (simp_all add: signed_take_bit_take_bit)

lemma low_shift:
  assumes "1 \<le> w" "w \<le> 64" and "c = w - 1"
  shows "unat (b AND word_of_nat c) = nat (low w b AND int c)"
proof -
  have "c < 2 ^ w" unfolding assms(3) by (rule le_less_trans [OF diff_le_self less_exp])
  then have "int c < int (2 ^ w)" by (simp only: of_nat_less_iff)
  then have c: "int c < 2 ^ w" by simp
  have "uint (b AND word_of_nat c) = uint b AND int c"
  proof -
    have "c < 64" using assms by simp
    then show ?thesis by (simp add: uint_and unsigned_of_nat take_bit_nat_eq_self take_bit_int_eq_self)
  qed
  also have "\<dots> = take_bit w (uint b AND int c)"
    by (rule take_bit_int_eq_self [symmetric], simp, rule le_less_trans [OF AND_upper2 c]) simp
  also have "\<dots> = low w b AND int c"
    using take_bit_int_eq_self [OF _ c] by (simp add: low_def flip: take_bit_eq_mod)
  finally show ?thesis by (simp only: unat_eq_nat_uint)
qed

lemma low_arith:
  assumes "w \<le> 64"
  shows "low w (a + b) = (low w a + low w b) mod 2 ^ w" "low w (a - b) = (low w a - low w b) mod 2 ^ w"
    "low w (a * b) = (low w a * low w b) mod 2 ^ w" "low w (push_bit n a) = (low w a * 2 ^ n) mod 2 ^ w"
proof -
  show "low w (a + b) = (low w a + low w b) mod 2 ^ w"
    using low_of_int [OF assms, of "uint a + uint b"] by (simp add: low_def mod_simps)
  show "low w (a - b) = (low w a - low w b) mod 2 ^ w"
    using low_of_int [OF assms, of "uint a - uint b"] by (simp add: low_def mod_simps)
  show "low w (a * b) = (low w a * low w b) mod 2 ^ w"
    using low_of_int [OF assms, of "uint a * uint b"] by (simp add: low_def mod_simps)
  show "low w (push_bit n a) = (low w a * 2 ^ n) mod 2 ^ w"
    using low_of_int [OF assms, of "uint a * 2 ^ n"] by (simp add: low_def mod_simps push_bit_eq_mult)
qed

lemma low_bits:
  "low w (a AND b) = low w a AND low w b" "low w (a OR b) = low w a OR low w b"
  "low w (a XOR b) = low w a XOR low w b"
  unfolding low_def take_bit_eq_mod [symmetric] uint_and uint_or uint_xor by simp_all

lemma low_nonneg: "0 \<le> low w a" and low_less: "low w a < 2 ^ w"
  by (simp_all add: low_def)

lemma low_small: "uint r < 2 ^ w \<Longrightarrow> low w r = uint r"
  by (simp add: low_def)

lemma mask_zero_iff: "mask_to_width b w = 0 \<longleftrightarrow> low w b = 0"
  unfolding low_mask [symmetric] by (simp add: uint_0_iff)

lemma low_udiv:
  "low w (mask_to_width a w div mask_to_width b w) = low w a div low w b"
  "low w (mask_to_width a w mod mask_to_width b w) = low w a mod low w b"
  "low w (drop_bit n (mask_to_width a w)) = low w a div 2 ^ n"
proof -
  have d: "uint (mask_to_width a w div mask_to_width b w) = low w a div low w b"
    "uint (mask_to_width a w mod mask_to_width b w) = low w a mod low w b"
    by (simp_all add: uint_div uint_mod low_mask)
  have s: "uint (drop_bit n (mask_to_width a w)) = low w a div 2 ^ n"
  proof -
    have "uint (drop_bit n x) = uint x div 2 ^ n" for x :: u64
      unfolding uint_nat unat_drop_bit by (simp add: zdiv_int)
    then show ?thesis by (simp add: low_mask)
  qed
  have le: "low w a div k \<le> low w a" "low w a mod k \<le> low w a" if "0 \<le> k" for k
    using that low_nonneg [of w a] zdiv_mono2 [of "low w a" 1 k]
    by (cases "k = 0"; simp add: zmod_le_nonneg_dividend)+
  show "low w (mask_to_width a w div mask_to_width b w) = low w a div low w b"
    "low w (mask_to_width a w mod mask_to_width b w) = low w a mod low w b"
    "low w (drop_bit n (mask_to_width a w)) = low w a div 2 ^ n"
    using d s le [OF low_nonneg [of w b]] le [of "2 ^ n"] low_less [of w a] by (subst low_small; simp)+
qed


lemma low_ashr:
  assumes "1 \<le> w" "w \<le> 64"
  shows "low w (signed_drop_bit n (sign_extend a w)) = (signed_take_bit (w - 1) (low w a) div 2 ^ n) mod 2 ^ w"
proof -
  define v where "v = sign_extend a w"
  have "signed_drop_bit n v = word_of_int (sint v div 2 ^ n)"
    by transfer (simp add: drop_bit_eq_div)
  then have "low w (signed_drop_bit n v) = (sint v div 2 ^ n) mod 2 ^ w"
    by (simp only: low_of_int [OF assms(2)])
  then show ?thesis unfolding v_def sint_sign_extend [OF assms] low_signed [OF assms(1)] .
qed

lemma int_binop_ref:
  assumes "1 \<le> w" "w \<le> 64" "int_binop opc w a b = Int_val r"
  shows "ref_binop opc w (low w a) (low w b) = Some (uint (mask_to_width r w))"
proof -
  note s = sint_sign_extend [OF assms(1,2)] low_signed [OF assms(1)]
  have z: "signed_take_bit (w - 1) (uint b) \<noteq> 0 \<Longrightarrow> low w b \<noteq> 0"
    using s(2) [of b] by auto
  obtain sh where sh: "nat (low w b AND int (w - 1)) = sh" by blast
  consider "opc = BIR_SHL" | "opc = BIR_LSHR" | "opc = BIR_ASHR" | "opc \<notin> {BIR_SHL, BIR_LSHR, BIR_ASHR}"
    by blast
  then show ?thesis
  proof cases
    case 4
    then show ?thesis
      using assms(3) z unfolding int_binop_def ref_binop_def Let_def low_mask s mask_zero_iff
      by (auto simp: low_arith [OF assms(2)] low_bits low_udiv low_of_int [OF assms(2)] split: if_splits)
  qed (use assms(3) in \<open>auto simp: int_binop_def ref_binop_def low_mask sh
      low_shift [OF assms(1,2) refl, simplified] low_shift [OF assms(1,2) refl] low_arith [OF assms(2)]
      low_udiv low_ashr [OF assms(1,2)] simp flip: One_nat_def\<close>)
qed

subsection \<open>Folding an instruction\<close>

lemma fold_int_spec:
  assumes "fold_int S ii ty r = Fold_yes S'" "num_consts (cf_M S) < BIR_MAX_CONSTS"
  shows "\<exists>ci < num_consts (cf_M S'). val_rewrite S' ii = BIR_MAKE_CONST ci \<and>
    bir_consts (cf_M S') ci = \<lparr>c_kind = BIR_CONST_INT, c_type = ty, c_d = r\<rparr>"
proof -
  let ?c = "\<lparr>c_kind = BIR_CONST_INT, c_type = ty, c_d = r\<rparr>"
  obtain ci M1 where i: "intern_const same_int (cf_M S) ?c = (ci, M1)" by (metis surj_pair)
  have S': "S' = S\<lparr>cf_M := M1, val_rewrite := (val_rewrite S)(ii := BIR_MAKE_CONST ci)\<rparr>"
    using assms(1) i by (simp add: fold_int_def bir_const_int_def)
  have "int_pool.fits (cf_M S) ?c" using assms(2) by (simp add: int_pool.fits_def)
  from int_pool.lookup_after [OF i this] show ?thesis
    by (auto simp: S' same_int_def intro!: bir_const.equality)
qed

text \<open>A two-operand instruction on two integer constants of one type of \<open>w\<close> bits.\<close>

definition int_fold_case :: "bir_module \<Rightarrow> bir_inst \<Rightarrow> nat \<Rightarrow> u64 \<Rightarrow> u64 \<Rightarrow> bool" where
  "int_fold_case M I w a b \<longleftrightarrow>
     i_op I \<le> BIR_ASHR \<and> i_num_operands I = 2 \<and> int_width M (i_type I) = w \<and>
     (\<forall>j < 2. BIR_VAL_IS_CONST (i_operands I j) \<and> BIR_VAL_INDEX (i_operands I j) < num_consts M \<and>
        c_kind (bir_consts M (BIR_VAL_INDEX (i_operands I j))) = BIR_CONST_INT) \<and>
     int_width M (c_type (bir_consts M (BIR_VAL_INDEX (i_operands I 0)))) = w \<and>
     c_d (bir_consts M (BIR_VAL_INDEX (i_operands I 0))) = a \<and>
     c_d (bir_consts M (BIR_VAL_INDEX (i_operands I 1))) = b"

lemma try_fold_int_eq:
  assumes "int_fold_case (cf_M S) (insts (cf_M S) ii) w a b" "0 < w"
  shows "try_fold P S ii ab =
    (case int_binop (i_op (insts (cf_M S) ii)) w a b of
       Int_no \<Rightarrow> Fold_no | Int_trap \<Rightarrow> Fold_trap
     | Int_val r \<Rightarrow> fold_int S ii (i_type (insts (cf_M S) ii)) (mask_to_width r w))"
proof -
  let ?M = "cf_M S" and ?I = "insts (cf_M S) ii"
  have op: "i_op ?I \<le> 17" and n: "i_num_operands ?I = 2" using assms(1) by (auto simp: int_fold_case_def)
  have nb: "\<not> is_inline_block_ref (i_op ?I) j" for j using op by (simp add: is_inline_block_ref_def)
  have c: "\<And>j. j < 2 \<Longrightarrow> BIR_VAL_IS_CONST (i_operands ?I j)"
    "BIR_VAL_INDEX (i_operands ?I 0) < num_consts ?M" "BIR_VAL_INDEX (i_operands ?I 1) < num_consts ?M"
    using assms(1) by (auto simp: int_fold_case_def)
  have all: "all_const ?I" unfolding all_const_def list_all_iff using c(1) n by auto
  have co: "const_oper ?M ?I 0 = Some (bir_consts ?M (BIR_VAL_INDEX (i_operands ?I 0)))"
    "const_oper ?M ?I 1 = Some (bir_consts ?M (BIR_VAL_INDEX (i_operands ?I 1)))"
    using c n nb by (simp_all add: const_oper_def)
  show ?thesis
    unfolding try_fold_def Let_def co fold_consts_def
    using assms op n all by (simp add: int_fold_case_def split: int_res.split)
qed

text \<open>
  Property C7.  Constant folding of integer operations is correct at the instruction's width:
  the rewrite names a pool constant of the result type whose value is exactly what the
  \<open>w\<close>-bit machine computes from the low \<open>w\<close> bits of the operands - wrap-around arithmetic,
  truncating signed division, masked shift amounts and arithmetic right shift included -
  although the folder works on 64-bit integers.
\<close>

theorem try_fold_int_correct:
  assumes "int_fold_case (cf_M S) (insts (cf_M S) ii) w a b" "1 \<le> w" "w \<le> 64"
    and "num_consts (cf_M S) < BIR_MAX_CONSTS" "try_fold P S ii ab = Fold_yes S'"
  shows "\<exists>ci v. ci < num_consts (cf_M S') \<and> val_rewrite S' ii = BIR_MAKE_CONST ci \<and>
    bir_consts (cf_M S') ci =
      \<lparr>c_kind = BIR_CONST_INT, c_type = i_type (insts (cf_M S) ii), c_d = v\<rparr> \<and>
    ref_binop (i_op (insts (cf_M S) ii)) w (low w a) (low w b) = Some (uint v)"
proof -
  have "0 < w" using assms(2) by simp
  note f = assms(5) [unfolded try_fold_int_eq [OF assms(1) this]]
  then obtain r where r: "int_binop (i_op (insts (cf_M S) ii)) w a b = Int_val r"
    by (auto split: int_res.splits)
  from fold_int_spec [OF _ assms(4)] f r int_binop_ref [OF assms(2,3) r] show ?thesis by fastforce
qed

text \<open>
  The folder can divide by zero: its guard tests the whole 64-bit divisor, but the
  division uses its low bits, so an 8-bit unsigned division by the constant 256 reaches the C
  division with divisor 0.
\<close>

theorem try_fold_div_trap:
  assumes "int_fold_case (cf_M S) (insts (cf_M S) ii) w a b" "0 < w" "w < 64"
    and "i_op (insts (cf_M S) ii) = BIR_UDIV" "b \<noteq> 0" "low w b = 0"
  shows "try_fold P S ii ab = Fold_trap"
  using assms(4-6) unfolding try_fold_int_eq [OF assms(1,2)]
  by (simp add: int_binop_def mask_zero_iff)

subsection \<open>Removing an edge keeps the other pairs\<close>

definition pairs_of :: "(nat \<Rightarrow> u32) \<Rightarrow> nat \<Rightarrow> nat \<Rightarrow> (u32 \<times> u32) list" where
  "pairs_of a st n = map (\<lambda>i. (a (st + 2 * i), a (st + 2 * i + 1))) [0..<n]"

lemma pairs_of_cong: "(\<And>p. st \<le> p \<Longrightarrow> p < st + 2 * n \<Longrightarrow> a p = a' p) \<Longrightarrow> pairs_of a st n = pairs_of a' st n"
  by (simp add: pairs_of_def)

lemma cfpe_loop:
  assumes "for_loop 0 n (cfpe_step from st) (0, a) = (w, a')"
  shows "w = 2 * length (filter (\<lambda>p. fst p \<noteq> from) (pairs_of a st n)) \<and> w \<le> 2 * n \<and>
    pairs_of a' st (w div 2) = filter (\<lambda>p. fst p \<noteq> from) (pairs_of a st n) \<and>
    (\<forall>p. p < st \<or> st + 2 * n \<le> p \<longrightarrow> a' p = a p)"
proof -
  let ?F = "\<lambda>i. filter (\<lambda>p. fst p \<noteq> from) (pairs_of a st i)"
  let ?P = "\<lambda>i s. fst s = 2 * length (?F i) \<and> fst s \<le> 2 * i \<and>
    pairs_of (snd s) st (fst s div 2) = ?F i \<and>
    (\<forall>p. p < st \<or> st + fst s \<le> p \<longrightarrow> snd s p = a p)"
  have "?P n (for_loop 0 n (cfpe_step from st) (0, a))"
  proof (rule for_loop_inv [where P = ?P])
    show "?P 0 (0, a)" by (simp add: pairs_of_def)
  next
    fix i and s :: "nat \<times> (nat \<Rightarrow> u32)"
    assume IH: "?P i s"
    obtain v c where s: "s = (v, c)" by (cases s)
    define m where "m = length (?F i)"
    have v: "v = 2 * m" "m \<le> i" and prs: "pairs_of c st m = ?F i"
      and same: "\<And>p. p < st \<or> st + v \<le> p \<Longrightarrow> c p = a p"
      using IH by (auto simp: s m_def)
    have rd: "c (st + 2 * i) = a (st + 2 * i)" "c (st + 2 * i + 1) = a (st + 2 * i + 1)"
      using v same by auto
    have ext: "pairs_of a st (Suc i) = pairs_of a st i @ [(a (st + 2 * i), a (st + 2 * i + 1))]"
      by (simp add: pairs_of_def)
    show "?P (Suc i) (cfpe_step from st i s)"
    proof (cases "a (st + 2 * i) = from")
      case True
      then have "cfpe_step from st i s = (v, c)" using rd by (simp add: cfpe_step_def s)
      then show ?thesis using True IH prs ext v by (simp add: s m_def)
    next
      case False
      let ?c = "c(st + v := a (st + 2 * i), st + v + 1 := a (st + 2 * i + 1))"
      have e: "cfpe_step from st i s = (v + 2, ?c)" using False rd by (simp add: cfpe_step_def s Let_def)
      have "pairs_of ?c st m = pairs_of c st m" by (rule pairs_of_cong) (simp add: v)
      moreover have "pairs_of ?c st (Suc m) = pairs_of ?c st m @ [(?c (st + 2 * m), ?c (st + 2 * m + 1))]"
        by (simp add: pairs_of_def)
      ultimately have "pairs_of ?c st (Suc m) = ?F i @ [(a (st + 2 * i), a (st + 2 * i + 1))]"
        using prs v by simp
      then show ?thesis unfolding e using False ext v same by (auto simp: m_def)
    qed
  qed simp
  then show ?thesis using assms by auto
qed

text \<open>
  When a conditional branch is folded, the edge it loses disappears from the phis
  of the lost block and nothing else does: an inline phi keeps exactly its other pairs, in
  order.
\<close>

theorem cfpe_inst_filters:
  assumes "I = insts M ii" "I' = insts (cfpe_inst from M ii) ii" "i_op I = BIR_PHI"
    and "i_num_operands I \<le> BIR_OPERANDS_INLINE" "even (i_num_operands I)"
  shows "pairs_of (i_operands I') 0 (i_num_operands I' div 2) =
      filter (\<lambda>p. fst p \<noteq> from) (pairs_of (i_operands I) 0 (i_num_operands I div 2)) \<and>
    i_op I' = BIR_PHI \<and> even (i_num_operands I') \<and> i_num_operands I' \<le> BIR_OPERANDS_INLINE"
proof -
  obtain w a where l: "for_loop 0 (i_num_operands I div 2) (cfpe_step from 0) (0, i_operands I) = (w, a)"
    by (metis surj_pair)
  note c = cfpe_loop [OF l]
  have "I' = I\<lparr>i_operands := a, i_num_operands := w\<rparr>"
    using assms l by (simp add: cfpe_inst_def)
  then show ?thesis using c assms(3,4) by auto
qed

subsection \<open>What the pass leaves alone\<close>

text \<open>The shape of a module: everything but instructions, constants, extra operands and flags.\<close>

definition same_shape :: "bir_module \<Rightarrow> bir_module \<Rightarrow> bool" where
  "same_shape M M' \<longleftrightarrow>
     types M' = types M \<and> num_types M' = num_types M \<and> num_insts M' = num_insts M \<and>
     num_extra_ops M' = num_extra_ops M \<and> blocks M' = blocks M \<and> num_blocks M' = num_blocks M \<and>
     funcs M' = funcs M \<and> num_funcs M' = num_funcs M \<and> globals M' = globals M \<and>
     num_globals M' = num_globals M \<and>
     num_consts M \<le> num_consts M' \<and> (\<forall>i < num_consts M. bir_consts M' i = bir_consts M i)"

lemma same_shape_refl [simp]: "same_shape M M"
  by (simp add: same_shape_def)

lemma same_shape_trans: "same_shape M M' \<Longrightarrow> same_shape M' M'' \<Longrightarrow> same_shape M M''"
  by (auto simp: same_shape_def)

lemma same_shape_insts [simp]: "same_shape M (M\<lparr>insts := f\<rparr>)" "same_shape M (M\<lparr>extra_operands := g\<rparr>)"
  "same_shape M (M\<lparr>insts := f, extra_operands := g\<rparr>)"
  by (simp_all add: same_shape_def)

lemma intern_const_shape: "intern_const same M c = (i, M') \<Longrightarrow> same_shape M M'"
  by (auto simp: intern_const_def same_shape_def bir_pfull_def split: option.splits if_splits)

lemma cfpe_inst_shape: "same_shape M (cfpe_inst from M ii)"
  by (auto simp: cfpe_inst_def same_shape_def Let_def split: prod.splits)

lemma cfpe_shape: "same_shape M (cfpe M from b)"
proof (cases "num_blocks M \<le> b")
  case False
  let ?B = "blocks M b"
  have "same_shape M (for_loop 0 (b_num_insts ?B) (\<lambda>j M. cfpe_inst from M (b_first_inst ?B + j)) M)"
    by (rule for_loop_keeps [where P = "same_shape M"]) (auto intro: same_shape_trans cfpe_inst_shape)
  then show ?thesis using False by (simp add: cfpe_def Let_def)
qed (simp add: cfpe_def)

lemma fold_int_shape: "fold_int S ii ty r = Fold_yes S' \<Longrightarrow> same_shape (cf_M S) (cf_M S')"
  "fold_float S ii ty r = Fold_yes S' \<Longrightarrow> same_shape (cf_M S) (cf_M S')"
  by (auto simp: fold_int_def fold_float_def bir_const_int_def bir_const_float_def
      dest: intern_const_shape split: prod.splits)

lemma fold_bool_shape: "fold_bool S ii ty r = Fold_yes S' \<Longrightarrow> same_shape (cf_M S) (cf_M S')"
  by (auto simp: fold_bool_def dest: fold_int_shape split: option.splits)

lemma fold_consts_shape: "fold_consts P S ii c0 c1 = Fold_yes S' \<Longrightarrow> same_shape (cf_M S) (cf_M S')"
  unfolding fold_consts_def Let_def
  by (auto dest: fold_int_shape fold_bool_shape split: if_splits option.splits int_res.splits)

lemma try_fold_shape:
  assumes "try_fold P S ii ab = Fold_yes S'"
  shows "same_shape (cf_M S) (cf_M S')"
proof -
  let ?I = "insts (cf_M S) ii"
  consider (phi) "i_op ?I = BIR_PHI" | (sel) "i_op ?I \<noteq> BIR_PHI" "fold_select S ii = Fold_yes S'"
    | (br) "fold_br_cond S ii ab = Fold_yes S'"
    | (cst) "fold_consts P S ii (const_oper (cf_M S) ?I 0) (const_oper (cf_M S) ?I 1) = Fold_yes S'"
    using assms unfolding try_fold_def Let_def by (auto split: if_splits)
  then show ?thesis
  proof cases
    case phi
    then show ?thesis using assms by (auto simp: try_fold_def Let_def split: if_splits)
  next
    case sel
    then show ?thesis by (auto simp: fold_select_def Let_def split: if_splits)
  next
    case br
    then show ?thesis
      by (auto simp: fold_br_cond_def Let_def intro: same_shape_trans [OF same_shape_insts(1) cfpe_shape]
          split: if_splits)
  next
    case cst
    then show ?thesis by (rule fold_consts_shape)
  qed
qed

lemma cf_rewrite_shape: "same_shape (cf_M S) (cf_M (cf_rewrite S i))"
  by (simp add: cf_rewrite_def Let_def same_shape_def)

text \<open>The loops of the pass keep a module of the given shape, or trap.\<close>

definition keeps :: "bir_module \<Rightarrow> (cf \<times> nat) option \<Rightarrow> bool" where
  "keeps M st \<longleftrightarrow> (case st of None \<Rightarrow> True | Some (S, n) \<Rightarrow> same_shape M (cf_M S))"

lemma cf_inst_keeps: "keeps M st \<Longrightarrow> keeps M (cf_inst P ab i st)"
  by (auto simp: keeps_def cf_inst_def Let_def split: option.splits fold_res.splits
      intro: same_shape_trans [OF same_shape_trans [OF _ cf_rewrite_shape] try_fold_shape]
        same_shape_trans [OF _ cf_rewrite_shape])

lemma cf_block_keeps: "keeps M st \<Longrightarrow> keeps M (cf_block P ab st)"
proof (cases st)
  case (Some p)
  assume k: "keeps M st"
  have "keeps M (for_loop 0 m (\<lambda>bj. cf_inst P ab (f bj)) st)" for m f
    by (rule for_loop_keeps) (simp_all add: k cf_inst_keeps)
  then show ?thesis using Some by (cases p) (simp add: cf_block_def Let_def)
qed (simp add: cf_block_def)

lemma cf_run_func_keeps:
  assumes "same_shape M (cf_M S)"
  shows "keeps M (cf_run_func P fi S)"
proof -
  have "keeps M (for_loop 0 n (\<lambda>bi. cf_block P (f bi)) (Some (S\<lparr>val_rewrite := r\<rparr>, 0)))" for n f r
    by (rule for_loop_keeps) (simp_all add: cf_block_keeps, simp add: keeps_def assms)
  then show ?thesis using assms by (simp add: cf_run_func_def Let_def keeps_def)
qed

text \<open>
  Folding never moves anything: blocks, functions, types, globals and the number
  of instructions are as before, and the constant pool only grows, with every old constant at
  its index.
\<close>

theorem bir_cfold_shape:
  assumes "bir_cfold P stale M = Some (S, n)"
  shows "same_shape M (cf_M S)"
proof -
  have "keeps M (bir_cfold P stale M)"
    unfolding bir_cfold_def
  proof (rule for_loop_keeps)
    fix fi and st :: "(cf \<times> nat) option"
    assume st: "keeps M st"
    show "keeps M (case st of None \<Rightarrow> None | Some (S, tot) \<Rightarrow>
        (case cf_run_func P fi S of None \<Rightarrow> None | Some (S1, n) \<Rightarrow> Some (S1, tot + n)))"
    proof (cases st)
      case (Some p)
      obtain S k where p: "p = (S, k)" by (cases p)
      have "keeps M (cf_run_func P fi S)"
        by (rule cf_run_func_keeps) (use st Some p in \<open>simp add: keeps_def\<close>)
      then show ?thesis using Some p by (auto simp: keeps_def split: option.splits)
    qed (simp add: keeps_def)
  qed (simp add: keeps_def)
  then show ?thesis using assms by (simp add: keeps_def)
qed

subsection \<open>Example\<close>

text \<open>An 8-bit division of the constants 200 and \<open>d\<close>, and the folding state around it.\<close>

definition fold_module :: "u64 \<Rightarrow> bir_module" where
  "fold_module d = (cleared_module (\<lambda>_. zero_inst))\<lparr>
     types := (\<lambda>_. zero_type)(1 := zero_type\<lparr>t_kind := BIR_TYPE_INT, t_width := 8\<rparr>), num_types := 2,
     bir_consts := (\<lambda>_. zero_const)(0 := zero_const\<lparr>c_type := 1, c_d := 200\<rparr>,
       1 := zero_const\<lparr>c_type := 1, c_d := d\<rparr>), num_consts := 2,
     insts := (\<lambda>_. zero_inst)(0 := zero_inst\<lparr>i_op := BIR_UDIV, i_num_operands := 2, i_type := 1,
       i_operands := ops_of [BIR_MAKE_CONST 0, BIR_MAKE_CONST 1]\<rparr>), num_insts := 1,
     blocks := (\<lambda>_. zero_block\<lparr>b_num_insts := 1\<rparr>), num_blocks := 1,
     funcs := (\<lambda>_. zero_func\<lparr>f_num_blocks := 1, f_total_insts := 1\<rparr>), num_funcs := 1\<rparr>"

definition fold_state :: "u64 \<Rightarrow> cf" where
  "fold_state d = \<lparr>cf_M = fold_module d, val_rewrite = (\<lambda>_. BIR_VAL_NONE)\<rparr>"

lemma fold_example: "int_fold_case (fold_module d) (insts (fold_module d) 0) 8 200 d"
proof -
  have "\<forall>j < 2. P j" if "P 0" "P (1 :: nat)" for P using that by (auto simp: less_2_cases_iff)
  then show ?thesis
    unfolding int_fold_case_def
    by (simp add: fold_module_def cleared_module_def zero_inst_def zero_type_def zero_const_def
        int_width_def ops_of_def BIR_MAKE_CONST_def BIR_VAL_INDEX_def BIR_VAL_IS_CONST_def less_2_cases_iff all_conj_distrib)
qed

lemma fold_example_op: "i_op (insts (fold_module d) 0) = BIR_UDIV" "num_consts (fold_module d) = 2"
  by (simp_all add: fold_module_def zero_inst_def)

lemma fold_example_low: "low 8 200 = 200" "low 8 7 = 7" "low 8 256 = 0"
  by (simp_all add: low_def)

definition any_fpu :: fpu where
  "any_fpu = \<lparr>fp_add = (\<lambda>a b. a), fp_sub = (\<lambda>a b. a), fp_mul = (\<lambda>a b. a), fp_div = (\<lambda>a b. a),
     fp_mod = (\<lambda>a b. a), fp_f32 = id, fp_of_signed = id, fp_of_unsigned = id, fp_to_signed = id,
     fp_to_unsigned = id\<rparr>"

theorem try_fold_int_correct_witness:
  "\<exists>S' ci. try_fold any_fpu (fold_state 7) 0 0 = Fold_yes S' \<and> val_rewrite S' 0 = BIR_MAKE_CONST ci \<and>
     uint (c_d (bir_consts (cf_M S') ci)) = 28"
proof -
  let ?S = "fold_state 7"
  have c: "int_fold_case (cf_M ?S) (insts (cf_M ?S) 0) 8 200 7" by (simp add: fold_state_def fold_example)
  have o: "i_op (insts (cf_M ?S) 0) = BIR_UDIV" by (simp add: fold_state_def fold_example_op)
  have n: "num_consts (cf_M ?S) < BIR_MAX_CONSTS" by (simp add: fold_state_def fold_example_op)
  have "\<exists>S'. try_fold any_fpu ?S 0 0 = Fold_yes S'"
    using try_fold_int_eq [OF c, of any_fpu 0] o
    by (simp add: int_binop_def mask_zero_iff fold_example_low fold_int_def split: prod.split)
  then obtain S' where S': "try_fold any_fpu ?S 0 0 = Fold_yes S'" by blast
  from try_fold_int_correct [OF c _ _ n S'] S' o show ?thesis
    by (force simp: ref_binop_def fold_example_low)
qed

theorem try_fold_div_trap_witness: "try_fold any_fpu (fold_state 256) 0 0 = Fold_trap"
  by (rule try_fold_div_trap [of _ _ 8 200 256])
    (simp_all add: fold_state_def fold_example fold_example_op fold_example_low)

text \<open>A phi of two edges that loses the one from block 3.\<close>

definition phi_module :: bir_module where
  "phi_module = (cleared_module (\<lambda>_. zero_inst))\<lparr>insts := (\<lambda>_. zero_inst)(0 := zero_inst\<lparr>i_op := BIR_PHI,
     i_num_operands := 4, i_operands := ops_of [3, 10, 5, 11]\<rparr>)\<rparr>"

theorem cfpe_inst_filters_witness:
  "pairs_of (i_operands (insts (cfpe_inst 3 phi_module 0) 0)) 0
     (i_num_operands (insts (cfpe_inst 3 phi_module 0) 0) div 2) = [(5, 11)]"
  using cfpe_inst_filters [OF refl refl, of phi_module 0 3]
  by (simp add: phi_module_def zero_inst_def pairs_of_def ops_of_def upt_rec)

lemmas fold_eval = fold_module_def cleared_module_def zero_inst_def zero_type_def zero_const_def
  zero_block_def zero_func_def int_width_def ops_of_def BIR_MAKE_CONST_def BIR_VAL_INDEX_def
  BIR_VAL_IS_CONST_def for_loop_def upt_rec cf_run_func_def cf_block_def cf_inst_def cf_rewrite_def
  try_fold_def all_const_def const_oper_def is_inline_block_ref_def rewrite_val_def
  fold_consts_def int_binop_def mask_to_width_def fold_int_def bir_const_int_def intern_const_def
  same_int_def

lemma fold_example_run: "\<exists>S. bir_cfold any_fpu (\<lambda>_. 0) (fold_module 7) = Some (S, 1)"
  by (simp add: bir_cfold_def fold_eval Let_def)

theorem bir_cfold_shape_witness:
  "\<exists>S. bir_cfold any_fpu (\<lambda>_. 0) (fold_module 7) = Some (S, 1) \<and> same_shape (fold_module 7) (cf_M S)"
  using fold_example_run bir_cfold_shape by blast

end
