(* ===== verification/Bir_Dce.thy ===== *)
theory Bir_Dce
  imports Bir_Cfold
begin

text \<open>
  Dead-code elimination, \<open>src/src/ir/bir_dce.c\<close>.  The working state \<open>opt_t\<close> is a record; the
  bitmap of dead instructions is a predicate, the renumbering table a partial map
  (\<open>OPT_UNDEF\<close> is \<open>None\<close>) and use counts are natural numbers.  The file repeats the two
  slot classifiers of the folder, word for word, so they are shared here.
\<close>

abbreviation dce_is_inline_block_ref :: "nat \<Rightarrow> nat \<Rightarrow> bool" where
  "dce_is_inline_block_ref \<equiv> is_inline_block_ref"

abbreviation dce_is_extra_block_ref :: "nat \<Rightarrow> nat \<Rightarrow> bool" where
  "dce_is_extra_block_ref \<equiv> is_extra_block_ref"

record opt =
  o_M :: bir_module
  o_func_idx :: nat
  o_base_block :: nat
  o_num_blocks :: nat
  o_base_inst :: nat
  o_num_insts :: nat
  dead :: "nat \<Rightarrow> bool"
  use_count :: "nat \<Rightarrow> nat"
  inst_renum :: "nat \<Rightarrow> nat option"
  rch :: "nat \<Rightarrow> bool"

definition is_pure_op :: "nat \<Rightarrow> bool" where
  "is_pure_op opc \<longleftrightarrow> opc \<in> set
     [BIR_ADD, BIR_SUB, BIR_MUL, BIR_SDIV, BIR_UDIV, BIR_SREM, BIR_UREM,
      BIR_FADD, BIR_FSUB, BIR_FMUL, BIR_FDIV, BIR_FREM,
      BIR_AND, BIR_OR, BIR_XOR, BIR_SHL, BIR_LSHR, BIR_ASHR,
      BIR_ICMP, BIR_FCMP,
      BIR_TRUNC, BIR_ZEXT, BIR_SEXT, BIR_FPTRUNC, BIR_FPEXT,
      BIR_FPTOSI, BIR_FPTOUI, BIR_SITOFP, BIR_UITOFP,
      BIR_PTRTOINT, BIR_INTTOPTR, BIR_BITCAST,
      BIR_SQRT, BIR_RSQ, BIR_RCP, BIR_EXP2, BIR_LOG2, BIR_SIN, BIR_COS,
      BIR_FABS, BIR_FLOOR, BIR_CEIL, BIR_FTRUNC, BIR_RNDNE, BIR_FMAX, BIR_FMIN,
      BIR_PHI,
      BIR_ALLOCA, BIR_SHARED_ALLOC, BIR_GLOBAL_REF, BIR_GEP,
      BIR_THREAD_ID, BIR_BLOCK_ID, BIR_BLOCK_DIM, BIR_GRID_DIM,
      BIR_SELECT, BIR_FNREF]"

subsection \<open>Operand walks\<close>

text \<open>
  The operand loop that use counting, renumbering and gap closing share: the value slots of
  an instruction, in order, inline or in the extra-operand pool.
\<close>

definition extra_slots :: "bir_module \<Rightarrow> bir_inst \<Rightarrow> nat list" where
  "extra_slots M I =
     (let start = unat (i_operands I 0); count = unat (i_operands I 1)
      in map (\<lambda>j. start + j)
           (filter (\<lambda>j. \<not> dce_is_extra_block_ref (i_op I) j) [0..<min count (num_extra_ops M - start)]))"

definition inline_slots :: "bir_inst \<Rightarrow> nat list" where
  "inline_slots I =
     filter (\<lambda>j. \<not> dce_is_inline_block_ref (i_op I) j) [0..<min (i_num_operands I) BIR_OPERANDS_INLINE]"

definition value_refs :: "bir_module \<Rightarrow> bir_inst \<Rightarrow> u32 list" where
  "value_refs M I =
     (if i_num_operands I = BIR_OPERANDS_OVERFLOW then map (extra_operands M) (extra_slots M I)
      else map (i_operands I) (inline_slots I))"

text \<open>Apply \<open>f\<close> to every value slot of instruction \<open>i\<close>.\<close>

definition map_value_slots :: "(u32 \<Rightarrow> u32) \<Rightarrow> nat \<Rightarrow> bir_module \<Rightarrow> bir_module" where
  "map_value_slots f i M =
     (let I = insts M i in
      if i_num_operands I = BIR_OPERANDS_OVERFLOW then
        M\<lparr>extra_operands := fold (\<lambda>p a. a(p := f (a p))) (extra_slots M I) (extra_operands M)\<rparr>
      else
        M\<lparr>insts := (insts M)(i := I\<lparr>i_operands :=
            fold (\<lambda>j a. a(j := f (a j))) (inline_slots I) (i_operands I)\<rparr>)\<rparr>)"

subsection \<open>Reachable blocks\<close>

definition nsuc :: "bir_module \<Rightarrow> bir_block \<Rightarrow> nat" where
  "nsuc M B =
     (if b_num_insts B = 0 \<or> b_first_inst B \<ge> num_insts M then 0
      else let I = insts M (b_first_inst B + b_num_insts B - 1) in
        if i_op I = BIR_BR then 1
        else if i_op I = BIR_BR_COND then 2
        else if i_op I \<noteq> BIR_SWITCH then 0
        else if i_num_operands I \<noteq> BIR_OPERANDS_OVERFLOW then 1
        else if unat (i_operands I 1) < 2 then 0
        else 1 + (unat (i_operands I 1) - 2) div 2)"

definition suc :: "bir_module \<Rightarrow> bir_block \<Rightarrow> nat \<Rightarrow> nat" where
  "suc M B k =
     (let I = insts M (b_first_inst B + b_num_insts B - 1) in
      unat (if i_op I = BIR_BR then bir_oper M I 0
        else if i_op I = BIR_BR_COND then bir_oper M I (1 + k)
        else if i_num_operands I \<noteq> BIR_OPERANDS_OVERFLOW then bir_oper M I 1
        else if k = 0 then bir_oper M I 1 else bir_oper M I (2 * k + 1)))"

definition plive :: "opt \<Rightarrow> nat \<Rightarrow> nat \<Rightarrow> bool" where
  "plive S p b =
     (if p < o_base_block S then True
      else let lp = p - o_base_block S in
        if lp \<ge> o_num_blocks S then True
        else if \<not> rch S lp then False
        else find (\<lambda>k. suc (o_M S) (blocks (o_M S) p) k = b) [0..<nsuc (o_M S) (blocks (o_M S) p)] \<noteq> None)"

text \<open>One phi: drop the pairs of dead edges.  The state is the write cursor, the array, the flag.\<close>

definition phix_step :: "(u32 \<Rightarrow> bool) \<Rightarrow> nat \<Rightarrow> nat \<Rightarrow> nat \<times> (nat \<Rightarrow> u32) \<times> bool \<Rightarrow> nat \<times> (nat \<Rightarrow> u32) \<times> bool" where
  "phix_step live st i s =
     (let (w, a, drop) = s; k = 2 * i in
      if \<not> live (a (st + k)) then (w, a, True)
      else (w + 2, a(st + w := a (st + k), st + w + 1 := a (st + k + 1)), drop))"

definition phix :: "opt \<Rightarrow> nat \<Rightarrow> nat \<Rightarrow> opt \<times> nat" where
  "phix S b ii =
     (let M = o_M S; I = insts M ii; live = (\<lambda>p. plive S (unat p) b) in
      if i_num_operands I = BIR_OPERANDS_OVERFLOW then
        let st = unat (i_operands I 0); n = unat (i_operands I 1);
            (w, a, drop) = for_loop 0 (min (n div 2) ((num_extra_ops M - st) div 2))
                             (phix_step live st) (0, extra_operands M, False)
        in (S\<lparr>o_M := M\<lparr>extra_operands := a,
               insts := (insts M)(ii := I\<lparr>i_operands := (i_operands I)(1 := word_of_nat w)\<rparr>)\<rparr>\<rparr>,
            if drop then 1 else 0)
      else
        let (w, a, drop) = for_loop 0 (i_num_operands I div 2) (phix_step live 0) (0, i_operands I, False)
        in (S\<lparr>o_M := M\<lparr>insts := (insts M)(ii := I\<lparr>i_operands := a, i_num_operands := w\<rparr>)\<rparr>\<rparr>,
            if drop then 1 else 0))"

text \<open>
  Marking: a round visits the blocks in order and marks the successors of marked ones; rounds
  repeat until nothing changes, at most \<open>nb + 1\<close> times.
\<close>

definition mark_succ :: "opt \<Rightarrow> nat \<Rightarrow> nat \<Rightarrow> (nat \<Rightarrow> bool) \<times> bool \<Rightarrow> (nat \<Rightarrow> bool) \<times> bool" where
  "mark_succ S i k st =
     (let (r, chg) = st; t = suc (o_M S) (blocks (o_M S) (o_base_block S + i)) k in
      if t < o_base_block S then (r, chg)
      else let t = t - o_base_block S in
        if t \<ge> o_num_blocks S \<or> r t then (r, chg) else (r(t := True), True))"

definition mark_block :: "opt \<Rightarrow> nat \<Rightarrow> (nat \<Rightarrow> bool) \<times> bool \<Rightarrow> (nat \<Rightarrow> bool) \<times> bool" where
  "mark_block S i st =
     (if \<not> fst st i then st
      else for_loop 0 (nsuc (o_M S) (blocks (o_M S) (o_base_block S + i))) (mark_succ S i) st)"

definition mark_round :: "opt \<Rightarrow> (nat \<Rightarrow> bool) \<Rightarrow> (nat \<Rightarrow> bool) \<times> bool" where
  "mark_round S r = for_loop 0 (o_num_blocks S) (mark_block S) (r, False)"

fun mark_rounds :: "nat \<Rightarrow> opt \<Rightarrow> (nat \<Rightarrow> bool) \<Rightarrow> (nat \<Rightarrow> bool)" where
  "mark_rounds 0 S r = r"
| "mark_rounds (Suc g) S r =
     (let (r1, chg) = mark_round S r in if chg then mark_rounds g S r1 else r1)"

definition rmark :: "opt \<Rightarrow> opt" where
  "rmark S =
     S\<lparr>rch := mark_rounds (o_num_blocks S + 1) S
        (\<lambda>i. if i = 0 then True else if i < o_num_blocks S then False else rch S i)\<rparr>"

text \<open>
  The reachability pass: kill the bodies of unreachable blocks, then the phi pairs of dead
  edges.
\<close>

definition kill_block :: "nat \<Rightarrow> opt \<times> nat \<Rightarrow> opt \<times> nat" where
  "kill_block i st =
     (let (S, n) = st; M = o_M S; B = blocks M (o_base_block S + i); f = b_first_inst B in
      if rch S i \<or> b_num_insts B = 0 then st
      else
        let S1 = S\<lparr>dead := (\<lambda>ii. f + 1 \<le> ii \<and> ii < f + b_num_insts B \<or> dead S ii)\<rparr>;
            n1 = n + (b_num_insts B - 1);
            I = insts M f
        in if i_op I = BIR_UNREACHABLE then (S1, n1)
           else let (v, M1) = bir_type_void M in
             (S1\<lparr>o_M := M1\<lparr>insts := (insts M1)(f := I\<lparr>i_op := BIR_UNREACHABLE, i_subop := 0,
                 i_num_operands := 0, i_type := v\<rparr>)\<rparr>\<rparr>, n1 + 1))"

definition phix_block :: "nat \<Rightarrow> opt \<times> nat \<Rightarrow> opt \<times> nat" where
  "phix_block i st =
     (let B = blocks (o_M (fst st)) (o_base_block (fst st) + i) in
      if \<not> rch (fst st) i then st
      else for_loop 0 (b_num_insts B)
        (\<lambda>k (S, n). let ii = b_first_inst B + k in
           if i_op (insts (o_M S) ii) \<noteq> BIR_PHI \<or> dead S ii then (S, n)
           else let (S1, d) = phix S (o_base_block S + i) ii in (S1, n + d)) st)"

definition rchk :: "opt \<Rightarrow> opt \<times> nat" where
  "rchk S =
     (let S0 = rmark S; nb = o_num_blocks S
      in for_loop 0 nb phix_block (for_loop 1 nb kill_block (S0, 0)))"

subsection \<open>Dead instructions\<close>

definition count_ref :: "nat \<Rightarrow> nat \<Rightarrow> u32 \<Rightarrow> (nat \<Rightarrow> nat) \<Rightarrow> (nat \<Rightarrow> nat)" where
  "count_ref lo hi ref uc =
     (if ref \<noteq> BIR_VAL_NONE \<and> \<not> BIR_VAL_IS_CONST ref then
        let idx = BIR_VAL_INDEX ref
        in if idx \<ge> lo \<and> idx < hi then uc(idx := uc idx + 1) else uc
      else uc)"

definition count_uses :: "bir_module \<Rightarrow> (nat \<Rightarrow> bool) \<Rightarrow> nat \<Rightarrow> nat \<Rightarrow> (nat \<Rightarrow> nat) \<Rightarrow> (nat \<Rightarrow> nat)" where
  "count_uses M dd lo hi uc =
     for_loop lo hi (\<lambda>i uc. if dd i then uc else fold (count_ref lo hi) (value_refs M (insts M i)) uc)
       (\<lambda>i. if lo \<le> i \<and> i < hi then 0 else uc i)"

definition removable :: "bir_inst \<Rightarrow> bool" where
  "removable I \<longleftrightarrow> is_pure_op (i_op I) \<or> i_op I = BIR_LOAD \<and> i_subop I = 0"

definition dce_kill :: "bir_module \<Rightarrow> (nat \<Rightarrow> nat) \<Rightarrow> nat \<Rightarrow> (nat \<Rightarrow> bool) \<times> nat \<Rightarrow> (nat \<Rightarrow> bool) \<times> nat" where
  "dce_kill M uc i st =
     (let (dd, n) = st in
      if dd i then (dd, n)
      else if uc i = 0 \<and> removable (insts M i) then (dd(i := True), n + 1) else (dd, n))"

text \<open>The fixpoint loop; \<open>while (changed && --guard)\<close> from 100 runs at most 99 rounds.\<close>

fun dce_rounds :: "nat \<Rightarrow> opt \<Rightarrow> nat \<Rightarrow> opt \<times> nat" where
  "dce_rounds 0 S n = (S, n)"
| "dce_rounds (Suc g) S n =
     (let lo = o_base_inst S; hi = lo + o_num_insts S;
          uc = count_uses (o_M S) (dead S) lo hi (use_count S);
          (dd, k) = for_loop lo hi (dce_kill (o_M S) uc) (dead S, 0);
          S1 = S\<lparr>use_count := uc, dead := dd\<rparr>
      in if k > 0 then dce_rounds g S1 (n + k) else (S1, n))"

definition dce_pass :: "opt \<Rightarrow> opt \<times> nat" where
  "dce_pass S = dce_rounds 99 S 0"

subsection \<open>Compaction\<close>

definition remap_operand :: "u32 \<Rightarrow> (nat \<Rightarrow> nat option) \<Rightarrow> nat \<Rightarrow> u32" where
  "remap_operand ref renum max_inst =
     (if ref = BIR_VAL_NONE \<or> BIR_VAL_IS_CONST ref then ref
      else let idx = BIR_VAL_INDEX ref in
        if idx < max_inst \<and> renum idx \<noteq> None then BIR_MAKE_VAL (the (renum idx)) else ref)"

definition renum_inst :: "(nat \<Rightarrow> bool) \<Rightarrow> nat \<Rightarrow> (nat \<Rightarrow> nat option) \<times> nat \<Rightarrow> (nat \<Rightarrow> nat option) \<times> nat" where
  "renum_inst dd ii st =
     (let (rn, k) = st in if dd ii then (rn, k) else (rn(ii := Some k), k + 1))"

definition renum_table :: "opt \<Rightarrow> (nat \<Rightarrow> nat option) \<times> nat" where
  "renum_table S =
     for_loop 0 (o_num_blocks S)
       (\<lambda>bi. let B = blocks (o_M S) (o_base_block S + bi)
             in for_loop 0 (b_num_insts B) (\<lambda>j. renum_inst (dead S) (b_first_inst B + j)))
       (\<lambda>i. if i < num_insts (o_M S) then None else inst_renum S i, o_base_inst S)"

definition move_inst :: "(nat \<Rightarrow> bool) \<Rightarrow> nat \<Rightarrow> bir_module \<times> nat \<Rightarrow> bir_module \<times> nat" where
  "move_inst dd ii st =
     (let (M, wr) = st in
      if dd ii then (M, wr)
      else ((if wr \<noteq> ii then M\<lparr>insts := (insts M)(wr := insts M ii),
                 inst_lines := (inst_lines M)(wr := inst_lines M ii)\<rparr> else M), wr + 1))"

definition move_block :: "(nat \<Rightarrow> bool) \<Rightarrow> nat \<Rightarrow> bir_module \<times> nat \<Rightarrow> bir_module \<times> nat" where
  "move_block dd abs_b st =
     (let (M, wr) = st; B = blocks M abs_b;
          (M1, wr1) = for_loop 0 (b_num_insts B) (\<lambda>j. move_inst dd (b_first_inst B + j)) (M, wr)
      in (M1\<lparr>blocks := (blocks M1)(abs_b := (blocks M1 abs_b)\<lparr>b_first_inst := wr,
            b_num_insts := wr1 - wr\<rparr>)\<rparr>, wr1))"

definition compact :: "opt \<Rightarrow> opt" where
  "compact S =
     (let M = o_M S; old_num_insts = num_insts M;
          (rn, new_idx) = renum_table S;
          new_total = new_idx - o_base_inst S;
          (M1, wr) = for_loop 0 (o_num_blocks S) (\<lambda>bi. move_block (dead S) (o_base_block S + bi))
                       (M, o_base_inst S);
          M2 = M1\<lparr>funcs := (funcs M1)(o_func_idx S := (funcs M1 (o_func_idx S))\<lparr>f_total_insts := new_total\<rparr>)\<rparr>;
          M3 = for_loop (o_base_inst S) (o_base_inst S + new_total)
                 (map_value_slots (\<lambda>r. remap_operand r rn old_num_insts)) M2
      in S\<lparr>o_M := M3, inst_renum := rn\<rparr>)"

subsection \<open>The pass\<close>

definition opt_start :: "nat \<Rightarrow> opt \<Rightarrow> opt" where
  "opt_start fi S =
     (let F = funcs (o_M S) fi;
          base = b_first_inst (blocks (o_M S) (f_first_block F));
          n = f_total_insts F
      in S\<lparr>o_func_idx := fi, o_base_block := f_first_block F, o_num_blocks := f_num_blocks F,
           o_base_inst := base, o_num_insts := n,
           dead := (\<lambda>i. if base div 32 \<le> i div 32 \<and> i div 32 < (base + n + 31) div 32 then False else dead S i)\<rparr>)"

definition opt_run_func :: "nat \<Rightarrow> opt \<Rightarrow> opt \<times> nat" where
  "opt_run_func fi S =
     (let F = funcs (o_M S) fi in
      if f_num_blocks F = 0 \<or> f_total_insts F = 0 then (S, 0)
      else
        let (S1, n1) = rchk (opt_start fi S);
            (S2, n2) = dce_pass S1;
            changes = n1 + n2
        in (if changes > 0 then compact S2 else S2, changes))"

text \<open>Closing the gap in front of one function; the state is the module and the cursor.\<close>

definition shift_ref :: "nat \<Rightarrow> nat \<Rightarrow> nat \<Rightarrow> u32 \<Rightarrow> u32" where
  "shift_ref src dst count ref =
     (if BIR_VAL_IS_CONST ref \<or> ref = BIR_VAL_NONE then ref
      else let idx = BIR_VAL_INDEX ref in
        if idx \<ge> src \<and> idx < src + count then BIR_MAKE_VAL (nat (int idx + (int dst - int src))) else ref)"

definition close_gap :: "nat \<Rightarrow> bir_module \<times> nat \<Rightarrow> bir_module \<times> nat" where
  "close_gap fi st =
     (let (M, dst) = st; F = funcs M fi in
      if f_num_blocks F = 0 then (M, dst)
      else
        let src = b_first_inst (blocks M (f_first_block F)); count = f_total_insts F in
        if src = dst then (M, dst + count)
        else
          let M1 = M\<lparr>insts := blit (insts M) dst src count, inst_lines := blit (inst_lines M) dst src count\<rparr>;
              M2 = for_loop 0 (f_num_blocks F)
                     (\<lambda>bi M. let ab = f_first_block F + bi in
                        M\<lparr>blocks := (blocks M)(ab := (blocks M ab)\<lparr>b_first_inst :=
                          nat (int (b_first_inst (blocks M ab)) + (int dst - int src))\<rparr>)\<rparr>) M1;
              M3 = for_loop dst (dst + count) (map_value_slots (shift_ref src dst count)) M2
          in (M3, dst + count))"

definition bir_dce :: "bir_module \<Rightarrow> bir_module \<times> nat" where
  "bir_dce M =
     (let S0 = \<lparr>o_M = M, o_func_idx = 0, o_base_block = 0, o_num_blocks = 0, o_base_inst = 0,
                o_num_insts = 0, dead = (\<lambda>_. False), use_count = (\<lambda>_. 0),
                inst_renum = (\<lambda>_. Some 0), rch = (\<lambda>_. False)\<rparr>;
          (S, tot) = for_loop 0 (num_funcs M)
                       (\<lambda>fi (S, tot). let (S1, n) = opt_run_func fi S in (S1, tot + n)) (S0, 0)
      in if tot > 0 then
           let (M1, dst) = for_loop 0 (num_funcs M) close_gap (o_M S, 0)
           in (M1\<lparr>num_insts := dst\<rparr>, tot)
         else (o_M S, tot))"

end
