(* ===== verification/Bir_Dce_Correct.thy ===== *)
theory Bir_Dce_Correct
  imports Bir_Dce
begin

text \<open>
  Correctness of dead-code elimination: the marking loop computes reachability, the use-count
  rounds remove only instructions nothing live refers to, and compaction keeps the live
  instructions of every block in order, with every reference following its instruction.
\<close>

subsection \<open>Reachability\<close>

definition edge :: "opt \<Rightarrow> nat \<Rightarrow> nat \<Rightarrow> bool" where
  "edge S i t \<longleftrightarrow> i < o_num_blocks S \<and> t < o_num_blocks S \<and>
     (\<exists>k < nsuc (o_M S) (blocks (o_M S) (o_base_block S + i)).
        suc (o_M S) (blocks (o_M S) (o_base_block S + i)) k = o_base_block S + t)"

inductive reach :: "opt \<Rightarrow> nat \<Rightarrow> bool" for S where
  entry: "reach S 0"
| step: "reach S i \<Longrightarrow> edge S i t \<Longrightarrow> reach S t"

definition closed_under :: "opt \<Rightarrow> (nat \<Rightarrow> bool) \<Rightarrow> bool" where
  "closed_under S r \<longleftrightarrow> (\<forall>i t. r i \<longrightarrow> edge S i t \<longrightarrow> r t)"

lemma reach_closed: "reach S i \<Longrightarrow> closed_under S r \<Longrightarrow> r 0 \<Longrightarrow> r i"
  by (induction rule: reach.induct) (auto simp: closed_under_def)

text \<open>
  What a round does to the marks \<open>r\<close>: it only adds reachable blocks of the function, and if it
  adds none, the edges visited so far (\<open>visited\<close>) lead to marked blocks.
\<close>

definition edges_done :: "opt \<Rightarrow> (nat \<Rightarrow> bool) \<Rightarrow> (nat \<Rightarrow> nat \<Rightarrow> bool) \<Rightarrow> bool" where
  "edges_done S r visited \<longleftrightarrow>
     (\<forall>i k t. visited i k \<longrightarrow> r i \<longrightarrow> t < o_num_blocks S \<longrightarrow>
        suc (o_M S) (blocks (o_M S) (o_base_block S + i)) k = o_base_block S + t \<longrightarrow> r t)"

definition mark_inv :: "opt \<Rightarrow> (nat \<Rightarrow> bool) \<Rightarrow> (nat \<Rightarrow> nat \<Rightarrow> bool) \<Rightarrow> (nat \<Rightarrow> bool) \<times> bool \<Rightarrow> bool" where
  "mark_inv S r visited st =
     (let (r1, chg) = st in
      (\<forall>i. r i \<longrightarrow> r1 i) \<and> (\<forall>i. r1 i \<longrightarrow> r i \<or> i < o_num_blocks S) \<and>
      ((\<forall>i < o_num_blocks S. r i \<longrightarrow> reach S i) \<longrightarrow> (\<forall>i < o_num_blocks S. r1 i \<longrightarrow> reach S i)) \<and>
      (chg \<longrightarrow> (\<exists>t < o_num_blocks S. \<not> r t \<and> r1 t)) \<and>
      (\<not> chg \<longrightarrow> r1 = r \<and> edges_done S r visited))"

lemma mark_succ_inv:
  assumes inv: "mark_inv S r V st" and i: "i < o_num_blocks S" "fst st i"
    and k: "k < nsuc (o_M S) (blocks (o_M S) (o_base_block S + i))"
  shows "mark_inv S r (\<lambda>i' k'. V i' k' \<or> i' = i \<and> k' = k) (mark_succ S i k st) \<and>
    fst (mark_succ S i k st) i"
proof -
  obtain r1 chg where st: "st = (r1, chg)" by (cases st)
  define t where "t = suc (o_M S) (blocks (o_M S) (o_base_block S + i)) k"
  note inv' = inv [unfolded mark_inv_def st Let_def prod.case]
  show ?thesis
  proof (cases "t < o_base_block S \<or> t - o_base_block S \<ge> o_num_blocks S \<or> r1 (t - o_base_block S)")
    case True
    then have e: "mark_succ S i k st = (r1, chg)" by (auto simp: mark_succ_def st Let_def t_def)
    have "\<not> chg \<Longrightarrow> t' < o_num_blocks S \<Longrightarrow> t = o_base_block S + t' \<Longrightarrow> r t'" for t'
      using True inv' by auto
    then have "\<not> chg \<Longrightarrow> edges_done S r (\<lambda>i' k'. V i' k' \<or> i' = i \<and> k' = k)"
      using inv' unfolding edges_done_def t_def by blast
    then show ?thesis
      unfolding e mark_inv_def Let_def prod.case using inv' i by (simp add: st)
  next
    case False
    define u where "u = t - o_base_block S"
    have u: "u < o_num_blocks S" "\<not> r1 u" "t = o_base_block S + u" using False by (auto simp: u_def)
    have e: "mark_succ S i k st = (r1(u := True), True)"
      using False by (simp add: mark_succ_def st Let_def t_def u_def)
    have ed: "edge S i u" using i(1) u k by (auto simp: edge_def t_def)
    have "reach S u" if "\<forall>i < o_num_blocks S. r i \<longrightarrow> reach S i"
      using that inv' i ed reach.step [of S i u] by (auto simp: st)
    moreover have "\<not> r u" using u(2) inv' by auto
    ultimately show ?thesis
      unfolding e mark_inv_def Let_def prod.case using inv' i u by (auto simp: st)
  qed
qed

abbreviation nsucs :: "opt \<Rightarrow> nat \<Rightarrow> nat" where
  "nsucs S i \<equiv> nsuc (o_M S) (blocks (o_M S) (o_base_block S + i))"

lemma mark_inv_mono:
  assumes "mark_inv S r V st" "\<And>i k. r i \<Longrightarrow> V' i k \<Longrightarrow> V i k"
  shows "mark_inv S r V' st"
proof -
  have "edges_done S r V \<Longrightarrow> edges_done S r V'" using assms(2) unfolding edges_done_def by blast
  then show ?thesis using assms(1) by (cases st) (simp add: mark_inv_def)
qed

lemma mark_block_inv:
  assumes inv: "mark_inv S r (\<lambda>i' k'. i' < i \<and> k' < nsucs S i') st" and i: "i < o_num_blocks S"
  shows "mark_inv S r (\<lambda>i' k'. i' < Suc i \<and> k' < nsucs S i') (mark_block S i st)"
proof (cases "fst st i")
  case True
  let ?P = "\<lambda>m s. mark_inv S r (\<lambda>i' k'. i' < i \<and> k' < nsucs S i' \<or> i' = i \<and> k' < m) s \<and> fst s i"
  have "?P (nsucs S i) (for_loop 0 (nsucs S i) (mark_succ S i) st)"
  proof (rule for_loop_inv [where P = ?P])
    show "?P 0 st" using inv True by simp
  next
    fix k s
    assume k: "k < nsucs S i" and P: "?P k s"
    from mark_succ_inv [OF conjunct1 [OF P] i conjunct2 [OF P] k]
    show "?P (Suc k) (mark_succ S i k s)" by (auto elim!: mark_inv_mono simp: less_Suc_eq)
  qed simp
  then show ?thesis using True by (auto simp: mark_block_def less_Suc_eq elim: mark_inv_mono)
next
  case False
  then have "\<not> r i" using inv by (auto simp: mark_inv_def Let_def split: prod.splits)
  then have "mark_inv S r (\<lambda>i' k'. i' < Suc i \<and> k' < nsucs S i') st"
    using inv by (elim mark_inv_mono) (auto simp: less_Suc_eq)
  then show ?thesis using False by (simp add: mark_block_def)
qed

lemma mark_round_inv: "mark_inv S r (\<lambda>i k. i < o_num_blocks S \<and> k < nsucs S i) (mark_round S r)"
  unfolding mark_round_def
proof (rule for_loop_inv [where P = "\<lambda>m. mark_inv S r (\<lambda>i k. i < m \<and> k < nsucs S i)"])
  show "mark_inv S r (\<lambda>i k. i < 0 \<and> k < nsucs S i) (r, False)" by (simp add: mark_inv_def edges_done_def)
qed (simp_all add: mark_block_inv)

lemma mark_round_closed:
  assumes "mark_round S r = (r1, False)"
  shows "r1 = r" "closed_under S r"
  using mark_round_inv [of S r] unfolding assms mark_inv_def Let_def prod.case
  by (auto simp: closed_under_def edge_def edges_done_def)

lemma mark_rounds_correct:
  assumes "card {i. i < o_num_blocks S \<and> \<not> r i} < g"
    and "\<forall>i < o_num_blocks S. r i \<longrightarrow> reach S i" "r 0"
  shows "closed_under S (mark_rounds g S r) \<and> mark_rounds g S r 0 \<and>
    (\<forall>i < o_num_blocks S. mark_rounds g S r i \<longrightarrow> reach S i)"
  using assms
proof (induction g arbitrary: r)
  case 0
  then show ?case by simp
next
  case (Suc g)
  obtain r1 chg where m: "mark_round S r = (r1, chg)" by (cases "mark_round S r")
  note inv = mark_round_inv [of S r, unfolded m mark_inv_def Let_def prod.case]
  show ?case
  proof (cases chg)
    case False
    then show ?thesis using mark_round_closed [of S r r1] m Suc.prems by simp
  next
    case True
    let ?U = "\<lambda>r. {i. i < o_num_blocks S \<and> \<not> r i}"
    have "?U r1 \<subset> ?U r" using inv True by blast
    then have "card (?U r1) < card (?U r)" by (intro psubset_card_mono) auto
    then have "card (?U r1) < g" using Suc.prems(1) by simp
    moreover have "\<forall>i < o_num_blocks S. r1 i \<longrightarrow> reach S i" using inv Suc.prems(2) by blast
    moreover have "r1 0" using inv Suc.prems(3) by blast
    ultimately show ?thesis using Suc.IH m True by simp
  qed
qed

text \<open>
  Property C9.  The marking loop of dead-code elimination finds exactly the blocks reachable from
  the entry, and its bound of \<open>nb + 1\<close> rounds is always enough.
\<close>

theorem rmark_reachable:
  assumes "i < o_num_blocks S"
  shows "rch (rmark S) i \<longleftrightarrow> reach S i"
proof -
  define n r where "n = o_num_blocks S"
    and "r = (\<lambda>i. if i = 0 then True else if i < n then False else rch S i)"
  have "{i. i < n \<and> \<not> r i} \<subseteq> {..<n}" by auto
  from card_mono [OF _ this] have card: "card {i. i < n \<and> \<not> r i} < n + 1" by simp
  have start: "\<forall>i < n. r i \<longrightarrow> reach S i" "r 0" by (simp_all add: r_def reach.entry)
  have e: "rch (rmark S) = mark_rounds (n + 1) S r" by (simp only: rmark_def n_def r_def) simp
  note c = mark_rounds_correct [OF card [unfolded n_def] start [unfolded n_def], folded n_def]
  show ?thesis unfolding e using c reach_closed [of S i] assms [folded n_def] by blast
qed

subsection \<open>No live use of a removed instruction\<close>

definition refers :: "bir_module \<Rightarrow> nat \<Rightarrow> nat \<Rightarrow> bool" where
  "refers M i idx \<longleftrightarrow>
     (\<exists>ref \<in> set (value_refs M (insts M i)). ref \<noteq> BIR_VAL_NONE \<and> \<not> BIR_VAL_IS_CONST ref \<and>
        BIR_VAL_INDEX ref = idx)"

lemma fold_count_mono: "uc idx \<le> fold (count_ref lo hi) refs uc idx"
proof (induction refs arbitrary: uc)
  case (Cons ref refs)
  have "uc idx \<le> count_ref lo hi ref uc idx" by (simp add: count_ref_def Let_def)
  also have "\<dots> \<le> fold (count_ref lo hi) refs (count_ref lo hi ref uc) idx" by (rule Cons.IH)
  finally show ?case by simp
qed simp

lemma fold_count_pos:
  assumes "ref \<in> set refs" "ref \<noteq> BIR_VAL_NONE" "\<not> BIR_VAL_IS_CONST ref" "BIR_VAL_INDEX ref = idx"
    "lo \<le> idx" "idx < hi"
  shows "0 < fold (count_ref lo hi) refs uc idx"
  using assms
proof (induction refs arbitrary: uc)
  case (Cons x refs)
  show ?case
  proof (cases "x = ref")
    case True
    then have "0 < count_ref lo hi x uc idx" using Cons.prems by (simp add: count_ref_def)
    then show ?thesis using fold_count_mono [of "count_ref lo hi x uc" idx lo hi refs] by simp
  next
    case False
    then show ?thesis using Cons by simp
  qed
qed simp

lemma count_uses_pos:
  assumes "lo \<le> i" "i < hi" "\<not> dd i" "refers M i idx" "lo \<le> idx" "idx < hi"
  shows "0 < count_uses M dd lo hi uc idx"
proof -
  let ?step = "\<lambda>i uc. if dd i then uc else fold (count_ref lo hi) (value_refs M (insts M i)) uc"
  let ?P = "\<lambda>m uc. i < m \<longrightarrow> 0 < uc idx"
  have "?P hi (count_uses M dd lo hi uc)"
    unfolding count_uses_def
  proof (rule for_loop_inv [where P = ?P])
    fix m and u :: "nat \<Rightarrow> nat"
    assume P: "?P m u"
    show "?P (Suc m) (?step m u)"
    proof (cases "m = i")
      case True
      then show ?thesis using assms by (auto simp: refers_def intro: fold_count_pos)
    next
      case False
      then show ?thesis using P fold_count_mono [of u idx] by (auto simp: less_Suc_eq intro: less_le_trans)
    qed
  qed (use assms in auto)
  then show ?thesis using assms(2) by simp
qed

lemma dce_kill_loop:
  assumes "for_loop lo hi (dce_kill M uc) (dd, n) = (dd', n')" "lo \<le> hi"
  shows "(\<forall>i. dd i \<longrightarrow> dd' i) \<and>
    (\<forall>i. dd' i \<longrightarrow> dd i \<or> lo \<le> i \<and> i < hi \<and> uc i = 0 \<and> removable (insts M i)) \<and>
    (\<forall>i. lo \<le> i \<longrightarrow> i < hi \<longrightarrow> uc i = 0 \<longrightarrow> removable (insts M i) \<longrightarrow> dd' i) \<and> n \<le> n' \<and> (n' = n \<longrightarrow> dd' = dd)"
proof -
  let ?P = "\<lambda>m st. (\<forall>i. dd i \<longrightarrow> fst st i) \<and>
    (\<forall>i. fst st i \<longrightarrow> dd i \<or> lo \<le> i \<and> i < hi \<and> uc i = 0 \<and> removable (insts M i)) \<and>
    (\<forall>i. lo \<le> i \<longrightarrow> i < m \<longrightarrow> uc i = 0 \<longrightarrow> removable (insts M i) \<longrightarrow> fst st i) \<and> n \<le> snd st \<and>
    (snd st = n \<longrightarrow> fst st = dd)"
  have "?P hi (for_loop lo hi (dce_kill M uc) (dd, n))"
  proof (rule for_loop_inv [where P = ?P])
    fix m and st :: "(nat \<Rightarrow> bool) \<times> nat"
    assume "lo \<le> m" "m < hi" "?P m st"
    then show "?P (Suc m) (dce_kill M uc m st)"
      by (cases st) (auto simp: dce_kill_def less_Suc_eq)
  qed (use assms(2) in auto)
  then show ?thesis using assms(1) by simp
qed

text \<open>Killed since \<open>D\<close>: only removable instructions of the function that no live one refers to.\<close>

definition dce_inv :: "(nat \<Rightarrow> bool) \<Rightarrow> opt \<Rightarrow> bool" where
  "dce_inv D S \<longleftrightarrow>
     (let lo = o_base_inst S; hi = lo + o_num_insts S in
      (\<forall>i. D i \<longrightarrow> dead S i) \<and>
      (\<forall>i. dead S i \<longrightarrow> \<not> D i \<longrightarrow> lo \<le> i \<and> i < hi \<and> removable (insts (o_M S) i)) \<and>
      (\<forall>i idx. lo \<le> i \<longrightarrow> i < hi \<longrightarrow> \<not> dead S i \<longrightarrow> refers (o_M S) i idx \<longrightarrow> dead S idx \<longrightarrow> D idx))"

lemma dce_rounds_inv:
  assumes "dce_inv D S" "dce_rounds g S n = (S', n')"
  shows "dce_inv D S' \<and> o_M S' = o_M S \<and> o_base_inst S' = o_base_inst S \<and> o_num_insts S' = o_num_insts S"
  using assms
proof (induction g arbitrary: S n)
  case 0
  then show ?case by simp
next
  case (Suc g)
  define lo hi where "lo = o_base_inst S" and "hi = o_base_inst S + o_num_insts S"
  define uc where "uc = count_uses (o_M S) (dead S) lo hi (use_count S)"
  obtain dd k where l: "for_loop lo hi (dce_kill (o_M S) uc) (dead S, 0) = (dd, k)"
    by (metis surj_pair)
  define S1 where "S1 = S\<lparr>use_count := uc, dead := dd\<rparr>"
  have r: "dce_rounds (Suc g) S n = (if k > 0 then dce_rounds g S1 (n + k) else (S1, n))"
    using l by (simp add: Let_def lo_def hi_def uc_def S1_def)
  have "lo \<le> hi" by (simp add: lo_def hi_def)
  note kl = dce_kill_loop [OF l this]
  have "dce_inv D S1"
    unfolding dce_inv_def Let_def
  proof (intro conjI allI impI)
    have inv: "\<And>i. D i \<Longrightarrow> dead S i" "\<And>i. dead S i \<Longrightarrow> \<not> D i \<Longrightarrow> lo \<le> i \<and> i < hi \<and> removable (insts (o_M S) i)"
      "\<And>i idx. lo \<le> i \<Longrightarrow> i < hi \<Longrightarrow> \<not> dead S i \<Longrightarrow> refers (o_M S) i idx \<Longrightarrow> dead S idx \<Longrightarrow> D idx"
      using Suc.prems(1) unfolding dce_inv_def Let_def lo_def hi_def by blast+
    have kl': "\<And>i. dead S i \<Longrightarrow> dd i"
      "\<And>i. dd i \<Longrightarrow> \<not> dead S i \<Longrightarrow> lo \<le> i \<and> i < hi \<and> uc i = 0 \<and> removable (insts (o_M S) i)"
      using kl by blast+
    have S1: "dead S1 = dd" "o_M S1 = o_M S" "o_base_inst S1 = lo" "lo + o_num_insts S1 = hi"
      by (simp_all add: S1_def lo_def hi_def)
    have dd: "lo \<le> i \<and> i < hi \<and> removable (insts (o_M S) i)" if "dd i" "\<not> D i" for i
      using that inv(2) [of i] kl'(2) [of i] by blast
    fix i idx
    show "dead S1 i" if "D i" using that inv(1) kl'(1) S1 by simp
    show "o_base_inst S1 \<le> i" "i < o_base_inst S1 + o_num_insts S1" "removable (insts (o_M S1) i)"
      if "dead S1 i" "\<not> D i"
      using dd [of i] that unfolding S1 by blast+
    show "D idx" if a: "o_base_inst S1 \<le> i" "i < o_base_inst S1 + o_num_insts S1" "\<not> dead S1 i"
      "refers (o_M S1) i idx" "dead S1 idx"
    proof (cases "dead S idx")
      case True
      then show ?thesis using a inv(3) [of i idx] kl'(1) [of i] unfolding S1 by blast
    next
      case False
      then have idx: "uc idx = 0" "lo \<le> idx" "idx < hi" using a(5) kl'(2) [of idx] unfolding S1 by auto
      have "\<not> dead S i" using a(3) kl'(1) [of i] unfolding S1 by blast
      then have "0 < uc idx"
        unfolding uc_def using a(1,2,4) idx(2,3) unfolding S1 by (intro count_uses_pos [of _ i])
      then show ?thesis using idx(1) by simp
    qed
  qed
  then show ?case
    using Suc.IH [of S1 "n + k"] Suc.prems(2) unfolding r by (auto simp: S1_def split: if_splits)
qed

text \<open>
  What must never be removed: memory writes, control flow, parameters, synchronisation, atomics,
  warp and matrix collectives, calls, assembly, traps, output, and volatile loads.
\<close>

definition observable :: "bir_inst \<Rightarrow> bool" where
  "observable I \<longleftrightarrow> i_op I \<in> set
     [BIR_STORE, BIR_BR, BIR_BR_COND, BIR_SWITCH, BIR_RET, BIR_UNREACHABLE, BIR_PARAM, BIR_BARRIER,
      BIR_BARRIER_GROUP, BIR_ATOMIC_ADD, BIR_ATOMIC_SUB, BIR_ATOMIC_AND, BIR_ATOMIC_OR, BIR_ATOMIC_XOR,
      BIR_ATOMIC_MIN, BIR_ATOMIC_MAX, BIR_ATOMIC_XCHG, BIR_ATOMIC_CAS, BIR_ATOMIC_LOAD, BIR_ATOMIC_STORE,
      BIR_SHFL, BIR_SHFL_UP, BIR_SHFL_DOWN, BIR_SHFL_XOR, BIR_BALLOT, BIR_VOTE_ANY, BIR_VOTE_ALL,
      BIR_MFMA, BIR_MMA, BIR_MFRG, BIR_WLD, BIR_WST, BIR_WMMA, BIR_CALL, BIR_INLINE_ASM, BIR_TRAP,
      BIR_PRINTF, BIR_FENCE, BIR_NANOSLP, BIR_BARRED, BIR_GRIDBAR] \<or>
    i_op I = BIR_LOAD \<and> i_subop I \<noteq> 0"

lemma removable_not_observable: "removable I \<Longrightarrow> \<not> observable I"
  unfolding removable_def observable_def is_pure_op_def list.set insert_iff empty_iff
  by (elim disjE conjE) simp_all

text \<open>
  Property C2.  Dead-code elimination is safe: it removes no instruction with an observable
  effect, and no instruction that stays refers to one it removed.
\<close>

theorem dce_pass_safe:
  assumes "dce_pass S = (S', n)"
  shows "\<forall>i. dead S' i \<longrightarrow> \<not> dead S i \<longrightarrow>
      \<not> observable (insts (o_M S) i) \<and>
      (\<forall>j. o_base_inst S \<le> j \<longrightarrow> j < o_base_inst S + o_num_insts S \<longrightarrow> \<not> dead S' j \<longrightarrow>
         \<not> refers (o_M S) j i)"
proof -
  have "dce_inv (\<lambda>i. dead S i) S" by (simp add: dce_inv_def)
  from dce_rounds_inv [OF this assms [unfolded dce_pass_def]]
  show ?thesis unfolding dce_inv_def Let_def using removable_not_observable by metis
qed

subsection \<open>Compaction\<close>

text \<open>The surviving positions below \<open>x\<close>, in order; \<open>base\<close> is the start of the function.\<close>

definition live_upto :: "(nat \<Rightarrow> bool) \<Rightarrow> nat \<Rightarrow> nat \<Rightarrow> nat list" where
  "live_upto dd base x = filter (\<lambda>p. \<not> dd p) [base..<x]"

lemma live_upto_Suc:
  "base \<le> x \<Longrightarrow> live_upto dd base (Suc x) = live_upto dd base x @ (if dd x then [] else [x])"
  by (simp add: live_upto_def)

lemma live_upto_length: "base \<le> x \<Longrightarrow> base + length (live_upto dd base x) \<le> x"
  using length_filter_le [of "\<lambda>p. \<not> dd p" "[base..<x]"] by (simp add: live_upto_def)

definition cell :: "bir_module \<Rightarrow> nat \<Rightarrow> bir_inst \<times> nat" where
  "cell M p = (insts M p, inst_lines M p)"

lemma move_loop:
  assumes "base \<le> x" "for_loop base x (move_inst dd) (M0, base) = (M, wr)"
  shows "wr = base + length (live_upto dd base x) \<and>
    (\<forall>n < length (live_upto dd base x). cell M (base + n) = cell M0 (live_upto dd base x ! n)) \<and>
    (\<forall>p. p < base \<or> x \<le> p \<longrightarrow> cell M p = cell M0 p)"
proof -
  let ?L = "live_upto dd base"
  let ?P = "\<lambda>x st. snd st = base + length (?L x) \<and>
    (\<forall>n < length (?L x). cell (fst st) (base + n) = cell M0 (?L x ! n)) \<and>
    (\<forall>p. p < base \<or> x \<le> p \<longrightarrow> cell (fst st) p = cell M0 p)"
  have "?P x (for_loop base x (move_inst dd) (M0, base))"
  proof (rule for_loop_inv [where P = ?P])
    fix y and st :: "bir_module \<times> nat"
    assume y: "base \<le> y" and P: "?P y st"
    obtain M wr where st: "st = (M, wr)" by (cases st)
    show "?P (Suc y) (move_inst dd y st)"
    proof (cases "dd y")
      case True
      then show ?thesis using P y by (simp add: st move_inst_def live_upto_Suc)
    next
      case False
      define w where "w = base + length (?L y)"
      have wy: "wr = w" "w \<le> y" "base \<le> w" using P live_upto_length [OF y] by (simp_all add: st w_def)
      define M1 where "M1 = fst (move_inst dd y st)"
      have c: "cell M1 p = (if p = w then cell M y else cell M p)" for p
        using False wy by (simp add: M1_def st move_inst_def cell_def)
      have e: "move_inst dd y st = (M1, w + 1)" using False wy by (simp add: M1_def st move_inst_def)
      have My: "cell M y = cell M0 y" using P by (simp add: st)
      have n: "cell M1 (base + n) = cell M0 (?L (Suc y) ! n)" if "n < length (?L (Suc y))" for n
        using that P False y My by (cases "n < length (?L y)") (auto simp: c st live_upto_Suc nth_append w_def less_Suc_eq)
      have o: "cell M1 p = cell M0 p" if "p < base \<or> Suc y \<le> p" for p
        using that P wy by (auto simp: c st)
      show ?thesis unfolding e using n o False y by (simp add: live_upto_Suc w_def)
    qed
  qed (use assms(1) in \<open>simp_all add: live_upto_def\<close>)
  then show ?thesis using assms(2) by simp
qed

lemma renum_loop:
  assumes "base \<le> x" "for_loop base x (renum_inst dd) (r0, base) = (rn, k)"
  shows "k = base + length (live_upto dd base x) \<and>
    (\<forall>n < length (live_upto dd base x). rn (live_upto dd base x ! n) = Some (base + n)) \<and>
    (\<forall>p. p \<notin> set (live_upto dd base x) \<longrightarrow> rn p = r0 p)"
proof -
  let ?L = "live_upto dd base"
  let ?P = "\<lambda>x st. snd st = base + length (?L x) \<and>
    (\<forall>n < length (?L x). fst st (?L x ! n) = Some (base + n)) \<and>
    (\<forall>p. p \<notin> set (?L x) \<longrightarrow> fst st p = r0 p)"
  have "?P x (for_loop base x (renum_inst dd) (r0, base))"
  proof (rule for_loop_inv [where P = ?P])
    fix y and st :: "(nat \<Rightarrow> nat option) \<times> nat"
    assume y: "base \<le> y" and P: "?P y st"
    obtain rn k where st: "st = (rn, k)" by (cases st)
    have ne: "n < length (?L y) \<Longrightarrow> ?L y ! n \<noteq> y" for n
      using nth_mem [of n "?L y"] by (auto simp: live_upto_def)
    show "?P (Suc y) (renum_inst dd y st)"
      using P y ne by (cases "dd y") (auto simp: st renum_inst_def live_upto_Suc nth_append less_Suc_eq)
  qed (use assms(1) in \<open>simp_all add: live_upto_def\<close>)
  then show ?thesis using assms(2) by simp
qed

text \<open>The blocks of a function lie one after the other from \<open>base\<close>.\<close>

definition block_pos :: "bir_module \<Rightarrow> nat \<Rightarrow> nat \<Rightarrow> nat \<Rightarrow> nat" where
  "block_pos M bb base m = base + (\<Sum>j < m. b_num_insts (blocks M (bb + j)))"

definition contiguous :: "opt \<Rightarrow> bool" where
  "contiguous S \<longleftrightarrow>
     (\<forall>i < o_num_blocks S. b_first_inst (blocks (o_M S) (o_base_block S + i)) =
        block_pos (o_M S) (o_base_block S) (o_base_inst S) i)"

lemma block_pos_Suc: "block_pos M bb base (Suc m) = block_pos M bb base m + b_num_insts (blocks M (bb + m))"
  by (simp add: block_pos_def)

lemma block_pos_ge: "base \<le> block_pos M bb base m"
  by (simp add: block_pos_def)

lemma move_inst_blocks:
  "for_loop lo hi (move_inst dd) (M\<lparr>blocks := X\<rparr>, wr) =
     (let (M1, w1) = for_loop lo hi (move_inst dd) (M, wr) in (M1\<lparr>blocks := X\<rparr>, w1))"
proof (cases "lo \<le> hi")
  case True
  then show ?thesis
  proof (induction hi rule: dec_induct)
    case (step n)
    then show ?case by (simp add: for_loop_Suc move_inst_def Let_def split: prod.splits)
  qed simp
qed simp

lemma move_inst_keeps_blocks: "blocks (fst (for_loop lo hi (move_inst dd) (M, wr))) = blocks M"
  using for_loop_proj [where f = "\<lambda>st. blocks (fst st)" and lo = lo and hi = hi and step = "move_inst dd"]
  by (simp add: move_inst_def Let_def split: prod.splits)

text \<open>The new position of a position of the function.\<close>

definition new_pos :: "(nat \<Rightarrow> bool) \<Rightarrow> nat \<Rightarrow> nat \<Rightarrow> nat" where
  "new_pos dd base x = base + length (live_upto dd base x)"

definition new_blocks :: "opt \<Rightarrow> nat \<Rightarrow> nat \<Rightarrow> bir_block" where
  "new_blocks S m b =
     (let bb = o_base_block S; pos = block_pos (o_M S) bb (o_base_inst S); np = new_pos (dead S) (o_base_inst S) in
      if bb \<le> b \<and> b < bb + m then
        (blocks (o_M S) b)\<lparr>b_first_inst := np (pos (b - bb)),
           b_num_insts := np (pos (Suc (b - bb))) - np (pos (b - bb))\<rparr>
      else blocks (o_M S) b)"

lemma move_blocks:
  assumes "contiguous S" "m \<le> o_num_blocks S"
  defines "base \<equiv> o_base_inst S"
  shows "for_loop 0 m (\<lambda>bi. move_block (dead S) (o_base_block S + bi)) (o_M S, base) =
    (let (M1, w1) = for_loop base (block_pos (o_M S) (o_base_block S) base m) (move_inst (dead S)) (o_M S, base)
     in (M1\<lparr>blocks := new_blocks S m\<rparr>, w1))"
  using assms(2)
proof (induction m)
  case 0
  have "new_blocks S 0 = blocks (o_M S)" by (simp add: new_blocks_def fun_eq_iff Let_def)
  then show ?case by (simp add: block_pos_def)
next
  case (Suc m)
  let ?bb = "o_base_block S" and ?M = "o_M S" and ?dd = "dead S"
  let ?pos = "block_pos ?M ?bb base"
  let ?B = "blocks ?M (?bb + m)"
  obtain M1 w1 where l1: "for_loop base (?pos m) (move_inst ?dd) (?M, base) = (M1, w1)" by (metis surj_pair)
  obtain M2 w2 where l2: "for_loop (?pos m) (?pos (Suc m)) (move_inst ?dd) (M1, w1) = (M2, w2)" by (metis surj_pair)
  have first: "b_first_inst ?B = ?pos m" using assms(1) Suc.prems by (simp add: contiguous_def base_def)
  have b2: "blocks M2 = blocks ?M"
    using move_inst_keeps_blocks [of "?pos m" "?pos (Suc m)" ?dd M1 w1]
      move_inst_keeps_blocks [of base "?pos m" ?dd ?M base] l1 l2 by simp
  have all: "for_loop base (?pos (Suc m)) (move_inst ?dd) (?M, base) = (M2, w2)"
  proof -
    have "?pos m \<le> ?pos (Suc m)" by (simp add: block_pos_Suc)
    from for_loop_split [OF block_pos_ge this, of "move_inst ?dd" "(?M, base)"]
    show ?thesis unfolding l1 l2 .
  qed
  have w: "w1 = new_pos ?dd base (?pos m)" "w2 = new_pos ?dd base (?pos (Suc m))"
  proof -
    show "w1 = new_pos ?dd base (?pos m)" using move_loop [OF block_pos_ge l1] by (simp add: new_pos_def)
    from move_loop [OF block_pos_ge all] show "w2 = new_pos ?dd base (?pos (Suc m))" by (simp add: new_pos_def)
  qed
  have nb: "new_blocks S m (?bb + m) = ?B" by (simp add: new_blocks_def)
  have mb: "move_block ?dd (?bb + m) (M1\<lparr>blocks := new_blocks S m\<rparr>, w1) =
      (M2\<lparr>blocks := (new_blocks S m)(?bb + m := ?B\<lparr>b_first_inst := w1, b_num_insts := w2 - w1\<rparr>)\<rparr>, w2)"
    unfolding move_block_def Let_def prod.case
    using l2 nb first for_loop_offset [of "b_num_insts ?B" "move_inst ?dd" "?pos m"]
    by (simp add: move_inst_blocks block_pos_Suc)
  have "(new_blocks S m)(?bb + m := ?B\<lparr>b_first_inst := w1, b_num_insts := w2 - w1\<rparr>) = new_blocks S (Suc m)"
    unfolding w by (auto simp: new_blocks_def fun_eq_iff base_def Let_def)
  then show ?case using Suc.IH Suc.prems l1 mb all by (simp add: for_loop_Suc)
qed

subsection \<open>Renumbering\<close>

definition remap_inline :: "(u32 \<Rightarrow> u32) \<Rightarrow> bir_inst \<Rightarrow> bir_inst" where
  "remap_inline f I =
     (if i_num_operands I = BIR_OPERANDS_OVERFLOW then I
      else I\<lparr>i_operands := (\<lambda>j. if j \<in> set (inline_slots I) then f (i_operands I j) else i_operands I j)\<rparr>)"

lemma map_value_slots_insts: "insts (map_value_slots f i M) = (insts M)(i := remap_inline f (insts M i))"
proof -
  have "distinct (inline_slots I)" for I by (simp add: inline_slots_def)
  then show ?thesis by (simp add: map_value_slots_def remap_inline_def Let_def fold_update_slots)
qed

lemma map_value_slots_keeps:
  "blocks (map_value_slots f i M) = blocks M" "inst_lines (map_value_slots f i M) = inst_lines M"
  "num_insts (map_value_slots f i M) = num_insts M" "funcs (map_value_slots f i M) = funcs M"
  by (simp_all add: map_value_slots_def Let_def)

lemma map_value_slots_loop:
  assumes "lo \<le> hi"
  shows "insts (for_loop lo hi (map_value_slots f) M) p =
    (if lo \<le> p \<and> p < hi then remap_inline f (insts M p) else insts M p)"
  using for_loop_inv [OF assms, where step = "map_value_slots f" and s = M and
      P = "\<lambda>m M'. \<forall>p. insts M' p = (if lo \<le> p \<and> p < m then remap_inline f (insts M p) else insts M p)"]
  by (simp add: map_value_slots_insts) (metis le_antisym less_Suc_eq_le not_less)

lemma map_value_slots_loop_keeps:
  "blocks (for_loop lo hi (map_value_slots f) M) = blocks M"
  "inst_lines (for_loop lo hi (map_value_slots f) M) = inst_lines M"
  by (rule for_loop_proj, simp add: map_value_slots_keeps)+

text \<open>The renumbering table of a contiguous function.\<close>

lemma renum_table_contiguous:
  assumes "contiguous S"
  defines "r0 \<equiv> \<lambda>i. if i < num_insts (o_M S) then None else inst_renum S i"
  shows "renum_table S =
    for_loop (o_base_inst S) (block_pos (o_M S) (o_base_block S) (o_base_inst S) (o_num_blocks S))
      (renum_inst (dead S)) (r0, o_base_inst S)"
proof -
  let ?pos = "block_pos (o_M S) (o_base_block S) (o_base_inst S)"
  let ?step = "\<lambda>bi. let B = blocks (o_M S) (o_base_block S + bi)
      in for_loop 0 (b_num_insts B) (\<lambda>j. renum_inst (dead S) (b_first_inst B + j))"
  have "for_loop 0 m ?step (r0, o_base_inst S) =
      for_loop (o_base_inst S) (?pos m) (renum_inst (dead S)) (r0, o_base_inst S)"
    if "m \<le> o_num_blocks S" for m
    using that
  proof (induction m)
    case 0
    then show ?case by (simp add: block_pos_def)
  next
    case (Suc m)
    let ?B = "blocks (o_M S) (o_base_block S + m)"
    have "b_first_inst ?B = ?pos m" using assms(1) Suc.prems by (simp add: contiguous_def)
    then show ?case
      using Suc for_loop_offset [of "b_num_insts ?B" "renum_inst (dead S)" "?pos m"]
        for_loop_split [of "o_base_inst S" "?pos m" "?pos (Suc m)" "renum_inst (dead S)" "(r0, o_base_inst S)"]
      by (simp add: for_loop_Suc block_pos_Suc block_pos_ge Let_def)
  qed
  from this [of "o_num_blocks S"] show ?thesis by (simp add: renum_table_def r0_def)
qed

text \<open>How the pass rewrites an operand: through the renumbering table.\<close>

definition dce_remap :: "opt \<Rightarrow> u32 \<Rightarrow> u32" where
  "dce_remap S r = remap_operand r (fst (renum_table S)) (num_insts (o_M S))"

lemma compact_cells:
  assumes "contiguous S"
  defines "base \<equiv> o_base_inst S"
  defines "L \<equiv> live_upto (dead S) base (block_pos (o_M S) (o_base_block S) base (o_num_blocks S))"
  shows "blocks (o_M (compact S)) = new_blocks S (o_num_blocks S)"
    and "n < length L \<Longrightarrow> fst (renum_table S) (L ! n) = Some (base + n)"
    and "n < length L \<Longrightarrow> insts (o_M (compact S)) (base + n) = remap_inline (dce_remap S) (insts (o_M S) (L ! n)) \<and>
      inst_lines (o_M (compact S)) (base + n) = inst_lines (o_M S) (L ! n)"
proof -
  let ?E = "block_pos (o_M S) (o_base_block S) base (o_num_blocks S)"
  obtain rn k where r: "renum_table S = (rn, k)" by (metis surj_pair)
  note rl = renum_loop [OF block_pos_ge r [unfolded renum_table_contiguous [OF assms(1)]], folded base_def, folded L_def]
  obtain M1 w1 where m: "for_loop base ?E (move_inst (dead S)) (o_M S, base) = (M1, w1)" by (metis surj_pair)
  note ml = move_loop [OF block_pos_ge m, folded L_def]
  note mb = move_blocks [OF assms(1) order.refl, folded base_def, unfolded m Let_def prod.case]
  define M2 where "M2 = M1\<lparr>blocks := new_blocks S (o_num_blocks S),
    funcs := (funcs M1)(o_func_idx S := (funcs M1 (o_func_idx S))\<lparr>f_total_insts := k - base\<rparr>)\<rparr>"
  have c: "o_M (compact S) = for_loop base (base + (k - base)) (map_value_slots (dce_remap S)) M2"
    unfolding compact_def Let_def r prod.case base_def [symmetric] mb
    by (simp add: M2_def dce_remap_def [abs_def] r)
  show "blocks (o_M (compact S)) = new_blocks S (o_num_blocks S)"
    unfolding c by (simp add: map_value_slots_loop_keeps M2_def)
  show "fst (renum_table S) (L ! n) = Some (base + n)" if "n < length L" using rl that by (simp add: r)
  show "insts (o_M (compact S)) (base + n) = remap_inline (dce_remap S) (insts (o_M S) (L ! n)) \<and>
      inst_lines (o_M (compact S)) (base + n) = inst_lines (o_M S) (L ! n)" if n: "n < length L"
  proof -
    have "cell M1 (base + n) = cell (o_M S) (L ! n)" using ml n by blast
    then have M2: "insts M2 (base + n) = insts (o_M S) (L ! n)" "inst_lines M2 (base + n) = inst_lines (o_M S) (L ! n)"
      by (simp_all add: M2_def cell_def)
    have "n < k - base" using rl n by auto
    then have "insts (o_M (compact S)) (base + n) = remap_inline (dce_remap S) (insts M2 (base + n))"
      unfolding c by (subst map_value_slots_loop) auto
    moreover have "inst_lines (o_M (compact S)) (base + n) = inst_lines M2 (base + n)"
      unfolding c by (simp only: map_value_slots_loop_keeps)
    ultimately show ?thesis using M2 by simp
  qed
qed

lemma live_upto_split:
  "base \<le> x \<Longrightarrow> live_upto dd base (x + n) = live_upto dd base x @ filter (\<lambda>p. \<not> dd p) [x..<x + n]"
  unfolding live_upto_def by (subst upt_add_eq_append) simp_all

lemma block_pos_mono: "m \<le> m' \<Longrightarrow> block_pos M bb base m \<le> block_pos M bb base m'"
  by (auto simp: block_pos_def intro!: sum_mono2)


text \<open>
  Renumbered references keep their meaning: the operand that named a live
  instruction of the function now names the place where compaction put that instruction.
\<close>

theorem compact_refs:
  assumes "contiguous S" "p \<in> set (live_upto (dead S) (o_base_inst S)
      (block_pos (o_M S) (o_base_block S) (o_base_inst S) (o_num_blocks S)))"
    and "ref = BIR_MAKE_VAL p" "p < num_insts (o_M S)" "num_insts (o_M S) \<le> BIR_MAX_INSTS"
  shows "\<exists>q. dce_remap S ref = BIR_MAKE_VAL q \<and>
    insts (o_M (compact S)) q = remap_inline (dce_remap S) (insts (o_M S) p)"
proof -
  let ?L = "live_upto (dead S) (o_base_inst S) (block_pos (o_M S) (o_base_block S) (o_base_inst S) (o_num_blocks S))"
  obtain n where n: "n < length ?L" "?L ! n = p" using assms(2) by (auto simp: in_set_conv_nth)
  note c = compact_cells [OF assms(1)]
  have "p < 2 ^ 31" using assms(4,5) by simp
  then have "BIR_VAL_INDEX ref = p" "\<not> BIR_VAL_IS_CONST ref" by (simp_all add: assms(3) del: power_numeral)
  moreover from this have "ref \<noteq> BIR_VAL_NONE" by auto
  ultimately have "dce_remap S ref = BIR_MAKE_VAL (o_base_inst S + n)"
    using c(2) [OF n(1)] n(2) assms(4) by (simp add: dce_remap_def remap_operand_def)
  then show ?thesis using c(3) [OF n(1)] n(2) by blast
qed

subsection \<open>A sample function\<close>

text \<open>
  Block 0 holds an unused sum, a thread index and a return of that index; nothing leads to
  block 1.
\<close>

definition sample_opt :: opt where
  "sample_opt = \<lparr>o_M = (cleared_module ((\<lambda>_. zero_inst)(
       0 := zero_inst\<lparr>i_op := BIR_ADD, i_num_operands := 2, i_operands := ops_of [1, 1]\<rparr>,
       1 := zero_inst\<lparr>i_op := BIR_THREAD_ID\<rparr>,
       2 := zero_inst\<lparr>i_op := BIR_RET, i_num_operands := 1, i_operands := ops_of [1]\<rparr>,
       3 := zero_inst\<lparr>i_op := BIR_RET\<rparr>)))\<lparr>num_insts := 4,
       blocks := (\<lambda>_. zero_block)(0 := zero_block\<lparr>b_num_insts := 3\<rparr>,
         1 := zero_block\<lparr>b_first_inst := 3, b_num_insts := 1\<rparr>), num_blocks := 2,
       funcs := (\<lambda>_. zero_func\<lparr>f_num_blocks := 2, f_total_insts := 4\<rparr>), num_funcs := 1\<rparr>,
     o_func_idx = 0, o_base_block = 0, o_num_blocks = 2, o_base_inst = 0, o_num_insts = 4,
     dead = (\<lambda>_. False), use_count = (\<lambda>_. 0), inst_renum = (\<lambda>_. Some 0), rch = (\<lambda>_. False)\<rparr>"

definition killed_opt :: opt where
  "killed_opt = sample_opt\<lparr>dead := (\<lambda>_. False)(0 := True)\<rparr>"

lemmas sample_defs = sample_opt_def cleared_module_def zero_inst_def zero_block_def zero_func_def
  for_loop_def ops_of_def

lemma killed_contiguous: "contiguous killed_opt"
  by (simp add: contiguous_def killed_opt_def sample_defs block_pos_def less_Suc_eq numeral_2_eq_2)

lemma sample_mark: "rch (rmark sample_opt) 0" "\<not> rch (rmark sample_opt) 1"
  by (simp_all add: rmark_def mark_round_def mark_block_def mark_succ_def nsuc_def suc_def sample_defs
      numeral_2_eq_2 bir_oper_def)

theorem rmark_reachable_witness: "reach sample_opt 0 \<and> \<not> reach sample_opt 1"
proof
  have "0 < o_num_blocks sample_opt" "1 < o_num_blocks sample_opt" by (simp_all add: sample_opt_def)
  from rmark_reachable [OF this(1)] rmark_reachable [OF this(2)] sample_mark
  show "reach sample_opt 0" "\<not> reach sample_opt 1" by simp_all
qed

lemma dce_rounds_pos:
  "0 < g \<Longrightarrow> dce_rounds g S n =
     (let lo = o_base_inst S; hi = lo + o_num_insts S;
          uc = count_uses (o_M S) (dead S) lo hi (use_count S);
          (dd, k) = for_loop lo hi (dce_kill (o_M S) uc) (dead S, 0);
          S1 = S\<lparr>use_count := uc, dead := dd\<rparr>
      in if k > 0 then dce_rounds (g - 1) S1 (n + k) else (S1, n))"
  by (cases g) (simp, simp only: dce_rounds.simps diff_Suc_1)

lemma sample_dce:
  "dead (fst (dce_pass sample_opt)) 0 \<and> \<not> dead sample_opt 0 \<and> \<not> dead (fst (dce_pass sample_opt)) 2"
  by (simp add: dce_pass_def dce_rounds_pos Let_def count_uses_def sample_defs value_refs_def inline_slots_def
      is_inline_block_ref_def count_ref_def dce_kill_def removable_def is_pure_op_def BIR_VAL_IS_CONST_def
      BIR_VAL_INDEX_def upt_rec)

theorem dce_pass_safe_witness: "\<not> observable (insts (o_M sample_opt) 0) \<and> \<not> refers (o_M sample_opt) 2 0"
proof -
  have "o_base_inst sample_opt = 0" "o_num_insts sample_opt = 4" by (simp_all add: sample_opt_def)
  then show ?thesis
    using dce_pass_safe [OF prod.collapse [symmetric], of sample_opt] sample_dce by auto
qed

lemma remap_inline_none: "remap_inline f (zero_inst\<lparr>i_op := x\<rparr>) = zero_inst\<lparr>i_op := x\<rparr>"
  by (simp add: remap_inline_def inline_slots_def zero_inst_def)


theorem compact_refs_witness:
  "\<exists>q. dce_remap killed_opt (BIR_MAKE_VAL 1) = BIR_MAKE_VAL q \<and>
     insts (o_M (compact killed_opt)) q = remap_inline (dce_remap killed_opt) (insts (o_M killed_opt) 1)"
proof (rule compact_refs [OF killed_contiguous _ refl])
  show "1 \<in> set (live_upto (dead killed_opt) (o_base_inst killed_opt)
      (block_pos (o_M killed_opt) (o_base_block killed_opt) (o_base_inst killed_opt) (o_num_blocks killed_opt)))"
    by (simp add: live_upto_def block_pos_def killed_opt_def sample_defs numeral_2_eq_2 upt_rec)
  show "1 < num_insts (o_M killed_opt)" "num_insts (o_M killed_opt) \<le> BIR_MAX_INSTS"
    by (simp_all add: killed_opt_def sample_defs)
qed

subsection \<open>Phi operands of dead edges\<close>

definition pair_at :: "(nat \<Rightarrow> u32) \<Rightarrow> nat \<Rightarrow> nat \<Rightarrow> u32 \<times> u32" where
  "pair_at a st i = (a (st + 2 * i), a (st + 2 * i + 1))"

text \<open>The incoming edges of a phi: (predecessor, value) pairs in operand order.\<close>

definition phi_operands :: "bir_module \<Rightarrow> bir_inst \<Rightarrow> (u32 \<times> u32) list" where
  "phi_operands M I =
     (if i_num_operands I = BIR_OPERANDS_OVERFLOW then
        let st = unat (i_operands I 0); n = unat (i_operands I 1)
        in map (pair_at (extra_operands M) st) [0..<min (n div 2) ((num_extra_ops M - st) div 2)]
      else map (pair_at (i_operands I) 0) [0..<i_num_operands I div 2])"

lemma phix_loop:
  assumes "for_loop 0 m (phix_step live st) (0, a, False) = (w, a', dr)"
  shows "even w \<and> w \<le> 2 * m \<and>
    map (pair_at a' st) [0..<w div 2] = filter (\<lambda>(p, v). live p) (map (pair_at a st) [0..<m]) \<and>
    (dr \<longleftrightarrow> w < 2 * m)"
proof -
  let ?P = "\<lambda>m (w, a', dr). even w \<and> w \<le> 2 * m \<and>
    map (pair_at a' st) [0..<w div 2] = filter (\<lambda>(p, v). live p) (map (pair_at a st) [0..<m]) \<and>
    (dr \<longleftrightarrow> w < 2 * m) \<and> (\<forall>x \<ge> st + 2 * m. a' x = a x)"
  have "?P m (for_loop 0 m (phix_step live st) (0, a, False))"
  proof (rule for_loop_inv [where P = ?P])
    fix i s
    assume "?P i s"
    moreover obtain w b dr where s: "s = (w, b, dr)" by (metis prod_cases3)
    ultimately have P: "even w" "w \<le> 2 * i" "dr \<longleftrightarrow> w < 2 * i" "\<forall>x \<ge> st + 2 * i. b x = a x"
      "map (pair_at b st) [0..<w div 2] = filter (\<lambda>(p, v). live p) (map (pair_at a st) [0..<i])"
      by simp_all
    have pr: "pair_at b st i = pair_at a st i" using P(4) by (simp add: pair_at_def)
    show "?P (Suc i) (phix_step live st i s)"
    proof (cases "live (b (st + 2 * i))")
      case False
      then show ?thesis using P pr by (auto simp: phix_step_def s pair_at_def)
    next
      case True
      define c where "c = b(st + w := b (st + 2 * i), st + w + 1 := b (st + 2 * i + 1))"
      have keep: "map (pair_at c st) [0..<w div 2] = map (pair_at b st) [0..<w div 2]"
        by (auto simp: pair_at_def c_def)
      have new: "pair_at c st (w div 2) = pair_at a st i" using P(1) pr by (simp add: pair_at_def c_def)
      have "(w + 2) div 2 = Suc (w div 2)" by simp
      then have "map (pair_at c st) [0..<(w + 2) div 2] = filter (\<lambda>(p, v). live p) (map (pair_at a st) [0..<Suc i])"
      proof (simp only: upt_Suc_append upt_Suc le0 if_True map_append keep new P(5) filter_append list.map)
        show "filter (\<lambda>(p, v). live p) (map (pair_at a st) [0..<i]) @ [pair_at a st i] =
          filter (\<lambda>(p, v). live p) (map (pair_at a st) [0..<i]) @ filter (\<lambda>(p, v). live p) [pair_at a st i]"
          using True unfolding pr [symmetric] by (simp add: pair_at_def)
      qed
      moreover have "phix_step live st i s = (w + 2, c, dr)" using True by (simp add: phix_step_def s c_def Let_def)
      moreover have "c x = a x" if "x \<ge> st + 2 * Suc i" for x using that P(2,4) by (simp add: c_def)
      ultimately show ?thesis using P(1-3) by simp
    qed
  qed simp_all
  then show ?thesis using assms by simp
qed

text \<open>
  Dropping the phi operands of dead edges keeps exactly the live ones: after
  \<open>phix\<close> the phi lists, in order, the pairs whose predecessor is reachable and still branches
  to the block, and it reports a change iff it dropped one.
\<close>

theorem phix_keeps_live_edges:
  assumes "phix S b ii = (S', d)" "i_num_operands (insts (o_M S) ii) \<le> BIR_OPERANDS_OVERFLOW"
  shows "phi_operands (o_M S') (insts (o_M S') ii) =
      filter (\<lambda>(p, v). plive S (unat p) b) (phi_operands (o_M S) (insts (o_M S) ii)) \<and>
    (d > 0 \<longleftrightarrow> (\<exists>(p, v) \<in> set (phi_operands (o_M S) (insts (o_M S) ii)). \<not> plive S (unat p) b))"
proof -
  let ?M = "o_M S" let ?I = "insts ?M ii" let ?live = "\<lambda>p. plive S (unat p) b"
  have filter_less: "length (filter P xs) < length xs \<longleftrightarrow> (\<exists>x \<in> set xs. \<not> P x)" for P and xs :: "(u32 \<times> u32) list"
    using length_filter_le [of P xs] filter_id_conv [of P xs]
    by (metis length_filter_less le_neq_implies_less order_less_irrefl)
  have dr: "dr \<longleftrightarrow> (\<exists>(p, v) \<in> set (map (pair_at a st) [0..<m]). \<not> ?live p)"
    if l: "for_loop 0 m (phix_step ?live st) (0, a, False) = (w, a', dr)" for m st a w a' dr
  proof -
    note p = phix_loop [OF l]
    have "w div 2 = length (filter (\<lambda>(p, v). ?live p) (map (pair_at a st) [0..<m]))"
      using p by (metis length_map length_upt diff_zero)
    then have "w < 2 * m \<longleftrightarrow> length (filter (\<lambda>(p, v). ?live p) (map (pair_at a st) [0..<m])) < length (map (pair_at a st) [0..<m])"
      using p by auto
    also have "\<dots> \<longleftrightarrow> (\<exists>(p, v) \<in> set (map (pair_at a st) [0..<m]). \<not> ?live p)"
      unfolding filter_less by (simp add: case_prod_unfold)
    finally show ?thesis using p by blast
  qed
  show ?thesis
  proof (cases "i_num_operands ?I = BIR_OPERANDS_OVERFLOW")
    case True
    define st n m where "st = unat (i_operands ?I 0)" and "n = unat (i_operands ?I 1)"
      and "m = min (n div 2) ((num_extra_ops ?M - st) div 2)"
    obtain w a dr where l: "for_loop 0 m (phix_step ?live st) (0, extra_operands ?M, False) = (w, a, dr)"
      by (metis prod_cases3)
    note p = phix_loop [OF l]
    have r: "S' = S\<lparr>o_M := ?M\<lparr>extra_operands := a,
               insts := (insts ?M)(ii := ?I\<lparr>i_operands := (i_operands ?I)(1 := word_of_nat w)\<rparr>)\<rparr>\<rparr>"
      "d = (if dr then 1 else 0)"
      using assms(1) True l by (simp_all add: phix_def Let_def st_def n_def m_def)
    have "n < 2 ^ 32" unfolding n_def using unsigned_less [of "i_operands ?I 1"] by simp
    moreover have "w \<le> 2 * m" "2 * m \<le> n" using p by (auto simp: m_def)
    ultimately have "w < 2 ^ 32" by linarith
    then have uw: "unat (word_of_nat w :: u32) = w" by (simp add: unsigned_of_nat take_bit_nat_eq_self)
    have wm: "min (w div 2) ((num_extra_ops ?M - st) div 2) = w div 2" using p by (auto simp: m_def)
    have "phi_operands (o_M S') (insts (o_M S') ii) = map (pair_at a st) [0..<w div 2]"
      using True uw wm by (simp add: r phi_operands_def st_def)
    moreover have "phi_operands ?M ?I = map (pair_at (extra_operands ?M) st) [0..<m]"
      using True by (simp add: phi_operands_def Let_def st_def n_def m_def)
    ultimately show ?thesis using p dr [OF l] r(2) by simp
  next
    case False
    define m where "m = i_num_operands ?I div 2"
    obtain w a dr where l: "for_loop 0 m (phix_step ?live 0) (0, i_operands ?I, False) = (w, a, dr)"
      by (metis prod_cases3)
    note p = phix_loop [OF l]
    have r: "S' = S\<lparr>o_M := ?M\<lparr>insts := (insts ?M)(ii := ?I\<lparr>i_operands := a, i_num_operands := w\<rparr>)\<rparr>\<rparr>"
      "d = (if dr then 1 else 0)"
      using assms(1) False l by (simp_all add: phix_def Let_def m_def)
    have "w \<noteq> BIR_OPERANDS_OVERFLOW" using p False assms(2) by (auto simp: m_def)
    then have "phi_operands (o_M S') (insts (o_M S') ii) = map (pair_at a 0) [0..<w div 2]"
      by (simp add: r phi_operands_def)
    moreover have "phi_operands ?M ?I = map (pair_at (i_operands ?I) 0) [0..<m]"
      using False by (simp add: phi_operands_def m_def)
    ultimately show ?thesis using p dr [OF l] r(2) by simp
  qed
qed

text \<open>A phi of block 0 with an edge from block 9, outside the function, and one from dead block 1.\<close>

definition phi_opt :: opt where
  "phi_opt = sample_opt\<lparr>o_M := (o_M sample_opt)\<lparr>insts := (\<lambda>_. zero_inst\<lparr>i_op := BIR_PHI, i_num_operands := 4,
     i_operands := ops_of [9, 0, 1, 0]\<rparr>)\<rparr>\<rparr>"

theorem phix_keeps_live_edges_witness:
  "phi_operands (o_M (fst (phix phi_opt 0 0))) (insts (o_M (fst (phix phi_opt 0 0))) 0) = [(9, 0)] \<and>
   snd (phix phi_opt 0 0) > 0"
proof -
  have pp: "phi_operands (o_M phi_opt) (insts (o_M phi_opt) 0) = [(9, 0), (1, 0)]"
    by (simp add: phi_operands_def phi_opt_def sample_defs ops_of_def pair_at_def upt_rec)
  have pl: "plive phi_opt 9 0" "\<not> plive phi_opt 1 0"
    by (simp_all add: plive_def phi_opt_def sample_opt_def)
  have "i_num_operands (insts (o_M phi_opt) 0) \<le> BIR_OPERANDS_OVERFLOW" by (simp add: phi_opt_def zero_inst_def)
  from phix_keeps_live_edges [OF prod.collapse [symmetric] this, of 0] pl
  show ?thesis unfolding pp by simp
qed

end
