(* ===== verification/Bir_Insert.thy ===== *)
theory Bir_Insert
  imports Bir_Verify
begin

text \<open>
  Instruction insertion, \<open>src/src/ir/bir_insert.c\<close>: the per-opcode remap of value references
  and the insertion itself, and the proof that every old instruction keeps its operands with
  all references following the instructions they name.  The C result \<open>BIR_VAL_NONE\<close> is \<open>None\<close>;
  the pointer arguments are a module and a list.
\<close>

subsection \<open>Operations\<close>

definition rv :: "u32 \<Rightarrow> nat \<Rightarrow> nat \<Rightarrow> u32" where
  "rv v at n =
     (if v = BIR_VAL_NONE \<or> BIR_VAL_IS_CONST v then v
      else let idx = BIR_VAL_INDEX v in if idx \<ge> at then BIR_MAKE_VAL (idx + n) else v)"

text \<open>The slots the switch of \<open>remap_inst\<close> walks, for the opcodes that look at the form.\<close>

definition remap_slots :: "nat \<Rightarrow> bool \<Rightarrow> nat \<Rightarrow> nat list" where
  "remap_slots opc ovf count =
     (if opc = BIR_SWITCH then (if ovf \<and> count < 1 then [] else [0])
      else if opc = BIR_PHI then filter odd [0..<count]
      else if opc = BIR_GLOBAL_REF \<or> opc = BIR_FNREF \<or> opc = BIR_CALL then [1..<count]
      else if ovf then [0..<count]
      else [0..<min count BIR_OPERANDS_INLINE])"

definition remap_inst :: "nat \<Rightarrow> nat \<Rightarrow> nat \<Rightarrow> bir_module \<Rightarrow> bir_module" where
  "remap_inst at n i M =
     (let I = insts M i;
          ovf = (i_num_operands I = BIR_OPERANDS_OVERFLOW);
          start = unat (i_operands I 0);
          count = unat (i_operands I 1);
          inline = (\<lambda>slots. M\<lparr>insts := (insts M)(i := I\<lparr>i_operands :=
             fold (\<lambda>j a. a(j := rv (a j) at n)) slots (i_operands I)\<rparr>)\<rparr>)
      in if i_op I = BIR_BR then M
         else if i_op I = BIR_BR_COND then inline [0]
         else if ovf then
           M\<lparr>extra_operands := fold (\<lambda>x a. a(x := rv (a x) at n))
             (map (\<lambda>j. start + j) (remap_slots (i_op I) True count)) (extra_operands M)\<rparr>
         else inline (remap_slots (i_op I) False (i_num_operands I)))"

definition insert_block :: "nat \<Rightarrow> nat \<Rightarrow> nat \<Rightarrow> nat \<Rightarrow> bir_block \<Rightarrow> bir_block" where
  "insert_block block_idx at n b B =
     (if b = block_idx then B\<lparr>b_num_insts := b_num_insts B + n\<rparr>
      else if b_first_inst B \<ge> at then B\<lparr>b_first_inst := b_first_inst B + n\<rparr> else B)"

definition bump_owner :: "nat \<Rightarrow> nat \<Rightarrow> bir_module \<Rightarrow> bir_module" where
  "bump_owner block_idx n M =
     (case find (\<lambda>f. f_first_block (funcs M f) \<le> block_idx \<and>
                    block_idx < f_first_block (funcs M f) + f_num_blocks (funcs M f)) [0..<num_funcs M] of
        None \<Rightarrow> M
      | Some f \<Rightarrow> M\<lparr>funcs := (funcs M)(f := (funcs M f)\<lparr>f_total_insts := f_total_insts (funcs M f) + n\<rparr>)\<rparr>)"

definition bir_insert :: "bir_module \<Rightarrow> nat \<Rightarrow> nat \<Rightarrow> bir_inst list \<Rightarrow> bir_module \<times> nat option" where
  "bir_insert M block_idx pos src =
     (let n = length src in
      if n = 0 then (M, None)
      else if block_idx \<ge> num_blocks M then (M, None)
      else if num_insts M + n > BIR_MAX_INSTS then (bir_pfull M BIR_P_INSTS, None)
      else if pos > b_num_insts (blocks M block_idx) then (M, None)
      else
        let at = b_first_inst (blocks M block_idx) + pos;
            tail = num_insts M - at;
            M1 = M\<lparr>insts := paste (blit (insts M) (at + n) at tail) at src,
                   inst_lines := paste (blit (inst_lines M) (at + n) at tail) at (replicate n 0),
                   num_insts := num_insts M + n\<rparr>;
            M2 = M1\<lparr>blocks := (\<lambda>b. if b < num_blocks M then insert_block block_idx at n b (blocks M b)
                                   else blocks M b)\<rparr>;
            M3 = bump_owner block_idx n M2
        in (for_loop 0 (num_insts M3) (remap_inst at n) M3, Some at))"

subsection \<open>One instruction\<close>

abbreviation overflow :: "bir_inst \<Rightarrow> bool" where
  "overflow I \<equiv> i_num_operands I = BIR_OPERANDS_OVERFLOW"

text \<open>The cells of the extra-operand pool that belong to an instruction, and those remapped.\<close>

definition ext_cells :: "bir_inst \<Rightarrow> nat set" where
  "ext_cells I = (if overflow I then {unat (i_operands I 0)..<unat (i_operands I 0) + unat (i_operands I 1)} else {})"

definition ext_slots :: "bir_inst \<Rightarrow> nat set" where
  "ext_slots I =
     (if overflow I \<and> i_op I \<noteq> BIR_BR \<and> i_op I \<noteq> BIR_BR_COND
      then (\<lambda>j. unat (i_operands I 0) + j) ` set (remap_slots (i_op I) True (unat (i_operands I 1))) else {})"

definition inl_slots :: "bir_inst \<Rightarrow> nat set" where
  "inl_slots I =
     (if i_op I = BIR_BR then {} else if i_op I = BIR_BR_COND then {0} else if overflow I then {}
      else set (remap_slots (i_op I) False (i_num_operands I)))"

definition remap_head :: "nat \<Rightarrow> nat \<Rightarrow> bir_inst \<Rightarrow> bir_inst" where
  "remap_head at n I =
     I\<lparr>i_operands := (\<lambda>j. if j \<in> inl_slots I then rv (i_operands I j) at n else i_operands I j)\<rparr>"

lemma remap_slots_distinct: "distinct (remap_slots opc ovf count)"
  by (simp add: remap_slots_def)

lemmas rv_slots = fold_update_slots [where f = "\<lambda>v. rv v at n" for at n]

lemma remap_inst_insts: "insts (remap_inst at n i M) = (insts M)(i := remap_head at n (insts M i))"
  by (auto simp: remap_inst_def remap_head_def inl_slots_def Let_def rv_slots remap_slots_distinct fun_eq_iff
      intro!: bir_inst.equality)

lemma remap_inst_extra:
  "extra_operands (remap_inst at n i M) =
     (\<lambda>x. if x \<in> ext_slots (insts M i) then rv (extra_operands M x) at n else extra_operands M x)"
proof -
  have "distinct (map (\<lambda>j. s + j) (remap_slots opc ovf c))" for s :: nat and opc ovf c
    by (simp add: distinct_map remap_slots_distinct inj_on_def)
  then show ?thesis by (auto simp: remap_inst_def ext_slots_def Let_def rv_slots fun_eq_iff)
qed

lemma remap_inst_keeps:
  "blocks (remap_inst at n i M) = blocks M" "inst_lines (remap_inst at n i M) = inst_lines M"
  "num_extra_ops (remap_inst at n i M) = num_extra_ops M" "funcs (remap_inst at n i M) = funcs M"
  by (simp_all add: remap_inst_def Let_def)

lemma ext_slots_cells: "ext_slots I \<subseteq> ext_cells I"
  by (auto simp: ext_slots_def ext_cells_def remap_slots_def split: if_splits)

text \<open>Distinct instructions own disjoint cells.\<close>

definition ext_apart :: "(nat \<Rightarrow> bir_inst) \<Rightarrow> nat \<Rightarrow> bool" where
  "ext_apart is n \<longleftrightarrow> (\<forall>p < n. \<forall>q < n. p \<noteq> q \<longrightarrow> ext_cells (is p) \<inter> ext_cells (is q) = {})"

lemma remap_all:
  assumes "ext_apart (insts M) N"
  shows "insts (for_loop 0 N (remap_inst at n) M) p = (if p < N then remap_head at n (insts M p) else insts M p)"
    and "extra_operands (for_loop 0 N (remap_inst at n) M) x =
      (if \<exists>i < N. x \<in> ext_slots (insts M i) then rv (extra_operands M x) at n else extra_operands M x)"
proof -
  let ?P = "\<lambda>m M'. (\<forall>p. insts M' p = (if p < m then remap_head at n (insts M p) else insts M p)) \<and>
    (\<forall>x. extra_operands M' x = (if \<exists>i < m. x \<in> ext_slots (insts M i) then rv (extra_operands M x) at n
       else extra_operands M x))"
  have "?P N (for_loop 0 N (remap_inst at n) M)"
  proof (rule for_loop_inv [where P = ?P])
    fix m and M' :: bir_module
    assume m: "m < N" and P: "?P m M'"
    have once: "\<not> (\<exists>i < m. x \<in> ext_slots (insts M i))" if "x \<in> ext_slots (insts M m)" for x
    proof
      assume "\<exists>i < m. x \<in> ext_slots (insts M i)"
      then obtain i where i: "i < m" "x \<in> ext_cells (insts M i)" using ext_slots_cells by blast
      have "x \<in> ext_cells (insts M m)" using that ext_slots_cells by blast
      moreover have "ext_cells (insts M i) \<inter> ext_cells (insts M m) = {}"
        using assms i(1) m unfolding ext_apart_def by simp
      ultimately show False using i(2) by blast
    qed
    have Pi: "insts M' p = (if p < m then remap_head at n (insts M p) else insts M p)" for p using P by blast
    then have Mm: "insts M' m = insts M m" by simp
    show "?P (Suc m) (remap_inst at n m M')"
    proof (intro conjI allI)
      fix p
      show "insts (remap_inst at n m M') p = (if p < Suc m then remap_head at n (insts M p) else insts M p)"
        using Pi [of p] Mm by (cases "p = m") (simp_all add: remap_inst_insts less_Suc_eq)
    next
      fix x
      show "extra_operands (remap_inst at n m M') x =
        (if \<exists>i < Suc m. x \<in> ext_slots (insts M i) then rv (extra_operands M x) at n else extra_operands M x)"
      proof (cases "x \<in> ext_slots (insts M m)")
        case True
        then show ?thesis using P once [OF True] by (simp add: remap_inst_extra Mm) (metis lessI)
      next
        case False
        then have "(\<exists>i < Suc m. x \<in> ext_slots (insts M i)) \<longleftrightarrow> (\<exists>i < m. x \<in> ext_slots (insts M i))"
          using less_Suc_eq by blast
        then show ?thesis using P False by (simp add: remap_inst_extra Mm)
      qed
    qed
  qed simp_all
  then show "insts (for_loop 0 N (remap_inst at n) M) p = (if p < N then remap_head at n (insts M p) else insts M p)"
    and "extra_operands (for_loop 0 N (remap_inst at n) M) x =
      (if \<exists>i < N. x \<in> ext_slots (insts M i) then rv (extra_operands M x) at n else extra_operands M x)"
    by blast+
qed

lemma remap_all_keeps:
  "inst_lines (for_loop 0 N (remap_inst at n) M) = inst_lines M"
  "blocks (for_loop 0 N (remap_inst at n) M) = blocks M"
  "num_extra_ops (for_loop 0 N (remap_inst at n) M) = num_extra_ops M"
  by (rule for_loop_proj, simp add: remap_inst_keeps)+

subsection \<open>Insertion\<close>

text \<open>
  An instruction the walk handles as the verifier classifies it: at most a target on a plain
  branch, conditional branches inline, constants as switch cases, and the inline operands
  within the record.
\<close>

definition insertable :: "bir_module \<Rightarrow> bir_inst \<Rightarrow> bool" where
  "insertable M I \<longleftrightarrow>
     (i_op I = BIR_BR \<longrightarrow> vnop I \<le> 1) \<and> (i_op I = BIR_BR_COND \<longrightarrow> \<not> overflow I) \<and>
     (i_op I = BIR_SWITCH \<longrightarrow> (\<forall>j \<ge> 2. even j \<longrightarrow> bir_oper M I j = BIR_VAL_NONE \<or> BIR_VAL_IS_CONST (bir_oper M I j))) \<and>
     (\<not> overflow I \<longrightarrow> i_num_operands I \<le> BIR_OPERANDS_INLINE)"

lemma rv_const: "v = BIR_VAL_NONE \<or> BIR_VAL_IS_CONST v \<Longrightarrow> rv v at n = v"
  by (simp add: rv_def)

lemma rv_follows:
  assumes "p < 2 ^ 31"
  shows "rv (BIR_MAKE_VAL p) at n = BIR_MAKE_VAL (if p < at then p else p + n)"
proof -
  have "BIR_MAKE_VAL p \<noteq> BIR_VAL_NONE" using make_val_not_const [OF assms] by auto
  then show ?thesis using assms by (simp add: rv_def del: power_numeral)
qed

lemma remap_head_fields [simp]:
  "i_op (remap_head at n I) = i_op I" "i_num_operands (remap_head at n I) = i_num_operands I"
  "i_subop (remap_head at n I) = i_subop I" "i_type (remap_head at n I) = i_type I"
  by (simp_all add: remap_head_def)

text \<open>Every operand of a remapped instruction, read back through \<open>bir_oper\<close>.\<close>

lemma remap_oper:
  assumes ok: "insertable M I"
    and extra: "\<And>x. x \<in> ext_cells I \<Longrightarrow>
       extra_operands M' x = (if x \<in> ext_slots I then rv (extra_operands M x) at n else extra_operands M x)"
    and "num_extra_ops M' = num_extra_ops M"
  shows "bir_oper M' (remap_head at n I) j =
    (if vslot (i_op I) j = VCH_VAL then rv (bir_oper M I j) at n else bir_oper M I j)"
proof -
  have switch: "rv (bir_oper M I j) at n = bir_oper M I j"
    if "i_op I = BIR_SWITCH" "j \<ge> 2" "vslot (i_op I) j = VCH_VAL"
    using ok that by (intro rv_const) (auto simp: insertable_def vslot_def split: if_splits)
  show ?thesis
  proof (cases "overflow I")
    case True
    then have h: "remap_head at n I = I" using ok by (simp add: remap_head_def inl_slots_def insertable_def)
    define s c where "s = unat (i_operands I 0)" and "c = unat (i_operands I 1)"
    show ?thesis
    proof (cases "j \<ge> c \<or> s + j \<ge> num_extra_ops M")
      case out: True
      then show ?thesis using True assms(3) by (auto simp: h bir_oper_def s_def c_def rv_const)
    next
      case False
      then have "s + j \<in> ext_cells I" using True by (simp add: ext_cells_def s_def c_def)
      moreover have o: "bir_oper M I j = extra_operands M (s + j)" "bir_oper M' I j = extra_operands M' (s + j)"
        using False True assms(3) by (simp_all add: bir_oper_def s_def c_def)
      moreover have "s + j \<in> ext_slots I \<longleftrightarrow> i_op I \<noteq> BIR_BR \<and> i_op I \<noteq> BIR_BR_COND \<and>
          j \<in> set (remap_slots (i_op I) True c)"
        using True by (auto simp: ext_slots_def s_def c_def)
      moreover have "i_op I \<noteq> BIR_BR \<and> i_op I \<noteq> BIR_BR_COND \<and> j \<in> set (remap_slots (i_op I) True c) \<longleftrightarrow>
          vslot (i_op I) j = VCH_VAL \<and> \<not> (i_op I = BIR_SWITCH \<and> j \<ge> 2)"
        using ok True False by (auto simp: insertable_def vslot_def remap_slots_def vnop_def c_def)
      ultimately show ?thesis using extra [of "s + j"] switch unfolding h by auto
    qed
  next
    case False
    then have e: "bir_oper X J j = (if j \<ge> i_num_operands I then BIR_VAL_NONE else i_operands J j)"
      if "i_num_operands J = i_num_operands I" for X J
      using ok that by (auto simp: bir_oper_def insertable_def)
    have "j \<in> inl_slots I \<longleftrightarrow> vslot (i_op I) j = VCH_VAL \<and> \<not> (i_op I = BIR_SWITCH \<and> j \<ge> 2)"
      if "j < i_num_operands I"
      using that ok False by (auto simp: inl_slots_def remap_slots_def vslot_def insertable_def vnop_def)
    note slot = this
    show ?thesis
    proof (cases "j < i_num_operands I")
      case True
      have "bir_oper M' (remap_head at n I) j = (if j \<in> inl_slots I then rv (bir_oper M I j) at n else bir_oper M I j)"
        using True e [of I M] e [of "remap_head at n I" M'] by (simp add: remap_head_def)
      then show ?thesis using slot [OF True] switch by auto
    next
      case out: False
      then show ?thesis using e [of I M] e [of "remap_head at n I" M'] by (simp add: rv_const)
    qed
qed
qed

lemma bump_owner_keeps [simp]:
  "insts (bump_owner b n M) = insts M" "num_insts (bump_owner b n M) = num_insts M"
  "inst_lines (bump_owner b n M) = inst_lines M" "blocks (bump_owner b n M) = blocks M"
  "extra_operands (bump_owner b n M) = extra_operands M" "num_extra_ops (bump_owner b n M) = num_extra_ops M"
  by (simp_all add: bump_owner_def split: option.split)

text \<open>The array after the move and the paste: old instructions around the new ones.\<close>

lemma opened_array:
  assumes "at \<le> N"
  shows "p < at \<Longrightarrow> paste (blit a (at + length xs) at (N - at)) at xs p = a p"
    and "at \<le> p \<Longrightarrow> p < N \<Longrightarrow> paste (blit a (at + length xs) at (N - at)) at xs (p + length xs) = a p"
    and "k < length xs \<Longrightarrow> paste (blit a (at + length xs) at (N - at)) at xs (at + k) = xs ! k"
  using assms by (simp_all add: paste_def blit_def)

lemma upt_split: "i \<le> j \<Longrightarrow> j \<le> k \<Longrightarrow> [i..<k] = [i..<j] @ [j..<k]"
  by (metis le_add_diff_inverse upt_add_eq_append)

lemma bir_insert_result:
  assumes "bir_insert M b pos src = (M', Some at)" "at \<le> num_insts M"
    and "ext_apart (insts M) (num_insts M)" "\<forall>I \<in> set src. \<not> overflow I"
  defines "a \<equiv> paste (blit (insts M) (at + length src) at (num_insts M - at)) at src"
  shows "p < num_insts M + length src \<Longrightarrow> insts M' p = remap_head at (length src) (a p)"
    and "extra_operands M' x = (if \<exists>i < num_insts M. x \<in> ext_slots (insts M i)
           then rv (extra_operands M x) at (length src) else extra_operands M x)"
    and "inst_lines M' = paste (blit (inst_lines M) (at + length src) at (num_insts M - at)) at (replicate (length src) 0)"
    and "num_extra_ops M' = num_extra_ops M"
    and "blocks M' = (\<lambda>k. if k < num_blocks M then insert_block b at (length src) k (blocks M k) else blocks M k)"
    and "at = b_first_inst (blocks M b) + pos" "pos \<le> b_num_insts (blocks M b)" "b < num_blocks M"
    and "num_insts M + length src \<le> BIR_MAX_INSTS"
proof -
  let ?n = "length src" and ?N = "num_insts M"
  define M3 where "M3 = bump_owner b ?n (M\<lparr>insts := a,
     inst_lines := paste (blit (inst_lines M) (at + ?n) at (?N - at)) at (replicate ?n 0), num_insts := ?N + ?n,
     blocks := (\<lambda>k. if k < num_blocks M then insert_block b at ?n k (blocks M k) else blocks M k)\<rparr>)"
  have r: "M' = for_loop 0 (?N + ?n) (remap_inst at ?n) M3" and g: "at = b_first_inst (blocks M b) + pos"
      "pos \<le> b_num_insts (blocks M b)" "b < num_blocks M" "num_insts M + length src \<le> BIR_MAX_INSTS"
    using assms(1) by (auto simp: bir_insert_def Let_def M3_def a_def split: if_splits)
  show "at = b_first_inst (blocks M b) + pos" "pos \<le> b_num_insts (blocks M b)" "b < num_blocks M"
    "num_insts M + length src \<le> BIR_MAX_INSTS" by fact+
  have old: "\<exists>q < ?N. a p = insts M q \<and> p = (if q < at then q else q + ?n)"
    if p: "p < ?N + ?n" "p < at \<or> at + ?n \<le> p" for p
  proof (cases "p < at")
    case True
    then show ?thesis using opened_array(1) [OF assms(2) True, of "insts M" src] assms(2) unfolding a_def by auto
  next
    case False
    then have "at \<le> p - ?n" "p - ?n < ?N" "p = p - ?n + ?n" using p by auto
    then show ?thesis
      using opened_array(2) [OF assms(2), of "p - ?n" "insts M" src] unfolding a_def
      by (intro exI [of _ "p - ?n"]) auto
  qed
  have new: "ext_cells (a p) = {}" if "at \<le> p" "p < at + ?n" for p
  proof -
    have "a p = src ! (p - at)" using that by (simp add: a_def)
    then show ?thesis using assms(4) that by (auto simp: ext_cells_def)
  qed
  have apart: "ext_apart (insts M3) (?N + ?n)"
    unfolding ext_apart_def
  proof (intro allI impI)
    fix p q
    assume p: "p < ?N + ?n" and q: "q < ?N + ?n" and pq: "p \<noteq> q"
    have "ext_cells (a p) \<inter> ext_cells (a q) = {}"
    proof (cases "(p < at \<or> at + ?n \<le> p) \<and> (q < at \<or> at + ?n \<le> q)")
      case True
      then obtain p' q' where "p' < ?N" "a p = insts M p'" "p = (if p' < at then p' else p' + ?n)"
        "q' < ?N" "a q = insts M q'" "q = (if q' < at then q' else q' + ?n)"
        using old [OF p] old [OF q] by blast
      moreover from this pq have "p' \<noteq> q'" by auto
      ultimately show ?thesis using assms(3) unfolding ext_apart_def by simp
    next
      case False
      then show ?thesis using new [of p] new [of q] by fastforce
    qed
    then show "ext_cells (insts M3 p) \<inter> ext_cells (insts M3 q) = {}" by (simp add: M3_def)
  qed
  note all = remap_all [OF apart]
  show "insts M' p = remap_head at ?n (a p)" if "p < ?N + ?n"
    using all(1) [of at ?n p] that unfolding r by (simp add: M3_def)
  have "(\<exists>i < ?N + ?n. x \<in> ext_slots (a i)) \<longleftrightarrow> (\<exists>i < ?N. x \<in> ext_slots (insts M i))"
  proof
    assume "\<exists>i < ?N + ?n. x \<in> ext_slots (a i)"
    then obtain i where i: "i < ?N + ?n" "x \<in> ext_slots (a i)" by blast
    then have "i < at \<or> at + ?n \<le> i" using new [of i] ext_slots_cells [of "a i"] by fastforce
    then show "\<exists>i < ?N. x \<in> ext_slots (insts M i)" using old [OF i(1)] i(2) by auto
  next
    assume "\<exists>i < ?N. x \<in> ext_slots (insts M i)"
    then obtain i where i: "i < ?N" "x \<in> ext_slots (insts M i)" by blast
    then have "a (if i < at then i else i + ?n) = insts M i"
      using opened_array(1) [OF assms(2), of i "insts M" src] opened_array(2) [OF assms(2), of i "insts M" src]
      unfolding a_def by simp
    then show "\<exists>i < ?N + ?n. x \<in> ext_slots (a i)"
      using i by (intro exI [of _ "if i < at then i else i + ?n"]) auto
  qed
  moreover have M3: "insts M3 = a" "extra_operands M3 = extra_operands M" by (simp_all add: M3_def)
  ultimately show "extra_operands M' x = (if \<exists>i < ?N. x \<in> ext_slots (insts M i)
           then rv (extra_operands M x) at ?n else extra_operands M x)"
    using all(2) [of at ?n x, folded r] unfolding M3 by (simp only:)
  show "inst_lines M' = paste (blit (inst_lines M) (at + ?n) at (?N - at)) at (replicate ?n 0)"
    "num_extra_ops M' = num_extra_ops M"
    "blocks M' = (\<lambda>k. if k < num_blocks M then insert_block b at ?n k (blocks M k) else blocks M k)"
    unfolding r remap_all_keeps by (simp_all add: M3_def)
qed

text \<open>
  Property C21.  Insertion keeps every old instruction: at its new position it has the same
  opcode, type, subop and line, and every operand, inline or in the overflow pool, is the old
  one, with the references that the verifier classifies as values following the instruction
  they name.
\<close>

theorem bir_insert_operands:
  assumes "bir_insert M b pos src = (M', Some at)"
    and "b_first_inst (blocks M b) + b_num_insts (blocks M b) \<le> num_insts M"
    and "ext_apart (insts M) (num_insts M)" "\<forall>I \<in> set src. \<not> overflow I"
    and "p < num_insts M" "insertable M (insts M p)"
    and "q = (if p < at then p else p + length src)"
  shows "i_op (insts M' q) = i_op (insts M p) \<and> i_type (insts M' q) = i_type (insts M p) \<and>
    i_subop (insts M' q) = i_subop (insts M p) \<and> inst_lines M' q = inst_lines M p \<and>
    (\<forall>j. bir_oper M' (insts M' q) j =
      (if vslot (i_op (insts M p)) j = VCH_VAL then rv (bir_oper M (insts M p) j) at (length src)
       else bir_oper M (insts M p) j)) \<and>
    rv (BIR_MAKE_VAL p) at (length src) = BIR_MAKE_VAL q"
proof -
  let ?n = "length src" and ?N = "num_insts M" and ?I = "insts M p"
  have at: "at \<le> ?N"
    using assms(1,2) by (auto simp: bir_insert_def Let_def split: if_splits)
  note r = bir_insert_result [OF assms(1) at assms(3,4)]
  have q: "q < ?N + ?n" using assms(5,7) by auto
  have op: "paste (blit a (at + length xs) at (?N - at)) at xs q = a p" if "length xs = ?n" for a :: "nat \<Rightarrow> 'x" and xs
    using opened_array(1) [OF at, of p a xs] opened_array(2) [OF at, of p a xs] assms(5,7) that by auto
  have I: "insts M' q = remap_head at ?n ?I" using r(1) [OF q] op [of src "insts M"] by simp
  have lines: "inst_lines M' q = inst_lines M p" using op [of "replicate ?n 0" "inst_lines M"] r(3) by simp
  have extra: "extra_operands M' x = (if x \<in> ext_slots ?I then rv (extra_operands M x) at ?n else extra_operands M x)"
    if "x \<in> ext_cells ?I" for x
  proof -
    have "i = p" if i: "i < ?N" "x \<in> ext_slots (insts M i)" for i
      using assms(3,5) i \<open>x \<in> ext_cells ?I\<close> ext_slots_cells [of "insts M i"] unfolding ext_apart_def by blast
    then have "(\<exists>i < ?N. x \<in> ext_slots (insts M i)) \<longleftrightarrow> x \<in> ext_slots ?I" using assms(5) by blast
    then show ?thesis using r(2) by simp
  qed
  have "bir_oper M' (insts M' q) j = (if vslot (i_op ?I) j = VCH_VAL then rv (bir_oper M ?I j) at ?n else bir_oper M ?I j)" for j
    unfolding I using remap_oper [OF assms(6) extra r(4)] by simp
  moreover have "p < 2 ^ 31" using assms(5) r(9) by simp
  moreover from this have "rv (BIR_MAKE_VAL p) at ?n = BIR_MAKE_VAL q" by (simp only: rv_follows assms(7))
  ultimately show ?thesis using lines by (simp only: I remap_head_fields) simp
qed


subsection \<open>Samples\<close>

text \<open>A sum of two thread indices in front of a block that returns it.\<close>

definition insert_module :: bir_module where
  "insert_module = (cleared_module ((\<lambda>_. zero_inst)(
       0 := zero_inst\<lparr>i_op := BIR_THREAD_ID\<rparr>,
       1 := zero_inst\<lparr>i_op := BIR_ADD, i_num_operands := 2, i_operands := ops_of [0, 0]\<rparr>,
       2 := zero_inst\<lparr>i_op := BIR_RET, i_num_operands := 1, i_operands := ops_of [1]\<rparr>)))\<lparr>num_insts := 3,
       blocks := (\<lambda>_. zero_block\<lparr>b_num_insts := 3\<rparr>), num_blocks := 1,
       funcs := (\<lambda>_. zero_func\<lparr>f_num_blocks := 1, f_total_insts := 3\<rparr>), num_funcs := 1\<rparr>"

lemmas insert_defs = insert_module_def cleared_module_def zero_inst_def zero_block_def zero_func_def ops_of_def

lemma insert_module_ok:
  "snd (bir_insert insert_module 0 1 [I]) = Some 1" "ext_apart (insts insert_module) 3"
  "insertable insert_module (insts insert_module 2)" "num_insts insert_module = 3" "num_blocks insert_module = 1"
  "b_first_inst (blocks insert_module 0) = 0" "b_num_insts (blocks insert_module 0) = 3"
  by (simp_all add: bir_insert_def insertable_def ext_apart_def ext_cells_def insert_defs)

theorem bir_insert_operands_witness:
  "bir_oper (fst (bir_insert insert_module 0 1 [zero_inst\<lparr>i_op := BIR_BLOCK_ID\<rparr>]))
     (insts (fst (bir_insert insert_module 0 1 [zero_inst\<lparr>i_op := BIR_BLOCK_ID\<rparr>])) 3) 0 = BIR_MAKE_VAL 2"
proof -
  let ?src = "[zero_inst\<lparr>i_op := BIR_BLOCK_ID\<rparr>]"
  have e: "bir_insert insert_module 0 1 ?src = (fst (bir_insert insert_module 0 1 ?src), Some 1)"
    by (rule prod_eqI) (simp_all only: fst_conv snd_conv insert_module_ok(1))
  have "\<forall>I \<in> set ?src. \<not> overflow I" by (simp add: zero_inst_def)
  note p = bir_insert_operands [OF e _ _ this, of 2 3, unfolded insert_module_ok(4,6,7)]
  have "bir_oper (fst (bir_insert insert_module 0 1 ?src)) (insts (fst (bir_insert insert_module 0 1 ?src)) 3) 0 =
    (if vslot (i_op (insts insert_module 2)) 0 = VCH_VAL then rv (bir_oper insert_module (insts insert_module 2) 0) 1 1
     else bir_oper insert_module (insts insert_module 2) 0)"
    using p insert_module_ok(2,3) by fastforce
  also have "\<dots> = rv (BIR_MAKE_VAL 1) 1 1"
    by (simp add: vslot_def insert_defs bir_oper_def BIR_MAKE_VAL_def)
  finally have "bir_oper (fst (bir_insert insert_module 0 1 ?src)) (insts (fst (bir_insert insert_module 0 1 ?src)) 3) 0 =
    rv (BIR_MAKE_VAL 1) 1 1" .
  moreover have "rv (BIR_MAKE_VAL 1) 1 1 = BIR_MAKE_VAL 2"
    by (subst rv_follows) (simp_all flip: numeral_2_eq_2)
  ultimately show ?thesis by simp
qed


text \<open>
  An inserted instruction is not copied verbatim: the final walk remaps it too.
  Here the inserted sum at position 1 refers to the return at its post-insert position 3, as the
  interface asks, and the walk shifts that reference to position 4, past the end.
\<close>

theorem bir_insert_shifts_inserted:
  "bir_oper (fst (bir_insert insert_module 0 1
       [zero_inst\<lparr>i_op := BIR_ADD, i_num_operands := 2, i_operands := ops_of [0, BIR_MAKE_VAL 3]\<rparr>]))
     (insts (fst (bir_insert insert_module 0 1
       [zero_inst\<lparr>i_op := BIR_ADD, i_num_operands := 2, i_operands := ops_of [0, BIR_MAKE_VAL 3]\<rparr>])) 1) 1 =
     BIR_MAKE_VAL 4"
proof -
  let ?I = "zero_inst\<lparr>i_op := BIR_ADD, i_num_operands := 2, i_operands := ops_of [0, BIR_MAKE_VAL 3]\<rparr>"
  let ?M = "fst (bir_insert insert_module 0 1 [?I])"
  have e: "bir_insert insert_module 0 1 [?I] = (?M, Some 1)"
    by (rule prod_eqI) (simp_all only: fst_conv snd_conv insert_module_ok(1))
  have "\<forall>I \<in> set [?I]. \<not> overflow I" by simp
  from bir_insert_result(1) [OF e _ _ this, of 1] insert_module_ok(2,4)
  have "insts ?M 1 = remap_head 1 1 ?I" by simp
  then have "bir_oper ?M (insts ?M 1) 1 = rv (BIR_MAKE_VAL 3) 1 1"
    by (simp add: bir_oper_def remap_head_def inl_slots_def remap_slots_def ops_of_def)
  then show ?thesis using rv_follows [of 3 1 1] by simp
qed

end
