(* ===== verification/Soft_Float.thy ===== *)
theory Soft_Float
  imports Booth_Prelude
begin

text \<open>
  The IEEE-754 single-precision soft-float library that lowered kernels call on cores
  without a floating-point unit: \<open>src/runtime/device/soft_fp.c\<close> and
  \<open>soft_fp_internal.h\<close>, in the default configuration \<open>SFP_STRICT_IEEE = 0\<close> (subnormals
  flush to zero).

  A \<open>float\<close> is its 32-bit pattern: \<open>sfp_to_bits\<close> and \<open>sfp_from_bits\<close> copy the bytes and
  are the identity here.  Exponents are integers: every exponent the code forms is within a
  few hundred of zero, far inside \<open>int32_t\<close>.  Flags and signs (\<open>uint8_t\<close> holding 0 or 1) are
  booleans.
\<close>

subsection \<open>Anatomy\<close>

abbreviation SFP_SIGN_BIT :: u32 where "SFP_SIGN_BIT \<equiv> 0x80000000"
abbreviation SFP_CANONICAL_NAN :: u32 where "SFP_CANONICAL_NAN \<equiv> 0x7FC00000"
abbreviation SFP_POS_INF :: u32 where "SFP_POS_INF \<equiv> 0x7F800000"
abbreviation SFP_NEG_INF :: u32 where "SFP_NEG_INF \<equiv> 0xFF800000"
abbreviation SFP_MANT_MASK :: u32 where "SFP_MANT_MASK \<equiv> 0x007FFFFF"
abbreviation SFP_HIDDEN_BIT :: u32 where "SFP_HIDDEN_BIT \<equiv> 0x00800000"
abbreviation (input) SFP_EXP_BIAS :: int where "SFP_EXP_BIAS \<equiv> 127"
abbreviation (input) SFP_EXP_MAX :: int where "SFP_EXP_MAX \<equiv> 255"
abbreviation (input) SFP_MANT_BITS :: nat where "SFP_MANT_BITS \<equiv> 23"

record sfp_unpacked =
  sf_exp :: int
  sf_mant :: u32
  sf_sign :: bool
  is_zero :: bool
  is_inf :: bool
  is_nan :: bool

definition sfp_special :: "bool \<Rightarrow> bool \<Rightarrow> bool \<Rightarrow> bool \<Rightarrow> sfp_unpacked" where
  "sfp_special s z i n =
     \<lparr>sf_exp = 0, sf_mant = 0, sf_sign = s, is_zero = z, is_inf = i, is_nan = n\<rparr>"

definition sfp_unpack :: "u32 \<Rightarrow> sfp_unpacked" where
  "sfp_unpack bits =
     (let s = (drop_bit 31 bits AND 1 \<noteq> 0);
          biased = drop_bit 23 bits AND 0xFF;
          mant = bits AND SFP_MANT_MASK
      in if biased = 255 then
           (if mant = 0 then sfp_special s False True False else sfp_special s False False True)
         else if biased = 0 then sfp_special s True False False
         else \<lparr>sf_exp = int (unat biased) - SFP_EXP_BIAS, sf_mant = mant OR SFP_HIDDEN_BIT,
                sf_sign = s, is_zero = False, is_inf = False, is_nan = False\<rparr>)"

definition signed_inf :: "bool \<Rightarrow> u32" where
  "signed_inf s = (if s then SFP_NEG_INF else SFP_POS_INF)"

definition signed_zero :: "bool \<Rightarrow> u32" where
  "signed_zero s = (if s then SFP_SIGN_BIT else 0)"

definition sfp_pack :: "sfp_unpacked \<Rightarrow> u32" where
  "sfp_pack u =
     (if is_nan u then SFP_CANONICAL_NAN
      else if is_inf u then signed_inf (sf_sign u)
      else if is_zero u then signed_zero (sf_sign u)
      else let biased = sf_exp u + SFP_EXP_BIAS in
        if biased \<ge> SFP_EXP_MAX then signed_inf (sf_sign u)
        else if biased \<le> 0 then signed_zero (sf_sign u)
        else push_bit 31 (of_bool (sf_sign u)) OR push_bit 23 (word_of_int biased) OR
             (sf_mant u AND SFP_MANT_MASK))"

subsection \<open>Rounding\<close>

text \<open>The normalising loop, with its guard counter, and the draining loop.\<close>

fun norm_up :: "nat \<Rightarrow> nat \<Rightarrow> u64 \<Rightarrow> int \<Rightarrow> u64 \<times> int" where
  "norm_up 0 tt w e = (w, e)"
| "norm_up (Suc guard) tt w e =
     (if drop_bit tt w = 0 then norm_up guard tt (push_bit 1 w) (e - 1) else (w, e))"

lemma drain_decreases:
  assumes "drop_bit (Suc tt) (w :: u64) \<noteq> 0"
  shows "unat (drop_bit 1 w OR (w AND 1)) < unat w"
proof -
  have "unat (drop_bit 1 w OR (w AND 1)) = (unat w div 2) OR (unat w mod 2)"
    by (simp add: unsigned_or_eq unat_drop_bit unat_and_one)
  also have "\<dots> \<le> unat w div 2 + 1"
    by (simp add: nat_or_one_bit)
  finally have le: "unat (drop_bit 1 w OR (w AND 1)) \<le> unat w div 2 + 1" .
  have "unat w div 2 ^ Suc tt \<noteq> 0"
    using assms by (simp add: unat_inject_nonzero unat_drop_bit del: power_Suc)
  then have ge: "2 * 2 ^ tt \<le> unat w" by (simp add: div_eq_0_iff)
  have or: "unat w = 2 \<Longrightarrow> unat (drop_bit 1 w OR (w AND 1)) = 1"
    by (simp add: unsigned_or_eq unat_drop_bit unat_and_one)
  have "2 \<le> unat w" using ge one_le_power [of "2 :: nat" tt] by linarith
  with le or show ?thesis by (cases "unat w = 2") linarith+
qed

function drain :: "nat \<Rightarrow> u64 \<Rightarrow> int \<Rightarrow> u64 \<times> int" where
  "drain tt w e =
     (if drop_bit (Suc tt) w \<noteq> 0 then drain tt (drop_bit 1 w OR (w AND 1)) (e + 1) else (w, e))"
  by pat_completeness auto
termination
  by (relation "measure (\<lambda>(tt, w, e). unat w)") (simp_all only: in_measure split_conv drain_decreases wf_measure)

declare drain.simps [simp del]

definition sfp_round_normal :: "bool \<Rightarrow> int \<Rightarrow> u64 \<Rightarrow> nat \<Rightarrow> u32" where
  "sfp_round_normal s e wide_mant shift_amount =
     (if wide_mant = 0 then
        sfp_pack \<lparr>sf_exp = e, sf_mant = 0, sf_sign = s, is_zero = True, is_inf = False,
          is_nan = False\<rparr>
      else
        let target_top = SFP_MANT_BITS + shift_amount;
            (w1, e1) = norm_up 64 target_top wide_mant e;
            (w2, e2) = drain target_top w1 e1;
            round_mask = (push_bit (shift_amount - 1) 1 :: u64);
            sticky_mask = round_mask - 1;
            round_bit = (w2 AND round_mask \<noteq> 0);
            sticky_bit = (w2 AND sticky_mask \<noteq> 0);
            mant24 = (ucast (drop_bit shift_amount w2) :: u32);
            (m, e3) =
              (if round_bit \<and> (sticky_bit \<or> mant24 AND 1 \<noteq> 0) then
                 (if mant24 + 1 = push_bit 24 1 then (drop_bit 1 (mant24 + 1), e2 + 1)
                  else (mant24 + 1, e2))
               else (mant24, e2))
        in sfp_pack \<lparr>sf_exp = e3, sf_mant = m, sf_sign = s, is_zero = False, is_inf = False,
             is_nan = False\<rparr>)"

subsection \<open>Arithmetic\<close>

definition negsf2 :: "u32 \<Rightarrow> u32" where
  "negsf2 a = a XOR SFP_SIGN_BIT"

text \<open>
  The aligned smaller mantissa of an addition: shifted down by the exponent difference,
  with the bits lost ORed into its lowest bit.
\<close>

definition align_down :: "u64 \<Rightarrow> nat \<Rightarrow> u64" where
  "align_down mb exp_diff =
     (let (sticky, mb') =
        (if exp_diff \<ge> 56 then (if mb \<noteq> 0 then 1 else 0, 0)
         else if exp_diff > 0 then (mb AND (push_bit exp_diff 1 - 1), drop_bit exp_diff mb)
         else (0, mb))
      in if sticky \<noteq> 0 then mb' OR 1 else mb')"

definition sfp_add_finite :: "sfp_unpacked \<Rightarrow> sfp_unpacked \<Rightarrow> u32" where
  "sfp_add_finite ua0 ub0 =
     (let (ua, ub) = (if sf_exp ub0 > sf_exp ua0 then (ub0, ua0) else (ua0, ub0));
          exp_diff = nat (sf_exp ua - sf_exp ub);
          ma = push_bit 24 (ucast (sf_mant ua) :: u64);
          mb = align_down (push_bit 24 (ucast (sf_mant ub) :: u64)) exp_diff
      in if sf_sign ua = sf_sign ub then sfp_round_normal (sf_sign ua) (sf_exp ua) (ma + mb) 24
         else let (result_mant, result_sign) =
                (if ma \<ge> mb then (ma - mb, sf_sign ua) else (mb - ma, sf_sign ub))
              in if result_mant = 0 then sfp_pack (sfp_special False True False False)
                 else sfp_round_normal result_sign (sf_exp ua) result_mant 24)"

definition sfp_add_signed :: "u32 \<Rightarrow> u32 \<Rightarrow> bool \<Rightarrow> u32" where
  "sfp_add_signed a b subtract =
     (let ua = sfp_unpack a;
          ub0 = sfp_unpack b;
          ub = (if subtract then ub0\<lparr>sf_sign := \<not> sf_sign ub0\<rparr> else ub0)
      in if is_nan ua \<or> is_nan ub then SFP_CANONICAL_NAN
         else if is_inf ua \<and> is_inf ub then
           (if sf_sign ua \<noteq> sf_sign ub then SFP_CANONICAL_NAN else signed_inf (sf_sign ua))
         else if is_inf ua then signed_inf (sf_sign ua)
         else if is_inf ub then signed_inf (sf_sign ub)
         else if is_zero ua \<and> is_zero ub then
           sfp_pack (sfp_special (sf_sign ua \<and> sf_sign ub) True False False)
         else if is_zero ua then b
         else if is_zero ub then a
         else sfp_add_finite ua ub)"

definition addsf3 :: "u32 \<Rightarrow> u32 \<Rightarrow> u32" where
  "addsf3 a b = sfp_add_signed a b False"

definition subsf3 :: "u32 \<Rightarrow> u32 \<Rightarrow> u32" where
  "subsf3 a b = sfp_add_signed a b True"

definition mulsf3 :: "u32 \<Rightarrow> u32 \<Rightarrow> u32" where
  "mulsf3 a b =
     (let ua = sfp_unpack a; ub = sfp_unpack b
      in if is_nan ua \<or> is_nan ub then SFP_CANONICAL_NAN
         else let out_sign = (sf_sign ua \<noteq> sf_sign ub)
         in if is_inf ua \<and> is_zero ub \<or> is_zero ua \<and> is_inf ub then SFP_CANONICAL_NAN
            else if is_inf ua \<or> is_inf ub then signed_inf out_sign
            else if is_zero ua \<or> is_zero ub then
              sfp_pack (sfp_special out_sign True False False)
            else sfp_round_normal out_sign (sf_exp ua + sf_exp ub)
                   ((ucast (sf_mant ua) :: u64) * ucast (sf_mant ub)) 23)"

definition divsf3 :: "u32 \<Rightarrow> u32 \<Rightarrow> u32" where
  "divsf3 a b =
     (let ua = sfp_unpack a; ub = sfp_unpack b
      in if is_nan ua \<or> is_nan ub then SFP_CANONICAL_NAN
         else let out_sign = (sf_sign ua \<noteq> sf_sign ub)
         in if is_inf ua \<and> is_inf ub then SFP_CANONICAL_NAN
            else if is_zero ua \<and> is_zero ub then SFP_CANONICAL_NAN
            else if is_inf ua then signed_inf out_sign
            else if is_zero ub then signed_inf out_sign
            else if is_zero ua \<or> is_inf ub then
              sfp_pack (sfp_special out_sign True False False)
            else let num = push_bit 28 (ucast (sf_mant ua) :: u64);
                     den = (ucast (sf_mant ub) :: u64);
                     quot = num div den;
                     rem = num mod den
              in sfp_round_normal out_sign (sf_exp ua - sf_exp ub)
                   (if rem \<noteq> 0 then quot OR 1 else quot) 5)"

subsection \<open>Comparisons\<close>

definition unordsf2 :: "u32 \<Rightarrow> u32 \<Rightarrow> int" where
  "unordsf2 a b = (if is_nan (sfp_unpack a) \<or> is_nan (sfp_unpack b) then 1 else 0)"

definition sfp_cmp :: "u32 \<Rightarrow> u32 \<Rightarrow> int" where
  "sfp_cmp a b =
     (let ua = sfp_unpack a; ub = sfp_unpack b
      in if is_nan ua \<or> is_nan ub then 1
         else if is_zero ua \<and> is_zero ub then 0
         else if sf_sign ua \<noteq> sf_sign ub then (if sf_sign ua then -1 else 1)
         else let mag_a = a AND 0x7FFFFFFF; mag_b = b AND 0x7FFFFFFF
              in if mag_a = mag_b then 0
                 else let ord = (if mag_a < mag_b then -1 else 1)
                      in if sf_sign ua then - ord else ord)"

definition eqsf2 :: "u32 \<Rightarrow> u32 \<Rightarrow> int" where
  "eqsf2 a b = (if unordsf2 a b \<noteq> 0 then 1 else if sfp_cmp a b \<noteq> 0 then 1 else 0)"

definition nesf2 :: "u32 \<Rightarrow> u32 \<Rightarrow> int" where
  "nesf2 a b = (if unordsf2 a b \<noteq> 0 then 1 else if sfp_cmp a b \<noteq> 0 then 1 else 0)"

definition ltsf2 :: "u32 \<Rightarrow> u32 \<Rightarrow> int" where
  "ltsf2 a b = (if unordsf2 a b \<noteq> 0 then 1 else sfp_cmp a b)"

definition lesf2 :: "u32 \<Rightarrow> u32 \<Rightarrow> int" where
  "lesf2 a b = (if unordsf2 a b \<noteq> 0 then 1 else sfp_cmp a b)"

definition gtsf2 :: "u32 \<Rightarrow> u32 \<Rightarrow> int" where
  "gtsf2 a b = (if unordsf2 a b \<noteq> 0 then -1 else sfp_cmp a b)"

definition gesf2 :: "u32 \<Rightarrow> u32 \<Rightarrow> int" where
  "gesf2 a b = (if unordsf2 a b \<noteq> 0 then -1 else sfp_cmp a b)"

subsection \<open>Conversions\<close>

text \<open>The search for the leading bit, from bit 31 down; it stops because \<open>v\<close> is not zero.\<close>

fun lead_bit :: "nat \<Rightarrow> u32 \<Rightarrow> nat" where
  "lead_bit 0 v = 0"
| "lead_bit (Suc k) v = (if drop_bit (Suc k) v AND 1 = 0 then lead_bit k v else Suc k)"

definition sfp_uint_to_float :: "u32 \<Rightarrow> bool \<Rightarrow> u32" where
  "sfp_uint_to_float v s =
     (if v = 0 then sfp_pack (sfp_special s True False False)
      else let tt = lead_bit 31 v
           in sfp_round_normal s (int tt) (push_bit (47 - tt) (ucast v :: u64)) 24)"

definition floatsisf :: "u32 \<Rightarrow> u32" where
  "floatsisf i =
     (if sint i \<ge> 0 then sfp_uint_to_float i False
      else sfp_uint_to_float (word_of_int (- sint i)) True)"

definition floatunsisf :: "u32 \<Rightarrow> u32" where
  "floatunsisf u = sfp_uint_to_float u False"

definition fix_magnitude :: "sfp_unpacked \<Rightarrow> u32" where
  "fix_magnitude u =
     (if sf_exp u \<ge> 23 then push_bit (nat (sf_exp u - 23)) (sf_mant u)
      else drop_bit (nat (23 - sf_exp u)) (sf_mant u))"

definition fixsfsi :: "u32 \<Rightarrow> u32" where
  "fixsfsi a =
     (let u = sfp_unpack a
      in if is_nan u then 0
         else if is_zero u then 0
         else if is_inf u then (if sf_sign u then 0x80000000 else 0x7FFFFFFF)
         else if sf_exp u < 0 then 0
         else if sf_exp u \<ge> 31 then (if sf_sign u then 0x80000000 else 0x7FFFFFFF)
         else if sf_sign u then - fix_magnitude u else fix_magnitude u)"

definition fixunssfsi :: "u32 \<Rightarrow> u32" where
  "fixunssfsi a =
     (let u = sfp_unpack a
      in if is_nan u then 0
         else if is_zero u then 0
         else if sf_sign u then 0
         else if is_inf u then 0xFFFFFFFF
         else if sf_exp u < 0 then 0
         else if sf_exp u \<ge> 32 then 0xFFFFFFFF
         else fix_magnitude u)"

end
