(* ===== verification/Soft_Float_Round.thy ===== *)
theory Soft_Float_Round
  imports Soft_Float
begin

text \<open>
  The reference for the soft-float library, in natural numbers: what it means to round an
  exact magnitude \<open>n * 2 ^ q\<close> once, to nearest with ties to even, and that the shift loops,
  round and sticky bits of \<open>sfp_round_normal\<close> and its three callers compute exactly that.
\<close>

fun lead :: "nat \<Rightarrow> nat" where
  "lead n = (if n \<le> 1 then 0 else Suc (lead (n div 2)))"

declare lead.simps [simp del]

lemma lead_bounds: "0 < n \<Longrightarrow> 2 ^ lead n \<le> n \<and> n < 2 ^ Suc (lead n)"
proof (induction n rule: lead.induct)
  case (1 n)
  show ?case
  proof (cases "n \<le> 1")
    case True
    with 1 show ?thesis by (simp add: lead.simps [of n])
  next
    case False
    then have "2 ^ lead (n div 2) \<le> n div 2" "n div 2 < 2 ^ Suc (lead (n div 2))"
      using 1 by auto
    with False show ?thesis by (auto simp: lead.simps [of n])
  qed
qed

lemma lead_unique:
  assumes "2 ^ k \<le> n" and "n < 2 ^ Suc k"
  shows "lead n = k"
proof -
  have "0 < n" using assms(1) by (rule less_le_trans [rotated]) simp
  then have b: "2 ^ lead n \<le> n" "n < 2 ^ Suc (lead n)" using lead_bounds by auto
  from le_less_trans [OF assms(1) b(2)] have "k < Suc (lead n)"
    by (subst (asm) power_strict_increasing_iff) simp_all
  moreover from le_less_trans [OF b(1) assms(2)] have "lead n < Suc k"
    by (subst (asm) power_strict_increasing_iff) simp_all
  ultimately show ?thesis by simp
qed

lemma lead_le_iff: "0 < n \<Longrightarrow> lead n < k \<longleftrightarrow> n < 2 ^ k"
proof
  assume n: "0 < n"
  show "lead n < k \<Longrightarrow> n < 2 ^ k"
    using lead_bounds [OF n] power_increasing [of "Suc (lead n)" k "2::nat"] by auto
  show "lead n < k" if lt: "n < 2 ^ k"
  proof (rule ccontr)
    assume "\<not> lead n < k"
    then have "2 ^ k \<le> (2 :: nat) ^ lead n" by simp
    with lt lead_bounds [OF n] show False by linarith
  qed
qed

lemma lead_mult: "0 < n \<Longrightarrow> lead (n * 2 ^ d) = lead n + d"
  by (rule lead_unique) (use lead_bounds [of n] in \<open>auto simp: power_add\<close>)

definition rne :: "nat \<Rightarrow> nat \<Rightarrow> nat" where
  "rne n k =
     (let q = n div 2 ^ k; r = n mod 2 ^ k
      in if 2 ^ k < 2 * r \<or> 2 * r = 2 ^ k \<and> odd q then q + 1 else q)"

lemma rne_mult: "d \<le> k \<Longrightarrow> rne (n * 2 ^ d) k = rne n (k - d)"
proof -
  assume "d \<le> k"
  then obtain j where k: "k = d + j" using le_Suc_ex by blast
  have q: "n * 2 ^ d div 2 ^ k = n div 2 ^ j"
    by (simp add: k power_add mult.commute)
  have r: "n * 2 ^ d mod 2 ^ k = (n mod 2 ^ j) * 2 ^ d"
    by (simp add: k power_add mult.commute mod_mult_mult1)
  have "2 ^ k < 2 * ((n mod 2 ^ j) * 2 ^ d) \<longleftrightarrow> 2 ^ j < 2 * (n mod 2 ^ j)"
    by (simp add: k power_add mult.assoc [symmetric])
  moreover have "2 * ((n mod 2 ^ j) * 2 ^ d) = 2 ^ k \<longleftrightarrow> 2 * (n mod 2 ^ j) = 2 ^ j"
    by (simp add: k power_add mult.assoc [symmetric])
  ultimately show ?thesis unfolding rne_def Let_def q r by (simp add: k)
qed

lemma rne_exact: "k \<le> d \<Longrightarrow> rne (n * 2 ^ d) k = n * 2 ^ (d - k)"
proof -
  assume "k \<le> d"
  then obtain j where d: "d = k + j" using le_Suc_ex by blast
  have "rne (n * 2 ^ d) k = rne ((n * 2 ^ j) * 2 ^ k) k"
    by (simp add: d power_add mult.assoc mult.commute [of "2 ^ k"])
  also have "\<dots> = rne (n * 2 ^ j) 0"
    by (simp only: rne_mult [OF order.refl] diff_self_eq_0)
  finally show ?thesis by (simp add: d rne_def)
qed

lemma rne_sticky:
  assumes "2 \<le> s"
  shows "rne ((n div 2) OR (n mod 2)) s = rne n (Suc s)"
proof -
  obtain k where s: "s = Suc (Suc k)" using assms by (metis Suc_le_D numeral_2_eq_2 Suc_le_mono)
  define q r where "q = n div 2 ^ Suc s" and "r = n mod 2 ^ Suc s"
  have n: "n = q * 2 ^ Suc s + r" unfolding q_def r_def by (rule div_mult_mod_eq [symmetric])
  have rlt: "r < 2 ^ Suc s" by (simp add: r_def)
  let ?v = "(n div 2) OR (n mod 2)"
  let ?r = "r div 2 + of_bool (odd r \<and> even (r div 2))"
  have v: "?v = q * 2 ^ s + ?r"
  proof -
    define h where "h = q * 2 ^ s"
    have n2: "n = 2 * h + r" "even h" by (simp_all add: n h_def s)
    show ?thesis unfolding nat_or_one_bit n2(1) h_def [symmetric] using n2(2) by simp
  qed
  define p :: nat where "p = 2 ^ k"
  have p: "2 ^ s = 4 * p" "2 ^ Suc s = 8 * p" by (simp_all add: s p_def)
  have rlt': "?r < 2 ^ s"
    using rlt unfolding p by (cases "odd r \<and> even (r div 2)"; simp; presburger)
  have q': "?v div 2 ^ s = q" "?v mod 2 ^ s = ?r"
    unfolding v using rlt' by simp_all
  have "2 ^ s < 2 * ?r \<longleftrightarrow> 2 ^ Suc s < 2 * r" "2 * ?r = 2 ^ s \<longleftrightarrow> 2 * r = 2 ^ Suc s"
    unfolding p by (cases "odd r \<and> even (r div 2)"; simp; presburger)+
  then show ?thesis
    unfolding rne_def Let_def q' by (simp add: q_def r_def)
qed

lemma drop_bit_eq_0_lead:
  "0 < unat (w :: u64) \<Longrightarrow> drop_bit k w = 0 \<longleftrightarrow> lead (unat w) < k"
  by (simp add: lead_le_iff unat_eq_0 [symmetric] unat_drop_bit div_eq_0_iff)

lemma norm_up_high: "0 < unat w \<Longrightarrow> tt \<le> lead (unat w) \<Longrightarrow> norm_up g tt w e = (w, e)"
  by (cases g) (simp_all add: drop_bit_eq_0_lead)

lemma norm_up_low:
  assumes "0 < unat w" "lead (unat w) \<le> tt" "tt < 64" "tt - lead (unat w) \<le> g"
  shows "\<exists>w'. norm_up g tt w e = (w', e - int (tt - lead (unat w))) \<and>
    unat w' = unat w * 2 ^ (tt - lead (unat w))"
  using assms
proof (induction g arbitrary: w e)
  case 0
  then show ?case by simp
next
  case (Suc g)
  show ?case
  proof (cases "lead (unat w) = tt")
    case True
    with Suc.prems show ?thesis by (simp add: norm_up_high del: norm_up.simps)
  next
    case False
    with Suc.prems have lt: "lead (unat w) < tt" by simp
    then have small: "unat w < 2 ^ tt" using Suc.prems(1) by (simp add: lead_le_iff)
    have le: "(2 :: nat) * 2 ^ tt \<le> 2 ^ 64"
      using Suc.prems(3) power_increasing [of "Suc tt" 64 "2 :: nat"] by simp
    define v where "v = push_bit 1 w"
    have u: "unat v = unat w * 2"
      unfolding v_def using unat_push_bit_small [of w 1] small le by simp
    have l: "lead (unat v) = Suc (lead (unat w))"
      unfolding u using lead_mult [OF Suc.prems(1), of 1] by simp
    obtain w' where w': "norm_up g tt v (e - 1) = (w', e - 1 - int (tt - lead (unat v)))"
      "unat w' = unat v * 2 ^ (tt - lead (unat v))"
    proof -
      have "0 < unat v" "lead (unat v) \<le> tt" "tt - lead (unat v) \<le> g"
        using Suc.prems lt l u by simp_all
      with Suc.IH [of v "e - 1"] Suc.prems(3) that show ?thesis by blast
    qed
    obtain d where d: "tt = Suc (lead (unat w)) + d" using lt less_imp_Suc_add by fastforce
    have "norm_up (Suc g) tt w e = norm_up g tt v (e - 1)"
      using lt Suc.prems(1) by (simp add: drop_bit_eq_0_lead v_def)
    with w' [unfolded l] show ?thesis by (simp add: u d del: norm_up.simps)
  qed
qed

lemma sticky_shift_unat:
  "unat (drop_bit 1 w OR (w AND 1) :: u64) = (unat w div 2) OR (unat w mod 2)"
  by (simp add: unsigned_or_eq unat_drop_bit unat_and_one)

lemma lead_sticky:
  assumes "2 \<le> n"
  shows "Suc (lead ((n div 2) OR (n mod 2))) = lead n"
proof -
  obtain L where L: "lead n = Suc L" using assms by (simp add: lead.simps [of n])
  have b: "2 ^ Suc L \<le> n" "n < 2 ^ Suc (Suc L)" using lead_bounds [of n] assms L by auto
  have "lead ((n div 2) OR (n mod 2)) = L"
  proof (rule lead_unique)
    show "2 ^ L \<le> (n div 2) OR (n mod 2)" using b by (simp add: nat_or_one_bit)
    have "n div 2 < 2 * 2 ^ L" using b by simp
    then have "n div 2 + of_bool (odd n \<and> even (n div 2)) < 2 * 2 ^ L"
      by (cases "odd n \<and> even (n div 2)"; simp; presburger)
    then show "(n div 2) OR (n mod 2) < 2 ^ Suc L" by (simp add: nat_or_one_bit)
  qed
  with L show ?thesis by simp
qed

lemma drain_spec:
  assumes "0 < unat w" "tt \<le> lead (unat w)"
  shows "\<exists>w'. drain tt w e = (w', e + int (lead (unat w) - tt)) \<and> 0 < unat w' \<and>
    lead (unat w') = tt \<and>
    (\<forall>s. 2 \<le> s \<longrightarrow> rne (unat w') s = rne (unat w) (s + (lead (unat w) - tt)))"
  using assms
proof (induction tt w e rule: drain.induct)
  case (1 tt w e)
  show ?case
  proof (cases "drop_bit (Suc tt) w = 0")
    case True
    then have "lead (unat w) = tt" using 1 by (simp add: drop_bit_eq_0_lead)
    with True 1 show ?thesis by (simp add: drain.simps [of tt w e])
  next
    case False
    let ?w = "drop_bit 1 w OR (w AND 1)"
    have lt: "tt < lead (unat w)" using False 1 by (simp add: drop_bit_eq_0_lead)
    then have two: "2 \<le> unat w" using lead.simps [of "unat w"] by (cases "unat w \<le> 1") auto
    have l: "Suc (lead (unat ?w)) = lead (unat w)"
      unfolding sticky_shift_unat by (rule lead_sticky [OF two])
    have pos: "0 < unat ?w"
      unfolding sticky_shift_unat using two by (simp add: nat_or_one_bit)
    obtain w' where w': "drain tt ?w (e + 1) = (w', e + 1 + int (lead (unat ?w) - tt))"
      "0 < unat w'" "lead (unat w') = tt"
      "\<forall>s. 2 \<le> s \<longrightarrow> rne (unat w') s = rne (unat ?w) (s + (lead (unat ?w) - tt))"
      using 1(1) [OF False pos] l lt by auto
    have "rne (unat w') s = rne (unat w) (s + (lead (unat w) - tt))" if "2 \<le> s" for s
    proof -
      define d where "d = lead (unat ?w) - tt"
      have d: "lead (unat ?w) = tt + d" using l lt unfolding d_def by linarith
      have d': "lead (unat w) = Suc (tt + d)" using l d by simp
      have "rne (unat w') s = rne (unat ?w) (s + d)" using w'(4) that d by simp
      also have "\<dots> = rne (unat w) (Suc (s + d))"
        unfolding sticky_shift_unat by (rule rne_sticky) (use that in simp)
      finally show ?thesis by (simp add: d')
    qed
    with w' l lt False show ?thesis by (auto simp: drain.simps [of tt w e])
  qed
qed

text \<open>The reference: the pattern of \<open>n * 2 ^ q\<close> rounded to nearest, ties to even.\<close>

definition mant_of :: "nat \<Rightarrow> nat" where
  "mant_of n = (if lead n < 23 then n * 2 ^ (23 - lead n) else rne n (lead n - 23))"

definition sfp_of :: "bool \<Rightarrow> int \<Rightarrow> nat \<Rightarrow> u32" where
  "sfp_of s e m = sfp_pack \<lparr>sf_exp = e, sf_mant = word_of_nat m, sf_sign = s, is_zero = False,
     is_inf = False, is_nan = False\<rparr>"

definition ieee_round :: "bool \<Rightarrow> nat \<Rightarrow> int \<Rightarrow> u32" where
  "ieee_round s n q =
     (let e = q + int (lead n); m = mant_of n
      in if m = 2 ^ 24 then sfp_of s (e + 1) (2 ^ 23) else sfp_of s e m)"

lemma and_exp_word: "(w :: u64) AND push_bit k 1 \<noteq> 0 \<longleftrightarrow> bit w k"
  by (simp add: push_bit_of_1 and_exp_eq_0_iff_not_bit)

lemma and_low_word: "k < 64 \<Longrightarrow> (w :: u64) AND (push_bit k 1 - 1) \<noteq> 0 \<longleftrightarrow> unat w mod 2 ^ k \<noteq> 0"
proof -
  have "push_bit k (1 :: u64) - 1 = mask k" by (simp add: mask_eq_exp_minus_1)
  then show ?thesis
    by (simp only: and_mask_eq_take_bit unat_inject_nonzero unat_take_bit)
qed

lemma half_way:
  assumes "(b :: nat) < p"
  shows "2 * p < 2 * (b + p * of_bool x) \<longleftrightarrow> x \<and> b \<noteq> 0"
    and "2 * (b + p * of_bool x) = 2 * p \<longleftrightarrow> x \<and> b = 0"
  using assms by (cases x; simp)+

lemma rne_bits:
  assumes "1 \<le> sh"
  shows "rne n sh = n div 2 ^ sh +
    of_bool (bit n (sh - 1) \<and> (n mod 2 ^ (sh - 1) \<noteq> 0 \<or> odd (n div 2 ^ sh)))"
proof -
  obtain k where k: "sh = Suc k" using assms by (cases sh) auto
  have m: "n mod 2 ^ sh = n mod 2 ^ k + 2 ^ k * of_bool (bit n k)"
    unfolding k by (simp add: bit_iff_odd mod_mult2_eq mod_2_eq_odd mult.commute [of 2])
  define p b where "p = (2 :: nat) ^ k" and "b = n mod 2 ^ k"
  have p: "2 ^ sh = 2 * p" "b < p" by (simp_all add: k p_def b_def)
  have m': "n mod 2 ^ sh = b + p * of_bool (bit n k)" using m by (simp only: p_def b_def)
  have c: "(2 ^ sh < 2 * (n mod 2 ^ sh)) \<longleftrightarrow> bit n k \<and> n mod 2 ^ k \<noteq> 0"
    "(2 * (n mod 2 ^ sh) = 2 ^ sh) \<longleftrightarrow> bit n k \<and> n mod 2 ^ k = 0"
    unfolding m' unfolding p(1) b_def [symmetric] by (rule half_way [OF p(2)])+
  have sh: "sh - 1 = k" by (simp add: k)
  define Q where "Q = n div 2 ^ sh"
  show ?thesis
    unfolding rne_def Let_def c sh Q_def [symmetric] b_def [symmetric]
    by (cases "bit n k"; cases "b = 0"; cases "odd Q") simp_all
qed

lemma round_step:
  fixes w :: u64
  assumes "0 < unat w" "lead (unat w) = 23 + sh" "1 \<le> sh" "23 + sh < 64"
  defines "m24 \<equiv> (ucast (drop_bit sh w) :: u32)"
  shows "unat m24 = unat w div 2 ^ sh" "unat w div 2 ^ sh < 2 ^ 24"
    "rne (unat w) sh = unat m24 +
       of_bool (w AND push_bit (sh - 1) 1 \<noteq> 0 \<and>
         (w AND (push_bit (sh - 1) 1 - 1) \<noteq> 0 \<or> m24 AND 1 \<noteq> 0))"
proof -
  have "unat w < 2 ^ 24 * 2 ^ sh" using lead_bounds [OF assms(1)] assms(2) by (simp add: power_add)
  then show lt: "unat w div 2 ^ sh < 2 ^ 24" by (simp add: less_mult_imp_div_less)
  show m: "unat m24 = unat w div 2 ^ sh"
    unfolding m24_def using lt
    by (simp add: unsigned_ucast_eq unat_drop_bit take_bit_nat_eq_self)
  have "bit (unat w) (sh - 1) \<longleftrightarrow> bit w (sh - 1)"
    by (simp add: bit_unsigned_iff)
  then show "rne (unat w) sh = unat m24 +
       of_bool (w AND push_bit (sh - 1) 1 \<noteq> 0 \<and>
         (w AND (push_bit (sh - 1) 1 - 1) \<noteq> 0 \<or> m24 AND 1 \<noteq> 0))"
    using assms(3,4) and_low_word [of "sh - 1" w]
    unfolding rne_bits [OF assms(3)] and_exp_word unat_inject_nonzero [of "m24 AND 1"] unat_and_one m
    by (auto simp: odd_iff_mod_2_eq_one)
qed

text \<open>Both loops together: the leading bit sits at the target and rounding is unchanged.\<close>

lemma normalise_spec:
  assumes "0 < unat w" "2 \<le> sh" "23 + sh < 64"
  obtains w1 e1 w2 where "norm_up 64 (23 + sh) w e = (w1, e1)"
    "drain (23 + sh) w1 e1 = (w2, e - int (23 + sh) + int (lead (unat w)))"
    "0 < unat w2" "lead (unat w2) = 23 + sh" "rne (unat w2) sh = mant_of (unat w)"
proof (cases "lead (unat w) \<le> 23 + sh")
  case True
  let ?d = "23 + sh - lead (unat w)"
  have g: "?d \<le> 64" using assms(3) by linarith
  obtain w1 where w1: "norm_up 64 (23 + sh) w e = (w1, e - int ?d)" "unat w1 = unat w * 2 ^ ?d"
    using norm_up_low [OF assms(1) True assms(3) g] by blast
  have pos: "0 < unat w1" using w1 assms(1) by simp
  have l1: "lead (unat w1) = 23 + sh" using lead_mult [OF assms(1), of ?d] w1(2) True by simp
  obtain w2 where w2: "drain (23 + sh) w1 (e - int ?d) = (w2, e - int ?d)" "0 < unat w2"
    "lead (unat w2) = 23 + sh" "rne (unat w2) sh = rne (unat w1) sh"
    using drain_spec [OF pos, of "23 + sh" "e - int ?d"] assms(2) by (auto simp: l1)
  have "rne (unat w1) sh = mant_of (unat w)"
  proof (cases "lead (unat w) < 23")
    case True
    then show ?thesis by (simp add: w1(2) rne_exact mant_of_def)
  next
    case False
    then show ?thesis using \<open>lead (unat w) \<le> 23 + sh\<close> by (simp add: w1(2) rne_mult mant_of_def)
  qed
  with w1 w2 that [of w1 "e - int ?d" w2] True show ?thesis by simp
next
  case False
  then have le: "23 + sh \<le> lead (unat w)" by simp
  obtain w2 where w2: "drain (23 + sh) w e = (w2, e + int (lead (unat w) - (23 + sh)))" "0 < unat w2"
    "lead (unat w2) = 23 + sh" "rne (unat w2) sh = rne (unat w) (sh + (lead (unat w) - (23 + sh)))"
    using drain_spec [OF assms(1) le] assms(2) by blast
  have "sh + (lead (unat w) - (23 + sh)) = lead (unat w) - 23" using le by linarith
  then have "rne (unat w2) sh = mant_of (unat w)" using w2(4) le by (simp add: mant_of_def)
  with w2 that [of w e w2] norm_up_high [OF assms(1) le] le show ?thesis by simp
qed

lemma u32_carry:
  assumes "unat (m :: u32) < 2 ^ 24"
  shows "unat (m + 1) = unat m + 1" and "m + 1 = push_bit 24 1 \<longleftrightarrow> unat m + 1 = 2 ^ 24"
proof -
  show u: "unat (m + 1) = unat m + 1"
    using assms by (subst unat_add_lem [THEN iffD1]) auto
  have "m + 1 = push_bit 24 1 \<longleftrightarrow> unat (m + 1) = unat (push_bit 24 1 :: u32)"
    by (simp only: word_unat_eq_iff)
  then show "m + 1 = push_bit 24 1 \<longleftrightarrow> unat m + 1 = 2 ^ 24" unfolding u by simp
qed

lemma round_normal_spec:
  assumes "0 < unat w" "2 \<le> sh" "23 + sh < 64"
  shows "sfp_round_normal s e w sh = ieee_round s (unat w) (e - int (23 + sh))"
proof -
  obtain w1 e1 w2 where w: "norm_up 64 (23 + sh) w e = (w1, e1)"
    "drain (23 + sh) w1 e1 = (w2, e - int (23 + sh) + int (lead (unat w)))"
    "0 < unat w2" "lead (unat w2) = 23 + sh" "rne (unat w2) sh = mant_of (unat w)"
    by (rule normalise_spec [OF assms])
  let ?e = "e - int (23 + sh) + int (lead (unat w))"
  let ?m = "ucast (drop_bit sh w2) :: u32"
  let ?c = "w2 AND push_bit (sh - 1) 1 \<noteq> 0 \<and> (w2 AND (push_bit (sh - 1) 1 - 1) \<noteq> 0 \<or> ?m AND 1 \<noteq> 0)"
  have r: "unat ?m < 2 ^ 24" "mant_of (unat w) = unat ?m + of_bool ?c"
    using round_step [OF w(3,4) _ assms(3)] assms(2) w(5) by (simp_all only:)
  have nz: "w \<noteq> 0" using assms(1) by auto
  show ?thesis
  proof (cases ?c)
    case True
    then have m: "mant_of (unat w) = unat (?m + 1)" using r u32_carry [OF r(1)] by simp
    have half: "drop_bit (Suc 0) (push_bit 24 1 :: u32) = SFP_HIDDEN_BIT" by simp
    have "sfp_round_normal s e w sh =
        (if ?m + 1 = push_bit 24 1 then sfp_of s (?e + 1) (2 ^ 23) else sfp_of s ?e (unat (?m + 1)))"
      using True nz half by (simp add: sfp_round_normal_def w sfp_of_def Let_def del: push_bit_of_1)
    also have "\<dots> = ieee_round s (unat w) (e - int (23 + sh))"
      unfolding ieee_round_def Let_def m u32_carry [OF r(1)] by simp
    finally show ?thesis .
  next
    case False
    then have m: "mant_of (unat w) = unat ?m" using r by simp
    have "sfp_round_normal s e w sh = sfp_of s ?e (unat ?m)"
      using False nz by (auto simp add: sfp_round_normal_def w sfp_of_def Let_def)
    also have "\<dots> = ieee_round s (unat w) (e - int (23 + sh))"
      unfolding ieee_round_def Let_def m using r(1) by simp
    finally show ?thesis .
  qed
qed

subsection \<open>Rounding a quotient\<close>

definition rne_frac :: "nat \<Rightarrow> nat \<Rightarrow> nat" where
  "rne_frac n d =
     (let q = n div d; r = n mod d in if d < 2 * r \<or> 2 * r = d \<and> odd q then q + 1 else q)"

lemma rne_eq_frac: "rne n k = rne_frac n (2 ^ k)"
  by (simp add: rne_def rne_frac_def)

definition sticky_div :: "nat \<Rightarrow> nat \<Rightarrow> nat" where
  "sticky_div n d = n div d + of_bool (n mod d \<noteq> 0 \<and> even (n div d))"

lemma frac_compare:
  fixes r p d R :: nat
  assumes "R < d" "r < 4 * p" and "r' = r + of_bool (R \<noteq> 0 \<and> even r)"
  shows "4 * p < 2 * r' \<longleftrightarrow> d * (4 * p) < 2 * (r * d + R)"
    and "2 * r' = 4 * p \<longleftrightarrow> 2 * (r * d + R) = d * (4 * p)"
proof -
  consider (lo) "r < 2 * p - 1" | (just) "r + 1 = 2 * p" | (mid) "r = 2 * p" | (hi) "2 * p < r"
    by linarith
  then have "(4 * p < 2 * r' \<longleftrightarrow> d * (4 * p) < 2 * (r * d + R)) \<and>
      (2 * r' = 4 * p \<longleftrightarrow> 2 * (r * d + R) = d * (4 * p))"
  proof cases
    case lo
    then have "(r + 2) * d \<le> 2 * p * d" by (intro mult_right_mono) auto
    then have "2 * (r * d + R) < d * (4 * p)" using assms(1) by (simp add: algebra_simps)
    moreover have "2 * r' < 4 * p" using lo assms(3) by auto
    ultimately show ?thesis by auto
  next
    case just
    then have "odd r" by presburger
    then have "r' = r" using assms(3) by simp
    moreover have "(r + 1) * d = 2 * p * d" using just by simp
    then have "2 * (r * d + R) < d * (4 * p)" using assms(1) by (simp add: algebra_simps)
    ultimately show ?thesis using just by auto
  next
    case mid
    then show ?thesis using assms(3) by (cases "R = 0") (auto simp: algebra_simps)
  next
    case hi
    then have "(2 * p + 1) * d \<le> r * d" by (intro mult_right_mono) auto
    moreover have "0 < d" using assms(1) by simp
    ultimately have "d * (4 * p) < 2 * (r * d + R)" by (simp add: algebra_simps)
    moreover have "4 * p < 2 * r'" using hi assms(3) by auto
    ultimately show ?thesis by auto
  qed
  then show "4 * p < 2 * r' \<longleftrightarrow> d * (4 * p) < 2 * (r * d + R)"
    and "2 * r' = 4 * p \<longleftrightarrow> 2 * (r * d + R) = d * (4 * p)" by auto
qed

lemma divmod_parts:
  assumes "(x :: nat) < m"
  shows "(q * m + x) div m = q" and "(q * m + x) mod m = x"
  using assms by simp_all

lemma rne_sticky_div:
  assumes "2 \<le> k" "0 < d"
  shows "rne (sticky_div n d) k = rne_frac n (d * 2 ^ k)"
proof -
  obtain j where k: "k = Suc (Suc j)" using assms(1) by (metis Suc_le_D numeral_2_eq_2 Suc_le_mono)
  define p :: nat where "p = 2 ^ j"
  have p: "2 ^ k = 4 * p" by (simp add: k p_def)
  define Q R where "Q = n div d" and "R = n mod d"
  define q r where "q = Q div 2 ^ k" and "r = Q mod 2 ^ k"
  let ?r = "r + of_bool (R \<noteq> 0 \<and> even r)"
  have Rd: "R < d" and rk: "r < 4 * p" using assms(2) by (simp_all add: R_def r_def p [symmetric])
  have even_r: "even Q \<longleftrightarrow> even r" by (simp add: r_def k dvd_mod_iff)
  have rlt: "?r < 2 ^ k" using rk unfolding p by (cases "R \<noteq> 0 \<and> even r"; simp; presburger)
  have s: "sticky_div n d = q * 2 ^ k + ?r"
    unfolding sticky_div_def Q_def [symmetric] R_def [symmetric] even_r
    using div_mult_mod_eq [of Q "2 ^ k"] by (simp only: q_def r_def add.assoc)
  have sq: "sticky_div n d div 2 ^ k = q" "sticky_div n d mod 2 ^ k = ?r"
    unfolding s using rlt by simp_all
  have n: "n = q * (d * 2 ^ k) + (r * d + R)"
    using div_mult_mod_eq [of n d] div_mult_mod_eq [of Q "2 ^ k"]
    by (simp add: Q_def [symmetric] R_def [symmetric] q_def [symmetric] r_def [symmetric]
        algebra_simps) (metis add_mult_distrib2 mult.assoc mult.commute)
  have "r * d + R < (r + 1) * d" using Rd by simp
  also have "\<dots> \<le> 2 ^ k * d" using rk p by (intro mult_right_mono) auto
  finally have lt: "r * d + R < d * 2 ^ k" by (simp add: mult.commute)
  have nq: "n div (d * 2 ^ k) = q" "n mod (d * 2 ^ k) = r * d + R"
    unfolding n by (rule divmod_parts [OF lt])+
  show ?thesis
    unfolding rne_def rne_frac_def Let_def sq nq unfolding p
    using frac_compare [OF Rd rk refl] by simp
qed

subsection \<open>Normal operands\<close>

definition sfp_normal :: "sfp_unpacked \<Rightarrow> bool" where
  "sfp_normal u \<longleftrightarrow> \<not> is_nan u \<and> \<not> is_inf u \<and> \<not> is_zero u"

lemma or_hidden_bit: "unat ((m AND SFP_MANT_MASK) OR SFP_HIDDEN_BIT) = unat m mod 2 ^ 23 + 2 ^ 23"
proof -
  have mm: "m AND SFP_MANT_MASK = take_bit 23 m"
    using and_mask_eq_take_bit [of m 23] by (simp add: mask_eq_exp_minus_1)
  have "take_bit 23 m AND SFP_HIDDEN_BIT = 0"
    using and_exp_eq_0_iff_not_bit [of "take_bit 23 m" 23] by (simp add: bit_take_bit_iff)
  then have "take_bit 23 m OR SFP_HIDDEN_BIT = take_bit 23 m + SFP_HIDDEN_BIT"
    by (simp add: disjunctive_add_eq_or)
  moreover have "unat (take_bit 23 m + SFP_HIDDEN_BIT) = unat m mod 2 ^ 23 + 2 ^ 23"
  proof -
    have "unat m mod 2 ^ 23 < 2 ^ 23" by simp
    then show ?thesis by (subst unat_add_lem [THEN iffD1]) (simp_all add: unat_take_bit)
  qed
  ultimately show ?thesis by (simp add: mm)
qed

lemma unpack_normal:
  assumes "sfp_normal (sfp_unpack a)"
  shows "2 ^ 23 \<le> unat (sf_mant (sfp_unpack a))" "unat (sf_mant (sfp_unpack a)) < 2 ^ 24"
    "-126 \<le> sf_exp (sfp_unpack a)" "sf_exp (sfp_unpack a) \<le> 127"
proof -
  let ?b = "drop_bit 23 a AND 0xFF"
  have b: "?b \<noteq> 0" "?b \<noteq> 255"
    and u: "sfp_unpack a = \<lparr>sf_exp = int (unat ?b) - 127, sf_mant = (a AND SFP_MANT_MASK) OR SFP_HIDDEN_BIT,
       sf_sign = (drop_bit 31 a AND 1 \<noteq> 0), is_zero = False, is_inf = False, is_nan = False\<rparr>"
    using assms by (auto simp: sfp_normal_def sfp_unpack_def sfp_special_def Let_def split: if_splits)
  have "unat ?b = unat (drop_bit 23 a) mod 2 ^ 8"
    using and_mask_eq_take_bit [of "drop_bit 23 a" 8] by (simp add: mask_eq_exp_minus_1 unat_take_bit)
  then have "unat ?b < 256" by simp
  moreover have "unat ?b \<noteq> 0" "unat ?b \<noteq> 255"
    using b by (auto simp: word_unat_eq_iff)
  ultimately have "0 < unat ?b" "unat ?b < 255" by linarith+
  then show "-126 \<le> sf_exp (sfp_unpack a)" "sf_exp (sfp_unpack a) \<le> 127"
    unfolding u sfp_unpacked.simps by linarith+
  have "unat a mod 2 ^ 23 < 2 ^ 23" by simp
  then show "2 ^ 23 \<le> unat (sf_mant (sfp_unpack a))" "unat (sf_mant (sfp_unpack a)) < 2 ^ 24"
    unfolding u by (simp_all add: or_hidden_bit)
qed

text \<open>A number and its scalings round alike.\<close>

lemma ieee_round_scale: "0 < n \<Longrightarrow> ieee_round s (n * 2 ^ d) (q - int d) = ieee_round s n q"
proof -
  assume n: "0 < n"
  have "mant_of (n * 2 ^ d) = mant_of n"
  proof (cases "lead n < 23")
    case True
    show ?thesis
    proof (cases "lead n + d < 23")
      case T2: True
      then have "(2 :: nat) ^ d * 2 ^ (23 - (lead n + d)) = 2 ^ (23 - lead n)"
        by (simp flip: power_add)
      then show ?thesis using True T2 by (simp add: mant_of_def lead_mult [OF n] mult.assoc)
    next
      case False
      have "rne (n * 2 ^ d) (lead n + d - 23) = n * 2 ^ (d - (lead n + d - 23))"
        by (rule rne_exact) (use True in simp)
      then show ?thesis using True False by (simp add: mant_of_def lead_mult [OF n])
    qed
  next
    case False
    have "rne (n * 2 ^ d) (lead n + d - 23) = rne n (lead n + d - 23 - d)"
      by (rule rne_mult) (use False in simp)
    then show ?thesis using False by (simp add: mant_of_def lead_mult [OF n])
  qed
  then show ?thesis by (simp add: ieee_round_def lead_mult [OF n] Let_def)
qed

lemma lead_sticky_div:
  assumes "1 \<le> lead (sticky_div n (2 ^ d))"
  shows "lead n = lead (sticky_div n (2 ^ d)) + d"
proof -
  let ?L = "lead (sticky_div n (2 ^ d))"
  define Q where "Q = n div 2 ^ d"
  obtain k where k: "?L = Suc k" using assms by (cases ?L) auto
  have pos: "0 < sticky_div n (2 ^ d)"
    using assms by (cases "sticky_div n (2 ^ d)") (auto simp: lead.simps [of 0])
  have b: "2 * 2 ^ k \<le> Q + of_bool (n mod 2 ^ d \<noteq> 0 \<and> even Q)"
     "Q + of_bool (n mod 2 ^ d \<noteq> 0 \<and> even Q) < 4 * 2 ^ k"
    using lead_bounds [OF pos] unfolding k by (auto simp: sticky_div_def Q_def)
  have "2 * 2 ^ k \<le> Q"
  proof (cases "n mod 2 ^ d \<noteq> 0 \<and> even Q")
    case True
    with b(1) have "2 * 2 ^ k \<le> Q + 1" "even Q" by simp_all
    then show ?thesis by presburger
  qed (use b(1) in auto)
  moreover have "Q < 4 * 2 ^ k" using b(2) by simp
  ultimately have Q: "2 ^ Suc k \<le> Q" "Q < 2 ^ Suc (Suc k)" by simp_all
  have n: "n = Q * 2 ^ d + n mod 2 ^ d" unfolding Q_def by (rule div_mult_mod_eq [symmetric])
  have lo: "2 ^ Suc k * 2 ^ d \<le> n" using mult_right_mono [OF Q(1), of "2 ^ d"] n by linarith
  have "n mod 2 ^ d < 2 ^ d" by simp
  then have "n < Q * 2 ^ d + 2 ^ d" using n by linarith
  also have "\<dots> = (Q + 1) * 2 ^ d" by simp
  also have "\<dots> \<le> 2 ^ Suc (Suc k) * 2 ^ d" using Q(2) by (intro mult_right_mono) auto
  finally have hi: "n < 2 ^ Suc (Suc k) * 2 ^ d" .
  show ?thesis
    by (rule lead_unique) (use lo hi in \<open>simp_all add: k power_add\<close>)
qed

text \<open>Shifting down with a sticky bit does not change the rounding.\<close>

lemma ieee_round_sticky:
  assumes "n mod 2 ^ d = 0 \<or> 25 \<le> lead (sticky_div n (2 ^ d))" and "0 < sticky_div n (2 ^ d)"
  shows "ieee_round s (sticky_div n (2 ^ d)) q = ieee_round s n (q - int d)"
proof (cases "n mod 2 ^ d = 0")
  case True
  then have n: "n = sticky_div n (2 ^ d) * 2 ^ d"
    using div_mult_mod_eq [of n "2 ^ d"] by (simp add: sticky_div_def)
  show ?thesis using ieee_round_scale [OF assms(2), of s d q] n by simp
next
  case False
  let ?x = "sticky_div n (2 ^ d)"
  from False assms(1) have l: "25 \<le> lead ?x" by simp
  then have ln: "lead n = lead ?x + d" by (intro lead_sticky_div) simp
  have "rne ?x (lead ?x - 23) = rne n (lead n - 23)"
    using rne_sticky_div [of "lead ?x - 23" "2 ^ d" n] l
    by (simp add: rne_eq_frac ln power_add [symmetric] add.commute)
  then have "mant_of ?x = mant_of n" using l ln by (simp add: mant_of_def)
  then show ?thesis by (simp add: ieee_round_def Let_def ln)
qed

subsection \<open>Multiplication, division, addition\<close>

lemma ucast_u64: "unat (ucast (m :: u32) :: u64) = unat m"
proof -
  have "unat m < 2 ^ 64" using unsigned_less [of m, where ?'a = nat] by simp
  then show ?thesis by (simp add: unsigned_ucast_eq take_bit_nat_eq_self)
qed

lemma mul_mant:
  assumes "unat (x :: u32) < 2 ^ 24" "unat (y :: u32) < 2 ^ 24"
  shows "unat ((ucast x :: u64) * ucast y) = unat x * unat y"
proof -
  have "unat x * unat y < 2 ^ 24 * 2 ^ 24" using assms by (intro mult_strict_mono) auto
  then show ?thesis by (subst unat_mult_lem [THEN iffD1]) (simp_all add: ucast_u64)
qed

lemma mulsf3_spec:
  assumes "ua = sfp_unpack a" "ub = sfp_unpack b" "sfp_normal ua" "sfp_normal ub"
  shows "mulsf3 a b = ieee_round (sf_sign ua \<noteq> sf_sign ub)
    (unat (sf_mant ua) * unat (sf_mant ub)) (sf_exp ua + sf_exp ub - 46)"
proof -
  note na = unpack_normal [of a, folded assms(1), OF assms(3)]
  note nb = unpack_normal [of b, folded assms(2), OF assms(4)]
  let ?w = "(ucast (sf_mant ua) :: u64) * ucast (sf_mant ub)"
  have w: "unat ?w = unat (sf_mant ua) * unat (sf_mant ub)" by (rule mul_mant [OF na(2) nb(2)])
  have pos: "0 < unat ?w" unfolding w using na(1) nb(1) by (intro mult_pos_pos) simp_all
  have "mulsf3 a b = sfp_round_normal (sf_sign ua \<noteq> sf_sign ub) (sf_exp ua + sf_exp ub) ?w 23"
    using assms by (simp add: mulsf3_def sfp_normal_def Let_def)
  also have "\<dots> = ieee_round (sf_sign ua \<noteq> sf_sign ub) (unat ?w) (sf_exp ua + sf_exp ub - int (23 + 23))"
    by (rule round_normal_spec [OF pos]) simp_all
  finally show ?thesis unfolding w by simp
qed

lemma or_sticky_u64:
  fixes x :: u64
  shows "unat (if c then x OR 1 else x) = unat x + of_bool (c \<and> even (unat x))"
  using nat_or_one_bit [of "unat x" 1] by (simp add: unsigned_or_eq)

lemma sticky_div_scale: "0 < m \<Longrightarrow> rne_frac (n * m) (d * m) = rne_frac n d"
  by (simp add: rne_frac_def Let_def mod_mult_mult2 mult.assoc [symmetric])

definition div_round :: "bool \<Rightarrow> nat \<Rightarrow> nat \<Rightarrow> int \<Rightarrow> u32" where
  "div_round s x y e =
     (let (m, e') = (if y \<le> x then (rne_frac (x * 2 ^ 23) y, e) else (rne_frac (x * 2 ^ 24) y, e - 1))
      in if m = 2 ^ 24 then sfp_of s (e' + 1) (2 ^ 23) else sfp_of s e' m)"

lemma div_quotient_lead:
  assumes "2 ^ 23 \<le> x" "x < 2 ^ 24" "2 ^ 23 \<le> y" "y < (2 :: nat) ^ 24"
  shows "lead (sticky_div (x * 2 ^ 28) y) = (if y \<le> x then 28 else 27)"
proof -
  let ?q = "x * 2 ^ 28 div y"
  have y: "0 < y" using assms by simp
  have up: "?q < 2 ^ 29"
    using assms y by (intro less_mult_imp_div_less) simp
  show ?thesis
  proof (cases "y \<le> x")
    case True
    then have "y * 2 ^ 28 \<le> x * 2 ^ 28" by simp
    then have "2 ^ 28 \<le> ?q" using y by (simp add: less_eq_div_iff_mult_less_eq mult.commute)
    then have "lead (sticky_div (x * 2 ^ 28) y) = 28"
      using up by (intro lead_unique) (auto simp: sticky_div_def elim!: evenE)
    with True show ?thesis by simp
  next
    case False
    then have lt: "?q < 2 ^ 28" using y by (intro less_mult_imp_div_less) simp
    have "y * 2 ^ 27 \<le> x * 2 ^ 28" using assms by simp
    then have "2 ^ 27 \<le> ?q" using y by (simp add: less_eq_div_iff_mult_less_eq mult.commute)
    then have "lead (sticky_div (x * 2 ^ 28) y) = 27"
      using lt by (intro lead_unique) (auto simp: sticky_div_def elim!: evenE)
    with False show ?thesis by simp
  qed
qed

lemma divsf3_spec:
  assumes "ua = sfp_unpack a" "ub = sfp_unpack b" "sfp_normal ua" "sfp_normal ub"
  shows "divsf3 a b = div_round (sf_sign ua \<noteq> sf_sign ub)
    (unat (sf_mant ua)) (unat (sf_mant ub)) (sf_exp ua - sf_exp ub)"
proof -
  note na = unpack_normal [of a, folded assms(1), OF assms(3)]
  note nb = unpack_normal [of b, folded assms(2), OF assms(4)]
  let ?x = "unat (sf_mant ua)" and ?y = "unat (sf_mant ub)"
  let ?num = "push_bit 28 (ucast (sf_mant ua) :: u64)" and ?den = "ucast (sf_mant ub) :: u64"
  let ?w = "if ?num mod ?den \<noteq> 0 then (?num div ?den) OR 1 else ?num div ?den"
  let ?s = "sf_sign ua \<noteq> sf_sign ub" and ?e = "sf_exp ua - sf_exp ub"
  have num: "unat ?num = ?x * 2 ^ 28" using na(2) by (subst unat_push_bit_small) (simp_all add: ucast_u64)
  have w: "unat ?w = sticky_div (?x * 2 ^ 28) ?y"
    unfolding or_sticky_u64 sticky_div_def unat_inject_nonzero unat_div unat_mod num ucast_u64 ..
  have l: "lead (unat ?w) = (if ?y \<le> ?x then 28 else 27)"
    unfolding w by (rule div_quotient_lead [OF na(1,2) nb(1,2)])
  then have pos: "0 < unat ?w" by (cases "unat ?w = 0") (auto simp: lead.simps [of 0] split: if_splits)
  have y: "0 < ?y" using nb(1) by simp
  have "rne (unat ?w) 5 = rne_frac (?x * 2 ^ 23) ?y"
    unfolding w using rne_sticky_div [of 5 ?y "?x * 2 ^ 28"] y sticky_div_scale [of "2 ^ 5" "?x * 2 ^ 23" ?y]
    by (simp add: mult.assoc)
  moreover have "rne (unat ?w) 4 = rne_frac (?x * 2 ^ 24) ?y"
    unfolding w using rne_sticky_div [of 4 ?y "?x * 2 ^ 28"] y sticky_div_scale [of "2 ^ 4" "?x * 2 ^ 24" ?y]
    by (simp add: mult.assoc)
  ultimately have m: "mant_of (unat ?w) =
      (if ?y \<le> ?x then rne_frac (?x * 2 ^ 23) ?y else rne_frac (?x * 2 ^ 24) ?y)"
    unfolding mant_of_def l by simp
  have "divsf3 a b = sfp_round_normal ?s ?e ?w 5"
    using assms by (simp add: divsf3_def sfp_normal_def Let_def)
  also have "\<dots> = ieee_round ?s (unat ?w) (?e - int (23 + 5))"
    by (rule round_normal_spec [OF pos]) simp_all
  also have "\<dots> = div_round ?s ?x ?y ?e"
    unfolding ieee_round_def div_round_def Let_def m l by (simp add: add.commute)
  finally show ?thesis .
qed

lemma align_down_spec:
  assumes "unat mb < 2 ^ 48"
  shows "unat (align_down mb d) = sticky_div (unat mb) (2 ^ d)"
proof -
  consider "d = 0" | "0 < d" "d < 56" | "56 \<le> d" by linarith
  then show ?thesis
  proof cases
    case 1
    then show ?thesis by (simp add: align_down_def sticky_div_def)
  next
    case 2
    have "unat (align_down mb d) =
        unat (if mb AND (push_bit d 1 - 1) \<noteq> 0 then drop_bit d mb OR 1 else drop_bit d mb)"
      using 2 by (simp add: align_down_def)
    also have "\<dots> = sticky_div (unat mb) (2 ^ d)"
      unfolding or_sticky_u64 using 2 and_low_word [of d mb] by (simp add: sticky_div_def unat_drop_bit)
    finally show ?thesis .
  next
    case 3
    have "unat mb < 2 ^ d"
      by (rule less_le_trans [OF assms]) (use 3 in \<open>intro power_increasing; simp\<close>)
    then show ?thesis
      using 3 by (simp add: align_down_def sticky_div_def unat_eq_0)
  qed
qed

lemma sticky_div_add:
  assumes "even A" "0 < D"
  shows "sticky_div (A * D + B) D = A + sticky_div B D"
  using assms by (simp add: sticky_div_def)

lemma sticky_div_sub:
  assumes A: "even A" and D: "0 < D" and le: "sticky_div B D \<le> A"
  shows "B \<le> A * D" and "sticky_div (A * D - B) D = A - sticky_div B D"
proof -
  define b r where "b = B div D" and "r = B mod D"
  have B: "B = b * D + r" and r: "r < D" using D by (simp_all add: b_def r_def)
  have s: "sticky_div B D = b + of_bool (r \<noteq> 0 \<and> even b)"
    by (simp add: sticky_div_def b_def r_def)
  have "B \<le> A * D \<and> sticky_div (A * D - B) D = A - sticky_div B D"
  proof (cases "r = 0")
    case True
    then have "b \<le> A" using le s by simp
    moreover have "A * D - B = (A - b) * D" using True B by (simp add: diff_mult_distrib)
    ultimately show ?thesis using True B D by (simp add: s sticky_div_def)
  next
    case False
    have b1: "b + 1 \<le> A"
      using le A False unfolding s by (cases "even b") (simp, simp, presburger)
    then obtain c where c: "A = b + 1 + c" using le_Suc_ex by blast
    have n: "A * D - B = c * D + (D - r)" and le2: "B \<le> A * D"
      using r unfolding B c by (simp_all add: algebra_simps)
    have q: "(A * D - B) div D = c" "(A * D - B) mod D = D - r"
      unfolding n using False r by (intro divmod_parts; simp)+
    have "even c \<longleftrightarrow> odd b" using A c by presburger
    moreover have "sticky_div (A * D - B) D = c + of_bool (D - r \<noteq> 0 \<and> even c)"
      by (simp only: sticky_div_def q)
    ultimately show ?thesis using le2 False r s by (auto simp: c)
  qed
  then show "B \<le> A * D" and "sticky_div (A * D - B) D = A - sticky_div B D" by auto
qed

definition smant :: "sfp_unpacked \<Rightarrow> int" where
  "smant u = (if sf_sign u then - int (unat (sf_mant u)) else int (unat (sf_mant u)))"

text \<open>The exact sum of two finite operands, as an integer times \<open>2 ^ (m - 23)\<close>.\<close>

definition exact_sum :: "sfp_unpacked \<Rightarrow> sfp_unpacked \<Rightarrow> int" where
  "exact_sum ua ub =
     (let m = min (sf_exp ua) (sf_exp ub)
      in smant ua * 2 ^ nat (sf_exp ua - m) + smant ub * 2 ^ nat (sf_exp ub - m))"

definition sum_round :: "sfp_unpacked \<Rightarrow> sfp_unpacked \<Rightarrow> u32" where
  "sum_round ua ub =
     (let S = exact_sum ua ub
      in if S = 0 then 0 else ieee_round (S < 0) (nat \<bar>S\<bar>) (min (sf_exp ua) (sf_exp ub) - 23))"

definition mant_ok :: "sfp_unpacked \<Rightarrow> bool" where
  "mant_ok u \<longleftrightarrow> 2 ^ 23 \<le> unat (sf_mant u) \<and> unat (sf_mant u) < 2 ^ 24"

text \<open>One rounding of an aligned result \<open>X = sticky_div N D\<close>.\<close>

lemma round_aligned:
  assumes X: "unat X = sticky_div (k * 2 ^ 24) (2 ^ d)" and k: "0 < k"
    and ok: "d \<le> 24 \<or> 25 \<le> lead (unat X)"
  shows "sfp_round_normal s e X 24 = ieee_round s k (e - int d - 23)"
proof -
  have ok': "k * 2 ^ 24 mod 2 ^ d = 0 \<or> 25 \<le> lead (sticky_div (k * 2 ^ 24) (2 ^ d))"
    using ok
  proof
    assume "d \<le> 24"
    then have "2 ^ d dvd k * (2 :: nat) ^ 24" by (intro dvd_mult le_imp_power_dvd)
    then show ?thesis by (simp only: mod_eq_0_iff_dvd simp_thms)
  qed (simp add: X)
  have "sticky_div (k * 2 ^ 24) (2 ^ d) \<noteq> 0"
  proof
    assume "sticky_div (k * 2 ^ 24) (2 ^ d) = 0"
    then have "k * 2 ^ 24 div 2 ^ d = 0" "k * 2 ^ 24 mod 2 ^ d = 0"
      by (auto simp: sticky_div_def split: if_splits)
    then have "k * 2 ^ 24 = 0" using div_mult_mod_eq [of "k * 2 ^ 24" "2 ^ d"] by simp
    with k show False by simp
  qed
  then have pos: "0 < unat X" unfolding X by simp
  have "sfp_round_normal s e X 24 = ieee_round s (unat X) (e - int (23 + 24))"
    by (rule round_normal_spec [OF pos]) simp_all
  also have "\<dots> = ieee_round s (k * 2 ^ 24) (e - 47 - int d)"
    unfolding X using ieee_round_sticky [OF ok'] pos X by simp
  also have "\<dots> = ieee_round s k (e - int d - 23)"
    using ieee_round_scale [OF k, of s 24 "e - int d - 23"] by (simp add: algebra_simps)
  finally show ?thesis .
qed

text \<open>
  The aligned mantissas of an addition, as numbers: \<open>x\<close> and \<open>y\<close> have 24 bits, \<open>x\<close> has the
  larger exponent by \<open>d\<close>.
\<close>

definition aligned :: "u64 \<Rightarrow> u64 \<Rightarrow> nat \<Rightarrow> nat \<Rightarrow> nat \<Rightarrow> bool" where
  "aligned ma mb x y d \<longleftrightarrow>
     2 ^ 23 \<le> x \<and> x < 2 ^ 24 \<and> 2 ^ 23 \<le> y \<and> y < 2 ^ 24 \<and>
     unat ma = x * 2 ^ 24 \<and> unat mb = sticky_div (y * 2 ^ 24) (2 ^ d)"

lemma aligned_bounds:
  assumes "aligned ma mb x y d"
  shows "2 ^ 47 \<le> unat ma" "unat ma < 2 ^ 48" "unat mb \<le> y * 2 ^ 24"
    "0 < d \<Longrightarrow> unat mb < 2 ^ 47" "24 < d \<Longrightarrow> unat mb \<le> 2 ^ 24"
proof -
  let ?q = "y * 2 ^ 24 div 2 ^ d"
  have b: "2 ^ 23 \<le> x" "x < 2 ^ 24" "y < 2 ^ 24" "unat ma = x * 2 ^ 24"
    "unat mb = sticky_div (y * 2 ^ 24) (2 ^ d)" using assms by (auto simp: aligned_def)
  show "2 ^ 47 \<le> unat ma" "unat ma < 2 ^ 48" using b by simp_all
  have q: "unat mb \<le> ?q + 1" by (simp add: b sticky_div_def)
  have half: "0 < d \<Longrightarrow> ?q \<le> y * 2 ^ 24 div 2"
    using div_le_mono2 [of 2 "2 ^ d" "y * 2 ^ 24"] self_le_power [of 2 d] by simp
  have small: "24 < d \<Longrightarrow> ?q \<le> y * 2 ^ 24 div 2 ^ 25"
    using div_le_mono2 [of "2 ^ 25" "2 ^ d" "y * 2 ^ 24"] power_increasing [of 25 d "2 :: nat"] by simp
  show lt: "unat mb < 2 ^ 47" if "0 < d" using q half [OF that] b(3) by simp
  show "unat mb \<le> 2 ^ 24" if "24 < d" using q small [OF that] b(3) by simp
  show "unat mb \<le> y * 2 ^ 24"
  proof (cases "d = 0")
    case True
    then show ?thesis by (simp add: b sticky_div_def)
  next
    case False
    have "2 ^ 47 \<le> y * 2 ^ 24" using assms by (simp add: aligned_def)
    with lt False show ?thesis by simp
  qed
qed

lemma add_same_round:
  assumes al: "aligned ma mb x y d"
  shows "sfp_round_normal s e (ma + mb) 24 = ieee_round s (x * 2 ^ d + y) (e - int d - 23)"
proof (rule round_aligned)
  note b = aligned_bounds [OF al]
  have ma: "unat ma = x * 2 ^ 24" and mb: "unat mb = sticky_div (y * 2 ^ 24) (2 ^ d)" and y: "y < 2 ^ 24" "2 ^ 23 \<le> y"
    using al by (auto simp: aligned_def)
  have u: "unat (ma + mb) = unat ma + unat mb"
    using b(2,3) y by (subst unat_add_lem [THEN iffD1]) simp_all
  have "sticky_div (x * 2 ^ 24 * 2 ^ d + y * 2 ^ 24) (2 ^ d) = x * 2 ^ 24 + sticky_div (y * 2 ^ 24) (2 ^ d)"
    by (rule sticky_div_add) simp_all
  then show "unat (ma + mb) = sticky_div ((x * 2 ^ d + y) * 2 ^ 24) (2 ^ d)"
    unfolding u ma mb by (simp add: algebra_simps)
  have "\<not> lead (unat (ma + mb)) < 25" using b(1) by (subst lead_le_iff) (simp_all add: u)
  then show "d \<le> 24 \<or> 25 \<le> lead (unat (ma + mb))" by simp
  show "0 < x * 2 ^ d + y" using y by simp
qed

lemma sub_round_ge:
  assumes al: "aligned ma mb x y d" and le: "mb \<le> ma"
  shows "y \<le> x * 2 ^ d" and "ma - mb = 0 \<longleftrightarrow> x * 2 ^ d = y"
    and "x * 2 ^ d \<noteq> y \<Longrightarrow>
      sfp_round_normal s e (ma - mb) 24 = ieee_round s (x * 2 ^ d - y) (e - int d - 23)"
proof -
  note b = aligned_bounds [OF al]
  have ma: "unat ma = x * 2 ^ 24" and mb: "unat mb = sticky_div (y * 2 ^ 24) (2 ^ d)"
    using al by (auto simp: aligned_def)
  have le': "sticky_div (y * 2 ^ 24) (2 ^ d) \<le> x * 2 ^ 24"
    using le by (simp add: word_le_nat_alt ma mb)
  note sub = sticky_div_sub [OF _ _ le', simplified]
  have "y * 2 ^ 24 \<le> (x * 2 ^ d) * 2 ^ 24" using sub(1) by (simp add: algebra_simps)
  then show yle: "y \<le> x * 2 ^ d" by simp
  have u: "unat (ma - mb) = unat ma - unat mb"
    using le by (simp add: unat_sub_if' word_le_nat_alt)
  have n: "(x * 2 ^ d - y) * 2 ^ 24 = x * 2 ^ 24 * 2 ^ d - y * 2 ^ 24"
    by (simp add: diff_mult_distrib algebra_simps)
  have X: "unat (ma - mb) = sticky_div ((x * 2 ^ d - y) * 2 ^ 24) (2 ^ d)"
    unfolding n using sub(2) by (simp add: u ma mb)
  show z: "ma - mb = 0 \<longleftrightarrow> x * 2 ^ d = y"
  proof -
    have "ma - mb = 0 \<longleftrightarrow> sticky_div ((x * 2 ^ d - y) * 2 ^ 24) (2 ^ d) = 0"
      unfolding X [symmetric] by (simp add: unat_eq_0)
    also have "\<dots> \<longleftrightarrow> (x * 2 ^ d - y) * 2 ^ 24 = 0"
      using div_mult_mod_eq [of "(x * 2 ^ d - y) * 2 ^ 24" "2 ^ d"] by (auto simp: sticky_div_def)
    finally show ?thesis using yle by auto
  qed
  show "sfp_round_normal s e (ma - mb) 24 = ieee_round s (x * 2 ^ d - y) (e - int d - 23)"
    if ne: "x * 2 ^ d \<noteq> y"
  proof (rule round_aligned [OF X])
    show "0 < x * 2 ^ d - y" using ne yle by simp
    show "d \<le> 24 \<or> 25 \<le> lead (unat (ma - mb))"
    proof (cases "d \<le> 24")
      case False
      then have "2 ^ 25 \<le> unat (ma - mb)" using b(1) b(5) by (simp add: u)
      then have "\<not> lead (unat (ma - mb)) < 25" by (subst lead_le_iff) simp_all
      then show ?thesis by simp
    qed simp
  qed
qed

lemma sub_round_lt:
  assumes al: "aligned ma mb x y d" and lt: "ma < mb"
  shows "d = 0" and "x < y" and "sfp_round_normal s e (mb - ma) 24 = ieee_round s (y - x) (e - 23)"
proof -
  note b = aligned_bounds [OF al]
  have lt': "unat ma < unat mb" using lt by (simp add: word_less_nat_alt)
  show d: "d = 0" using b(1) b(4) lt' by (cases "d = 0") simp_all
  then have m: "unat ma = x * 2 ^ 24" "unat mb = y * 2 ^ 24"
    using al by (auto simp: aligned_def sticky_div_def)
  show xy: "x < y" using lt' m by simp
  have X: "unat (mb - ma) = sticky_div ((y - x) * 2 ^ 24) (2 ^ 0)"
    using lt lt' by (simp add: unat_sub_if' sticky_div_def m diff_mult_distrib)
  show "sfp_round_normal s e (mb - ma) 24 = ieee_round s (y - x) (e - 23)"
    using round_aligned [OF X] xy by simp
qed

lemma sum_round_signed:
  assumes "exact_sum u v = (if s then - int n else int n)"
  shows "sum_round u v =
    (if n = 0 then 0 else ieee_round s n (min (sf_exp u) (sf_exp v) - 23))"
  using assms by (cases s) (simp_all add: sum_round_def)

lemma add_core:
  assumes "mant_ok u" "mant_ok v" "sf_exp v \<le> sf_exp u"
  shows "sfp_add_finite u v = sum_round u v"
proof -
  define x y d where "x = unat (sf_mant u)" and "y = unat (sf_mant v)"
    and "d = nat (sf_exp u - sf_exp v)"
  define ma mb where "ma = push_bit 24 (ucast (sf_mant u) :: u64)"
    and "mb = align_down (push_bit 24 (ucast (sf_mant v) :: u64)) d"
  have x: "2 ^ 23 \<le> x" "x < 2 ^ 24" and y: "2 ^ 23 \<le> y" "y < 2 ^ 24"
    using assms(1,2) by (auto simp: mant_ok_def x_def y_def)
  have ma: "unat ma = x * 2 ^ 24"
    unfolding ma_def x_def using x(2) by (subst unat_push_bit_small) (simp_all add: ucast_u64 x_def)
  have vb: "unat (push_bit 24 (ucast (sf_mant v) :: u64)) = y * 2 ^ 24"
    using y(2) by (subst unat_push_bit_small) (simp_all add: ucast_u64 y_def)
  have mb: "unat mb = sticky_div (y * 2 ^ 24) (2 ^ d)"
    unfolding mb_def vb [symmetric] by (rule align_down_spec) (use y(2) in \<open>simp add: vb\<close>)
  have sx: "smant u = (if sf_sign u then - int x else int x)"
    and sy: "smant v = (if sf_sign v then - int y else int y)"
    by (simp_all add: smant_def x_def y_def)
  have S: "exact_sum u v = smant u * 2 ^ d + smant v"
    using assms(3) by (simp add: exact_sum_def d_def Let_def min_def)
  have m: "min (sf_exp u) (sf_exp v) - 23 = sf_exp u - int d - 23"
    using assms(3) by (simp add: d_def)
  have def': "sfp_add_finite u v =
      (if sf_sign u = sf_sign v then sfp_round_normal (sf_sign u) (sf_exp u) (ma + mb) 24
       else if mb \<le> ma then (if ma - mb = 0 then sfp_pack (sfp_special False True False False)
              else sfp_round_normal (sf_sign u) (sf_exp u) (ma - mb) 24)
       else (if mb - ma = 0 then sfp_pack (sfp_special False True False False)
              else sfp_round_normal (sf_sign v) (sf_exp u) (mb - ma) 24))"
    using assms(3) by (simp add: sfp_add_finite_def Let_def ma_def mb_def d_def)
  have al: "aligned ma mb x y d" using x y ma mb by (simp add: aligned_def)
  show ?thesis
  proof (cases "sf_sign u = sf_sign v")
    case True
    have e: "exact_sum u v = (if sf_sign u then - int (x * 2 ^ d + y) else int (x * 2 ^ d + y))"
      unfolding S sx sy using True by simp
    have nz: "(x * 2 ^ d + y = 0) = False" using y by simp
    show ?thesis
      unfolding def' sum_round_signed [OF e] m add_same_round [OF al] nz using True by simp
  next
    case False
    show ?thesis
    proof (cases "mb \<le> ma")
      case True
      note r = sub_round_ge [OF al True]
      have e: "exact_sum u v = (if sf_sign u then - int (x * 2 ^ d - y) else int (x * 2 ^ d - y))"
        unfolding S sx sy using False r(1) by (simp add: of_nat_diff)
      have z: "x * 2 ^ d - y = 0 \<longleftrightarrow> x * 2 ^ d = y" using r(1) by auto
      show ?thesis
        unfolding def' sum_round_signed [OF e] m z r(2) using False True r(3)
        by (simp add: sfp_pack_def sfp_special_def signed_zero_def)
    next
      case lt: False
      then have "ma < mb" by simp
      note r = sub_round_lt [OF al this]
      have e: "exact_sum u v = (if sf_sign v then - int (y - x) else int (y - x))"
        unfolding S sx sy using False r(1,2) by (auto simp: of_nat_diff)
      have "mb - ma \<noteq> 0" "y - x \<noteq> 0" using lt r(2) by auto
      then show ?thesis
        unfolding def' sum_round_signed [OF e] m using False lt r(1,3) by simp
    qed
  qed
qed

lemma sum_round_commute: "sum_round v u = sum_round u v"
  unfolding sum_round_def exact_sum_def Let_def min.commute [of "sf_exp v"]
    add.commute [of "smant v * _"] ..

text \<open>Addition of finite operands is the exact sum, rounded once.\<close>

lemma add_finite_spec:
  assumes "mant_ok u" "mant_ok v"
  shows "sfp_add_finite u v = sum_round u v"
proof (cases "sf_exp v \<le> sf_exp u")
  case True
  then show ?thesis by (rule add_core [OF assms])
next
  case False
  then have "sfp_add_finite u v = sfp_add_finite v u" by (simp add: sfp_add_finite_def)
  also have "\<dots> = sum_round v u" using False by (intro add_core [OF assms(2,1)]) simp
  also have "\<dots> = sum_round u v" by (rule sum_round_commute)
  finally show ?thesis .
qed

end
