(* ===== verification/Soft_Float_Value.thy ===== *)
theory Soft_Float_Value
  imports Soft_Float_Round Complex_Main
begin

text \<open>
  What the soft-float library computes, in real numbers: the value \<open>fval\<close> of a bit pattern,
  that a rounded result is the representable value nearest to the exact one, the order that
  the comparison helpers decide, and the conversions from and to integers.
\<close>

subsection \<open>The value of a pattern\<close>

definition fsgn :: "bool \<Rightarrow> real" where
  "fsgn s = (if s then -1 else 1)"

definition fval :: "u32 \<Rightarrow> real" where
  "fval p =
     (let u = sfp_unpack p
      in fsgn (sf_sign u) * real (unat (sf_mant u)) * 2 powi (sf_exp u - 23))"

definition sfp_finite :: "u32 \<Rightarrow> bool" where
  "sfp_finite p \<longleftrightarrow> \<not> is_nan (sfp_unpack p) \<and> \<not> is_inf (sfp_unpack p)"

text \<open>No finite pattern has a value closer to \<open>x\<close>.\<close>

definition nearest :: "u32 \<Rightarrow> real \<Rightarrow> bool" where
  "nearest r x \<longleftrightarrow> (\<forall>p. sfp_finite p \<longrightarrow> \<bar>fval r - x\<bar> \<le> \<bar>fval p - x\<bar>)"

lemma pack_fields:
  fixes b m :: u32 and s :: bool
  assumes b: "take_bit 8 b = b"
  defines "p \<equiv> push_bit 31 (of_bool s) OR push_bit 23 b OR (m AND SFP_MANT_MASK)"
  shows "(drop_bit 31 p AND 1 \<noteq> 0) = s" "drop_bit 23 p AND 0xFF = b"
    "p AND SFP_MANT_MASK = m AND SFP_MANT_MASK"
proof -
  have mk: "x AND SFP_MANT_MASK = take_bit 23 x" "x AND 0xFF = take_bit 8 x" "x AND 1 = take_bit 1 x" for x :: u32
    using and_mask_eq_take_bit [of x 23] and_mask_eq_take_bit [of x 8] and_mask_eq_take_bit [of x 1]
    by (simp_all add: mask_eq_exp_minus_1)
  have bb: "bit b n \<Longrightarrow> n < 8" for n
    using b by (metis bit_take_bit_iff)
  have p: "p = push_bit 31 (of_bool s) OR push_bit 23 b OR take_bit 23 m"
    by (simp add: p_def mk)
  show "drop_bit 23 p AND 0xFF = b"
    unfolding mk p by (rule bit_word_eqI) (auto simp: bit_simps dest: bb)
  show "p AND SFP_MANT_MASK = m AND SFP_MANT_MASK"
    unfolding mk p by (rule bit_word_eqI) (auto simp: bit_simps)
  have "drop_bit 31 p AND 1 \<noteq> 0 \<longleftrightarrow> bit p 31"
    using and_exp_eq_0_iff_not_bit [of "drop_bit 31 p" 0] by (simp add: bit_drop_bit_eq)
  also have "\<dots> \<longleftrightarrow> s"
    unfolding p by (auto simp: bit_simps dest: bb)
  finally show "(drop_bit 31 p AND 1 \<noteq> 0) = s" .
qed

lemma unpack_sfp_of:
  assumes "2 ^ 23 \<le> m" "m < 2 ^ 24" "-126 \<le> e" "e \<le> 127"
  shows "sfp_unpack (sfp_of s e m) = \<lparr>sf_exp = e, sf_mant = word_of_nat m, sf_sign = s,
    is_zero = False, is_inf = False, is_nan = False\<rparr>"
proof -
  define b :: u32 where "b = word_of_int (e + 127)"
  have ub: "unat b = nat (e + 127)"
  proof -
    have "uint b = e + 127"
      unfolding b_def uint_word_of_int_eq
      by (rule take_bit_int_eq_self) (use assms in simp_all)
    then show ?thesis by (simp only: unat_eq_nat_uint)
  qed
  have b: "take_bit 8 b = b"
  proof -
    have "nat (e + 127) < 2 ^ 8" using assms by simp
    then have "unat (take_bit 8 b) = unat b" unfolding unat_take_bit ub by (rule mod_less)
    then show ?thesis by (rule word_unat_eq_iff [THEN iffD2])
  qed
  have "unat b \<noteq> 0" "unat b \<noteq> 255" unfolding ub using assms by simp_all
  moreover have "unat (255 :: u32) = 255" by simp
  ultimately have b0: "b \<noteq> 0" "b \<noteq> 255" by (metis unsigned_0, metis)
  have um: "unat (word_of_nat m :: u32) = m" using assms by (simp add: unat_of_nat take_bit_nat_eq_self)
  have mm: "(word_of_nat m AND SFP_MANT_MASK) OR SFP_HIDDEN_BIT = (word_of_nat m :: u32)"
  proof -
    have "m mod 2 ^ 23 + 2 ^ 23 = m" using assms by (simp add: le_mod_geq)
    then show ?thesis unfolding word_unat_eq_iff or_hidden_bit um by simp
  qed
  have "sfp_of s e m = push_bit 31 (of_bool s) OR push_bit 23 b OR (word_of_nat m AND SFP_MANT_MASK)"
    using assms by (simp add: sfp_of_def sfp_pack_def b_def)
  then show ?thesis
    using pack_fields [OF b, of s "word_of_nat m"] b0 ub assms mm by (simp add: sfp_unpack_def Let_def)
qed

lemma rne_cases:
  "rne n k = n div 2 ^ k \<and> 2 * (n mod 2 ^ k) \<le> 2 ^ k \<or>
   rne n k = n div 2 ^ k + 1 \<and> 2 ^ k \<le> 2 * (n mod 2 ^ k)"
  by (auto simp: rne_def Let_def)

text \<open>A fraction rounds to a nearest integer.\<close>

lemma rne_frac_cases:
  "rne_frac n d = n div d \<and> 2 * (n mod d) \<le> d \<or>
   rne_frac n d = n div d + 1 \<and> d \<le> 2 * (n mod d)"
  by (auto simp: rne_frac_def Let_def)

lemma rne_frac_nearest:
  assumes "0 < d"
  shows "\<bar>real (rne_frac n d) - real n / real d\<bar> \<le> \<bar>of_int z - real n / real d\<bar>"
proof -
  define q r f where "q = real (n div d)" and "r = real (n mod d)" and "f = r / real d"
  have D: "0 < real d" using assms by simp
  have x: "real n / real d = q + f"
  proof -
    have "real n = real (n div d * d + n mod d)" by (simp only: div_mult_mod_eq)
    then have "real n = q * real d + r" by (simp only: of_nat_add of_nat_mult q_def r_def)
    then show ?thesis using D by (simp add: f_def field_simps)
  qed
  have f: "0 \<le> f" "f < 1" using assms by (simp_all add: f_def r_def)
  have c: "real (rne_frac n d) = q \<and> 2 * f \<le> 1 \<or> real (rne_frac n d) = q + 1 \<and> 1 \<le> 2 * f"
  proof -
    have "2 * (n mod d) \<le> d \<Longrightarrow> 2 * f \<le> 1" "d \<le> 2 * (n mod d) \<Longrightarrow> 1 \<le> 2 * f"
      using assms by (simp_all add: f_def r_def field_simps flip: of_nat_mult)
    with rne_frac_cases [of n d] show ?thesis by (auto simp: q_def)
  qed
  have "z \<le> int (n div d) \<or> int (n div d) + 1 \<le> z" by linarith
  then have "of_int z \<le> q \<or> q + 1 \<le> of_int z"
    unfolding q_def by (metis of_int_le_iff of_int_of_nat_eq of_int_add of_int_1)
  with c f show ?thesis unfolding x by linarith
qed

lemma powi_add2: "(2 :: real) powi (a + b) = 2 powi a * 2 powi b"
  by (rule power_int_add) simp

lemma mant_of_bounds:
  assumes "0 < n"
  shows "2 ^ 23 \<le> mant_of n" "mant_of n \<le> 2 ^ 24"
proof -
  note b = lead_bounds [OF assms]
  have "2 ^ 23 \<le> mant_of n \<and> mant_of n \<le> 2 ^ 24"
  proof (cases "lead n < 23")
    case True
    define k where "k = 23 - lead n"
    have k: "(2 :: nat) ^ 23 = 2 ^ lead n * 2 ^ k" using True by (simp add: k_def flip: power_add)
    have "2 ^ lead n * 2 ^ k \<le> n * 2 ^ k" using b by simp
    moreover have "n * 2 ^ k \<le> 2 * (2 ^ lead n * 2 ^ k)"
      using mult_right_mono [of n "2 * 2 ^ lead n" "2 ^ k"] b by simp
    moreover have "mant_of n = n * 2 ^ k" using True by (simp add: mant_of_def k_def)
    ultimately show ?thesis by (simp only: k [symmetric]) simp
  next
    case False
    define k where "k = lead n - 23"
    have l: "lead n = 23 + k" using False by (simp add: k_def)
    have "2 ^ 23 * 2 ^ k \<le> n" "n < 2 ^ 24 * 2 ^ k" using b by (simp_all add: l power_add)
    then have "2 ^ 23 \<le> n div 2 ^ k" "n div 2 ^ k < 2 ^ 24"
      by (simp_all add: less_eq_div_iff_mult_less_eq less_mult_imp_div_less)
    then show ?thesis using False rne_cases [of n k] by (auto simp: mant_of_def simp flip: k_def)
  qed
  then show "2 ^ 23 \<le> mant_of n" "mant_of n \<le> 2 ^ 24" by auto
qed

text \<open>
  A nearest integer mantissa in the right binade gives a nearest floating-point value: the
  values with a larger exponent are multiples of the unit, the others are below the binade.
\<close>

lemma nearest_float:
  assumes M: "\<And>z. \<bar>real M - v\<bar> \<le> \<bar>of_int z - v\<bar>" and v: "2 ^ 23 \<le> v" and m': "real m' < 2 ^ 24"
    and U: "U = 2 powi (E - 23)"
  shows "\<bar>real M * U - v * U\<bar> \<le> \<bar>fsgn t * real m' * 2 powi (e' - 23) - v * U\<bar>"
proof -
  have U0: "0 < U" by (simp add: U)
  have scale: "\<bar>x * U - v * U\<bar> = \<bar>x - v\<bar> * U" for x
    using U0 by (simp add: left_diff_distrib [symmetric] abs_mult)
  show ?thesis
  proof (cases "E \<le> e'")
    case True
    define d where "d = nat (e' - E)"
    have "e' - 23 = E - 23 + int d" using True by (simp add: d_def)
    then have "(2 :: real) powi (e' - 23) = U * 2 ^ d"
      unfolding U by (simp only: powi_add2 power_int_of_nat)
    then have y: "fsgn t * real m' * 2 powi (e' - 23) = of_int ((if t then - int m' else int m') * 2 ^ d) * U"
      by (simp add: fsgn_def)
    show ?thesis unfolding y scale by (rule mult_right_mono [OF M]) (use U0 in simp)
  next
    case False
    have "real m' * 2 powi (e' - 23) \<le> 2 ^ 24 * 2 powi (e' - 23)" using m' by (intro mult_right_mono) simp_all
    also have "\<dots> = 2 powi (e' + 1)" using powi_add2 [of 24 "e' - 23"] by (simp add: add.commute)
    also have "\<dots> \<le> 2 powi E" using False by (intro power_int_increasing) simp_all
    also have "\<dots> = 2 ^ 23 * U" using powi_add2 [of 23 "E - 23"] by (simp add: U)
    finally have y: "real m' * 2 powi (e' - 23) \<le> 2 ^ 23 * U" .
    have vU: "2 ^ 23 * U \<le> v * U" using v U0 by (intro mult_right_mono) simp_all
    have "\<bar>fsgn t * real m' * 2 powi (e' - 23)\<bar> = real m' * 2 powi (e' - 23)"
      by (simp add: fsgn_def abs_mult)
    then have "v * U - 2 ^ 23 * U \<le> \<bar>fsgn t * real m' * 2 powi (e' - 23) - v * U\<bar>"
      using y by linarith
    moreover have "\<bar>real M - v\<bar> * U \<le> (v - 2 ^ 23) * U"
      using M [of "2 ^ 23"] v U0 by (intro mult_right_mono) simp_all
    ultimately show ?thesis by (simp add: scale left_diff_distrib)
  qed
qed

text \<open>The pattern chosen after a mantissa carry has the value before it.\<close>

definition carried :: "bool \<Rightarrow> int \<Rightarrow> nat \<Rightarrow> u32" where
  "carried s e m = (if m = 2 ^ 24 then sfp_of s (e + 1) (2 ^ 23) else sfp_of s e m)"

lemma fval_carried:
  assumes m: "2 ^ 23 \<le> m" "m \<le> 2 ^ 24" and e: "-126 \<le> e" "e < 127"
  shows "fval (carried s e m) = fsgn s * real m * 2 powi (e - 23)"
proof (cases "m = 2 ^ 24")
  case True
  have u: "unat (word_of_nat (2 ^ 23) :: u32) = 2 ^ 23" by simp
  moreover have "(2 :: real) powi (e + 1 - 23) = 2 powi (e - 23) * 2"
    using powi_add2 [of "e - 23" 1] by (simp add: algebra_simps)
  ultimately show ?thesis
    using e True by (simp add: carried_def fval_def unpack_sfp_of)
next
  case False
  then have m24: "m < 2 ^ 24" using m by linarith
  have u: "unat (word_of_nat m :: u32) = m"
    using m24 by (simp add: unat_of_nat take_bit_nat_eq_self)
  show ?thesis
    using e m m24 False
    by (simp only: carried_def if_False fval_def unpack_sfp_of Let_def sfp_unpacked.simps u)
qed

lemma carried_nearest:
  assumes M: "\<And>z. \<bar>real M - v\<bar> \<le> \<bar>of_int z - v\<bar>" and v: "2 ^ 23 \<le> v"
    and m: "2 ^ 23 \<le> M" "M \<le> 2 ^ 24" and e: "-126 \<le> e" "e < 127"
  shows "nearest (carried s e M) (fsgn s * v * 2 powi (e - 23))"
  unfolding nearest_def
proof (intro allI impI)
  fix p
  assume p: "sfp_finite p"
  let ?u = "sfp_unpack p" and ?U = "2 powi (e - 23) :: real"
  have m': "real (unat (sf_mant ?u)) < 2 ^ 24"
  proof (cases "sfp_normal ?u")
    case True
    show ?thesis using unpack_normal(2) [OF True] by (simp flip: of_nat_less_iff [where 'a = real])
  next
    case False
    then have "sf_mant ?u = 0"
      using p by (auto simp: sfp_finite_def sfp_normal_def sfp_unpack_def sfp_special_def Let_def split: if_splits)
    then show ?thesis by simp
  qed
  have flip: "fsgn (sf_sign ?u \<noteq> s) = fsgn s * fsgn (sf_sign ?u)" "fsgn s * fsgn s = 1" "\<bar>fsgn s\<bar> = 1"
    by (simp_all add: fsgn_def)
  have abs: "\<bar>x\<bar> = \<bar>fsgn s * x\<bar>" for x by (simp add: abs_mult flip)
  have "\<bar>fval (carried s e M) - fsgn s * v * ?U\<bar> = \<bar>real M * ?U - v * ?U\<bar>"
    unfolding fval_carried [OF m e] by (subst (2) abs) (simp add: algebra_simps)
  also have "\<dots> \<le> \<bar>fsgn (sf_sign ?u \<noteq> s) * real (unat (sf_mant ?u)) * 2 powi (sf_exp ?u - 23) - v * ?U\<bar>"
    by (rule nearest_float [OF M v m' refl])
  also have "\<dots> = \<bar>fval p - fsgn s * v * ?U\<bar>"
    unfolding fval_def Let_def flip
    by (subst (2) abs) (simp add: right_diff_distrib mult.assoc [symmetric] flip)
  finally show "\<bar>fval (carried s e M) - fsgn s * v * ?U\<bar> \<le> \<bar>fval p - fsgn s * v * ?U\<bar>" .
qed

lemma mant_of_nearest:
  assumes "0 < n"
  shows "\<bar>real (mant_of n) - real n * 2 powi (23 - int (lead n))\<bar> \<le>
    \<bar>of_int z - real n * 2 powi (23 - int (lead n))\<bar>"
proof (cases "lead n < 23")
  case True
  then have "(2 :: real) powi (23 - int (lead n)) = 2 ^ (23 - lead n)"
    by (simp add: power_int_def nat_diff_distrib)
  then show ?thesis using True by (simp add: mant_of_def)
next
  case False
  then have "(2 :: real) powi (23 - int (lead n)) = inverse (2 ^ (lead n - 23))"
    by (cases "lead n = 23") (simp_all add: power_int_def nat_diff_distrib power_one_over inverse_eq_divide)
  moreover have "mant_of n = rne_frac n (2 ^ (lead n - 23))"
    using False by (simp add: mant_of_def rne_eq_frac)
  ultimately show ?thesis
    using rne_frac_nearest [of "2 ^ (lead n - 23)" n z] by (simp add: divide_inverse)
qed

lemma ieee_round_nearest:
  assumes n: "0 < n" and e: "-126 \<le> q + int (lead n)" "q + int (lead n) < 127"
  shows "nearest (ieee_round s n q) (fsgn s * real n * 2 powi q)"
proof -
  let ?v = "real n * 2 powi (23 - int (lead n))" and ?e = "q + int (lead n)"
  have "real (2 ^ lead n) \<le> real n" using lead_bounds [OF n] by (simp only: of_nat_le_iff)
  then have "2 ^ lead n * 2 powi (23 - int (lead n)) \<le> ?v" by (intro mult_right_mono) simp_all
  moreover have "2 ^ lead n * 2 powi (23 - int (lead n)) = (2 ^ 23 :: real)"
    using powi_add2 [of "int (lead n)" "23 - int (lead n)"] by simp
  ultimately have v: "2 ^ 23 \<le> ?v" by simp
  have "nearest (carried s ?e (mant_of n)) (fsgn s * ?v * 2 powi (?e - 23))"
    by (rule carried_nearest [OF mant_of_nearest [OF n] v mant_of_bounds [OF n] e])
  moreover have "ieee_round s n q = carried s ?e (mant_of n)"
    by (simp add: ieee_round_def carried_def Let_def)
  moreover have "fsgn s * ?v * 2 powi (?e - 23) = fsgn s * real n * 2 powi q"
    using powi_add2 [of "23 - int (lead n)" "?e - 23"] by simp
  ultimately show ?thesis by simp
qed

subsection \<open>Arithmetic\<close>

text \<open>Magnitudes \<open>n * 2 ^ q\<close> in the normal range have an exponent in range.\<close>

definition in_range :: "real \<Rightarrow> bool" where
  "in_range x \<longleftrightarrow> 2 powi (-126) \<le> \<bar>x\<bar> \<and> \<bar>x\<bar> < 2 powi 127"

lemma powi_less2: "(2 :: real) powi a < 2 powi b \<longleftrightarrow> a < b"
  using power_int_strict_increasing [of a b "2 :: real"] power_int_increasing [of b a "2 :: real"]
  by (cases "a < b") auto

text \<open>The binade of a scaled mantissa.\<close>

lemma binade_in_range:
  assumes v: "2 ^ 23 \<le> v" "v < 2 ^ 24" and r: "in_range (fsgn s * v * 2 powi (e - 23))"
  shows "-126 \<le> e" "e < 127"
proof -
  have x: "\<bar>fsgn s * v * 2 powi (e - 23)\<bar> = v * 2 powi (e - 23)"
    using v by (simp add: fsgn_def abs_mult)
  have p: "(2 :: real) powi e = 2 ^ 23 * 2 powi (e - 23)" "(2 :: real) powi (e + 1) = 2 ^ 24 * 2 powi (e - 23)"
    using powi_add2 [of 23 "e - 23"] powi_add2 [of 24 "e - 23"] by (simp_all add: add.commute)
  have "2 powi e \<le> v * 2 powi (e - 23)" "v * 2 powi (e - 23) < 2 powi (e + 1)"
    unfolding p using v by (intro mult_right_mono mult_strict_right_mono; simp)+
  then have "(2 :: real) powi e < 2 powi 127" "(2 :: real) powi (-126) < 2 powi (e + 1)"
    using r unfolding in_range_def x by linarith+
  then show "-126 \<le> e" "e < 127" unfolding powi_less2 by simp_all
qed

lemma lead_in_range:
  assumes n: "0 < n" and r: "in_range (fsgn s * real n * 2 powi q)"
  shows "-126 \<le> q + int (lead n)" "q + int (lead n) < 127"
proof -
  have x: "\<bar>fsgn s * real n * 2 powi q\<bar> = real n * 2 powi q" by (simp add: fsgn_def abs_mult)
  have b: "2 ^ lead n \<le> real n" "real n < 2 ^ Suc (lead n)"
    using lead_bounds [OF n] by (metis of_nat_le_iff of_nat_less_iff of_nat_numeral of_nat_power)+
  have p: "(2 :: real) ^ k * 2 powi q = 2 powi (q + int k)" for k
    using powi_add2 [of "int k" q] by (simp add: add.commute)
  have "2 powi (q + int (lead n)) \<le> real n * 2 powi q" "real n * 2 powi q < 2 powi (q + int (Suc (lead n)))"
    unfolding p [symmetric] using b by (simp_all add: mult_right_mono mult_strict_right_mono)
  then have "(2 :: real) powi (q + int (lead n)) < 2 powi 127" "(2 :: real) powi (-126) < 2 powi (q + int (Suc (lead n)))"
    using r unfolding in_range_def x by linarith+
  then show "-126 \<le> q + int (lead n)" "q + int (lead n) < 127" unfolding powi_less2 by simp_all
qed

lemma fval_normal:
  "fval a = fsgn (sf_sign (sfp_unpack a)) * real (unat (sf_mant (sfp_unpack a))) *
     2 powi (sf_exp (sfp_unpack a) - 23)"
  by (simp add: fval_def Let_def)

lemma fsgn_neq: "fsgn (s \<noteq> t) = fsgn s * fsgn t"
  by (simp add: fsgn_def)

text \<open>
  Property C19.  Multiplication is correctly rounded: the product of two normal floats whose
  exact product lies in the normal range is a representable value nearest to it.
\<close>

theorem mulsf3_nearest:
  assumes "sfp_normal (sfp_unpack a)" "sfp_normal (sfp_unpack b)" "in_range (fval a * fval b)"
  shows "nearest (mulsf3 a b) (fval a * fval b)"
proof -
  let ?ua = "sfp_unpack a" and ?ub = "sfp_unpack b"
  let ?n = "unat (sf_mant ?ua) * unat (sf_mant ?ub)" and ?q = "sf_exp ?ua + sf_exp ?ub - 46"
  let ?s = "sf_sign ?ua \<noteq> sf_sign ?ub"
  have v: "fval a * fval b = fsgn ?s * real ?n * 2 powi ?q"
    using powi_add2 [of "sf_exp ?ua - 23" "sf_exp ?ub - 23"]
    unfolding fval_normal fsgn_neq by simp
  have n: "0 < ?n" using unpack_normal(1) [OF assms(1)] unpack_normal(1) [OF assms(2)] by simp
  show ?thesis
    unfolding v mulsf3_spec [OF refl refl assms(1,2)]
    by (rule ieee_round_nearest [OF n lead_in_range [OF n assms(3) [unfolded v]]])
qed

lemma fval_signed: "fval a = of_int (smant (sfp_unpack a)) * 2 powi (sf_exp (sfp_unpack a) - 23)"
  by (simp add: fval_normal smant_def fsgn_def)

lemma exact_sum_value:
  "of_int (exact_sum (sfp_unpack a) (sfp_unpack b)) *
     2 powi (min (sf_exp (sfp_unpack a)) (sf_exp (sfp_unpack b)) - 23) = fval a + fval b"
proof -
  let ?ea = "sf_exp (sfp_unpack a)" and ?eb = "sf_exp (sfp_unpack b)"
  let ?m = "min ?ea ?eb"
  have p: "(2 :: real) ^ nat (e - ?m) * 2 powi (?m - 23) = 2 powi (e - 23)" if "?m \<le> e" for e
    using powi_add2 [of "int (nat (e - ?m))" "?m - 23", unfolded power_int_of_nat] that by simp
  show ?thesis
    unfolding exact_sum_def Let_def fval_signed
    using p [of ?ea] p [of ?eb] by (simp add: distrib_right mult.assoc)
qed

text \<open>
  Property C10.  Addition is correctly rounded: one rounding of the exact sum.
\<close>

theorem addsf3_nearest:
  assumes "sfp_normal (sfp_unpack a)" "sfp_normal (sfp_unpack b)" "in_range (fval a + fval b)"
  shows "nearest (addsf3 a b) (fval a + fval b)"
proof -
  let ?ua = "sfp_unpack a" and ?ub = "sfp_unpack b"
  let ?S = "exact_sum ?ua ?ub" and ?q = "min (sf_exp ?ua) (sf_exp ?ub) - 23"
  have v: "fval a + fval b = of_int ?S * 2 powi ?q" by (rule exact_sum_value [symmetric])
  have S: "?S \<noteq> 0" using assms(3) unfolding v by (auto simp: in_range_def)
  have v': "of_int ?S * 2 powi ?q = fsgn (?S < 0) * real (nat \<bar>?S\<bar>) * 2 powi ?q"
    by (simp add: fsgn_def)
  have n: "0 < nat \<bar>?S\<bar>" using S by simp
  have "addsf3 a b = sum_round ?ua ?ub"
    using assms(1,2) unpack_normal [OF assms(1)] unpack_normal [OF assms(2)]
    by (simp add: addsf3_def sfp_add_signed_def Let_def sfp_normal_def add_finite_spec mant_ok_def)
  then have "addsf3 a b = ieee_round (?S < 0) (nat \<bar>?S\<bar>) ?q" using S by (simp add: sum_round_def Let_def)
  then show ?thesis
    unfolding v v' using ieee_round_nearest [OF n lead_in_range [OF n assms(3) [unfolded v v']]] by simp
qed


text \<open>Concrete patterns: 3, 1.5 and 9.\<close>

lemma fval_examples:
  "fval 0x40400000 = 3" "fval 0x3FC00000 = 3 / 2"
  "sfp_normal (sfp_unpack 0x40400000)" "sfp_normal (sfp_unpack 0x3FC00000)"
  by (simp_all add: fval_def sfp_normal_def sfp_unpack_def fsgn_def Let_def)

lemma in_range_examples: "in_range (9 / 2)" "in_range 2"
  by (simp_all add: in_range_def power_int_def power_one_over)

theorem mulsf3_nearest_witness:
  "nearest (mulsf3 0x40400000 0x3FC00000) (9 / 2)"
  using mulsf3_nearest [OF fval_examples(3,4)] by (simp add: fval_examples in_range_examples)

theorem addsf3_nearest_witness:
  "nearest (addsf3 0x40400000 0x3FC00000) (9 / 2)"
  using addsf3_nearest [OF fval_examples(3,4)] by (simp add: fval_examples in_range_examples)


text \<open>
  Addition is commutative on every pair of bit patterns, NaNs, infinities and
  signed zeros included.
\<close>

theorem addsf3_commute: "addsf3 a b = addsf3 b a"
proof (cases "sfp_normal (sfp_unpack a) \<and> sfp_normal (sfp_unpack b)")
  case True
  then have "mant_ok (sfp_unpack a)" "mant_ok (sfp_unpack b)"
    using unpack_normal by (auto simp: mant_ok_def)
  with True show ?thesis
    by (simp add: addsf3_def sfp_add_signed_def sfp_normal_def Let_def add_finite_spec sum_round_commute)
next
  case False
  then show ?thesis
    by (auto simp: addsf3_def sfp_add_signed_def sfp_normal_def Let_def conj_commute)
qed

lemma unpack_negsf2: "sfp_unpack (negsf2 b) = (sfp_unpack b)\<lparr>sf_sign := \<not> sf_sign (sfp_unpack b)\<rparr>"
proof -
  have sb: "bit (SFP_SIGN_BIT :: u32) n \<longleftrightarrow> n = 31" for n
    using bit_exp_iff [of 31 n, where 'a = u32] by auto
  have one: "drop_bit 31 x AND 1 \<noteq> 0 \<longleftrightarrow> bit x 31" for x :: u32
    using and_exp_eq_0_iff_not_bit [of "drop_bit 31 x" 0] by (simp add: bit_drop_bit_eq)
  have mk: "x AND SFP_MANT_MASK = take_bit 23 x" "x AND 0xFF = take_bit 8 x" for x :: u32
    using and_mask_eq_take_bit [of x 23] and_mask_eq_take_bit [of x 8]
    by (simp_all add: mask_eq_exp_minus_1)
  have "drop_bit 23 (negsf2 b) AND 0xFF = drop_bit 23 b AND 0xFF"
    unfolding mk negsf2_def by (rule bit_word_eqI) (auto simp: bit_simps sb simp del: bit_numeral_word_iff)
  moreover have "negsf2 b AND SFP_MANT_MASK = b AND SFP_MANT_MASK"
    unfolding mk negsf2_def by (rule bit_word_eqI) (auto simp: bit_simps sb simp del: bit_numeral_word_iff)
  moreover have "(drop_bit 31 (negsf2 b) AND 1 \<noteq> 0) = (\<not> (drop_bit 31 b AND 1 \<noteq> 0))"
    unfolding one negsf2_def bit_xor_iff sb by simp
  ultimately show ?thesis
    unfolding sfp_unpack_def Let_def by (simp add: sfp_special_def)
qed

lemma unpack_zero: "is_zero (sfp_unpack a) \<Longrightarrow> \<not> is_nan (sfp_unpack a) \<and> \<not> is_inf (sfp_unpack a)"
  by (auto simp: sfp_unpack_def sfp_special_def Let_def split: if_splits)

text \<open>
  Subtraction adds the negation, except that a zero minuend loses the sign
  change: \<open>0 - b\<close> comes out as \<open>b\<close> instead of \<open>-b\<close>.
\<close>

theorem subsf3_cases:
  "subsf3 a b =
     (if is_zero (sfp_unpack a) \<and> sfp_normal (sfp_unpack b) then b else addsf3 a (negsf2 b))"
  using unpack_zero [of a] unfolding subsf3_def addsf3_def sfp_add_signed_def Let_def unpack_negsf2
  by (auto simp: sfp_normal_def)

subsection \<open>Comparison\<close>

text \<open>The magnitude bits are the biased exponent above the mantissa bits.\<close>

lemma magnitude_fields:
  fixes a :: u32
  shows "unat (a AND 0x7FFFFFFF) = unat (drop_bit 23 a AND 0xFF) * 2 ^ 23 + unat (a AND SFP_MANT_MASK)"
    and "unat (a AND SFP_MANT_MASK) < 2 ^ 23" and "unat (drop_bit 23 a AND 0xFF) < 2 ^ 8"
proof -
  have mk: "a AND SFP_MANT_MASK = take_bit 23 a" "x AND 0xFF = take_bit 8 x" "a AND 0x7FFFFFFF = take_bit 31 a"
    for x :: u32
    using and_mask_eq_take_bit [of a 23] and_mask_eq_take_bit [of x 8] and_mask_eq_take_bit [of a 31]
    by (simp_all add: mask_eq_exp_minus_1)
  have "unat a mod (2 ^ 23 * 2 ^ 8) = 2 ^ 23 * (unat a div 2 ^ 23 mod 2 ^ 8) + unat a mod 2 ^ 23"
    by (rule mod_mult2_eq)
  then show "unat (a AND 0x7FFFFFFF) = unat (drop_bit 23 a AND 0xFF) * 2 ^ 23 + unat (a AND SFP_MANT_MASK)"
    unfolding mk unat_take_bit unat_drop_bit by simp
  show "unat (a AND SFP_MANT_MASK) < 2 ^ 23" "unat (drop_bit 23 a AND 0xFF) < 2 ^ 8"
    unfolding mk unat_take_bit by simp_all
qed

definition mval :: "nat \<Rightarrow> nat \<Rightarrow> real" where
  "mval B M = (if B = 0 then 0 else real (M + 2 ^ 23) * 2 powi (int B - 150))"

lemma fval_fields:
  assumes "sfp_finite a"
  shows "fval a = fsgn (sf_sign (sfp_unpack a)) *
      mval (unat (drop_bit 23 a AND 0xFF)) (unat (a AND SFP_MANT_MASK))"
    and "is_zero (sfp_unpack a) \<longleftrightarrow> unat (drop_bit 23 a AND 0xFF) = 0"
proof -
  let ?B = "drop_bit 23 a AND 0xFF" and ?u = "sfp_unpack a"
  have ne: "?B \<noteq> 255" using assms by (auto simp: sfp_finite_def sfp_unpack_def sfp_special_def Let_def split: if_splits)
  have z: "unat ?B = 0 \<longleftrightarrow> ?B = 0" by (simp add: unat_eq_0)
  show "is_zero ?u \<longleftrightarrow> unat ?B = 0"
    unfolding z using ne by (simp add: sfp_unpack_def sfp_special_def Let_def)
  show "fval a = fsgn (sf_sign ?u) * mval (unat ?B) (unat (a AND SFP_MANT_MASK))"
  proof (cases "?B = 0")
    case True
    then have "sf_mant ?u = 0" by (simp add: sfp_unpack_def sfp_special_def Let_def)
    then show ?thesis using True by (simp add: fval_normal mval_def)
  next
    case False
    have "sf_mant ?u = (a AND SFP_MANT_MASK) OR SFP_HIDDEN_BIT" "sf_exp ?u = int (unat ?B) - 127"
      using ne False by (simp_all add: sfp_unpack_def Let_def)
    moreover have "unat ((a AND SFP_MANT_MASK) OR SFP_HIDDEN_BIT) = unat (a AND SFP_MANT_MASK) + 2 ^ 23"
      using or_hidden_bit [of "a AND SFP_MANT_MASK"] magnitude_fields(2) [of a] by (simp add: and.assoc)
    ultimately show ?thesis using False z by (simp add: fval_normal mval_def)
  qed
qed

lemma digits_less:
  fixes N :: nat
  assumes "M < N" "M' < N" "B * N + M < B' * N + M'"
  shows "B < B' \<or> B = B' \<and> M < M'"
proof -
  have "(B * N + M) div N \<le> (B' * N + M') div N" using assms by (intro div_le_mono) simp
  then have "B \<le> B'" using assms(1,2) by simp
  then show ?thesis using assms(3) by (cases "B = B'") simp_all
qed

lemma digits_eq:
  fixes N :: nat
  assumes "M < N" "M' < N" "B * N + M = B' * N + M'"
  shows "B = B' \<and> M = M'"
  using divmod_parts [OF assms(1), of B] divmod_parts [OF assms(2), of B'] assms(3) by simp

lemma mval_mono:
  assumes lt: "B * 2 ^ 23 + M < B' * 2 ^ 23 + M'" and M: "M < 2 ^ 23" "M' < 2 ^ 23"
    and nz: "B \<noteq> 0 \<or> B' \<noteq> 0"
  shows "mval B M < mval B' M'"
proof -
  have B: "B < B' \<or> B = B' \<and> M < M'" using digits_less [OF M lt] .
  then have nz': "B' \<noteq> 0" using nz by auto
  consider "B = 0" | "B = B'" "B \<noteq> 0" | "B < B'" "B \<noteq> 0" using B by auto
  then show ?thesis
  proof cases
    case 1
    then show ?thesis using nz' by (simp add: mval_def)
  next
    case 2
    then show ?thesis using B by (simp add: mval_def)
  next
    case 3
    have "real (M + 2 ^ 23) * 2 powi (int B - 150) < 2 ^ 24 * 2 powi (int B - 150)"
      using M(1) by (intro mult_strict_right_mono) simp_all
    also have "\<dots> = 2 ^ 23 * 2 powi (int B - 149)"
      using powi_add2 [of 1 "int B - 150"] by simp
    also have "\<dots> \<le> 2 ^ 23 * 2 powi (int B' - 150)"
      using 3 by (intro mult_left_mono power_int_increasing) simp_all
    also have "\<dots> \<le> real (M' + 2 ^ 23) * 2 powi (int B' - 150)"
      by (intro mult_right_mono) simp_all
    finally show ?thesis using 3 by (simp add: mval_def)
  qed
qed

lemma mval_nonneg: "0 \<le> mval B M" and mval_0: "mval B M = 0 \<longleftrightarrow> B = 0"
  by (simp_all add: mval_def)

lemma cmp_fields:
  assumes "sfp_finite a" "sfp_finite b"
  shows "sfp_cmp a b = (if fval a < fval b then -1 else if fval a = fval b then 0 else 1)"
proof -
  define B M B' M' where "B = unat (drop_bit 23 a AND 0xFF)" and "M = unat (a AND SFP_MANT_MASK)"
    and "B' = unat (drop_bit 23 b AND 0xFF)" and "M' = unat (b AND SFP_MANT_MASK)"
  define s t where "s = sf_sign (sfp_unpack a)" and "t = sf_sign (sfp_unpack b)"
  have lt: "M < 2 ^ 23" "M' < 2 ^ 23" unfolding M_def M'_def by (rule magnitude_fields)+
  have f: "fval a = fsgn s * mval B M" "fval b = fsgn t * mval B' M'"
    "is_zero (sfp_unpack a) \<longleftrightarrow> B = 0" "is_zero (sfp_unpack b) \<longleftrightarrow> B' = 0"
    unfolding B_def M_def B'_def M'_def s_def t_def by (rule fval_fields assms)+
  have less: "a AND 0x7FFFFFFF < b AND 0x7FFFFFFF \<longleftrightarrow> B * 2 ^ 23 + M < B' * 2 ^ 23 + M'"
    and eq: "a AND 0x7FFFFFFF = b AND 0x7FFFFFFF \<longleftrightarrow> B * 2 ^ 23 + M = B' * 2 ^ 23 + M'"
    unfolding word_less_nat_alt word_unat_eq_iff magnitude_fields(1) B_def M_def B'_def M'_def by simp_all
  have same: "B = B' \<and> M = M'" if "B * 2 ^ 23 + M = B' * 2 ^ 23 + M'"
    using digits_eq [OF lt that] .
  have mono: "B * 2 ^ 23 + M < B' * 2 ^ 23 + M' \<Longrightarrow> B \<noteq> 0 \<or> B' \<noteq> 0 \<Longrightarrow> mval B M < mval B' M'"
    "B' * 2 ^ 23 + M' < B * 2 ^ 23 + M \<Longrightarrow> B \<noteq> 0 \<or> B' \<noteq> 0 \<Longrightarrow> mval B' M' < mval B M"
    using mval_mono [OF _ lt] mval_mono [OF _ lt(2,1)] by blast+
  note m = mval_nonneg [of B M] mval_nonneg [of B' M'] mval_0 [of B M] mval_0 [of B' M']
  have d: "sfp_cmp a b = (if B = 0 \<and> B' = 0 then 0 else if s \<noteq> t then (if s then -1 else 1)
      else if B * 2 ^ 23 + M = B' * 2 ^ 23 + M' then 0
      else if B * 2 ^ 23 + M < B' * 2 ^ 23 + M' then (if s then 1 else -1) else (if s then -1 else 1))"
    using assms unfolding sfp_cmp_def Let_def less eq f s_def t_def by (simp add: sfp_finite_def)
  consider (zero) "B = 0" "B' = 0" | (sign) "B \<noteq> 0 \<or> B' \<noteq> 0" "s \<noteq> t"
    | (eq) "B \<noteq> 0 \<or> B' \<noteq> 0" "s = t" "B * 2 ^ 23 + M = B' * 2 ^ 23 + M'"
    | (lt) "B \<noteq> 0 \<or> B' \<noteq> 0" "s = t" "B * 2 ^ 23 + M < B' * 2 ^ 23 + M'"
    | (gt) "B \<noteq> 0 \<or> B' \<noteq> 0" "s = t" "B' * 2 ^ 23 + M' < B * 2 ^ 23 + M"
    by linarith
  then show ?thesis
  proof cases
    case zero
    then show ?thesis unfolding d f by (simp add: mval_def)
  next
    case sign
    then show ?thesis unfolding d f using m by (auto simp: fsgn_def)
  next
    case eq
    then show ?thesis unfolding d f using same by auto
  next
    case lt
    then show ?thesis unfolding d f using mono(1) by (auto simp: fsgn_def)
  next
    case gt
    then show ?thesis unfolding d f using mono(2) by (auto simp: fsgn_def)
  qed
qed

lemma finite_ordered: "sfp_finite a \<Longrightarrow> sfp_finite b \<Longrightarrow> unordsf2 a b = 0"
  by (simp add: unordsf2_def sfp_finite_def)

text \<open>
  Property C40.  The six comparison helpers decide the order of the real values: the signs
  the caller tests are those of \<open>fval a - fval b\<close>.
\<close>

theorem compare_order:
  assumes "sfp_finite a" "sfp_finite b"
  shows "(ltsf2 a b < 0 \<longleftrightarrow> fval a < fval b) \<and> (lesf2 a b \<le> 0 \<longleftrightarrow> fval a \<le> fval b) \<and>
    (gtsf2 a b > 0 \<longleftrightarrow> fval a > fval b) \<and> (gesf2 a b \<ge> 0 \<longleftrightarrow> fval a \<ge> fval b) \<and>
    (eqsf2 a b = 0 \<longleftrightarrow> fval a = fval b) \<and> (nesf2 a b \<noteq> 0 \<longleftrightarrow> fval a \<noteq> fval b)"
  using finite_ordered [OF assms] cmp_fields [OF assms]
  by (auto simp: ltsf2_def lesf2_def gtsf2_def gesf2_def eqsf2_def nesf2_def)

theorem compare_order_witness: "ltsf2 0x3FC00000 0x40400000 < 0"
proof -
  have "sfp_finite 0x3FC00000" "sfp_finite 0x40400000" by (simp_all add: sfp_finite_def sfp_unpack_def Let_def)
  from compare_order [OF this] show ?thesis by (simp add: fval_examples)
qed

subsection \<open>Conversions\<close>

lemma lead_bit_spec:
  assumes "0 < unat v" "lead (unat v) \<le> k" "k < 32"
  shows "lead_bit k v = lead (unat v)"
  using assms
proof (induction k)
  case 0
  then show ?case by simp
next
  case (Suc k)
  have zero: "drop_bit (Suc k) v AND 1 = 0 \<longleftrightarrow> \<not> bit v (Suc k)"
    using and_exp_eq_0_iff_not_bit [of "drop_bit (Suc k) v" 0] by (simp add: bit_drop_bit_eq)
  have odd: "bit v (Suc k) \<longleftrightarrow> odd (unat v div 2 ^ Suc k)"
    using bit_iff_odd [of "unat v" "Suc k"] by (simp add: bit_unsigned_iff)
  note b = lead_bounds [OF Suc.prems(1)]
  show ?case
  proof (cases "lead (unat v) = Suc k")
    case True
    then have "unat v div 2 ^ Suc k = 1"
      using b by (intro div_nat_eqI) simp_all
    then show ?thesis using True by (simp add: zero odd)
  next
    case False
    then have lt: "lead (unat v) < Suc k" using Suc.prems by simp
    then have "unat v div 2 ^ Suc k = 0" using lead_le_iff [OF Suc.prems(1)] by (simp del: power_Suc)
    then have "\<not> bit v (Suc k)" by (simp only: odd) simp
    then show ?thesis using Suc lt by (simp add: zero)
  qed
qed

lemma uint_to_float_spec:
  assumes "v \<noteq> 0"
  shows "sfp_uint_to_float v s = ieee_round s (unat v) 0"
proof -
  have pos: "0 < unat v" using assms by (simp add: unat_gt_0)
  have "unat v < 2 ^ 32" using unsigned_less [of v, where ?'a = nat] by simp
  then have l: "lead (unat v) < 32" using lead_le_iff [OF pos] by blast
  define t where "t = lead (unat v)"
  define w where "w = push_bit (47 - t) (ucast v :: u64)"
  have hi: "unat v * 2 ^ (47 - t) < 2 ^ 64"
  proof -
    have "unat v * 2 ^ (47 - t) < 2 ^ Suc t * 2 ^ (47 - t)" using lead_bounds [OF pos] by (simp add: t_def)
    also have "\<dots> = 2 ^ 48" using l by (simp add: t_def flip: power_Suc power_add)
    finally show ?thesis by simp
  qed
  have w: "unat w = unat v * 2 ^ (47 - t)"
    unfolding w_def using hi by (subst unat_push_bit_small) (simp_all add: ucast_u64)
  have tt: "lead_bit 31 v = t" unfolding t_def by (rule lead_bit_spec [OF pos]) (use l in simp_all)
  have "sfp_uint_to_float v s = sfp_round_normal s (int t) w 24"
    using assms tt by (simp add: sfp_uint_to_float_def Let_def w_def)
  also have "\<dots> = ieee_round s (unat w) (int t - int (23 + 24))"
    by (rule round_normal_spec) (use pos w in simp_all)
  also have "\<dots> = ieee_round s (unat v) 0"
    using ieee_round_scale [OF pos, of s "47 - t" 0] l by (simp add: w t_def)
  finally show ?thesis .
qed

lemma uint_to_float_nearest: "nearest (sfp_uint_to_float v s) (fsgn s * real (unat v))"
proof (cases "v = 0")
  case True
  have "fval (signed_zero s) = 0" by (simp add: signed_zero_def fval_def sfp_unpack_def sfp_special_def Let_def)
  then show ?thesis
    using True by (simp add: sfp_uint_to_float_def sfp_pack_def sfp_special_def nearest_def)
next
  case False
  then have pos: "0 < unat v" by (simp add: unat_gt_0)
  have "unat v < 2 ^ 32" using unsigned_less [of v, where ?'a = nat] by simp
  then have l: "lead (unat v) < 32" using lead_le_iff [OF pos] by blast
  have "nearest (ieee_round s (unat v) 0) (fsgn s * real (unat v) * 2 powi 0)"
    by (rule ieee_round_nearest [OF pos]) (use l in simp_all)
  then show ?thesis using False by (simp add: uint_to_float_spec)
qed

text \<open>
  Both integer conversions return a float nearest to the integer, for every
  32-bit input, the most negative one included.
\<close>

theorem int_to_float_nearest:
  "nearest (floatunsisf u) (real (unat u)) \<and> nearest (floatsisf i) (of_int (sint i))"
proof
  show "nearest (floatunsisf u) (real (unat u))"
    using uint_to_float_nearest [of u False] by (simp add: floatunsisf_def fsgn_def)
  show "nearest (floatsisf i) (of_int (sint i))"
  proof (cases "0 \<le> sint i")
    case True
    have "uint (word_of_int (sint i) :: u32) = sint i"
      unfolding uint_word_of_int_eq by (rule take_bit_int_eq_self) (use True sint_lt [of i] in simp_all)
    then have "sint i = int (unat i)" by simp
    then show ?thesis
      using True uint_to_float_nearest [of i False] by (simp add: floatsisf_def fsgn_def)
  next
    case False
    let ?v = "word_of_int (- sint i) :: u32"
    have "- (2 ^ 31) \<le> sint i" using sint_ge [of i] by simp
    then have "uint ?v = - sint i"
      unfolding uint_word_of_int_eq using False by (intro take_bit_int_eq_self) simp_all
    then have "real (unat ?v) = - of_int (sint i)"
      by (metis of_int_minus of_int_of_nat_eq uint_nat)
    then show ?thesis
      using False uint_to_float_nearest [of ?v True] by (simp add: floatsisf_def fsgn_def)
  qed
qed

text \<open>Truncation toward zero, clamped to the target range.\<close>

definition trunc :: "real \<Rightarrow> int" where
  "trunc x = (if 0 \<le> x then \<lfloor>x\<rfloor> else \<lceil>x\<rceil>)"

definition clamp :: "int \<Rightarrow> int \<Rightarrow> int \<Rightarrow> int" where
  "clamp lo hi z = max lo (min hi z)"

lemma floor_powi_shift:
  assumes "e < 23"
  shows "\<lfloor>real m * 2 powi (e - 23)\<rfloor> = int (m div 2 ^ nat (23 - e))"
proof -
  have "(2 :: real) powi (e - 23) = inverse (2 ^ nat (23 - e))"
    using assms by (simp add: power_int_def power_one_over inverse_eq_divide)
  then have "real m * 2 powi (e - 23) = real m / real (2 ^ nat (23 - e))"
    by (simp add: divide_inverse)
  then show ?thesis by (simp only: floor_divide_of_nat_eq)
qed

lemma fix_magnitude_floor:
  assumes u: "2 ^ 23 \<le> unat (sf_mant u)" "unat (sf_mant u) < 2 ^ 24" and e: "0 \<le> sf_exp u" "sf_exp u < 32"
  shows "int (unat (fix_magnitude u)) = \<lfloor>real (unat (sf_mant u)) * 2 powi (sf_exp u - 23)\<rfloor>"
proof (cases "sf_exp u \<ge> 23")
  case True
  define d where "d = nat (sf_exp u - 23)"
  have d: "d \<le> 8" "sf_exp u - 23 = int d" using True e by (simp_all add: d_def)
  have "(2 :: nat) ^ d \<le> 2 ^ 8" using d by (intro power_increasing) simp_all
  then have "unat (sf_mant u) * 2 ^ d < 2 ^ 24 * 2 ^ 8" using u by (intro mult_less_le_imp_less) simp_all
  then have "unat (push_bit d (sf_mant u)) = unat (sf_mant u) * 2 ^ d"
    by (intro unat_push_bit_small) simp
  moreover have "\<lfloor>real (unat (sf_mant u)) * 2 powi (sf_exp u - 23)\<rfloor> = int (unat (sf_mant u) * 2 ^ d)"
    unfolding d(2) power_int_of_nat by (metis floor_of_nat of_nat_mult of_nat_numeral of_nat_power)
  ultimately show ?thesis using True by (simp add: fix_magnitude_def flip: d_def)
next
  case False
  then show ?thesis
    using floor_powi_shift [of "sf_exp u" "unat (sf_mant u)"] by (simp add: fix_magnitude_def unat_drop_bit)
qed

lemma normal_magnitude_bounds:
  assumes "2 ^ 23 \<le> unat m" "unat (m :: u32) < 2 ^ 24"
  shows "2 powi e \<le> real (unat m) * 2 powi (e - 23)" "real (unat m) * 2 powi (e - 23) < 2 powi (e + 1)"
proof -
  have p: "(2 :: real) powi e = 2 ^ 23 * 2 powi (e - 23)" "(2 :: real) powi (e + 1) = 2 ^ 24 * 2 powi (e - 23)"
    using powi_add2 [of 23 "e - 23"] powi_add2 [of 24 "e - 23"] by (simp_all add: add.commute)
  have "real (2 ^ 23) \<le> real (unat m)" "real (unat m) < real (2 ^ 24)"
    using assms by (simp_all only: of_nat_le_iff of_nat_less_iff)
  then show "2 powi e \<le> real (unat m) * 2 powi (e - 23)" "real (unat m) * 2 powi (e - 23) < 2 powi (e + 1)"
    unfolding p by (intro mult_right_mono mult_strict_right_mono; simp)+
qed

text \<open>The floor of a magnitude against the exponent tests of the conversions.\<close>

lemma floor_magnitude:
  fixes e :: int
  assumes "2 ^ 23 \<le> unat m" "unat (m :: u32) < 2 ^ 24"
  defines "x \<equiv> real (unat m) * 2 powi (e - 23)"
  shows "e < 0 \<Longrightarrow> \<lfloor>x\<rfloor> = 0" "int k \<le> e \<Longrightarrow> 2 ^ k \<le> \<lfloor>x\<rfloor>" "e < int k \<Longrightarrow> \<lfloor>x\<rfloor> < 2 ^ k" "0 < x"
proof -
  note b = normal_magnitude_bounds [OF assms(1,2), of e, folded x_def]
  have "(0 :: real) < 2 powi e" by simp
  with b(1) show x: "0 < x" by linarith
  show "\<lfloor>x\<rfloor> = 0" if "e < 0"
  proof -
    have "(2 :: real) powi (e + 1) \<le> 2 powi 0" using that by (intro power_int_increasing) simp_all
    then show ?thesis using b(2) x by (simp add: floor_eq_iff)
  qed
  show "2 ^ k \<le> \<lfloor>x\<rfloor>" if "int k \<le> e"
  proof -
    have "(2 :: real) powi int k \<le> 2 powi e" using that by (intro power_int_increasing) simp_all
    then show ?thesis using b(1) by (simp add: le_floor_iff)
  qed
  show "\<lfloor>x\<rfloor> < 2 ^ k" if "e < int k"
  proof -
    have "(2 :: real) powi (e + 1) \<le> 2 powi int k" using that by (intro power_int_increasing) simp_all
    then show ?thesis using b(2) by (simp add: floor_less_iff)
  qed
qed

lemma fval_zero: "is_zero (sfp_unpack a) \<Longrightarrow> fval a = 0"
  by (auto simp: fval_def sfp_unpack_def sfp_special_def Let_def split: if_splits)

text \<open>
  Conversion to an unsigned integer truncates toward zero and saturates at
  both ends of the range, for every finite input.
\<close>

theorem fixunssfsi_trunc:
  assumes "sfp_finite a"
  shows "int (unat (fixunssfsi a)) = clamp 0 (2 ^ 32 - 1) (trunc (fval a))"
proof (cases "is_zero (sfp_unpack a)")
  case True
  then show ?thesis using unpack_zero [OF True] by (simp add: fixunssfsi_def fval_zero trunc_def clamp_def Let_def)
next
  case False
  let ?u = "sfp_unpack a"
  define x where "x = real (unat (sf_mant ?u)) * 2 powi (sf_exp ?u - 23)"
  have norm: "sfp_normal ?u" using assms False by (simp add: sfp_normal_def sfp_finite_def)
  note n = unpack_normal(1,2) [OF norm]
  note fl = floor_magnitude [OF n, where e = "sf_exp ?u", folded x_def]
  have v: "fval a = fsgn (sf_sign ?u) * x" by (simp add: fval_normal x_def)
  have d: "fixunssfsi a = (if sf_sign ?u then 0 else if sf_exp ?u < 0 then 0
      else if sf_exp ?u \<ge> 32 then 0xFFFFFFFF else fix_magnitude ?u)"
    using norm by (simp add: fixunssfsi_def sfp_normal_def Let_def)
  show ?thesis
  proof (cases "sf_sign ?u")
    case True
    then have "trunc (fval a) \<le> 0" using fl(4) by (simp add: v trunc_def fsgn_def)
    then show ?thesis using True by (simp add: d clamp_def)
  next
    case False
    then have tr: "trunc (fval a) = \<lfloor>x\<rfloor>" using fl(4) by (simp add: v trunc_def fsgn_def)
    consider "sf_exp ?u < 0" | "0 \<le> sf_exp ?u" "sf_exp ?u < 32" | "32 \<le> sf_exp ?u" by linarith
    then show ?thesis
    proof cases
      case 1
      then show ?thesis using False fl(1) by (simp add: d tr clamp_def)
    next
      case 2
      then have "int (unat (fix_magnitude ?u)) = \<lfloor>x\<rfloor>" unfolding x_def by (intro fix_magnitude_floor [OF n]) simp_all
      then show ?thesis using False 2 fl(3) [of 32] fl(4) by (simp add: d tr clamp_def)
    next
      case 3
      then show ?thesis using False fl(2) [of 32] by (simp add: d tr clamp_def)
    qed
  qed
qed

text \<open>
  Conversion to a signed integer truncates toward zero and saturates at both
  ends of the range, for every finite input.
\<close>

theorem fixsfsi_trunc:
  assumes "sfp_finite a"
  shows "sint (fixsfsi a) = clamp (- (2 ^ 31)) (2 ^ 31 - 1) (trunc (fval a))"
proof (cases "is_zero (sfp_unpack a)")
  case True
  then show ?thesis using unpack_zero [OF True] by (simp add: fixsfsi_def fval_zero trunc_def clamp_def Let_def)
next
  case False
  let ?u = "sfp_unpack a"
  define x where "x = real (unat (sf_mant ?u)) * 2 powi (sf_exp ?u - 23)"
  have norm: "sfp_normal ?u" using assms False by (simp add: sfp_normal_def sfp_finite_def)
  note n = unpack_normal(1,2) [OF norm]
  note fl = floor_magnitude [OF n, where e = "sf_exp ?u", folded x_def]
  have v: "fval a = fsgn (sf_sign ?u) * x" by (simp add: fval_normal x_def)
  have d: "fixsfsi a = (if sf_exp ?u < 0 then 0
      else if sf_exp ?u \<ge> 31 then (if sf_sign ?u then 0x80000000 else 0x7FFFFFFF)
      else if sf_sign ?u then - fix_magnitude ?u else fix_magnitude ?u)"
    using norm by (simp add: fixsfsi_def sfp_normal_def Let_def)
  have tr: "trunc (fval a) = (if sf_sign ?u then - \<lfloor>x\<rfloor> else \<lfloor>x\<rfloor>)"
    using fl(4) by (simp add: v trunc_def fsgn_def ceiling_minus)
  consider "sf_exp ?u < 0" | "0 \<le> sf_exp ?u" "sf_exp ?u < 31" | "31 \<le> sf_exp ?u" by linarith
  then show ?thesis
  proof cases
    case 1
    then show ?thesis using fl(1) by (simp add: d tr clamp_def)
  next
    case 2
    define w where "w = fix_magnitude ?u"
    have w: "int (unat w) = \<lfloor>x\<rfloor>" unfolding x_def w_def by (intro fix_magnitude_floor [OF n]) (use 2 in simp_all)
    have lt: "\<lfloor>x\<rfloor> < 2 ^ 31" "0 \<le> \<lfloor>x\<rfloor>" using 2 fl(3) [of 31] fl(4) by simp_all
    have ww: "w = word_of_int \<lfloor>x\<rfloor>" unfolding w [symmetric] by simp
    have s: "sint w = \<lfloor>x\<rfloor>" "sint (- w) = - \<lfloor>x\<rfloor>"
      using signed_take_bit_int_eq_self [of 31 "\<lfloor>x\<rfloor>"] signed_take_bit_int_eq_self [of 31 "- \<lfloor>x\<rfloor>"] lt
      by (simp_all add: ww signed_of_int flip: of_int_minus del: of_int_floor_le le_floor_iff floor_less_iff)
    have "sint (fixsfsi a) = (if sf_sign ?u then - \<lfloor>x\<rfloor> else \<lfloor>x\<rfloor>)"
      using 2 s by (simp add: d flip: w_def)
    moreover obtain z where "\<lfloor>x\<rfloor> = z" by blast
    ultimately show ?thesis using lt unfolding tr clamp_def by (simp only:) auto
  next
    case 3
    obtain z where z: "\<lfloor>x\<rfloor> = z" by blast
    have "2147483648 \<le> z" using 3 fl(2) [of 31] z by simp
    then show ?thesis using 3 unfolding d tr clamp_def z by simp
  qed
qed

lemma finite_example: "sfp_finite 0x40400000" "sfp_finite 0xC0200000"
  by (simp_all add: sfp_finite_def sfp_unpack_def Let_def)

theorem fixunssfsi_trunc_witness: "int (unat (fixunssfsi 0x40400000)) = 3"
  using fixunssfsi_trunc [OF finite_example(1)] by (simp add: fval_examples trunc_def clamp_def)

theorem fixsfsi_trunc_witness: "sint (fixsfsi 0xC0200000) = -2"
proof -
  have "fval 0xC0200000 = - 5 / 2" by (simp add: fval_def sfp_unpack_def fsgn_def Let_def)
  then show ?thesis using fixsfsi_trunc [OF finite_example(2)] by (simp add: trunc_def clamp_def)
qed

end
