(* ===== verification/Tdf.thy ===== *)
theory Tdf
  imports Bir_Module
begin

text \<open>
  The tile-dataflow graph, \<open>src/src/tdf/tdf.h\<close> and \<open>src/src/tdf/tdf.c\<close>: regions, channels and arcs
  in fixed arenas, the builders that append to them, the lookups and the chip table.  Ids and
  counts are natural numbers below the limits of the header; tile dimensions, depths and
  addresses are words.  The body of a region is a BIR module or no module.
\<close>

subsection \<open>Limits and enumerations\<close>

abbreviation (input) TD_MAX_RGNS :: nat where "TD_MAX_RGNS \<equiv> 64"
abbreviation (input) TD_MAX_CHANS :: nat where "TD_MAX_CHANS \<equiv> 128"
abbreviation (input) TD_MAX_ARCS :: nat where "TD_MAX_ARCS \<equiv> 1024"
abbreviation (input) TD_BAD_ID :: nat where "TD_BAD_ID \<equiv> 0xFFFF"
abbreviation (input) TD_L1_CODE_RSV :: u32 where "TD_L1_CODE_RSV \<equiv> 0x8000"
abbreviation (input) TD_L1_RTARG_BASE :: u32 where "TD_L1_RTARG_BASE \<equiv> 0x8000"
abbreviation (input) TD_L1_RTARG_SIZE :: u32 where "TD_L1_RTARG_SIZE \<equiv> 0x100"
abbreviation (input) TD_L1_CB_BASE :: u32 where "TD_L1_CB_BASE \<equiv> 0x8100"
abbreviation (input) TD_L1_SHARED_SIZE :: u32 where "TD_L1_SHARED_SIZE \<equiv> 0x10000"
abbreviation (input) TD_L1_ALIGN :: u32 where "TD_L1_ALIGN \<equiv> 16"
abbreviation (input) TD_FIFO_BYTES :: u32 where "TD_FIFO_BYTES \<equiv> 8"
abbreviation (input) TD_NOC_MAX_XFER :: u32 where "TD_NOC_MAX_XFER \<equiv> 8192"

abbreviation (input) TD_CHIP_WH :: nat where "TD_CHIP_WH \<equiv> 0"
abbreviation (input) TD_CHIP_BH :: nat where "TD_CHIP_BH \<equiv> 1"
abbreviation (input) TD_CHIP_COUNT :: nat where "TD_CHIP_COUNT \<equiv> 2"

abbreviation (input) TD_RG_RDR :: nat where "TD_RG_RDR \<equiv> 1"
abbreviation (input) TD_RG_CMP :: nat where "TD_RG_CMP \<equiv> 2"
abbreviation (input) TD_RG_WRT :: nat where "TD_RG_WRT \<equiv> 3"
abbreviation (input) TD_RG_SOLO :: nat where "TD_RG_SOLO \<equiv> 4"
abbreviation (input) TD_RG_COUNT :: nat where "TD_RG_COUNT \<equiv> 5"

abbreviation (input) TD_AR_RSV :: nat where "TD_AR_RSV \<equiv> 0"
abbreviation (input) TD_AR_PUSH :: nat where "TD_AR_PUSH \<equiv> 1"
abbreviation (input) TD_AR_WAIT :: nat where "TD_AR_WAIT \<equiv> 2"
abbreviation (input) TD_AR_POP :: nat where "TD_AR_POP \<equiv> 3"
abbreviation (input) TD_AR_RD :: nat where "TD_AR_RD \<equiv> 4"
abbreviation (input) TD_AR_WR :: nat where "TD_AR_WR \<equiv> 5"
abbreviation (input) TD_AR_COUNT :: nat where "TD_AR_COUNT \<equiv> 6"

datatype td_layout = TD_LAY_INTRL | TD_LAY_SHARD | TD_LAY_L1

abbreviation (input) TD_TGT_AMD :: nat where "TD_TGT_AMD \<equiv> 0"
abbreviation (input) TD_TGT_NVIDIA :: nat where "TD_TGT_NVIDIA \<equiv> 1"
abbreviation (input) TD_TGT_TENSIX :: nat where "TD_TGT_TENSIX \<equiv> 2"

subsection \<open>Structures\<close>

record td_tag =
  tg_rows :: u16
  tg_cols :: u16
  tg_dtype :: bir_type_kind
  tg_layout :: td_layout

record td_rgn_t =
  rg_id :: nat
  rg_role :: nat
  rg_core :: nat
  rg_x :: u16
  rg_y :: u16
  rg_twa_sz :: u32
  rg_args :: "nat \<Rightarrow> u32"
  rg_body :: "bir_module option"

record td_chan_t =
  ch_id :: nat
  ch_prod :: nat
  ch_cons :: nat
  ch_depth :: u16
  ch_tag :: td_tag
  ch_l1_off :: u32

record td_arc_t =
  ar_kind :: nat
  ar_noc_id :: nat
  ar_rgn :: nat
  ar_chan :: nat
  ar_cnt :: u16
  ar_bir_inst :: u32
  ar_length :: u32

record td_mod =
  rgns :: "nat \<Rightarrow> td_rgn_t"
  nrgn :: nat
  chans :: "nat \<Rightarrow> td_chan_t"
  ncha :: nat
  arcs :: "nat \<Rightarrow> td_arc_t"
  narc :: nat
  td_target :: nat

definition zero_rgn :: td_rgn_t where
  "zero_rgn = \<lparr>rg_id = 0, rg_role = 0, rg_core = 0, rg_x = 0, rg_y = 0, rg_twa_sz = 0, rg_args = (\<lambda>_. 0), rg_body = None\<rparr>"

definition zero_tag :: td_tag where
  "zero_tag = \<lparr>tg_rows = 0, tg_cols = 0, tg_dtype = BIR_TYPE_VOID, tg_layout = TD_LAY_INTRL\<rparr>"

definition zero_chan :: td_chan_t where
  "zero_chan = \<lparr>ch_id = 0, ch_prod = 0, ch_cons = 0, ch_depth = 0, ch_tag = zero_tag, ch_l1_off = 0\<rparr>"

definition zero_arc :: td_arc_t where
  "zero_arc = \<lparr>ar_kind = 0, ar_noc_id = 0, ar_rgn = 0, ar_chan = 0, ar_cnt = 0, ar_bir_inst = 0, ar_length = 0\<rparr>"

subsection \<open>Chip geometry\<close>

definition k_chips :: "(string \<times> u32 \<times> u32) list" where
  "k_chips = [(''wormhole'', 1464 * 1024, 16 * 1024), (''blackhole'', 1536 * 1024, 1497 * 1024)]"

definition chipok :: "nat \<Rightarrow> nat" where
  "chipok c = (if c < TD_CHIP_COUNT then c else TD_CHIP_BH)"

definition td_l1end :: "nat \<Rightarrow> u32" where
  "td_l1end c = fst (snd (k_chips ! chipok c))"

definition td_txtmax :: "nat \<Rightarrow> u32" where
  "td_txtmax c = snd (snd (k_chips ! chipok c))"

definition td_cname :: "nat \<Rightarrow> string" where
  "td_cname c = fst (k_chips ! chipok c)"

definition td_shbase :: "nat \<Rightarrow> u32" where
  "td_shbase c = td_l1end c - TD_L1_SHARED_SIZE"

text \<open>The parser of \<open>--chip\<close>: the code and the chip found; a null string is \<open>None\<close>.\<close>

definition td_pchip :: "string option \<Rightarrow> bc_code \<times> nat option" where
  "td_pchip s =
     (case s of None \<Rightarrow> (BC_ERR_TDF, None)
      | Some s \<Rightarrow> (case find (\<lambda>i. s = fst (k_chips ! i)) [0..<TD_CHIP_COUNT] of
          Some i \<Rightarrow> (BC_OK, Some i) | None \<Rightarrow> (BC_ERR_TDF, None)))"

text \<open>The file-level chip variable is the value; setting it clamps.\<close>

definition td_setchip :: "nat \<Rightarrow> nat" where
  "td_setchip c = chipok c"

subsection \<open>Names\<close>

definition k_role :: "string list" where
  "k_role = [''NONE'', ''RDR'', ''CMP'', ''WRT'', ''SOLO'']"

definition k_arc :: "string list" where
  "k_arc = [''RSV'', ''PUSH'', ''WAIT'', ''POP'', ''RD'', ''WR'']"

definition td_role_name :: "int \<Rightarrow> string" where
  "td_role_name role = (if role < 0 \<or> role \<ge> int TD_RG_COUNT then ''?'' else k_role ! nat role)"

definition td_arc_kind_name :: "int \<Rightarrow> string" where
  "td_arc_kind_name kind = (if kind < 0 \<or> kind \<ge> int TD_AR_COUNT then ''?'' else k_arc ! nat kind)"

subsection \<open>Builders\<close>

definition td_init :: "nat \<Rightarrow> td_mod" where
  "td_init target = \<lparr>rgns = (\<lambda>_. zero_rgn), nrgn = 0, chans = (\<lambda>_. zero_chan), ncha = 0, arcs = (\<lambda>_. zero_arc),
     narc = 0, td_target = target mod 256\<rparr>"

definition td_mkrgn :: "td_mod \<Rightarrow> nat \<Rightarrow> td_mod \<times> nat" where
  "td_mkrgn M role =
     (if nrgn M \<ge> TD_MAX_RGNS then (M, TD_BAD_ID)
      else let id = nrgn M in
        (M\<lparr>nrgn := id + 1, rgns := (rgns M)(id := zero_rgn\<lparr>rg_id := id, rg_role := role mod 256\<rparr>)\<rparr>, id))"

definition td_link :: "td_mod \<Rightarrow> nat \<Rightarrow> nat \<Rightarrow> td_tag \<Rightarrow> u16 \<Rightarrow> td_mod \<times> nat" where
  "td_link M prd cns tag depth =
     (if ncha M \<ge> TD_MAX_CHANS then (M, TD_BAD_ID)
      else if prd \<ge> nrgn M \<or> cns \<ge> nrgn M then (M, TD_BAD_ID)
      else let id = ncha M in
        (M\<lparr>ncha := id + 1, chans := (chans M)(id := \<lparr>ch_id = id, ch_prod = prd, ch_cons = cns,
             ch_depth = depth, ch_tag = tag, ch_l1_off = 0\<rparr>)\<rparr>, id))"

definition td_mkarc :: "td_mod \<Rightarrow> nat \<Rightarrow> nat \<Rightarrow> nat \<Rightarrow> u16 \<Rightarrow> u32 \<Rightarrow> td_mod \<times> nat" where
  "td_mkarc M rgn kind chan cnt anchor =
     (if narc M \<ge> TD_MAX_ARCS then (M, TD_BAD_ID)
      else if rgn \<ge> nrgn M then (M, TD_BAD_ID)
      else if kind \<le> TD_AR_POP \<and> chan \<ge> ncha M then (M, TD_BAD_ID)
      else let id = narc M in
        (M\<lparr>narc := id + 1, arcs := (arcs M)(id := \<lparr>ar_kind = kind mod 256, ar_noc_id = 0, ar_rgn = rgn,
             ar_chan = chan, ar_cnt = cnt, ar_bir_inst = anchor, ar_length = 0\<rparr>)\<rparr>, id))"

definition td_build_solo_from_bir :: "td_mod \<Rightarrow> nat \<Rightarrow> bir_module option \<Rightarrow> td_mod \<times> bc_code" where
  "td_build_solo_from_bir M target body =
     (case body of None \<Rightarrow> (M, BC_ERR_TDF)
      | Some B \<Rightarrow>
          let (M1, r) = td_mkrgn (td_init target) TD_RG_SOLO in
          if r = TD_BAD_ID then (M1, BC_ERR_TDF)
          else (M1\<lparr>rgns := (rgns M1)(r := (rgns M1 r)\<lparr>rg_body := Some B\<rparr>)\<rparr>, BC_OK))"

subsection \<open>Lookups\<close>

definition td_rgn :: "td_mod \<Rightarrow> nat \<Rightarrow> td_rgn_t option" where
  "td_rgn M i = (if i \<ge> nrgn M then None else Some (rgns M i))"

definition td_chan :: "td_mod \<Rightarrow> nat \<Rightarrow> td_chan_t option" where
  "td_chan M i = (if i \<ge> ncha M then None else Some (chans M i))"

definition td_arc :: "td_mod \<Rightarrow> nat \<Rightarrow> td_arc_t option" where
  "td_arc M i = (if i \<ge> narc M then None else Some (arcs M i))"

subsection \<open>The arenas\<close>

definition td_idx :: "nat \<Rightarrow> nat option" where
  "td_idx r = (if r = TD_BAD_ID then None else Some r)"

interpretation rgn_arena: bounded_arena nrgn rgns TD_MAX_RGNS "\<lambda>M. td_mkrgn M role" td_idx for role
  by unfold_locales (auto simp: td_mkrgn_def td_idx_def Let_def split: if_splits)

interpretation chan_arena: bounded_arena ncha chans TD_MAX_CHANS "\<lambda>M. td_link M prd cns tag depth" td_idx
  for prd cns tag depth
  by unfold_locales (auto simp: td_link_def td_idx_def Let_def split: if_splits)

interpretation arc_arena: bounded_arena narc arcs TD_MAX_ARCS "\<lambda>M. td_mkarc M rgn kind chan cnt anchor" td_idx
  for rgn kind chan cnt anchor
  by unfold_locales (auto simp: td_mkarc_def td_idx_def Let_def split: if_splits)

text \<open>
  A well-formed graph: the counts within the limits, every entry under its own id, every channel
  and arc on regions that exist, every CB arc on a channel that exists.
\<close>

definition td_wf :: "td_mod \<Rightarrow> bool" where
  "td_wf M \<longleftrightarrow>
     nrgn M \<le> TD_MAX_RGNS \<and> ncha M \<le> TD_MAX_CHANS \<and> narc M \<le> TD_MAX_ARCS \<and>
     (\<forall>i < nrgn M. rg_id (rgns M i) = i) \<and>
     (\<forall>i < ncha M. ch_id (chans M i) = i \<and> ch_prod (chans M i) < nrgn M \<and> ch_cons (chans M i) < nrgn M) \<and>
     (\<forall>i < narc M. ar_rgn (arcs M i) < nrgn M \<and> (ar_kind (arcs M i) \<le> TD_AR_POP \<longrightarrow> ar_chan (arcs M i) < ncha M))"

lemma td_init_wf [wf_intros]: "td_wf (td_init target)"
  by (simp add: td_wf_def td_init_def)

lemma td_mkrgn_wf [wf_intros]: "td_wf M \<Longrightarrow> td_wf (fst (td_mkrgn M role))"
  by (auto simp: td_wf_def td_mkrgn_def Let_def less_Suc_eq)

lemma td_link_wf [wf_intros]: "td_wf M \<Longrightarrow> td_wf (fst (td_link M prd cns tag depth))"
  by (auto simp: td_wf_def td_link_def Let_def less_Suc_eq)

lemma td_mkarc_wf [wf_intros]: "td_wf M \<Longrightarrow> kind < 256 \<Longrightarrow> td_wf (fst (td_mkarc M rgn kind chan cnt anchor))"
  by (auto simp: td_wf_def td_mkarc_def Let_def less_Suc_eq)



end
