(* ===== verification/Tdf_Fission.thy ===== *)
theory Tdf_Fission
  imports Tdf Bir_Pools
begin

text \<open>
  Kernel fission for Tensix, \<open>src/src/tdf/tdf_fission.c\<close>: tracing addresses to parameters,
  classifying the parameters of the kernel, and rebuilding the graph as a reader, compute,
  writer pipeline; and the lowering dispatch of \<open>src/src/tdf/tdf_lower.c\<close>.
\<close>

abbreviation (input) FS_MAX_PARAMS :: nat where "FS_MAX_PARAMS \<equiv> 64"
abbreviation (input) FS_TRACE_GUARD :: nat where "FS_TRACE_GUARD \<equiv> 16"
abbreviation (input) CUDA_GLOBAL :: u16 where "CUDA_GLOBAL \<equiv> 0x0001"

subsection \<open>Tracing\<close>

text \<open>The one value stored to a slot; \<open>BIR_VAL_NONE\<close> when there is none or more than one.\<close>

fun alsrc_from :: "bir_module \<Rightarrow> u32 \<Rightarrow> nat list \<Rightarrow> u32 \<Rightarrow> u32" where
  "alsrc_from bir slot [] hit = hit"
| "alsrc_from bir slot (i # is) hit =
     (let I = insts bir i in
      if i_op I \<noteq> BIR_STORE \<or> i_operands I 1 \<noteq> slot then alsrc_from bir slot is hit
      else if hit \<noteq> BIR_VAL_NONE then BIR_VAL_NONE
      else alsrc_from bir slot is (i_operands I 0))"

definition alsrc :: "bir_module \<Rightarrow> u32 \<Rightarrow> u32" where
  "alsrc bir slot = alsrc_from bir slot [0..<num_insts bir] BIR_VAL_NONE"

fun isloc_from :: "nat \<Rightarrow> bir_module \<Rightarrow> u32 \<Rightarrow> bool" where
  "isloc_from 0 bir v = False"
| "isloc_from (Suc g) bir v =
     (if v = BIR_VAL_NONE \<or> BIR_VAL_IS_CONST v then False
      else if BIR_VAL_INDEX v \<ge> num_insts bir then False
      else let I = insts bir (BIR_VAL_INDEX v) in
        if i_op I = BIR_ALLOCA then True
        else if i_op I \<noteq> BIR_GEP \<and> i_op I \<noteq> BIR_BITCAST then False
        else isloc_from g bir (i_operands I 0))"

definition isloc :: "bir_module \<Rightarrow> u32 \<Rightarrow> bool" where
  "isloc bir v = isloc_from FS_TRACE_GUARD bir v"

fun trace_from :: "nat \<Rightarrow> bir_module \<Rightarrow> u32 \<Rightarrow> int" where
  "trace_from 0 bir v = -1"
| "trace_from (Suc g) bir v =
     (if v = BIR_VAL_NONE \<or> BIR_VAL_IS_CONST v then -1
      else if BIR_VAL_INDEX v \<ge> num_insts bir then -1
      else let I = insts bir (BIR_VAL_INDEX v) in
        if i_op I = BIR_PARAM then int (i_subop I)
        else if i_op I = BIR_GEP \<or> i_op I = BIR_BITCAST \<or> i_op I = BIR_INTTOPTR \<or> i_op I = BIR_PTRTOINT then
          trace_from g bir (i_operands I 0)
        else if i_op I = BIR_LOAD then trace_from g bir (i_operands I 0)
        else if i_op I = BIR_ALLOCA then trace_from g bir (alsrc bir v)
        else -1)"

definition trace_to_param :: "bir_module \<Rightarrow> u32 \<Rightarrow> int" where
  "trace_to_param bir v = trace_from FS_TRACE_GUARD bir v"

definition find_kernel :: "bir_module \<Rightarrow> nat option" where
  "find_kernel bir =
     (case find (\<lambda>fi. f_cuda_flags (funcs bir fi) AND CUDA_GLOBAL \<noteq> 0) [0..<num_funcs bir] of
        Some fi \<Rightarrow> Some fi
      | None \<Rightarrow> if num_funcs bir > 0 then Some 0 else None)"

subsection \<open>Classification\<close>

record fs_param =
  is_ptr :: bool
  loaded :: bool
  stored :: bool

definition zero_param :: fs_param where
  "zero_param = \<lparr>is_ptr = False, loaded = False, stored = False\<rparr>"

definition mark_ptr :: "bir_module \<Rightarrow> nat \<Rightarrow> nat \<Rightarrow> (nat \<Rightarrow> fs_param) \<Rightarrow> (nat \<Rightarrow> fs_param)" where
  "mark_ptr bir np i ps =
     (let I = insts bir i; pi = i_subop I in
      if i_op I \<noteq> BIR_PARAM then ps
      else if pi \<ge> np then ps
      else if i_type I < num_types bir then
        let T = types bir (i_type I) in
        if t_kind T = BIR_TYPE_PTR \<and> (t_addrspace T = BIR_AS_GLOBAL \<or> t_addrspace T = BIR_AS_GENERIC)
        then ps(pi := (ps pi)\<lparr>is_ptr := True\<rparr>) else ps
      else ps)"

definition mark_use :: "bir_module \<Rightarrow> nat \<Rightarrow> nat \<Rightarrow> (nat \<Rightarrow> fs_param) \<Rightarrow> (nat \<Rightarrow> fs_param)" where
  "mark_use bir np i ps =
     (let I = insts bir i in
      if i_op I = BIR_LOAD \<and> \<not> isloc bir (i_operands I 0) then
        let pi = trace_to_param bir (i_operands I 0) in
        if pi \<ge> 0 \<and> nat pi < np then ps(nat pi := (ps (nat pi))\<lparr>loaded := True\<rparr>) else ps
      else if i_op I = BIR_STORE \<and> \<not> isloc bir (i_operands I 1) then
        let pi = trace_to_param bir (i_operands I 1) in
        if pi \<ge> 0 \<and> nat pi < np then ps(nat pi := (ps (nat pi))\<lparr>stored := True\<rparr>) else ps
      else ps)"

text \<open>The instructions the second pass visits: block by block, up to the two guards.\<close>

definition kernel_insts :: "bir_module \<Rightarrow> bir_func \<Rightarrow> nat list" where
  "kernel_insts bir F =
     concat (map (\<lambda>bk. let B = blocks bir bk in [b_first_inst B..<b_first_inst B + min (b_num_insts B) 65536])
       (takeWhile (\<lambda>bk. bk < num_blocks bir)
          [f_first_block F..<f_first_block F + min (f_num_blocks F) 262144]))"

fun scan_insts :: "bir_module \<Rightarrow> nat \<Rightarrow> nat list \<Rightarrow> (nat \<Rightarrow> fs_param) \<Rightarrow> (nat \<Rightarrow> fs_param) option" where
  "scan_insts bir np [] ps = Some ps"
| "scan_insts bir np (i # is) ps =
     (if i_op (insts bir i) = BIR_CALL then None else scan_insts bir np is (mark_use bir np i ps))"

text \<open>The parameter table past \<open>nparams\<close> is uninitialised C memory; it is never read.\<close>

definition classify_params :: "bir_module \<Rightarrow> nat \<Rightarrow> (nat \<Rightarrow> fs_param) option \<times> nat" where
  "classify_params bir func_idx =
     (let F = funcs bir func_idx;
          np = (if f_num_params F < FS_MAX_PARAMS then f_num_params F else FS_MAX_PARAMS);
          first = (if f_first_block F < num_blocks bir then b_first_inst (blocks bir (f_first_block F)) else 0);
          ps = for_loop first (min (num_insts bir) (first + 8192)) (mark_ptr bir np) (\<lambda>_. zero_param)
      in (scan_insts bir np (kernel_insts bir F) ps, np))"

subsection \<open>Rewriting the graph\<close>

definition default_tile :: td_tag where
  "default_tile = \<lparr>tg_rows = 32, tg_cols = 32, tg_dtype = BIR_TYPE_FLOAT, tg_layout = TD_LAY_INTRL\<rparr>"

abbreviation (input) FS_CB_DEPTH :: u16 where "FS_CB_DEPTH \<equiv> 2"

text \<open>
  One channel with its three arcs (region, kind); the arc ids are not looked at.  The flag is
  false when the channel was refused.
\<close>

definition link_arcs :: "nat \<Rightarrow> nat \<Rightarrow> (nat \<times> nat) list \<Rightarrow> td_mod \<Rightarrow> td_mod \<times> bool" where
  "link_arcs prd cns ks M =
     (let (M1, ch) = td_link M prd cns default_tile FS_CB_DEPTH in
      if ch = TD_BAD_ID then (M1, False)
      else (fold (\<lambda>(r, k) M. fst (td_mkarc M r k ch 1 0)) ks M1, True))"

definition fission_param :: "nat \<Rightarrow> nat \<Rightarrow> nat \<Rightarrow> fs_param \<Rightarrow> td_mod \<times> bool \<Rightarrow> td_mod \<times> bool" where
  "fission_param rdr cmp wrt p st =
     (let (M, ok) = st in
      if \<not> ok then (M, ok)
      else if \<not> is_ptr p then (M, ok)
      else
        let (M1, ok1) = (if loaded p then link_arcs rdr cmp [(rdr, TD_AR_RD), (rdr, TD_AR_PUSH), (cmp, TD_AR_WAIT)] M
                         else (M, True))
        in if \<not> ok1 then (M1, False)
           else if stored p then link_arcs cmp wrt [(cmp, TD_AR_PUSH), (wrt, TD_AR_WAIT), (wrt, TD_AR_WR)] M1
           else (M1, True))"

text \<open>The empty pipeline: three regions on their cores, the body parked on the compute region.\<close>

definition fission_regions :: "bir_module \<Rightarrow> (td_mod \<times> nat \<times> nat \<times> nat) \<times> bool" where
  "fission_regions body =
     (let (M1, rdr) = td_mkrgn (td_init TD_TGT_TENSIX) TD_RG_RDR;
          (M2, cmp) = td_mkrgn M1 TD_RG_CMP;
          (M3, wrt) = td_mkrgn M2 TD_RG_WRT
      in if rdr = TD_BAD_ID \<or> cmp = TD_BAD_ID \<or> wrt = TD_BAD_ID then ((M3, rdr, cmp, wrt), False)
         else
           let M4 = M3\<lparr>rgns := (rgns M3)(rdr := (rgns M3 rdr)\<lparr>rg_core := 0\<rparr>)\<rparr>;
               M5 = M4\<lparr>rgns := (rgns M4)(cmp := (rgns M4 cmp)\<lparr>rg_core := 1\<rparr>)\<rparr>;
               M6 = M5\<lparr>rgns := (rgns M5)(wrt := (rgns M5 wrt)\<lparr>rg_core := 4\<rparr>)\<rparr>;
               M7 = M6\<lparr>rgns := (rgns M6)(cmp := (rgns M6 cmp)\<lparr>rg_body := Some body\<rparr>)\<rparr>
           in ((M7, rdr, cmp, wrt), True))"

definition td_fission_tensix :: "td_mod \<Rightarrow> td_mod \<times> bc_code" where
  "td_fission_tensix M =
     (if td_target M \<noteq> TD_TGT_TENSIX then (M, BC_ERR_TDF)
      else if nrgn M \<noteq> 1 \<or> rg_role (rgns M 0) \<noteq> TD_RG_SOLO then (M, BC_ERR_TDF)
      else case rg_body (rgns M 0) of None \<Rightarrow> (M, BC_ERR_TDF)
      | Some body \<Rightarrow>
        (case find_kernel body of None \<Rightarrow> (M, BC_ERR_TDF)
         | Some fi \<Rightarrow>
           (case classify_params body fi of (None, np) \<Rightarrow> (M, BC_ERR_TDF)
            | (Some ps, np) \<Rightarrow>
              let ((M7, rdr, cmp, wrt), ok) = fission_regions body in
              if \<not> ok then (M7, BC_ERR_TDF)
              else
                let (M8, ok) = for_loop 0 np (\<lambda>pi. fission_param rdr cmp wrt (ps pi)) (M7, True)
                in (M8, if ok then BC_OK else BC_ERR_TDF))))"

subsection \<open>Lowering\<close>

text \<open>The result of lowering: the bodies handed on, and whether the callee owns each.\<close>

record td_lout =
  lo_mods :: "nat \<Rightarrow> bir_module option"
  lo_owns :: "nat \<Rightarrow> bool"
  lo_nmods :: nat

definition lower_solo_passthrough :: "td_mod \<Rightarrow> td_lout \<Rightarrow> td_lout \<times> bc_code" where
  "lower_solo_passthrough M out =
     (if nrgn M \<noteq> 1 then (out, BC_ERR_TDF)
      else if rg_role (rgns M 0) \<noteq> TD_RG_SOLO then (out, BC_ERR_TDF)
      else if rg_body (rgns M 0) = None then (out, BC_ERR_TDF)
      else if ncha M \<noteq> 0 \<or> narc M \<noteq> 0 then (out, BC_ERR_TDF)
      else (out\<lparr>lo_mods := (lo_mods out)(0 := rg_body (rgns M 0)), lo_owns := (lo_owns out)(0 := False), lo_nmods := 1\<rparr>, BC_OK))"

definition lower_tensix :: "td_mod \<Rightarrow> td_lout \<Rightarrow> td_lout \<times> bc_code" where
  "lower_tensix M out =
     (if nrgn M = 1 \<and> rg_role (rgns M 0) = TD_RG_SOLO then lower_solo_passthrough M out else (out, BC_ERR_TDF))"

definition td_lower :: "td_mod \<Rightarrow> td_lout \<times> bc_code" where
  "td_lower M =
     (let out = \<lparr>lo_mods = (\<lambda>_. None), lo_owns = (\<lambda>_. False), lo_nmods = 0\<rparr> in
      if td_target M = TD_TGT_AMD \<or> td_target M = TD_TGT_NVIDIA then lower_solo_passthrough M out
      else if td_target M = TD_TGT_TENSIX then lower_tensix M out
      else (out, BC_ERR_TDF))"

subsection \<open>The parameter classes\<close>

lemma scan_insts_spec:
  "scan_insts bir np is ps = Some qs \<longleftrightarrow>
     (\<forall>i \<in> set is. i_op (insts bir i) \<noteq> BIR_CALL) \<and> qs = fold (mark_use bir np) is ps"
  by (induction "is" arbitrary: ps) auto

lemma scan_insts_None: "scan_insts bir np is ps = None \<longleftrightarrow> (\<exists>i \<in> set is. i_op (insts bir i) = BIR_CALL)"
  by (induction "is" arbitrary: ps) auto

text \<open>The accesses of an instruction that are tagged: its address, if it is not a local slot.\<close>

definition accesses :: "bir_module \<Rightarrow> nat \<Rightarrow> nat \<Rightarrow> nat \<Rightarrow> bool" where
  "accesses bir opc slot i \<longleftrightarrow> i_op (insts bir i) = opc \<and> \<not> isloc bir (i_operands (insts bir i) slot)"

lemma mark_use_loaded:
  "loaded (mark_use bir np i ps p) \<longleftrightarrow> loaded (ps p) \<or>
     accesses bir BIR_LOAD 0 i \<and> p < np \<and> trace_to_param bir (i_operands (insts bir i) 0) = int p"
  by (auto simp: mark_use_def accesses_def Let_def split: if_splits)

lemma mark_use_stored:
  "stored (mark_use bir np i ps p) \<longleftrightarrow> stored (ps p) \<or>
     accesses bir BIR_STORE 1 i \<and> p < np \<and> trace_to_param bir (i_operands (insts bir i) 1) = int p"
  by (auto simp: mark_use_def accesses_def Let_def split: if_splits)

lemma fold_mark_use:
  "loaded (fold (mark_use bir np) is ps p) \<longleftrightarrow> loaded (ps p) \<or>
     (\<exists>i \<in> set is. accesses bir BIR_LOAD 0 i \<and> p < np \<and> trace_to_param bir (i_operands (insts bir i) 0) = int p)"
  "stored (fold (mark_use bir np) is ps p) \<longleftrightarrow> stored (ps p) \<or>
     (\<exists>i \<in> set is. accesses bir BIR_STORE 1 i \<and> p < np \<and> trace_to_param bir (i_operands (insts bir i) 1) = int p)"
  by (induction "is" arbitrary: ps) (auto simp: mark_use_loaded mark_use_stored)

lemma mark_ptr_flags: "loaded (mark_ptr bir np i ps p) = loaded (ps p)" "stored (mark_ptr bir np i ps p) = stored (ps p)"
  by (simp_all add: mark_ptr_def Let_def)


subsection \<open>The pipeline\<close>

text \<open>What the graph should be: the channel ends per parameter, and the arcs of each channel.\<close>

definition param_ends :: "fs_param \<Rightarrow> (nat \<times> nat) list" where
  "param_ends p = (if is_ptr p \<and> loaded p then [(0, 1)] else []) @ (if is_ptr p \<and> stored p then [(1, 2)] else [])"

definition arcs_of :: "nat \<times> nat \<Rightarrow> nat \<Rightarrow> (nat \<times> nat \<times> nat) list" where
  "arcs_of e ch =
     (if e = (0, 1) then [(0, TD_AR_RD, ch), (0, TD_AR_PUSH, ch), (1, TD_AR_WAIT, ch)]
      else [(1, TD_AR_PUSH, ch), (2, TD_AR_WAIT, ch), (2, TD_AR_WR, ch)])"

definition pipeline_arcs :: "(nat \<times> nat) list \<Rightarrow> (nat \<times> nat \<times> nat) list" where
  "pipeline_arcs es = concat (map (\<lambda>k. arcs_of (es ! k) k) [0..<length es])"

definition chan_ends :: "td_mod \<Rightarrow> (nat \<times> nat) list" where
  "chan_ends M = map (\<lambda>i. (ch_prod (chans M i), ch_cons (chans M i))) [0..<ncha M]"

definition arc_list :: "td_mod \<Rightarrow> (nat \<times> nat \<times> nat) list" where
  "arc_list M = map (\<lambda>i. (ar_rgn (arcs M i), ar_kind (arcs M i), ar_chan (arcs M i))) [0..<narc M]"

lemma pipeline_arcs_snoc: "pipeline_arcs (es @ [e]) = pipeline_arcs es @ arcs_of e (length es)"
proof -
  have "map (\<lambda>k. arcs_of ((es @ [e]) ! k) k) [0..<length es] = map (\<lambda>k. arcs_of (es ! k) k) [0..<length es]"
    by (simp add: nth_append)
  moreover have "[0..<length (es @ [e])] = [0..<length es] @ [length es]" by simp
  ultimately show ?thesis
    by (simp only: pipeline_arcs_def map_append concat_append) simp
qed

lemma pipeline_arcs_length: "length (pipeline_arcs es) = 3 * length es"
  by (induction es rule: rev_induct) (simp_all add: pipeline_arcs_snoc arcs_of_def, simp add: pipeline_arcs_def)

definition pipe_inv :: "(nat \<Rightarrow> td_rgn_t) \<Rightarrow> (nat \<times> nat) list \<Rightarrow> td_mod \<Rightarrow> bool" where
  "pipe_inv rs es M \<longleftrightarrow> td_wf M \<and> nrgn M = 3 \<and> rgns M = rs \<and> td_target M = TD_TGT_TENSIX \<and>
     chan_ends M = es \<and> arc_list M = pipeline_arcs es"

lemma pipe_inv_counts: "pipe_inv rs es M \<Longrightarrow> ncha M = length es \<and> narc M = 3 * length es"
proof -
  assume "pipe_inv rs es M"
  then have "length (chan_ends M) = length es" "length (arc_list M) = 3 * length es"
    using pipeline_arcs_length [of es] by (simp_all add: pipe_inv_def)
  then show ?thesis by (simp add: chan_ends_def arc_list_def)
qed

lemma link_snoc:
  assumes "ncha M < TD_MAX_CHANS" "prd < nrgn M" "cns < nrgn M"
  shows "\<exists>M1. td_link M prd cns tag d = (M1, ncha M) \<and> chan_ends M1 = chan_ends M @ [(prd, cns)] \<and>
    arc_list M1 = arc_list M \<and> nrgn M1 = nrgn M \<and> rgns M1 = rgns M \<and> narc M1 = narc M \<and>
    ncha M1 = ncha M + 1 \<and> td_target M1 = td_target M"
  using assms by (simp add: td_link_def Let_def chan_ends_def arc_list_def)

lemma mkarc_snoc:
  assumes "narc M < TD_MAX_ARCS" "r < nrgn M" "ch < ncha M" "k < 256"
  shows "arc_list (fst (td_mkarc M r k ch c a)) = arc_list M @ [(r, k, ch)] \<and>
    narc (fst (td_mkarc M r k ch c a)) = narc M + 1 \<and> nrgn (fst (td_mkarc M r k ch c a)) = nrgn M \<and>
    ncha (fst (td_mkarc M r k ch c a)) = ncha M \<and> rgns (fst (td_mkarc M r k ch c a)) = rgns M \<and>
    td_target (fst (td_mkarc M r k ch c a)) = td_target M \<and>
    chan_ends (fst (td_mkarc M r k ch c a)) = chan_ends M"
  using assms by (simp add: td_mkarc_def arc_list_def chan_ends_def Let_def)

lemma link_arcs_snoc:
  assumes "pipe_inv rs es M" "length es < TD_MAX_CHANS"
    and "(prd, cns) = (0, 1) \<and> ks = [(0, TD_AR_RD), (0, TD_AR_PUSH), (1, TD_AR_WAIT)] \<or>
      (prd, cns) = (1, 2) \<and> ks = [(1, TD_AR_PUSH), (2, TD_AR_WAIT), (2, TD_AR_WR)]"
  shows "\<exists>M'. link_arcs prd cns ks M = (M', True) \<and> pipe_inv rs (es @ [(prd, cns)]) M'"
proof -
  note n = pipe_inv_counts [OF assms(1)]
  note inv = assms(1) [unfolded pipe_inv_def]
  have ends: "prd < nrgn M" "cns < nrgn M" using assms(3) inv by auto
  obtain M1 where l: "td_link M prd cns default_tile FS_CB_DEPTH = (M1, length es)"
    and M1: "chan_ends M1 = es @ [(prd, cns)]" "arc_list M1 = arc_list M" "nrgn M1 = 3" "rgns M1 = rs"
      "narc M1 = narc M" "ncha M1 = length es + 1" "td_target M1 = td_target M"
    using link_snoc [OF _ ends, of default_tile FS_CB_DEPTH] n assms(2) inv by auto
  have wf1: "td_wf M1" using td_link_wf [of M prd cns default_tile FS_CB_DEPTH] l inv by simp
  obtain r1 k1 r2 k2 r3 k3 where ks: "ks = [(r1, k1), (r2, k2), (r3, k3)]" and
    b: "r1 < 3" "r2 < 3" "r3 < 3" "k1 < 256" "k2 < 256" "k3 < 256" and
    ao: "arcs_of (prd, cns) ch = [(r1, k1, ch), (r2, k2, ch), (r3, k3, ch)]" for ch
    using assms(3) by (auto simp: arcs_of_def)
  define A where "A r k M = fst (td_mkarc M r k (length es) 1 0)" for r k M
  note snoc = mkarc_snoc [of _ _ "length es" _ 1 0, folded A_def]
  have s1: "arc_list (A r1 k1 M1) = arc_list M @ [(r1, k1, length es)]" "narc (A r1 k1 M1) = narc M + 1"
    "nrgn (A r1 k1 M1) = 3" "ncha (A r1 k1 M1) = length es + 1" "rgns (A r1 k1 M1) = rs"
    "td_target (A r1 k1 M1) = td_target M" "chan_ends (A r1 k1 M1) = es @ [(prd, cns)]"
    using snoc [of M1 r1 k1] M1 n b assms(2) by simp_all
  have s2: "arc_list (A r2 k2 (A r1 k1 M1)) = arc_list M @ [(r1, k1, length es), (r2, k2, length es)]"
    "narc (A r2 k2 (A r1 k1 M1)) = narc M + 2" "nrgn (A r2 k2 (A r1 k1 M1)) = 3"
    "ncha (A r2 k2 (A r1 k1 M1)) = length es + 1" "rgns (A r2 k2 (A r1 k1 M1)) = rs"
    "td_target (A r2 k2 (A r1 k1 M1)) = td_target M" "chan_ends (A r2 k2 (A r1 k1 M1)) = es @ [(prd, cns)]"
    using snoc [of "A r1 k1 M1" r2 k2] s1 n b assms(2) by simp_all
  define M4 where "M4 = A r3 k3 (A r2 k2 (A r1 k1 M1))"
  have s3: "arc_list M4 = arc_list M @ arcs_of (prd, cns) (length es)" "nrgn M4 = 3" "rgns M4 = rs"
    "td_target M4 = td_target M" "chan_ends M4 = es @ [(prd, cns)]"
    using snoc [of "A r2 k2 (A r1 k1 M1)" r3 k3] s2 n b assms(2) unfolding M4_def ao by simp_all
  have "td_wf M4" using wf1 b by (simp add: M4_def A_def wf_intros)
  then have "pipe_inv rs (es @ [(prd, cns)]) M4"
    using s3 inv by (simp add: pipe_inv_def pipeline_arcs_snoc)
  moreover have "link_arcs prd cns ks M = (M4, True)"
    using assms(2) by (simp add: link_arcs_def l ks M4_def A_def)
  ultimately show ?thesis by blast
qed

lemma fission_param_inv:
  assumes "pipe_inv rs es M" "length es + 2 \<le> TD_MAX_CHANS"
  shows "\<exists>M'. fission_param 0 1 2 p (M, True) = (M', True) \<and> pipe_inv rs (es @ param_ends p) M'"
proof (cases "is_ptr p")
  case True
  obtain M1 where M1: "(if loaded p then link_arcs 0 1 [(0, TD_AR_RD), (0, TD_AR_PUSH), (1, TD_AR_WAIT)] M else (M, True)) = (M1, True)"
    and inv1: "pipe_inv rs (es @ (if loaded p then [(0, 1)] else [])) M1"
    using link_arcs_snoc [OF assms(1), of 0 1 "[(0, TD_AR_RD), (0, TD_AR_PUSH), (1, TD_AR_WAIT)]"] assms by (cases "loaded p") auto
  obtain M2 where M2: "(if stored p then link_arcs 1 2 [(1, TD_AR_PUSH), (2, TD_AR_WAIT), (2, TD_AR_WR)] M1 else (M1, True)) = (M2, True)"
    and inv2: "pipe_inv rs ((es @ (if loaded p then [(0, 1)] else [])) @ (if stored p then [(1, 2)] else [])) M2"
    using link_arcs_snoc [OF inv1, of 1 2 "[(1, TD_AR_PUSH), (2, TD_AR_WAIT), (2, TD_AR_WR)]"] inv1 assms(2)
    by (cases "stored p"; cases "loaded p") auto
  have "fission_param 0 1 2 p (M, True) = (M2, True)"
    by (simp only: fission_param_def Let_def prod.case True not_True_eq_False if_False M1 M2)
  then show ?thesis using inv2 True by (auto simp: param_ends_def)
next
  case False
  then show ?thesis using assms(1) by (simp add: fission_param_def param_ends_def)
qed

lemma fission_loop_inv:
  assumes "pipe_inv rs [] M" "np \<le> FS_MAX_PARAMS"
  shows "\<exists>M'. for_loop 0 np (\<lambda>pi. fission_param 0 1 2 (ps pi)) (M, True) = (M', True) \<and>
    pipe_inv rs (concat (map (\<lambda>pi. param_ends (ps pi)) [0..<np])) M'"
  using assms(2)
proof (induction np)
  case 0
  then show ?case using assms(1) by simp
next
  case (Suc np)
  let ?es = "concat (map (\<lambda>pi. param_ends (ps pi)) [0..<np])"
  obtain M' where M': "for_loop 0 np (\<lambda>pi. fission_param 0 1 2 (ps pi)) (M, True) = (M', True)" "pipe_inv rs ?es M'"
    using Suc by auto
  have "length ?es \<le> 2 * np" by (induction np) (auto simp: param_ends_def)
  then have "length ?es + 2 \<le> TD_MAX_CHANS" using Suc.prems by simp
  from fission_param_inv [OF M'(2) this, of "ps np"] M'(1) show ?case by (auto simp: for_loop_Suc)
qed

lemma fission_regions_eq:
  "\<exists>M7. fission_regions body = ((M7, 0, 1, 2), True) \<and> pipe_inv (rgns M7) [] M7 \<and>
     map (\<lambda>i. rg_role (rgns M7 i)) [0, 1, 2] = [TD_RG_RDR, TD_RG_CMP, TD_RG_WRT] \<and>
     map (\<lambda>i. rg_core (rgns M7 i)) [0, 1, 2] = [0, 1, 4] \<and> rg_body (rgns M7 1) = Some body"
proof -
  define M7 where "M7 = fst (fst (fission_regions body))"
  have e: "fission_regions body = ((M7, 0, 1, 2), True)"
    by (simp add: M7_def fission_regions_def td_mkrgn_def td_init_def)
  have n: "nrgn M7 = 3" "ncha M7 = 0" "narc M7 = 0" "td_target M7 = TD_TGT_TENSIX"
    and r: "rgns M7 0 = zero_rgn\<lparr>rg_id := 0, rg_role := TD_RG_RDR, rg_core := 0\<rparr>"
      "rgns M7 1 = zero_rgn\<lparr>rg_id := 1, rg_role := TD_RG_CMP, rg_core := 1, rg_body := Some body\<rparr>"
      "rgns M7 2 = zero_rgn\<lparr>rg_id := 2, rg_role := TD_RG_WRT, rg_core := 4\<rparr>"
    by (simp_all add: M7_def fission_regions_def td_mkrgn_def td_init_def zero_rgn_def)
  have "rg_id (rgns M7 i) = i" if "i < 3" for i
  proof -
    have "i = 0 \<or> i = 1 \<or> i = 2" using that by arith
    then show ?thesis using r by auto
  qed
  then have "pipe_inv (rgns M7) [] M7"
    using n by (simp add: pipe_inv_def td_wf_def chan_ends_def arc_list_def pipeline_arcs_def)
  then show ?thesis using e r by (intro exI [of _ M7]) simp
qed

text \<open>
  Property C18.  Fission builds the pipeline it describes, and cannot run out of room doing so:
  when the kernel can be classified, the result is a well-formed graph of a reader, a compute
  and a writer region on their cores, with the body on the compute region, one reader-compute
  channel per input pointer and one compute-writer channel per output pointer in parameter
  order, each with its NoC arc and its push/wait pair.
\<close>

theorem fission_builds_pipeline:
  assumes "td_target M = TD_TGT_TENSIX" "nrgn M = 1" "rg_role (rgns M 0) = TD_RG_SOLO"
    and "rg_body (rgns M 0) = Some body" "find_kernel body = Some fi" "classify_params body fi = (Some ps, np)"
  shows "\<exists>M'. td_fission_tensix M = (M', BC_OK) \<and> td_wf M' \<and> nrgn M' = 3 \<and>
    map (\<lambda>i. rg_role (rgns M' i)) [0, 1, 2] = [TD_RG_RDR, TD_RG_CMP, TD_RG_WRT] \<and>
    map (\<lambda>i. rg_core (rgns M' i)) [0, 1, 2] = [0, 1, 4] \<and> rg_body (rgns M' 1) = Some body \<and>
    chan_ends M' = concat (map (\<lambda>pi. param_ends (ps pi)) [0..<np]) \<and> arc_list M' = pipeline_arcs (chan_ends M')"
proof -
  obtain M7 where r: "fission_regions body = ((M7, 0, 1, 2), True)" "pipe_inv (rgns M7) [] M7"
    "map (\<lambda>i. rg_role (rgns M7 i)) [0, 1, 2] = [TD_RG_RDR, TD_RG_CMP, TD_RG_WRT]"
    "map (\<lambda>i. rg_core (rgns M7 i)) [0, 1, 2] = [0, 1, 4]" "rg_body (rgns M7 1) = Some body"
    using fission_regions_eq [of body] by (elim exE conjE) (rule that)
  have "np \<le> FS_MAX_PARAMS" using assms(6) by (auto simp: classify_params_def Let_def split: if_splits)
  from fission_loop_inv [OF r(2) this, of ps]
  obtain M' where M': "for_loop 0 np (\<lambda>pi. fission_param 0 1 2 (ps pi)) (M7, True) = (M', True)"
    "pipe_inv (rgns M7) (concat (map (\<lambda>pi. param_ends (ps pi)) [0..<np])) M'" by blast
  have "td_fission_tensix M = (M', BC_OK)"
    using assms M'(1) by (simp add: td_fission_tensix_def r(1))
  then show ?thesis using M'(2) r(3-5) by (auto simp: pipe_inv_def)
qed

text \<open>
  Property C35.  Lowering refines the pass-through contract: it succeeds exactly on a known target
  with a single SOLO region that has a body and no channels or arcs, and then hands on that body,
  unowned, as the only output; wrapping a module and lowering it gives the module back.
\<close>

theorem td_lower_passthrough:
  "(snd (td_lower M) = BC_OK \<longleftrightarrow>
      td_target M \<le> TD_TGT_TENSIX \<and> nrgn M = 1 \<and> rg_role (rgns M 0) = TD_RG_SOLO \<and> rg_body (rgns M 0) \<noteq> None \<and>
      ncha M = 0 \<and> narc M = 0) \<and>
    (snd (td_lower M) = BC_OK \<longrightarrow> lo_nmods (fst (td_lower M)) = 1 \<and>
      lo_mods (fst (td_lower M)) 0 = rg_body (rgns M 0) \<and> \<not> lo_owns (fst (td_lower M)) 0) \<and>
    (\<forall>M0 tgt B. tgt \<le> TD_TGT_TENSIX \<longrightarrow>
      lo_mods (fst (td_lower (fst (td_build_solo_from_bir M0 tgt (Some B))))) 0 = Some B)"
proof (intro conjI allI impI)
  show "snd (td_lower M) = BC_OK \<longleftrightarrow>
      td_target M \<le> TD_TGT_TENSIX \<and> nrgn M = 1 \<and> rg_role (rgns M 0) = TD_RG_SOLO \<and> rg_body (rgns M 0) \<noteq> None \<and>
      ncha M = 0 \<and> narc M = 0"
    by (auto simp: td_lower_def lower_tensix_def lower_solo_passthrough_def Let_def)
  assume "snd (td_lower M) = BC_OK"
  then show "lo_nmods (fst (td_lower M)) = 1" "lo_mods (fst (td_lower M)) 0 = rg_body (rgns M 0)"
    "\<not> lo_owns (fst (td_lower M)) 0"
    by (auto simp: td_lower_def lower_tensix_def lower_solo_passthrough_def Let_def split: if_splits)
next
  fix M0 :: td_mod and tgt and B :: bir_module
  assume "tgt \<le> TD_TGT_TENSIX"
  then show "lo_mods (fst (td_lower (fst (td_build_solo_from_bir M0 tgt (Some B))))) 0 = Some B"
    by (auto simp: td_build_solo_from_bir_def td_mkrgn_def td_init_def zero_rgn_def td_lower_def lower_tensix_def
        lower_solo_passthrough_def Let_def)
qed

subsection \<open>A sample kernel\<close>

text \<open>One pointer parameter, loaded and stored in place.\<close>

definition inplace_kernel :: bir_module where
  "inplace_kernel = (cleared_module ((\<lambda>_. zero_inst)(
       0 := zero_inst\<lparr>i_op := BIR_PARAM, i_type := 1\<rparr>,
       1 := zero_inst\<lparr>i_op := BIR_LOAD, i_num_operands := 1, i_operands := ops_of [0]\<rparr>,
       2 := zero_inst\<lparr>i_op := BIR_STORE, i_num_operands := 2, i_operands := ops_of [1, 0]\<rparr>,
       3 := zero_inst\<lparr>i_op := BIR_RET\<rparr>)))\<lparr>num_insts := 4,
       types := (\<lambda>_. zero_type)(1 := zero_type\<lparr>t_kind := BIR_TYPE_PTR, t_addrspace := BIR_AS_GLOBAL\<rparr>), num_types := 2,
       blocks := (\<lambda>_. zero_block\<lparr>b_num_insts := 4\<rparr>), num_blocks := 1,
       funcs := (\<lambda>_. zero_func\<lparr>f_num_blocks := 1, f_num_params := 1, f_cuda_flags := CUDA_GLOBAL\<rparr>), num_funcs := 1\<rparr>"

lemmas inplace_defs = inplace_kernel_def cleared_module_def zero_inst_def zero_block_def zero_func_def zero_type_def ops_of_def

definition both_param :: fs_param where
  "both_param = \<lparr>is_ptr = True, loaded = True, stored = True\<rparr>"

lemma inplace_trace:
  "trace_to_param inplace_kernel 0 = 0" "\<not> isloc inplace_kernel 0"
  by (simp_all add: trace_to_param_def isloc_def inplace_defs BIR_VAL_IS_CONST_def BIR_VAL_INDEX_def
      trace_from.simps(2) [of 15, simplified] isloc_from.simps(2) [of 15, simplified])

lemma inplace_find: "find_kernel inplace_kernel = Some 0"
  by (simp add: find_kernel_def inplace_defs)

lemma inplace_insts: "kernel_insts inplace_kernel (funcs inplace_kernel 0) = [0, 1, 2, 3]"
  by (simp add: kernel_insts_def inplace_defs upt_rec)

lemma inplace_classify: "classify_params inplace_kernel 0 = (Some ((\<lambda>_. zero_param)(0 := both_param)), 1)"
proof -
  have "for_loop 0 4 (mark_ptr inplace_kernel 1) (\<lambda>_. zero_param) = (\<lambda>_. zero_param)(0 := zero_param\<lparr>is_ptr := True\<rparr>)"
    by (simp add: for_loop_def upt_rec mark_ptr_def) (simp add: inplace_defs)
  then have "for_loop 0 (min 4 8192) (mark_ptr inplace_kernel 1) (\<lambda>_. zero_param) = (\<lambda>_. zero_param)(0 := zero_param\<lparr>is_ptr := True\<rparr>)"
    by simp
  moreover have "scan_insts inplace_kernel 1 [0, 1, 2, 3] ((\<lambda>_. zero_param)(0 := zero_param\<lparr>is_ptr := True\<rparr>)) =
      Some ((\<lambda>_. zero_param)(0 := both_param))"
    using inplace_trace
    by (simp add: mark_use_def) (simp add: inplace_defs fun_eq_iff zero_param_def both_param_def)
  moreover have "num_insts inplace_kernel = 4" "f_num_params (funcs inplace_kernel 0) = 1"
    "f_first_block (funcs inplace_kernel 0) = 0" "num_blocks inplace_kernel = 1" "b_first_inst (blocks inplace_kernel 0) = 0"
    by (simp_all add: inplace_defs)
  ultimately show ?thesis by (simp add: classify_params_def inplace_insts del: scan_insts.simps)
qed


definition solo_graph :: td_mod where
  "solo_graph = fst (td_build_solo_from_bir (td_init 0) TD_TGT_TENSIX (Some inplace_kernel))"

theorem fission_builds_pipeline_witness:
  "\<exists>M'. td_fission_tensix solo_graph = (M', BC_OK) \<and> chan_ends M' = [(0, 1), (1, 2)]"
proof -
  have "td_target solo_graph = TD_TGT_TENSIX" "nrgn solo_graph = 1" "rg_role (rgns solo_graph 0) = TD_RG_SOLO"
    "rg_body (rgns solo_graph 0) = Some inplace_kernel"
    by (simp_all add: solo_graph_def td_build_solo_from_bir_def td_mkrgn_def td_init_def)
  from fission_builds_pipeline [OF this inplace_find inplace_classify]
  show ?thesis by (auto simp: param_ends_def both_param_def)
qed

theorem td_lower_passthrough_witness: "lo_mods (fst (td_lower solo_graph)) 0 = Some inplace_kernel"
  using td_lower_passthrough by (simp add: solo_graph_def)

end
