(* ===== verification/Rv_Enc.thy ===== *)
theory Rv_Enc
  imports Booth_Prelude
begin

text \<open>
  The RV32IM encoder, \<open>src/src/tensix/rv_enc.c\<close>: one packing function per instruction format and
  one encoder per instruction.  Registers are \<open>uint8_t\<close>, the \<open>int16_t\<close> immediates are 16-bit
  words read as signed, the \<open>int32_t\<close> jump offset is a 32-bit word.  The second half is a
  decoder written from the instruction tables of the RISC-V manual, and the proof that it
  inverts every encoder on operands in range.
\<close>

type_synonym i16 = "16 word"

subsection \<open>Formats\<close>

definition enc_r :: "u32 \<Rightarrow> u8 \<Rightarrow> u8 \<Rightarrow> u32 \<Rightarrow> u8 \<Rightarrow> u32 \<Rightarrow> u32" where
  "enc_r f7 rs2 rs1 f3 rd op =
     push_bit 25 (f7 AND 0x7F) OR push_bit 20 (ucast rs2 AND 0x1F) OR push_bit 15 (ucast rs1 AND 0x1F)
     OR push_bit 12 (f3 AND 0x7) OR push_bit 7 (ucast rd AND 0x1F) OR (op AND 0x7F)"

definition enc_i :: "i16 \<Rightarrow> u8 \<Rightarrow> u32 \<Rightarrow> u8 \<Rightarrow> u32 \<Rightarrow> u32" where
  "enc_i imm rs1 f3 rd op =
     push_bit 20 (scast imm AND 0xFFF) OR push_bit 15 (ucast rs1 AND 0x1F)
     OR push_bit 12 (f3 AND 0x7) OR push_bit 7 (ucast rd AND 0x1F) OR (op AND 0x7F)"

definition enc_ish :: "u32 \<Rightarrow> u8 \<Rightarrow> u8 \<Rightarrow> u32 \<Rightarrow> u8 \<Rightarrow> u32 \<Rightarrow> u32" where
  "enc_ish f7 shamt rs1 f3 rd op =
     push_bit 25 (f7 AND 0x7F) OR push_bit 20 (ucast shamt AND 0x1F) OR push_bit 15 (ucast rs1 AND 0x1F)
     OR push_bit 12 (f3 AND 0x7) OR push_bit 7 (ucast rd AND 0x1F) OR (op AND 0x7F)"

definition enc_s :: "i16 \<Rightarrow> u8 \<Rightarrow> u8 \<Rightarrow> u32 \<Rightarrow> u32 \<Rightarrow> u32" where
  "enc_s imm rs2 rs1 f3 op =
     (let u = scast imm AND 0xFFF in
      push_bit 25 (drop_bit 5 u) OR push_bit 20 (ucast rs2 AND 0x1F) OR push_bit 15 (ucast rs1 AND 0x1F)
      OR push_bit 12 (f3 AND 0x7) OR push_bit 7 (u AND 0x1F) OR (op AND 0x7F))"

definition enc_b :: "i16 \<Rightarrow> u8 \<Rightarrow> u8 \<Rightarrow> u32 \<Rightarrow> u32 \<Rightarrow> u32" where
  "enc_b offset rs1 rs2 f3 op =
     (let u = scast offset AND 0x1FFF;
          b12 = drop_bit 12 u AND 0x1;
          b11 = drop_bit 11 u AND 0x1;
          b10_5 = drop_bit 5 u AND 0x3F;
          b4_1 = drop_bit 1 u AND 0xF
      in push_bit 31 b12 OR push_bit 25 b10_5 OR push_bit 20 (ucast rs2 AND 0x1F)
         OR push_bit 15 (ucast rs1 AND 0x1F) OR push_bit 12 (f3 AND 0x7)
         OR push_bit 8 b4_1 OR push_bit 7 b11 OR (op AND 0x7F))"

definition enc_u :: "u32 \<Rightarrow> u8 \<Rightarrow> u32 \<Rightarrow> u32" where
  "enc_u imm_hi20 rd op = push_bit 12 (imm_hi20 AND 0xFFFFF) OR push_bit 7 (ucast rd AND 0x1F) OR (op AND 0x7F)"

definition enc_j :: "u32 \<Rightarrow> u8 \<Rightarrow> u32 \<Rightarrow> u32" where
  "enc_j offset rd op =
     (let u = offset AND 0x1FFFFF;
          b20 = drop_bit 20 u AND 0x1;
          b19_12 = drop_bit 12 u AND 0xFF;
          b11 = drop_bit 11 u AND 0x1;
          b10_1 = drop_bit 1 u AND 0x3FF
      in push_bit 31 b20 OR push_bit 21 b10_1 OR push_bit 20 b11 OR push_bit 12 b19_12
         OR push_bit 7 (ucast rd AND 0x1F) OR (op AND 0x7F))"

subsection \<open>Instructions\<close>

definition rv_add :: "u8 \<Rightarrow> u8 \<Rightarrow> u8 \<Rightarrow> u32" where
  "rv_add rd rs1 rs2 = enc_r 0x00 rs2 rs1 0x0 rd 0x33"

definition rv_sub :: "u8 \<Rightarrow> u8 \<Rightarrow> u8 \<Rightarrow> u32" where
  "rv_sub rd rs1 rs2 = enc_r 0x20 rs2 rs1 0x0 rd 0x33"

definition rv_and :: "u8 \<Rightarrow> u8 \<Rightarrow> u8 \<Rightarrow> u32" where
  "rv_and rd rs1 rs2 = enc_r 0x00 rs2 rs1 0x7 rd 0x33"

definition rv_or :: "u8 \<Rightarrow> u8 \<Rightarrow> u8 \<Rightarrow> u32" where
  "rv_or rd rs1 rs2 = enc_r 0x00 rs2 rs1 0x6 rd 0x33"

definition rv_xor :: "u8 \<Rightarrow> u8 \<Rightarrow> u8 \<Rightarrow> u32" where
  "rv_xor rd rs1 rs2 = enc_r 0x00 rs2 rs1 0x4 rd 0x33"

definition rv_sll :: "u8 \<Rightarrow> u8 \<Rightarrow> u8 \<Rightarrow> u32" where
  "rv_sll rd rs1 rs2 = enc_r 0x00 rs2 rs1 0x1 rd 0x33"

definition rv_srl :: "u8 \<Rightarrow> u8 \<Rightarrow> u8 \<Rightarrow> u32" where
  "rv_srl rd rs1 rs2 = enc_r 0x00 rs2 rs1 0x5 rd 0x33"

definition rv_sra :: "u8 \<Rightarrow> u8 \<Rightarrow> u8 \<Rightarrow> u32" where
  "rv_sra rd rs1 rs2 = enc_r 0x20 rs2 rs1 0x5 rd 0x33"

definition rv_slt :: "u8 \<Rightarrow> u8 \<Rightarrow> u8 \<Rightarrow> u32" where
  "rv_slt rd rs1 rs2 = enc_r 0x00 rs2 rs1 0x2 rd 0x33"

definition rv_sltu :: "u8 \<Rightarrow> u8 \<Rightarrow> u8 \<Rightarrow> u32" where
  "rv_sltu rd rs1 rs2 = enc_r 0x00 rs2 rs1 0x3 rd 0x33"

definition rv_addi :: "u8 \<Rightarrow> u8 \<Rightarrow> i16 \<Rightarrow> u32" where
  "rv_addi rd rs1 imm = enc_i imm rs1 0x0 rd 0x13"

definition rv_andi :: "u8 \<Rightarrow> u8 \<Rightarrow> i16 \<Rightarrow> u32" where
  "rv_andi rd rs1 imm = enc_i imm rs1 0x7 rd 0x13"

definition rv_ori :: "u8 \<Rightarrow> u8 \<Rightarrow> i16 \<Rightarrow> u32" where
  "rv_ori rd rs1 imm = enc_i imm rs1 0x6 rd 0x13"

definition rv_xori :: "u8 \<Rightarrow> u8 \<Rightarrow> i16 \<Rightarrow> u32" where
  "rv_xori rd rs1 imm = enc_i imm rs1 0x4 rd 0x13"

definition rv_slti :: "u8 \<Rightarrow> u8 \<Rightarrow> i16 \<Rightarrow> u32" where
  "rv_slti rd rs1 imm = enc_i imm rs1 0x2 rd 0x13"

definition rv_sltiu :: "u8 \<Rightarrow> u8 \<Rightarrow> i16 \<Rightarrow> u32" where
  "rv_sltiu rd rs1 imm = enc_i imm rs1 0x3 rd 0x13"

definition rv_slli :: "u8 \<Rightarrow> u8 \<Rightarrow> u8 \<Rightarrow> u32" where
  "rv_slli rd rs1 shamt = enc_ish 0x00 shamt rs1 0x1 rd 0x13"

definition rv_srli :: "u8 \<Rightarrow> u8 \<Rightarrow> u8 \<Rightarrow> u32" where
  "rv_srli rd rs1 shamt = enc_ish 0x00 shamt rs1 0x5 rd 0x13"

definition rv_srai :: "u8 \<Rightarrow> u8 \<Rightarrow> u8 \<Rightarrow> u32" where
  "rv_srai rd rs1 shamt = enc_ish 0x20 shamt rs1 0x5 rd 0x13"

definition rv_lw :: "u8 \<Rightarrow> u8 \<Rightarrow> i16 \<Rightarrow> u32" where
  "rv_lw rd rs1 imm = enc_i imm rs1 0x2 rd 0x03"

definition rv_lh :: "u8 \<Rightarrow> u8 \<Rightarrow> i16 \<Rightarrow> u32" where
  "rv_lh rd rs1 imm = enc_i imm rs1 0x1 rd 0x03"

definition rv_lhu :: "u8 \<Rightarrow> u8 \<Rightarrow> i16 \<Rightarrow> u32" where
  "rv_lhu rd rs1 imm = enc_i imm rs1 0x5 rd 0x03"

definition rv_lb :: "u8 \<Rightarrow> u8 \<Rightarrow> i16 \<Rightarrow> u32" where
  "rv_lb rd rs1 imm = enc_i imm rs1 0x0 rd 0x03"

definition rv_lbu :: "u8 \<Rightarrow> u8 \<Rightarrow> i16 \<Rightarrow> u32" where
  "rv_lbu rd rs1 imm = enc_i imm rs1 0x4 rd 0x03"

definition rv_sw :: "u8 \<Rightarrow> u8 \<Rightarrow> i16 \<Rightarrow> u32" where
  "rv_sw rs2 rs1 imm = enc_s imm rs2 rs1 0x2 0x23"

definition rv_sh :: "u8 \<Rightarrow> u8 \<Rightarrow> i16 \<Rightarrow> u32" where
  "rv_sh rs2 rs1 imm = enc_s imm rs2 rs1 0x1 0x23"

definition rv_sb :: "u8 \<Rightarrow> u8 \<Rightarrow> i16 \<Rightarrow> u32" where
  "rv_sb rs2 rs1 imm = enc_s imm rs2 rs1 0x0 0x23"

definition rv_beq :: "u8 \<Rightarrow> u8 \<Rightarrow> i16 \<Rightarrow> u32" where
  "rv_beq rs1 rs2 off = enc_b off rs1 rs2 0x0 0x63"

definition rv_bne :: "u8 \<Rightarrow> u8 \<Rightarrow> i16 \<Rightarrow> u32" where
  "rv_bne rs1 rs2 off = enc_b off rs1 rs2 0x1 0x63"

definition rv_blt :: "u8 \<Rightarrow> u8 \<Rightarrow> i16 \<Rightarrow> u32" where
  "rv_blt rs1 rs2 off = enc_b off rs1 rs2 0x4 0x63"

definition rv_bge :: "u8 \<Rightarrow> u8 \<Rightarrow> i16 \<Rightarrow> u32" where
  "rv_bge rs1 rs2 off = enc_b off rs1 rs2 0x5 0x63"

definition rv_bltu :: "u8 \<Rightarrow> u8 \<Rightarrow> i16 \<Rightarrow> u32" where
  "rv_bltu rs1 rs2 off = enc_b off rs1 rs2 0x6 0x63"

definition rv_bgeu :: "u8 \<Rightarrow> u8 \<Rightarrow> i16 \<Rightarrow> u32" where
  "rv_bgeu rs1 rs2 off = enc_b off rs1 rs2 0x7 0x63"

definition rv_jal :: "u8 \<Rightarrow> u32 \<Rightarrow> u32" where
  "rv_jal rd off = enc_j off rd 0x6F"

definition rv_jalr :: "u8 \<Rightarrow> u8 \<Rightarrow> i16 \<Rightarrow> u32" where
  "rv_jalr rd rs1 imm = enc_i imm rs1 0x0 rd 0x67"

definition rv_lui :: "u8 \<Rightarrow> u32 \<Rightarrow> u32" where
  "rv_lui rd hi20 = enc_u hi20 rd 0x37"

definition rv_auipc :: "u8 \<Rightarrow> u32 \<Rightarrow> u32" where
  "rv_auipc rd hi20 = enc_u hi20 rd 0x17"

definition rv_mul :: "u8 \<Rightarrow> u8 \<Rightarrow> u8 \<Rightarrow> u32" where
  "rv_mul rd rs1 rs2 = enc_r 0x01 rs2 rs1 0x0 rd 0x33"

definition rv_mulh :: "u8 \<Rightarrow> u8 \<Rightarrow> u8 \<Rightarrow> u32" where
  "rv_mulh rd rs1 rs2 = enc_r 0x01 rs2 rs1 0x1 rd 0x33"

definition rv_mulhsu :: "u8 \<Rightarrow> u8 \<Rightarrow> u8 \<Rightarrow> u32" where
  "rv_mulhsu rd rs1 rs2 = enc_r 0x01 rs2 rs1 0x2 rd 0x33"

definition rv_mulhu :: "u8 \<Rightarrow> u8 \<Rightarrow> u8 \<Rightarrow> u32" where
  "rv_mulhu rd rs1 rs2 = enc_r 0x01 rs2 rs1 0x3 rd 0x33"

definition rv_div :: "u8 \<Rightarrow> u8 \<Rightarrow> u8 \<Rightarrow> u32" where
  "rv_div rd rs1 rs2 = enc_r 0x01 rs2 rs1 0x4 rd 0x33"

definition rv_divu :: "u8 \<Rightarrow> u8 \<Rightarrow> u8 \<Rightarrow> u32" where
  "rv_divu rd rs1 rs2 = enc_r 0x01 rs2 rs1 0x5 rd 0x33"

definition rv_rem :: "u8 \<Rightarrow> u8 \<Rightarrow> u8 \<Rightarrow> u32" where
  "rv_rem rd rs1 rs2 = enc_r 0x01 rs2 rs1 0x6 rd 0x33"

definition rv_remu :: "u8 \<Rightarrow> u8 \<Rightarrow> u8 \<Rightarrow> u32" where
  "rv_remu rd rs1 rs2 = enc_r 0x01 rs2 rs1 0x7 rd 0x33"

definition rv_fence :: "u8 \<Rightarrow> u8 \<Rightarrow> u32" where
  "rv_fence pred succ = push_bit 24 (ucast pred AND 0xF) OR push_bit 20 (ucast succ AND 0xF) OR 0x0F"

definition rv_ecall :: u32 where "rv_ecall = 0x00000073"

definition rv_ebreak :: u32 where "rv_ebreak = 0x00100073"

definition rv_unimp :: u32 where "rv_unimp = 0xC0001073"

definition rv_nop :: u32 where "rv_nop = rv_addi 0 0 0"

subsection \<open>Instruction tables\<close>

datatype alu_op = ADD | SUB | SLL | SLT | SLTU | XORR | SRL | SRA | ORR | ANDR
  | MUL | MULH | MULHSU | MULHU | DIV | DIVU | REM | REMU
datatype imm_op = ADDI | SLTI | SLTIU | XORI | ORI | ANDI
datatype sh_op = SLLI | SRLI | SRAI
datatype ld_op = LB | LH | LW | LBU | LHU
datatype st_op = SB | SH | SW
datatype br_op = BEQ | BNE | BLT | BGE | BLTU | BGEU

datatype rv_inst =
    Alu alu_op u8 u8 u8 | AluI imm_op u8 u8 i16 | ShI sh_op u8 u8 u8
  | Load ld_op u8 u8 i16 | Store st_op u8 u8 i16 | Branch br_op u8 u8 i16
  | Jal u8 u32 | Jalr u8 u8 i16 | Lui u8 u32 | Auipc u8 u32
  | Fence u8 u8 | Ecall | Ebreak | Unimp

text \<open>Each instruction through its encoder.\<close>

fun rv_encode :: "rv_inst \<Rightarrow> u32" where
  "rv_encode (Alu ADD rd rs1 rs2) = rv_add rd rs1 rs2"
| "rv_encode (Alu SUB rd rs1 rs2) = rv_sub rd rs1 rs2"
| "rv_encode (Alu SLL rd rs1 rs2) = rv_sll rd rs1 rs2"
| "rv_encode (Alu SLT rd rs1 rs2) = rv_slt rd rs1 rs2"
| "rv_encode (Alu SLTU rd rs1 rs2) = rv_sltu rd rs1 rs2"
| "rv_encode (Alu XORR rd rs1 rs2) = rv_xor rd rs1 rs2"
| "rv_encode (Alu SRL rd rs1 rs2) = rv_srl rd rs1 rs2"
| "rv_encode (Alu SRA rd rs1 rs2) = rv_sra rd rs1 rs2"
| "rv_encode (Alu ORR rd rs1 rs2) = rv_or rd rs1 rs2"
| "rv_encode (Alu ANDR rd rs1 rs2) = rv_and rd rs1 rs2"
| "rv_encode (Alu MUL rd rs1 rs2) = rv_mul rd rs1 rs2"
| "rv_encode (Alu MULH rd rs1 rs2) = rv_mulh rd rs1 rs2"
| "rv_encode (Alu MULHSU rd rs1 rs2) = rv_mulhsu rd rs1 rs2"
| "rv_encode (Alu MULHU rd rs1 rs2) = rv_mulhu rd rs1 rs2"
| "rv_encode (Alu DIV rd rs1 rs2) = rv_div rd rs1 rs2"
| "rv_encode (Alu DIVU rd rs1 rs2) = rv_divu rd rs1 rs2"
| "rv_encode (Alu REM rd rs1 rs2) = rv_rem rd rs1 rs2"
| "rv_encode (Alu REMU rd rs1 rs2) = rv_remu rd rs1 rs2"
| "rv_encode (AluI ADDI rd rs1 imm) = rv_addi rd rs1 imm"
| "rv_encode (AluI SLTI rd rs1 imm) = rv_slti rd rs1 imm"
| "rv_encode (AluI SLTIU rd rs1 imm) = rv_sltiu rd rs1 imm"
| "rv_encode (AluI XORI rd rs1 imm) = rv_xori rd rs1 imm"
| "rv_encode (AluI ORI rd rs1 imm) = rv_ori rd rs1 imm"
| "rv_encode (AluI ANDI rd rs1 imm) = rv_andi rd rs1 imm"
| "rv_encode (ShI SLLI rd rs1 sh) = rv_slli rd rs1 sh"
| "rv_encode (ShI SRLI rd rs1 sh) = rv_srli rd rs1 sh"
| "rv_encode (ShI SRAI rd rs1 sh) = rv_srai rd rs1 sh"
| "rv_encode (Load LB rd rs1 imm) = rv_lb rd rs1 imm"
| "rv_encode (Load LH rd rs1 imm) = rv_lh rd rs1 imm"
| "rv_encode (Load LW rd rs1 imm) = rv_lw rd rs1 imm"
| "rv_encode (Load LBU rd rs1 imm) = rv_lbu rd rs1 imm"
| "rv_encode (Load LHU rd rs1 imm) = rv_lhu rd rs1 imm"
| "rv_encode (Store SB rs2 rs1 imm) = rv_sb rs2 rs1 imm"
| "rv_encode (Store SH rs2 rs1 imm) = rv_sh rs2 rs1 imm"
| "rv_encode (Store SW rs2 rs1 imm) = rv_sw rs2 rs1 imm"
| "rv_encode (Branch BEQ rs1 rs2 off) = rv_beq rs1 rs2 off"
| "rv_encode (Branch BNE rs1 rs2 off) = rv_bne rs1 rs2 off"
| "rv_encode (Branch BLT rs1 rs2 off) = rv_blt rs1 rs2 off"
| "rv_encode (Branch BGE rs1 rs2 off) = rv_bge rs1 rs2 off"
| "rv_encode (Branch BLTU rs1 rs2 off) = rv_bltu rs1 rs2 off"
| "rv_encode (Branch BGEU rs1 rs2 off) = rv_bgeu rs1 rs2 off"
| "rv_encode (Jal rd off) = rv_jal rd off"
| "rv_encode (Jalr rd rs1 imm) = rv_jalr rd rs1 imm"
| "rv_encode (Lui rd hi) = rv_lui rd hi"
| "rv_encode (Auipc rd hi) = rv_auipc rd hi"
| "rv_encode (Fence p s) = rv_fence p s"
| "rv_encode Ecall = rv_ecall"
| "rv_encode Ebreak = rv_ebreak"
| "rv_encode Unimp = rv_unimp"

subsection \<open>Decoding\<close>

definition fld :: "nat \<Rightarrow> nat \<Rightarrow> u32 \<Rightarrow> u32" where
  "fld lo len w = take_bit len (drop_bit lo w)"

definition reg_at :: "nat \<Rightarrow> u32 \<Rightarrow> u8" where
  "reg_at lo w = ucast (fld lo 5 w)"

text \<open>The immediates of the I, S, B and J formats, sign-extended.\<close>

definition imm_i :: "u32 \<Rightarrow> i16" where
  "imm_i w = signed_take_bit 11 (ucast (fld 20 12 w))"

definition imm_s :: "u32 \<Rightarrow> i16" where
  "imm_s w = signed_take_bit 11 (ucast (push_bit 5 (fld 25 7 w) OR fld 7 5 w))"

definition imm_b :: "u32 \<Rightarrow> i16" where
  "imm_b w = signed_take_bit 12 (ucast (push_bit 12 (fld 31 1 w) OR push_bit 11 (fld 7 1 w)
     OR push_bit 5 (fld 25 6 w) OR push_bit 1 (fld 8 4 w)))"

definition imm_j :: "u32 \<Rightarrow> u32" where
  "imm_j w = signed_take_bit 20 (push_bit 20 (fld 31 1 w) OR push_bit 12 (fld 12 8 w)
     OR push_bit 11 (fld 20 1 w) OR push_bit 1 (fld 21 10 w))"

fun dec_alu :: "u32 \<Rightarrow> u32 \<Rightarrow> alu_op option" where
  "dec_alu f7 f3 =
     (if f7 = 0 then
        (if f3 = 0 then Some ADD else if f3 = 1 then Some SLL else if f3 = 2 then Some SLT
         else if f3 = 3 then Some SLTU else if f3 = 4 then Some XORR else if f3 = 5 then Some SRL
         else if f3 = 6 then Some ORR else if f3 = 7 then Some ANDR else None)
      else if f7 = 0x20 then (if f3 = 0 then Some SUB else if f3 = 5 then Some SRA else None)
      else if f7 = 1 then
        (if f3 = 0 then Some MUL else if f3 = 1 then Some MULH else if f3 = 2 then Some MULHSU
         else if f3 = 3 then Some MULHU else if f3 = 4 then Some DIV else if f3 = 5 then Some DIVU
         else if f3 = 6 then Some REM else if f3 = 7 then Some REMU else None)
      else None)"

definition dec_imm :: "u32 \<Rightarrow> imm_op option" where
  "dec_imm f3 = (if f3 = 0 then Some ADDI else if f3 = 2 then Some SLTI else if f3 = 3 then Some SLTIU
     else if f3 = 4 then Some XORI else if f3 = 6 then Some ORI else if f3 = 7 then Some ANDI else None)"

definition dec_sh :: "u32 \<Rightarrow> u32 \<Rightarrow> sh_op option" where
  "dec_sh f7 f3 = (if f3 = 1 \<and> f7 = 0 then Some SLLI else if f3 = 5 \<and> f7 = 0 then Some SRLI
     else if f3 = 5 \<and> f7 = 0x20 then Some SRAI else None)"

definition dec_ld :: "u32 \<Rightarrow> ld_op option" where
  "dec_ld f3 = (if f3 = 0 then Some LB else if f3 = 1 then Some LH else if f3 = 2 then Some LW
     else if f3 = 4 then Some LBU else if f3 = 5 then Some LHU else None)"

definition dec_st :: "u32 \<Rightarrow> st_op option" where
  "dec_st f3 = (if f3 = 0 then Some SB else if f3 = 1 then Some SH else if f3 = 2 then Some SW else None)"

definition dec_br :: "u32 \<Rightarrow> br_op option" where
  "dec_br f3 = (if f3 = 0 then Some BEQ else if f3 = 1 then Some BNE else if f3 = 4 then Some BLT
     else if f3 = 5 then Some BGE else if f3 = 6 then Some BLTU else if f3 = 7 then Some BGEU else None)"

definition rv_decode :: "u32 \<Rightarrow> rv_inst option" where
  "rv_decode w =
     (let op = fld 0 7 w; f3 = fld 12 3 w; f7 = fld 25 7 w; rd = reg_at 7 w; rs1 = reg_at 15 w; rs2 = reg_at 20 w in
      if op = 0x33 then map_option (\<lambda>a. Alu a rd rs1 rs2) (dec_alu f7 f3)
      else if op = 0x13 then
        (if f3 = 1 \<or> f3 = 5 then map_option (\<lambda>a. ShI a rd rs1 rs2) (dec_sh f7 f3)
         else map_option (\<lambda>a. AluI a rd rs1 (imm_i w)) (dec_imm f3))
      else if op = 0x03 then map_option (\<lambda>a. Load a rd rs1 (imm_i w)) (dec_ld f3)
      else if op = 0x23 then map_option (\<lambda>a. Store a rs2 rs1 (imm_s w)) (dec_st f3)
      else if op = 0x63 then map_option (\<lambda>a. Branch a rs1 rs2 (imm_b w)) (dec_br f3)
      else if op = 0x6F then Some (Jal rd (imm_j w))
      else if op = 0x67 then (if f3 = 0 then Some (Jalr rd rs1 (imm_i w)) else None)
      else if op = 0x37 then Some (Lui rd (fld 12 20 w))
      else if op = 0x17 then Some (Auipc rd (fld 12 20 w))
      else if op = 0x0F \<and> f3 = 0 \<and> rd = 0 \<and> rs1 = 0 \<and> fld 28 4 w = 0 then
        Some (Fence (ucast (fld 24 4 w)) (ucast (fld 20 4 w)))
      else if w = 0x73 then Some Ecall
      else if w = 0x00100073 then Some Ebreak
      else if w = 0xC0001073 then Some Unimp
      else None)"


subsection \<open>A calculus of bit fields\<close>

lemma enc_masks [rv_simps]:
  "(x :: u32) AND 0x1 = take_bit 1 x" "x AND 1 = take_bit 1 x" "x AND 0x7 = take_bit 3 x" "x AND 0xF = take_bit 4 x"
  "x AND 0x1F = take_bit 5 x"
  "x AND 0x3F = take_bit 6 x" "x AND 0x7F = take_bit 7 x" "x AND 0xFF = take_bit 8 x" "x AND 0x3FF = take_bit 10 x"
  "x AND 0xFFF = take_bit 12 x" "x AND 0x1FFF = take_bit 13 x" "x AND 0xFFFFF = take_bit 20 x"
  "x AND 0x1FFFFF = take_bit 21 x"
  by (simp_all add: take_bit_eq_mask mask_numeral)

lemma fld_or [rv_simps]: "fld lo len (a OR b) = fld lo len a OR fld lo len b"
  by (simp add: fld_def)

lemma fld_other [rv_simps]:
  "k + m \<le> lo \<or> lo + len \<le> k \<Longrightarrow> fld lo len (push_bit k (take_bit m x)) = 0"
  "m \<le> lo \<Longrightarrow> fld lo len (take_bit m x) = 0"
  by (rule bit_word_eqI, auto simp: fld_def bit_simps)+

lemma fld_same [rv_simps]:
  "lo + len \<le> 32 \<Longrightarrow> fld lo len (push_bit lo (take_bit len x)) = take_bit len x"
  "fld 0 len (take_bit len x) = take_bit len x"
  by (rule bit_word_eqI, auto simp: fld_def bit_simps)+

lemma take_bit_1_mod [rv_simps]: "take_bit 1 ((x :: u32) mod 2) = take_bit 1 x"
proof -
  have "x mod 2 = take_bit 1 x" by simp
  then show ?thesis by (simp only: take_bit_take_bit min.idem)
qed

lemma drop_take [rv_simps]: "drop_bit a (take_bit b (x :: u32)) = take_bit (b - a) (drop_bit a x)"
  by (simp add: drop_bit_take_bit)

lemma enc_r_fields [rv_simps]:
  "fld 0 7 (enc_r f7 rs2 rs1 f3 rd op) = take_bit 7 op"
  "fld 12 3 (enc_r f7 rs2 rs1 f3 rd op) = take_bit 3 f3"
  "fld 25 7 (enc_r f7 rs2 rs1 f3 rd op) = take_bit 7 f7"
  "fld 7 5 (enc_r f7 rs2 rs1 f3 rd op) = take_bit 5 (ucast rd)"
  "fld 15 5 (enc_r f7 rs2 rs1 f3 rd op) = take_bit 5 (ucast rs1)"
  "fld 20 5 (enc_r f7 rs2 rs1 f3 rd op) = take_bit 5 (ucast rs2)"
  by (simp_all add: enc_r_def rv_simps)

lemma enc_ish_eq [rv_simps]: "enc_ish f7 sh rs1 f3 rd op = enc_r f7 sh rs1 f3 rd op"
  by (simp add: enc_ish_def enc_r_def)

lemma enc_i_fields [rv_simps]:
  "fld 0 7 (enc_i imm rs1 f3 rd op) = take_bit 7 op"
  "fld 12 3 (enc_i imm rs1 f3 rd op) = take_bit 3 f3"
  "fld 7 5 (enc_i imm rs1 f3 rd op) = take_bit 5 (ucast rd)"
  "fld 15 5 (enc_i imm rs1 f3 rd op) = take_bit 5 (ucast rs1)"
  "fld 20 12 (enc_i imm rs1 f3 rd op) = take_bit 12 (scast imm)"
  by (simp_all add: enc_i_def rv_simps)

lemma enc_s_fields [rv_simps]:
  "fld 0 7 (enc_s imm rs2 rs1 f3 op) = take_bit 7 op"
  "fld 12 3 (enc_s imm rs2 rs1 f3 op) = take_bit 3 f3"
  "fld 15 5 (enc_s imm rs2 rs1 f3 op) = take_bit 5 (ucast rs1)"
  "fld 20 5 (enc_s imm rs2 rs1 f3 op) = take_bit 5 (ucast rs2)"
  "fld 25 7 (enc_s imm rs2 rs1 f3 op) = take_bit 7 (drop_bit 5 (scast imm))"
  "fld 7 5 (enc_s imm rs2 rs1 f3 op) = take_bit 5 (scast imm)"
  by (simp_all add: enc_s_def rv_simps Let_def)

lemma enc_b_fields [rv_simps]:
  "fld 0 7 (enc_b off rs1 rs2 f3 op) = take_bit 7 op"
  "fld 12 3 (enc_b off rs1 rs2 f3 op) = take_bit 3 f3"
  "fld 15 5 (enc_b off rs1 rs2 f3 op) = take_bit 5 (ucast rs1)"
  "fld 20 5 (enc_b off rs1 rs2 f3 op) = take_bit 5 (ucast rs2)"
  "fld 31 1 (enc_b off rs1 rs2 f3 op) = take_bit 1 (drop_bit 12 (scast off))"
  "fld 7 1 (enc_b off rs1 rs2 f3 op) = take_bit 1 (drop_bit 11 (scast off))"
  "fld 25 6 (enc_b off rs1 rs2 f3 op) = take_bit 6 (drop_bit 5 (scast off))"
  "fld 8 4 (enc_b off rs1 rs2 f3 op) = take_bit 4 (drop_bit 1 (scast off))"
  by (simp_all add: enc_b_def rv_simps Let_def del: One_nat_def and_one_eq)

lemma enc_u_fields [rv_simps]:
  "fld 0 7 (enc_u hi rd op) = take_bit 7 op"
  "fld 7 5 (enc_u hi rd op) = take_bit 5 (ucast rd)"
  "fld 12 20 (enc_u hi rd op) = take_bit 20 hi"
  by (simp_all add: enc_u_def rv_simps)

lemma enc_j_fields [rv_simps]:
  "fld 0 7 (enc_j off rd op) = take_bit 7 op"
  "fld 7 5 (enc_j off rd op) = take_bit 5 (ucast rd)"
  "fld 31 1 (enc_j off rd op) = take_bit 1 (drop_bit 20 off)"
  "fld 21 10 (enc_j off rd op) = take_bit 10 (drop_bit 1 off)"
  "fld 20 1 (enc_j off rd op) = take_bit 1 (drop_bit 11 off)"
  "fld 12 8 (enc_j off rd op) = take_bit 8 (drop_bit 12 off)"
  by (simp_all add: enc_j_def rv_simps Let_def del: One_nat_def and_one_eq)

lemma bit_lt_pow2:
  assumes "unat (r :: 'a::len word) < 2 ^ k" "bit r n"
  shows "n < k"
proof -
  have "unat (take_bit k r) = unat r" using assms(1) by (simp add: unat_take_bit)
  then have "take_bit k r = r" by (rule unsigned_word_eqI)
  then show ?thesis using assms(2) by (metis bit_take_bit_iff)
qed

lemma reg_take [rv_simps]:
  assumes "(r :: u8) < 32"
  shows "ucast (take_bit 5 (ucast r :: u32)) = r"
proof -
  have "unat r < 2 ^ 5" using assms by (simp add: word_less_nat_alt)
  then have "bit r n \<Longrightarrow> n < 5" for n by (rule bit_lt_pow2)
  then show ?thesis by (intro bit_word_eqI) (auto simp: bit_simps)
qed

lemma imm_i_enc [rv_simps]: "imm_i (enc_i imm rs1 f3 rd op) = signed_take_bit 11 imm"
  by (rule bit_word_eqI) (auto simp: imm_i_def rv_simps bit_simps)

lemma imm_s_enc [rv_simps]: "imm_s (enc_s imm rs2 rs1 f3 op) = signed_take_bit 11 imm"
  by (rule bit_word_eqI) (auto simp: imm_s_def rv_simps bit_simps)

lemma imm_b_enc [rv_simps]: "imm_b (enc_b off rs1 rs2 f3 op) = signed_take_bit 12 (off AND NOT 1)"
proof (rule bit_word_eqI)
  fix n
  assume "n < LENGTH(16)"
  then have "n \<in> {0, 1, 2, 3, 4, 5, 6, 7, 8, 9, 10, 11, 12, 13, 14, 15}" by simp arith
  then show "bit (imm_b (enc_b off rs1 rs2 f3 op)) n \<longleftrightarrow> bit (signed_take_bit 12 (off AND NOT 1)) n"
    unfolding imm_b_def enc_b_fields
    by (elim insertE) (simp_all add: bit_simps del: One_nat_def)
qed

lemma imm_j_enc [rv_simps]: "imm_j (enc_j off rd op) = signed_take_bit 20 (off AND NOT 1)"
proof (rule bit_word_eqI)
  fix n
  assume "n < LENGTH(32)"
  then have "n \<in> {0, 1, 2, 3, 4, 5, 6, 7, 8, 9, 10, 11, 12, 13, 14, 15, 16, 17, 18, 19, 20, 21, 22, 23,
      24, 25, 26, 27, 28, 29, 30, 31}" by simp arith
  then show "bit (imm_j (enc_j off rd op)) n \<longleftrightarrow> bit (signed_take_bit 20 (off AND NOT 1)) n"
    unfolding imm_j_def enc_j_fields
    by (elim insertE) (simp_all add: bit_simps del: One_nat_def)
qed

subsection \<open>The round trip\<close>

lemma signed_range:
  assumes "- (2 ^ n) \<le> sint (w :: 'a::len word)" "sint w < 2 ^ n" "n < LENGTH('a)"
  shows "signed_take_bit n w = w"
proof (rule bit_word_eqI)
  fix m
  assume m: "m < LENGTH('a)"
  have sb: "bit (sint w) k \<longleftrightarrow> bit w k" if "k < LENGTH('a)" for k
    using that by (cases "k = LENGTH('a) - 1") (auto simp: bit_sint_iff)
  have "signed_take_bit n (sint w) = sint w" using assms(1,2) by (simp add: signed_take_bit_int_eq_self_iff)
  then have "bit (sint w) m \<longleftrightarrow> bit (signed_take_bit n (sint w)) m" by simp
  also have "\<dots> \<longleftrightarrow> bit (sint w) (min m n)" by (simp add: Bit_Operations.bit_signed_take_bit_iff min.commute)
  finally have "bit (sint w) m \<longleftrightarrow> bit (sint w) (min m n)" .
  then show "bit (signed_take_bit n w) m \<longleftrightarrow> bit w m"
    using m assms(3) sb [of m] sb [of "min m n"] by (simp add: bit_signed_take_bit_iff min.commute)
qed

fun rv_wf :: "rv_inst \<Rightarrow> bool" where
  "rv_wf (Alu _ rd rs1 rs2) \<longleftrightarrow> rd < 32 \<and> rs1 < 32 \<and> rs2 < 32"
| "rv_wf (AluI _ rd rs1 imm) \<longleftrightarrow> rd < 32 \<and> rs1 < 32 \<and> -2048 \<le> sint imm \<and> sint imm < 2048"
| "rv_wf (ShI _ rd rs1 sh) \<longleftrightarrow> rd < 32 \<and> rs1 < 32 \<and> sh < 32"
| "rv_wf (Load _ rd rs1 imm) \<longleftrightarrow> rd < 32 \<and> rs1 < 32 \<and> -2048 \<le> sint imm \<and> sint imm < 2048"
| "rv_wf (Store _ rs2 rs1 imm) \<longleftrightarrow> rs2 < 32 \<and> rs1 < 32 \<and> -2048 \<le> sint imm \<and> sint imm < 2048"
| "rv_wf (Branch _ rs1 rs2 off) \<longleftrightarrow> rs1 < 32 \<and> rs2 < 32 \<and> -4096 \<le> sint off \<and> sint off < 4096 \<and> even off"
| "rv_wf (Jal rd off) \<longleftrightarrow> rd < 32 \<and> -1048576 \<le> sint off \<and> sint off < 1048576 \<and> even off"
| "rv_wf (Jalr rd rs1 imm) \<longleftrightarrow> rd < 32 \<and> rs1 < 32 \<and> -2048 \<le> sint imm \<and> sint imm < 2048"
| "rv_wf (Lui rd hi) \<longleftrightarrow> rd < 32 \<and> hi < 0x100000"
| "rv_wf (Auipc rd hi) \<longleftrightarrow> rd < 32 \<and> hi < 0x100000"
| "rv_wf (Fence p s) \<longleftrightarrow> p < 16 \<and> s < 16"
| "rv_wf Ecall \<longleftrightarrow> True" | "rv_wf Ebreak \<longleftrightarrow> True" | "rv_wf Unimp \<longleftrightarrow> True"

lemma imm_ranges [rv_simps]:
  "-2048 \<le> sint (imm :: i16) \<Longrightarrow> sint imm < 2048 \<Longrightarrow> signed_take_bit 11 imm = imm"
  "-4096 \<le> sint (imm :: i16) \<Longrightarrow> sint imm < 4096 \<Longrightarrow> signed_take_bit 12 imm = imm"
  "-1048576 \<le> sint (off :: u32) \<Longrightarrow> sint off < 1048576 \<Longrightarrow> signed_take_bit 20 off = off"
  by (rule signed_range; simp)+

lemma even_mask [rv_simps]: "even (x :: 'a::len word) \<Longrightarrow> x AND - 2 = x"
proof -
  assume "even x"
  then have "x AND NOT 1 = x" by (intro bit_word_eqI) (auto simp: bit_simps bit_0 intro: Nat.gr0I)
  then show ?thesis by simp
qed

lemma hi20_take [rv_simps]: "(hi :: u32) < 0x100000 \<Longrightarrow> take_bit 20 hi = hi"
proof -
  assume "hi < 0x100000"
  then have "unat (take_bit 20 hi) = unat hi" by (simp add: unat_take_bit word_less_nat_alt)
  then show ?thesis by (rule unsigned_word_eqI)
qed

lemmas rv_alu_defs = rv_add_def rv_sub_def rv_and_def rv_or_def rv_xor_def rv_sll_def rv_srl_def rv_sra_def
  rv_slt_def rv_sltu_def rv_mul_def rv_mulh_def rv_mulhsu_def rv_mulhu_def rv_div_def rv_divu_def rv_rem_def rv_remu_def
lemmas rv_imm_defs = rv_addi_def rv_andi_def rv_ori_def rv_xori_def rv_slti_def rv_sltiu_def
lemmas rv_sh_defs = rv_slli_def rv_srli_def rv_srai_def
lemmas rv_mem_defs = rv_lw_def rv_lh_def rv_lhu_def rv_lb_def rv_lbu_def rv_sw_def rv_sh_def rv_sb_def
lemmas rv_br_defs = rv_beq_def rv_bne_def rv_blt_def rv_bge_def rv_bltu_def rv_bgeu_def
lemmas rv_jump_defs = rv_jal_def rv_jalr_def rv_lui_def rv_auipc_def

lemma decode_alu: "rv_wf (Alu a rd rs1 rs2) \<Longrightarrow> rv_decode (rv_encode (Alu a rd rs1 rs2)) = Some (Alu a rd rs1 rs2)"
  by (cases a) (simp_all add: rv_alu_defs rv_decode_def Let_def reg_at_def rv_simps)

lemma decode_imm: "rv_wf (AluI a rd rs1 imm) \<Longrightarrow> rv_decode (rv_encode (AluI a rd rs1 imm)) = Some (AluI a rd rs1 imm)"
  by (cases a) (simp_all add: rv_imm_defs rv_decode_def Let_def reg_at_def dec_imm_def rv_simps)

lemma decode_sh: "rv_wf (ShI a rd rs1 sh) \<Longrightarrow> rv_decode (rv_encode (ShI a rd rs1 sh)) = Some (ShI a rd rs1 sh)"
  by (cases a) (simp_all add: rv_sh_defs rv_decode_def Let_def reg_at_def dec_sh_def rv_simps)

lemma decode_load:
  "rv_wf (Load a rd rs1 imm) \<Longrightarrow> rv_decode (rv_encode (Load a rd rs1 imm)) = Some (Load a rd rs1 imm)"
  by (cases a) (simp_all add: rv_mem_defs rv_decode_def Let_def reg_at_def dec_ld_def rv_simps)

lemma decode_store:
  "rv_wf (Store b rs2 rs1 imm) \<Longrightarrow> rv_decode (rv_encode (Store b rs2 rs1 imm)) = Some (Store b rs2 rs1 imm)"
  by (cases b) (simp_all add: rv_mem_defs rv_decode_def Let_def reg_at_def dec_st_def rv_simps)

lemma decode_br: "rv_wf (Branch a rs1 rs2 off) \<Longrightarrow> rv_decode (rv_encode (Branch a rs1 rs2 off)) = Some (Branch a rs1 rs2 off)"
  by (cases a) (simp_all add: rv_br_defs rv_decode_def Let_def reg_at_def dec_br_def rv_simps)

lemma decode_jump:
  "rv_wf (Jal rd off) \<Longrightarrow> rv_decode (rv_encode (Jal rd off)) = Some (Jal rd off)"
  "rv_wf (Jalr rd rs1 imm) \<Longrightarrow> rv_decode (rv_encode (Jalr rd rs1 imm)) = Some (Jalr rd rs1 imm)"
  "rv_wf (Lui rd hi) \<Longrightarrow> rv_decode (rv_encode (Lui rd hi)) = Some (Lui rd hi)"
  "rv_wf (Auipc rd hi) \<Longrightarrow> rv_decode (rv_encode (Auipc rd hi)) = Some (Auipc rd hi)"
  by (simp_all add: rv_jump_defs rv_decode_def Let_def reg_at_def rv_simps)

lemma decode_system:
  "rv_decode (rv_encode Ecall) = Some Ecall" "rv_decode (rv_encode Ebreak) = Some Ebreak"
  "rv_decode (rv_encode Unimp) = Some Unimp"
  by (simp_all add: rv_ecall_def rv_ebreak_def rv_unimp_def rv_decode_def Let_def reg_at_def fld_def)

lemma decode_fence:
  assumes "p < 16" "s < 16"
  shows "rv_decode (rv_encode (Fence p s)) = Some (Fence p s)"
proof -
  have b: "bit p n \<Longrightarrow> n < 4" "bit s n \<Longrightarrow> n < 4" for n
    using assms bit_lt_pow2 [of p 4 n] bit_lt_pow2 [of s 4 n] by (simp_all add: word_less_nat_alt)
  have t: "ucast (take_bit 4 (ucast p :: u32)) = p" "ucast (take_bit 4 (ucast s :: u32)) = s"
    using b by (auto intro!: bit_word_eqI simp: bit_simps)
  have "fld 0 7 0x0F = 0x0F" "fld 12 3 0x0F = 0" "fld 7 5 0x0F = 0" "fld 15 5 0x0F = 0" "fld 28 4 0x0F = 0"
    "fld 24 4 0x0F = 0" "fld 20 4 0x0F = 0"
    by (simp_all add: fld_def)
  then show ?thesis
    using t by (simp add: rv_fence_def rv_decode_def Let_def reg_at_def rv_simps)
qed

lemma decode_inv: "rv_wf i \<Longrightarrow> rv_decode (rv_encode i) = Some i"
  by (cases i) (simp_all only: decode_alu decode_imm decode_sh decode_load decode_store decode_br decode_jump
      decode_system decode_fence rv_wf.simps)

text \<open>
  Property C5.  Every encoder is right: decoding the word it packs, with the opcode tables and
  immediate layouts of the RISC-V manual, gives back the instruction and its operands, for all
  registers and all immediates in the range of the format.
\<close>

theorem rv_decode_encode:
  assumes "rv_wf i"
  shows "rv_decode (rv_encode i) = Some i"
  using assms by (rule decode_inv)

theorem rv_decode_encode_witness: "rv_decode (rv_bne 6 7 (- 8)) = Some (Branch BNE 6 7 (- 8))"
proof -
  have "rv_wf (Branch BNE 6 7 (- 8))" by simp
  from rv_decode_encode [OF this] show ?thesis by simp
qed

end
