(* ===== verification/Rv_Buf.thy ===== *)
theory Rv_Buf
  imports Rv_Enc
begin

text \<open>
  The code buffer, \<open>src/src/tensix/rv_buf.c\<close>, and what its contents mean: an execution model of
  the RV32 subset the code generators use, for programs laid out in a buffer.  The buffer is a
  word array with a count; an append past the end is refused with \<open>-1\<close>.
\<close>

subsection \<open>The buffer\<close>

abbreviation (input) RV_BUF_MAX_WORDS :: nat where "RV_BUF_MAX_WORDS \<equiv> 4096"

record rv_buf =
  rv_words :: "nat \<Rightarrow> u32"
  rv_n :: nat

definition rv_buf_init :: rv_buf where
  "rv_buf_init = \<lparr>rv_words = (\<lambda>_. 0), rv_n = 0\<rparr>"

definition rv_buf_emit :: "rv_buf \<Rightarrow> u32 \<Rightarrow> rv_buf \<times> int" where
  "rv_buf_emit b word =
     (if rv_n b \<ge> RV_BUF_MAX_WORDS then (b, -1)
      else (b\<lparr>rv_n := rv_n b + 1, rv_words := (rv_words b)(rv_n b := word)\<rparr>, int (rv_n b)))"

definition rv_buf_patch :: "rv_buf \<Rightarrow> u32 \<Rightarrow> u32 \<Rightarrow> rv_buf \<times> int" where
  "rv_buf_patch b idx word =
     (if unat idx \<ge> rv_n b then (b, -1)
      else (b\<lparr>rv_words := (rv_words b)(unat idx := word)\<rparr>, 0))"

definition rv_buf_n_words :: "rv_buf \<Rightarrow> u32" where
  "rv_buf_n_words b = word_of_nat (rv_n b)"

definition rv_buf_nbytes :: "rv_buf \<Rightarrow> u32" where
  "rv_buf_nbytes b = word_of_nat (rv_n b) * 4"

definition rv_buf_data :: "rv_buf \<Rightarrow> nat \<Rightarrow> u32" where
  "rv_buf_data b = rv_words b"

text \<open>The \<open>int32_t\<close> byte distance between two word indices, at 32 bits.\<close>

definition rv_buf_offset :: "rv_buf \<Rightarrow> u32 \<Rightarrow> u32 \<Rightarrow> u32" where
  "rv_buf_offset b from_w to_w = (to_w - from_w) * 4"

interpretation buf: bounded_arena rv_n rv_words RV_BUF_MAX_WORDS "\<lambda>b. rv_buf_emit b w"
  "\<lambda>r. if r = -1 then None else Some (nat r)" for w
  by unfold_locales (auto simp: rv_buf_emit_def split: if_splits)

text \<open>Append and ignore the result, as most callers do.\<close>

abbreviation emit :: "u32 \<Rightarrow> rv_buf \<Rightarrow> rv_buf" where
  "emit w b \<equiv> fst (rv_buf_emit b w)"

definition emit_list :: "u32 list \<Rightarrow> rv_buf \<Rightarrow> rv_buf" where
  "emit_list ws b = fold emit ws b"

lemma emit_list_simps [simp]:
  "emit_list [] b = b" "emit_list (w # ws) b = emit_list ws (emit w b)"
  "emit_list (us @ ws) b = emit_list ws (emit_list us b)"
  by (simp_all add: emit_list_def)

text \<open>The words \<open>ws\<close> stand in the buffer from index \<open>p\<close>.\<close>

definition code_placed :: "rv_buf \<Rightarrow> nat \<Rightarrow> u32 list \<Rightarrow> bool" where
  "code_placed b p ws \<longleftrightarrow> p + length ws \<le> rv_n b \<and> (\<forall>i < length ws. rv_words b (p + i) = ws ! i)"

lemma emit_list_fits:
  "rv_n b + length ws \<le> RV_BUF_MAX_WORDS \<Longrightarrow>
     rv_n (emit_list ws b) = rv_n b + length ws \<and>
     (\<forall>i. rv_words (emit_list ws b) i = (if rv_n b \<le> i \<and> i < rv_n b + length ws then ws ! (i - rv_n b) else rv_words b i))"
proof (induction ws arbitrary: b)
  case (Cons w ws)
  then show ?case by (auto simp: rv_buf_emit_def nth_Cons' less_Suc_eq_le)
qed auto

lemma emit_list_full: "rv_n b \<ge> RV_BUF_MAX_WORDS \<Longrightarrow> emit_list ws b = b"
  by (induction ws) (simp_all add: rv_buf_emit_def)

lemma emit_list_placed:
  "rv_n b + length ws \<le> RV_BUF_MAX_WORDS \<Longrightarrow> code_placed (emit_list ws b) (rv_n b) ws"
  using emit_list_fits [of b ws] by (simp add: code_placed_def)

subsection \<open>Execution\<close>

text \<open>
  A core: registers with a hard-wired zero, the program counter as a word index into the
  buffer, word memory by byte address, and the log of the stores it made.
\<close>

record rv_state =
  rv_regs :: "u8 \<Rightarrow> u32"
  rv_pc :: nat
  rv_mem :: "u32 \<Rightarrow> u32"
  rv_log :: "(u32 \<times> u32) list"

definition rd_reg :: "rv_state \<Rightarrow> u8 \<Rightarrow> u32" where
  "rd_reg s r = (if r = 0 then 0 else rv_regs s r)"

definition wr_reg :: "u8 \<Rightarrow> u32 \<Rightarrow> rv_state \<Rightarrow> rv_state" where
  "wr_reg r v s = (if r = 0 then s else s\<lparr>rv_regs := (rv_regs s)(r := v)\<rparr>)"

definition next_pc :: "rv_state \<Rightarrow> rv_state" where
  "next_pc s = s\<lparr>rv_pc := rv_pc s + 1\<rparr>"

text \<open>A relative jump; the byte distance is a multiple of the word size.\<close>

definition jump :: "int \<Rightarrow> rv_state \<Rightarrow> rv_state" where
  "jump off s = s\<lparr>rv_pc := nat (int (rv_pc s) + off div 4)\<rparr>"

fun br_taken :: "br_op \<Rightarrow> u32 \<Rightarrow> u32 \<Rightarrow> bool" where
  "br_taken BEQ a b \<longleftrightarrow> a = b"
| "br_taken BNE a b \<longleftrightarrow> a \<noteq> b"
| "br_taken BLT a b \<longleftrightarrow> a <s b"
| "br_taken BGE a b \<longleftrightarrow> b \<le>s a"
| "br_taken BLTU a b \<longleftrightarrow> a < b"
| "br_taken BGEU a b \<longleftrightarrow> b \<le> a"

fun rv_exec :: "rv_inst \<Rightarrow> rv_state \<Rightarrow> rv_state option" where
  "rv_exec (Lui rd hi) s = Some (next_pc (wr_reg rd (push_bit 12 hi) s))"
| "rv_exec (AluI ADDI rd rs1 imm) s = Some (next_pc (wr_reg rd (rd_reg s rs1 + scast imm) s))"
| "rv_exec (Alu ADD rd rs1 rs2) s = Some (next_pc (wr_reg rd (rd_reg s rs1 + rd_reg s rs2) s))"
| "rv_exec (Load LW rd rs1 imm) s = Some (next_pc (wr_reg rd (rv_mem s (rd_reg s rs1 + scast imm)) s))"
| "rv_exec (Store SW rs2 rs1 imm) s =
     (let a = rd_reg s rs1 + scast imm; v = rd_reg s rs2
      in Some (next_pc (s\<lparr>rv_mem := (rv_mem s)(a := v), rv_log := rv_log s @ [(a, v)]\<rparr>)))"
| "rv_exec (Branch op rs1 rs2 off) s =
     Some (if br_taken op (rd_reg s rs1) (rd_reg s rs2) then jump (sint off) s else next_pc s)"
| "rv_exec (Jal rd off) s = Some (jump (sint off) (wr_reg rd (4 * word_of_nat (rv_pc s + 1)) s))"
| "rv_exec _ s = None"

definition rv_step :: "rv_buf \<Rightarrow> rv_state \<Rightarrow> rv_state option" where
  "rv_step b s =
     (if rv_pc s < rv_n b then Option.bind (rv_decode (rv_words b (rv_pc s))) (\<lambda>i. rv_exec i s) else None)"

fun rv_steps :: "rv_buf \<Rightarrow> nat \<Rightarrow> rv_state \<Rightarrow> rv_state option" where
  "rv_steps b 0 s = Some s"
| "rv_steps b (Suc k) s = Option.bind (rv_step b s) (rv_steps b k)"

lemma rv_steps_add: "rv_steps b (j + k) s = Option.bind (rv_steps b j s) (rv_steps b k)"
  by (induction j arbitrary: s) (auto simp: Option.bind_eq_None_conv split: Option.bind_split)

lemma placed_step:
  assumes "code_placed b p (map rv_encode is)" "i < length is" "rv_wf (is ! i)" "rv_pc s = p + i"
  shows "rv_step b s = rv_exec (is ! i) s"
  using assms decode_inv by (simp add: code_placed_def rv_step_def)

subsection \<open>Straight-line code\<close>

text \<open>Instructions that fall through, and their effect on the state.\<close>

fun straight :: "rv_inst \<Rightarrow> bool" where
  "straight (Lui _ _) = True" | "straight (AluI ADDI _ _ _) = True" | "straight (Alu ADD _ _ _) = True"
| "straight (Load LW _ _ _) = True" | "straight (Store SW _ _ _) = True" | "straight _ = False"

definition run_list :: "rv_inst list \<Rightarrow> rv_state \<Rightarrow> rv_state" where
  "run_list is s = fold (\<lambda>i s. the (rv_exec i s)) is s"

lemma run_list_simps [simp]:
  "run_list [] s = s" "run_list (i # is) s = run_list is (the (rv_exec i s))"
  "run_list (is @ js) s = run_list js (run_list is s)"
  by (simp_all add: run_list_def)

lemma wr_reg_fields [simp]:
  "rv_pc (wr_reg r v s) = rv_pc s" "rv_mem (wr_reg r v s) = rv_mem s" "rv_log (wr_reg r v s) = rv_log s"
  "rv_pc (next_pc s) = rv_pc s + 1" "rv_mem (next_pc s) = rv_mem s" "rv_log (next_pc s) = rv_log s"
  "rv_regs (next_pc s) = rv_regs s"
  by (simp_all add: wr_reg_def next_pc_def)

lemma rd_reg_simps [simp]:
  "rd_reg (next_pc s) r = rd_reg s r"
  "rd_reg (wr_reg r v s) q = (if q = r \<and> r \<noteq> 0 then v else rd_reg s q)"
  by (simp_all add: rd_reg_def wr_reg_def next_pc_def)

lemma straight_exec: "straight i \<Longrightarrow> \<exists>s'. rv_exec i s = Some s' \<and> rv_pc s' = rv_pc s + 1"
  by (cases i rule: straight.cases) (simp_all add: Let_def)

lemma run_straight:
  assumes "code_placed b p (map rv_encode (us @ is))" "\<forall>i \<in> set is. straight i \<and> rv_wf i"
    and "rv_pc s = p + length us"
  shows "rv_steps b (length is) s = Some (run_list is s) \<and> rv_pc (run_list is s) = p + length us + length is"
  using assms
proof (induction "is" arbitrary: us s)
  case (Cons i "is")
  obtain s' where s': "rv_exec i s = Some s'" "rv_pc s' = rv_pc s + 1"
    using Cons.prems(2) straight_exec [of i s] by auto
  have "rv_step b s = Some s'"
    using placed_step [OF Cons.prems(1), of "length us" s] Cons.prems(2,3) s' by (simp add: nth_append)
  moreover have "rv_steps b (length is) s' = Some (run_list is s') \<and>
      rv_pc (run_list is s') = p + length (us @ [i]) + length is"
    using Cons.IH [of "us @ [i]" s'] Cons.prems s'(2) by simp
  ultimately show ?case using s'(1) by simp
qed simp

end
