(* ===== verification/Tensix_Noc.thy ===== *)
theory Tensix_Noc
  imports Rv_Buf
begin

text \<open>
  NoC code generation for the data-movement cores, \<open>src/src/tensix/noc.c\<close>: register
  materialisation, NIU requests, counting semaphores and the circular-buffer operations over
  them.  Every C function appends to the buffer and returns \<open>BC_OK\<close>.
\<close>

subsection \<open>Constants\<close>

abbreviation (input) NIU_BASE :: u32 where "NIU_BASE \<equiv> 0xFFB20000"
abbreviation (input) NOC_TARG_LO :: i16 where "NOC_TARG_LO \<equiv> 0x00"
abbreviation (input) NOC_TARG_MID :: i16 where "NOC_TARG_MID \<equiv> 0x04"
abbreviation (input) NOC_RET_LO :: i16 where "NOC_RET_LO \<equiv> 0x0C"
abbreviation (input) NOC_RET_MID :: i16 where "NOC_RET_MID \<equiv> 0x10"
abbreviation (input) NOC_CTRL :: i16 where "NOC_CTRL \<equiv> 0x1C"
abbreviation (input) NOC_AT_LEN_BE :: i16 where "NOC_AT_LEN_BE \<equiv> 0x20"
abbreviation (input) NOC_AT_DATA :: i16 where "NOC_AT_DATA \<equiv> 0x24"
abbreviation (input) NOC_CMD_CTRL :: i16 where "NOC_CMD_CTRL \<equiv> 0x28"
abbreviation (input) NOC_CMD_RD :: u32 where "NOC_CMD_RD \<equiv> 0"
abbreviation (input) NOC_CMD_AT :: u32 where "NOC_CMD_AT \<equiv> 1"
abbreviation (input) NOC_CMD_WR :: u32 where "NOC_CMD_WR \<equiv> 2"
abbreviation (input) NOC_CMD_RESP_MARKED :: u32 where "NOC_CMD_RESP_MARKED \<equiv> 16"
abbreviation (input) NIU_CNT_BASE :: u32 where "NIU_CNT_BASE \<equiv> 0xFFB20200"
abbreviation (input) CNT_WR_ACK :: i16 where "CNT_WR_ACK \<equiv> 4"
abbreviation (input) CNT_RD_RESP :: i16 where "CNT_RD_RESP \<equiv> 8"
abbreviation (input) CNT_RD_REQ :: i16 where "CNT_RD_REQ \<equiv> 20"
abbreviation (input) CNT_WR_SENT :: i16 where "CNT_WR_SENT \<equiv> 40"
abbreviation (input) NOC_AT_INC_FULL :: u32 where "NOC_AT_INC_FULL \<equiv> 0x107C"
abbreviation (input) RV_X0 :: u8 where "RV_X0 \<equiv> 0"
abbreviation (input) RV_T0 :: u8 where "RV_T0 \<equiv> 5"
abbreviation (input) RV_T1 :: u8 where "RV_T1 \<equiv> 6"
abbreviation (input) RV_T2 :: u8 where "RV_T2 \<equiv> 7"

subsection \<open>Operations\<close>

definition li32 :: "u8 \<Rightarrow> u32 \<Rightarrow> rv_buf \<Rightarrow> rv_buf" where
  "li32 reg v c =
     (let hi0 = drop_bit 12 v AND 0xFFFFF;
          lo0 = v AND 0xFFF;
          (lo, hi) = (if lo0 AND 0x800 \<noteq> 0 then (lo0 - 0x1000, (hi0 + 1) AND 0xFFFFF) else (lo0, hi0))
      in if hi \<noteq> 0 then
           let c1 = emit (rv_lui reg hi) c
           in if lo \<noteq> 0 then emit (rv_addi reg reg (ucast lo)) c1 else c1
         else emit (rv_addi reg RV_X0 (ucast lo)) c)"

definition store_reg :: "u32 \<Rightarrow> i16 \<Rightarrow> rv_buf \<Rightarrow> rv_buf" where
  "store_reg v off c = emit (rv_sw RV_T1 RV_T0 off) (li32 RV_T1 v c)"

definition noc_xfer :: "rv_buf \<Rightarrow> u32 \<Rightarrow> u32 \<Rightarrow> u32 \<Rightarrow> u32 \<Rightarrow> u32 \<Rightarrow> u32 \<Rightarrow> rv_buf \<times> bc_code" where
  "noc_xfer c ctrl tlo tmid rlo rmid len =
     (let c = li32 RV_T0 NIU_BASE c;
          c = store_reg tlo NOC_TARG_LO c;
          c = store_reg tmid NOC_TARG_MID c;
          c = store_reg rlo NOC_RET_LO c;
          c = store_reg rmid NOC_RET_MID c;
          c = store_reg len NOC_AT_LEN_BE c;
          c = store_reg ctrl NOC_CTRL c;
          c = store_reg 1 NOC_CMD_CTRL c
      in (c, BC_OK))"

definition tt_noc_read :: "rv_buf \<Rightarrow> u32 \<Rightarrow> u32 \<Rightarrow> u32 \<Rightarrow> u32 \<Rightarrow> u32 \<Rightarrow> rv_buf \<times> bc_code" where
  "tt_noc_read c tlo tmid rlo rmid len = noc_xfer c NOC_CMD_RD tlo tmid rlo rmid len"

definition tt_noc_write :: "rv_buf \<Rightarrow> u32 \<Rightarrow> u32 \<Rightarrow> u32 \<Rightarrow> u32 \<Rightarrow> u32 \<Rightarrow> rv_buf \<times> bc_code" where
  "tt_noc_write c tlo tmid rlo rmid len = noc_xfer c NOC_CMD_WR tlo tmid rlo rmid len"

definition tt_sem_inc :: "rv_buf \<Rightarrow> u32 \<Rightarrow> u32 \<Rightarrow> u32 \<Rightarrow> rv_buf \<times> bc_code" where
  "tt_sem_inc c sem_lo sem_mid incr =
     (let c = li32 RV_T0 NIU_BASE c;
          c = store_reg sem_lo NOC_TARG_LO c;
          c = store_reg sem_mid NOC_TARG_MID c;
          c = store_reg NOC_AT_INC_FULL NOC_AT_LEN_BE c;
          c = store_reg incr NOC_AT_DATA c;
          c = store_reg NOC_CMD_AT NOC_CTRL c;
          c = store_reg 1 NOC_CMD_CTRL c
      in (c, BC_OK))"

definition tt_sem_wait_ge :: "rv_buf \<Rightarrow> u32 \<Rightarrow> u32 \<Rightarrow> rv_buf \<times> bc_code" where
  "tt_sem_wait_ge c sem_addr threshold =
     (let c = li32 RV_T0 sem_addr c;
          c = li32 RV_T2 threshold c;
          loop = rv_buf_n_words c;
          c = emit (rv_lw RV_T1 RV_T0 0) c;
          off = rv_buf_offset c (rv_buf_n_words c) loop;
          c = emit (rv_bltu RV_T1 RV_T2 (ucast off)) c
      in (c, BC_OK))"

definition tt_sem_init :: "rv_buf \<Rightarrow> u32 \<Rightarrow> u32 \<Rightarrow> rv_buf \<times> bc_code" where
  "tt_sem_init c sem_addr val = (emit (rv_sw RV_T1 RV_T0 0) (li32 RV_T1 val (li32 RV_T0 sem_addr c)), BC_OK)"

definition tt_sem_acquire :: "rv_buf \<Rightarrow> u32 \<Rightarrow> u32 \<Rightarrow> rv_buf \<times> bc_code" where
  "tt_sem_acquire c sem_addr n = (fst (tt_sem_inc (fst (tt_sem_wait_ge c sem_addr n)) sem_addr 0 (0 - n)), BC_OK)"

definition tt_cb_reserve_back :: "rv_buf \<Rightarrow> u32 \<Rightarrow> u32 \<Rightarrow> rv_buf \<times> bc_code" where
  "tt_cb_reserve_back c free_addr credits = tt_sem_acquire c free_addr credits"

definition tt_cb_push_back :: "rv_buf \<Rightarrow> u32 \<Rightarrow> u32 \<Rightarrow> u32 \<Rightarrow> rv_buf \<times> bc_code" where
  "tt_cb_push_back c recv_lo recv_mid n = tt_sem_inc c recv_lo recv_mid n"

definition tt_cb_wait_front :: "rv_buf \<Rightarrow> u32 \<Rightarrow> u32 \<Rightarrow> rv_buf \<times> bc_code" where
  "tt_cb_wait_front c recv_addr n = tt_sem_acquire c recv_addr n"

definition tt_cb_pop_front :: "rv_buf \<Rightarrow> u32 \<Rightarrow> u32 \<Rightarrow> u32 \<Rightarrow> rv_buf \<times> bc_code" where
  "tt_cb_pop_front c free_lo free_mid n = tt_sem_inc c free_lo free_mid n"

definition tt_li32 :: "rv_buf \<Rightarrow> u8 \<Rightarrow> u32 \<Rightarrow> rv_buf" where
  "tt_li32 c reg v = li32 reg v c"

definition tt_noc_xfer_reg :: "rv_buf \<Rightarrow> bool \<Rightarrow> u8 \<Rightarrow> u8 \<Rightarrow> u32 \<Rightarrow> u32 \<Rightarrow> u32 \<Rightarrow> rv_buf \<times> bc_code" where
  "tt_noc_xfer_reg c is_write treg rreg tmid rmid len =
     (let ctrl = (if is_write then NOC_CMD_WR OR NOC_CMD_RESP_MARKED else NOC_CMD_RD);
          c = li32 RV_T0 NIU_BASE c;
          c = emit (rv_sw treg RV_T0 NOC_TARG_LO) c;
          c = store_reg tmid NOC_TARG_MID c;
          c = emit (rv_sw rreg RV_T0 NOC_RET_LO) c;
          c = store_reg rmid NOC_RET_MID c;
          c = store_reg len NOC_AT_LEN_BE c;
          c = store_reg ctrl NOC_CTRL c;
          c = store_reg 1 NOC_CMD_CTRL c
      in (c, BC_OK))"

definition tt_noc_barrier :: "rv_buf \<Rightarrow> bool \<Rightarrow> rv_buf \<times> bc_code" where
  "tt_noc_barrier c is_write =
     (let sent = (if is_write then CNT_WR_SENT else CNT_RD_REQ);
          got = (if is_write then CNT_WR_ACK else CNT_RD_RESP);
          c = li32 RV_T0 NIU_BASE c;
          c = emit (rv_lw RV_T1 RV_T0 NOC_CMD_CTRL) c;
          c = li32 RV_T0 NIU_CNT_BASE c;
          loop = rv_buf_n_words c;
          c = emit (rv_lw RV_T1 RV_T0 sent) c;
          c = emit (rv_lw RV_T2 RV_T0 got) c;
          off = rv_buf_offset c (rv_buf_n_words c) loop;
          c = emit (rv_bne RV_T1 RV_T2 (ucast off)) c
      in (c, BC_OK))"

subsection \<open>What the generators emit\<close>

definition li32_code :: "u8 \<Rightarrow> u32 \<Rightarrow> rv_inst list" where
  "li32_code reg v =
     (let hi0 = take_bit 20 (drop_bit 12 v);
          lo0 = take_bit 12 v;
          (lo, hi) = (if bit v 11 then (lo0 - 0x1000, take_bit 20 (hi0 + 1)) else (lo0, hi0))
      in if hi \<noteq> 0 then Lui reg hi # (if lo \<noteq> 0 then [AluI ADDI reg reg (ucast lo)] else [])
         else [AluI ADDI reg RV_X0 (ucast lo)])"

lemma and_0x800: "(take_bit 12 (v :: u32) AND 0x800 \<noteq> 0) \<longleftrightarrow> bit v 11"
  using and_exp_eq_0_iff_not_bit [of "take_bit 12 v" 11] by (simp add: bit_take_bit_iff)

lemma li32_emits: "li32 reg v c = emit_list (map rv_encode (li32_code reg v)) c"
  by (simp add: li32_def li32_code_def Let_def enc_masks and_0x800 split: prod.splits)

lemma bit11_split:
  "(if bit v 11 then take_bit 12 v - 0x1000 else take_bit 12 v) = signed_take_bit 11 (v :: u32)"
proof (cases "bit v 11")
  case True
  have d: "take_bit 12 v AND NOT (mask 12) = 0" by (rule bit_word_eqI) (auto simp: bit_simps)
  have "NOT (mask 12) = (- 0x1000 :: u32)" by (simp flip: minus_exp_eq_not_mask)
  then have "take_bit 12 v - 0x1000 = take_bit 12 v + NOT (mask 12)" by simp
  also have "\<dots> = take_bit 12 v OR NOT (mask 12)" using d by (rule disjunctive_add_eq_or)
  also have "\<dots> = signed_take_bit 11 v"
  proof (rule bit_word_eqI)
    fix n assume "n < LENGTH(32)"
    then show "bit (take_bit 12 v OR NOT (mask 12)) n \<longleftrightarrow> bit (signed_take_bit 11 v) n"
      using True by (cases "n < 11"; cases "n = 11") (auto simp: bit_simps min_def)
  qed
  finally show ?thesis using True by simp
next
  case False
  have "bit (take_bit 12 v) n \<longleftrightarrow> bit (signed_take_bit 11 v) n" if "n < LENGTH(32)" for n
    using that False by (cases "n < 11"; cases "n = 11") (auto simp: bit_simps min_def)
  then have "take_bit 12 v = signed_take_bit 11 v" by (rule bit_word_eqI)
  then show ?thesis using False by simp
qed

text \<open>The two halves of \<open>lui\<close> and \<open>addi\<close>, the low one sign-extended, add up to the value.\<close>

lemma lui_addi_sum:
  fixes v :: u32
  defines "hi0 \<equiv> take_bit 20 (drop_bit 12 v)"
  shows "push_bit 12 (if bit v 11 then take_bit 20 (hi0 + 1) else hi0) + signed_take_bit 11 v = v"
proof -
  have p: "push_bit 12 (take_bit 20 x) = push_bit 12 x" for x :: u32
    by (rule bit_word_eqI) (auto simp: bit_simps)
  have "push_bit 12 hi0 + take_bit 12 v = v" using bits_ident [of 12 v] by (simp add: hi0_def p)
  moreover have "push_bit 12 (hi0 + 1) = push_bit 12 hi0 + 0x1000" by (simp add: push_bit_add)
  ultimately show ?thesis by (simp only: bit11_split [symmetric] p) (auto simp: algebra_simps p)
qed

lemma scast_imm12: "scast (ucast (signed_take_bit 11 (v :: u32)) :: i16) = signed_take_bit 11 v"
  by (rule bit_word_eqI) (auto simp: bit_simps min_def)

lemma imm12_range:
  "-2048 \<le> sint (ucast (signed_take_bit 11 (v :: u32)) :: i16)" "sint (ucast (signed_take_bit 11 v) :: i16) < 2048"
proof -
  have "sint (ucast (signed_take_bit 11 v) :: i16) = signed_take_bit 11 (sint (ucast v :: i16))"
    by (rule bit_eqI) (auto simp: bit_simps min_def)
  then show "-2048 \<le> sint (ucast (signed_take_bit 11 v) :: i16)" "sint (ucast (signed_take_bit 11 v) :: i16) < 2048"
    using signed_take_bit_int_greater_eq_minus_exp [of 11 "sint (ucast v :: i16)"]
      signed_take_bit_int_less_exp [of 11 "sint (ucast v :: i16)"] by simp_all
qed

lemma li32_code_alt:
  "li32_code reg v =
     (let hi0 = take_bit 20 (drop_bit 12 v); hi = (if bit v 11 then take_bit 20 (hi0 + 1) else hi0);
          lo = signed_take_bit 11 v
      in if hi \<noteq> 0 then Lui reg hi # (if lo \<noteq> 0 then [AluI ADDI reg reg (ucast lo)] else [])
         else [AluI ADDI reg RV_X0 (ucast lo)])"
  unfolding li32_code_def Let_def using bit11_split [of v] by (auto split: if_splits)

lemma li32_code_ok: "reg < 32 \<Longrightarrow> i \<in> set (li32_code reg v) \<Longrightarrow> straight i \<and> rv_wf i"
proof -
  have "take_bit 20 (x :: u32) < 0x100000" for x
    using unat_take_bit [of 20 x] by (simp add: word_less_nat_alt)
  then show "reg < 32 \<Longrightarrow> i \<in> set (li32_code reg v) \<Longrightarrow> straight i \<and> rv_wf i"
    by (auto simp: li32_code_alt Let_def imm12_range split: if_splits)
qed

lemma run_li32:
  assumes "reg \<noteq> 0"
  shows "run_list (li32_code reg v) s = (wr_reg reg v s)\<lparr>rv_pc := rv_pc s + length (li32_code reg v)\<rparr>"
  using lui_addi_sum [of v] assms
  by (auto simp: li32_code_alt Let_def scast_imm12 next_pc_def wr_reg_def rd_reg_def)

text \<open>
  Materialising a constant works for every 32-bit value, the carry out of the low
  half included: running the emitted one or two instructions puts the value in the register and
  changes nothing else.
\<close>

theorem li32_loads:
  assumes "reg \<noteq> 0" "reg < 32" "rv_n c + 2 \<le> RV_BUF_MAX_WORDS" "rv_pc s = rv_n c"
  shows "\<exists>k. rv_steps (li32 reg v c) k s = Some ((wr_reg reg v s)\<lparr>rv_pc := rv_n (li32 reg v c)\<rparr>)"
proof -
  let ?is = "li32_code reg v"
  have "length ?is \<le> 2" by (simp add: li32_code_alt Let_def)
  then have fit: "rv_n c + length (map rv_encode ?is) \<le> RV_BUF_MAX_WORDS" using assms(3) by simp
  then have "code_placed (li32 reg v c) (rv_n c) (map rv_encode ([] @ ?is))"
    unfolding li32_emits using emit_list_placed by simp
  from run_straight [OF this] assms(4)
  have "rv_steps (li32 reg v c) (length ?is) s = Some (run_list ?is s)"
    using li32_code_ok [OF assms(2)] by simp
  moreover have "rv_n (li32 reg v c) = rv_n c + length ?is"
    unfolding li32_emits using emit_list_fits [OF fit] by simp
  ultimately show ?thesis using run_li32 [OF assms(1)] assms(4) by auto
qed

theorem li32_loads_witness:
  "\<exists>k s'. rv_steps (li32 6 0xFFB20FFF rv_buf_init) k \<lparr>rv_regs = (\<lambda>_. 0), rv_pc = 0, rv_mem = (\<lambda>_. 0), rv_log = []\<rparr> = Some s' \<and>
     rd_reg s' 6 = 0xFFB20FFF"
proof -
  let ?s = "\<lparr>rv_regs = (\<lambda>_. 0), rv_pc = 0, rv_mem = (\<lambda>_. 0), rv_log = []\<rparr>"
  obtain k where "rv_steps (li32 6 0xFFB20FFF rv_buf_init) k ?s =
      Some ((wr_reg 6 0xFFB20FFF ?s)\<lparr>rv_pc := rv_n (li32 6 0xFFB20FFF rv_buf_init)\<rparr>)"
    using li32_loads [where reg = 6 and c = rv_buf_init and s = ?s and v = "0xFFB20FFF"] by (auto simp: rv_buf_init_def)
  moreover have "rd_reg ((wr_reg 6 0xFFB20FFF ?s)\<lparr>rv_pc := n\<rparr>) 6 = 0xFFB20FFF" for n
    by (simp add: rd_reg_def wr_reg_def)
  ultimately show ?thesis by blast
qed

subsection \<open>NIU requests\<close>

definition store_code :: "u32 \<Rightarrow> i16 \<Rightarrow> rv_inst list" where
  "store_code v off = li32_code RV_T1 v @ [Store SW RV_T1 RV_T0 off]"

lemma store_emits: "store_reg v off c = emit_list (map rv_encode (store_code v off)) c"
  by (simp add: store_reg_def store_code_def li32_emits)

text \<open>A request: the base in \<open>t0\<close>, then one store per (value, register) pair.\<close>

definition request_code :: "(u32 \<times> i16) list \<Rightarrow> rv_inst list" where
  "request_code ps = li32_code RV_T0 NIU_BASE @ concat (map (\<lambda>(v, off). store_code v off) ps)"

definition xfer_regs :: "u32 \<Rightarrow> u32 \<Rightarrow> u32 \<Rightarrow> u32 \<Rightarrow> u32 \<Rightarrow> u32 \<Rightarrow> (u32 \<times> i16) list" where
  "xfer_regs ctrl tlo tmid rlo rmid len =
     [(tlo, NOC_TARG_LO), (tmid, NOC_TARG_MID), (rlo, NOC_RET_LO), (rmid, NOC_RET_MID), (len, NOC_AT_LEN_BE),
      (ctrl, NOC_CTRL), (1, NOC_CMD_CTRL)]"

definition inc_regs :: "u32 \<Rightarrow> u32 \<Rightarrow> u32 \<Rightarrow> (u32 \<times> i16) list" where
  "inc_regs lo mid incr =
     [(lo, NOC_TARG_LO), (mid, NOC_TARG_MID), (NOC_AT_INC_FULL, NOC_AT_LEN_BE), (incr, NOC_AT_DATA),
      (NOC_CMD_AT, NOC_CTRL), (1, NOC_CMD_CTRL)]"

lemma xfer_emits:
  "fst (noc_xfer c ctrl tlo tmid rlo rmid len) =
     emit_list (map rv_encode (request_code (xfer_regs ctrl tlo tmid rlo rmid len))) c"
  by (simp add: noc_xfer_def request_code_def xfer_regs_def li32_emits store_emits Let_def)

lemma inc_emits:
  "fst (tt_sem_inc c lo mid incr) = emit_list (map rv_encode (request_code (inc_regs lo mid incr))) c"
  by (simp add: tt_sem_inc_def request_code_def inc_regs_def li32_emits store_emits Let_def)

definition imm_ok :: "i16 \<Rightarrow> bool" where
  "imm_ok off \<longleftrightarrow> -2048 \<le> sint off \<and> sint off < 2048"

lemma store_code_ok: "imm_ok off \<Longrightarrow> i \<in> set (store_code v off) \<Longrightarrow> straight i \<and> rv_wf i"
  using li32_code_ok [of RV_T1 i v] by (auto simp: store_code_def imm_ok_def)

lemma request_code_ok:
  "\<forall>(v, off) \<in> set ps. imm_ok off \<Longrightarrow> i \<in> set (request_code ps) \<Longrightarrow> straight i \<and> rv_wf i"
  using li32_code_ok [of RV_T0 i NIU_BASE] store_code_ok by (fastforce simp: request_code_def)

lemma run_store:
  "rd_reg (run_list (store_code v off) s) RV_T0 = rd_reg s RV_T0 \<and>
   rv_log (run_list (store_code v off) s) = rv_log s @ [(rd_reg s RV_T0 + scast off, v)]"
  by (simp add: store_code_def run_li32 Let_def rd_reg_def wr_reg_def next_pc_def)

lemma run_stores:
  "rv_log (run_list (concat (map (\<lambda>(v, off). store_code v off) ps)) s) =
     rv_log s @ map (\<lambda>(v, off). (rd_reg s RV_T0 + scast off, v)) ps"
proof (induction ps arbitrary: s)
  case (Cons p ps)
  obtain v off where "p = (v, off)" by (cases p)
  then show ?case using Cons.IH [of "run_list (store_code v off) s"] run_store [of v off s] by simp
qed simp

lemma run_request:
  "rv_log (run_list (request_code ps) s) = rv_log s @ map (\<lambda>(v, off). (NIU_BASE + scast off, v)) ps"
  by (simp add: request_code_def run_stores run_li32 rd_reg_def wr_reg_def)

lemma li32_code_length: "length (li32_code reg v) \<le> 2"
  by (simp add: li32_code_alt Let_def)

lemma request_code_length: "length (request_code ps) \<le> 2 + 3 * length ps"
proof -
  have "length (concat (map (\<lambda>(v, off). store_code v off) ps)) \<le> 3 * length ps"
  proof (induction ps)
    case (Cons p ps)
    then show ?case using li32_code_length [of RV_T1 "fst p"] by (cases p) (simp add: store_code_def)
  qed simp
  then show ?thesis using li32_code_length [of RV_T0 NIU_BASE] by (simp add: request_code_def)
qed

lemma request_runs:
  assumes "\<forall>(v, off) \<in> set ps. imm_ok off" "rv_n c + (2 + 3 * length ps) \<le> RV_BUF_MAX_WORDS" "rv_pc s = rv_n c"
    and "b = emit_list (map rv_encode (request_code ps)) c"
  shows "\<exists>k s'. rv_steps b k s = Some s' \<and> rv_pc s' = rv_n b \<and>
    rv_log s' = rv_log s @ map (\<lambda>(v, off). (NIU_BASE + scast off, v)) ps"
proof -
  let ?is = "request_code ps"
  have fit: "rv_n c + length (map rv_encode ?is) \<le> RV_BUF_MAX_WORDS" using assms(2) request_code_length [of ps] by simp
  have "code_placed b (rv_n c) (map rv_encode ([] @ ?is))" using emit_list_placed [OF fit] assms(4) by simp
  from run_straight [OF this, of s] assms(3) request_code_ok [OF assms(1)]
  have "rv_steps b (length ?is) s = Some (run_list ?is s)" "rv_pc (run_list ?is s) = rv_n c + length ?is" by simp_all
  moreover have "rv_n b = rv_n c + length ?is" using emit_list_fits [OF fit] assms(4) by simp
  ultimately show ?thesis using run_request [of ps s] by metis
qed

text \<open>
  Property C31.  A transfer programs the NIU as intended: running the code of a NoC read or write
  makes exactly seven stores, the five address and length registers, then the control word, and
  only then the store that fires the request.
\<close>

theorem noc_xfer_programs_niu:
  assumes "noc_xfer c ctrl tlo tmid rlo rmid len = (b, r)" "rv_n c + 23 \<le> RV_BUF_MAX_WORDS" "rv_pc s = rv_n c"
  shows "r = BC_OK \<and> (\<exists>k s'. rv_steps b k s = Some s' \<and> rv_pc s' = rv_n b \<and>
    rv_log s' = rv_log s @ [(NIU_BASE, tlo), (NIU_BASE + 0x04, tmid), (NIU_BASE + 0x0C, rlo), (NIU_BASE + 0x10, rmid),
       (NIU_BASE + 0x20, len), (NIU_BASE + 0x1C, ctrl), (NIU_BASE + 0x28, 1)])"
proof -
  have b: "b = emit_list (map rv_encode (request_code (xfer_regs ctrl tlo tmid rlo rmid len))) c"
    using xfer_emits assms(1) by (metis fst_conv)
  have "r = BC_OK" using assms(1) by (simp add: noc_xfer_def Let_def)
  moreover have "\<forall>(v, off) \<in> set (xfer_regs ctrl tlo tmid rlo rmid len). imm_ok off"
    by (simp add: xfer_regs_def imm_ok_def)
  from request_runs [OF this _ assms(3) b] assms(2)
  have "\<exists>k s'. rv_steps b k s = Some s' \<and> rv_pc s' = rv_n b \<and>
    rv_log s' = rv_log s @ map (\<lambda>(v, off). (NIU_BASE + scast off, v)) (xfer_regs ctrl tlo tmid rlo rmid len)"
    by (simp add: xfer_regs_def)
  ultimately show ?thesis by (simp add: xfer_regs_def)
qed

theorem noc_xfer_programs_niu_witness:
  "\<exists>k s'. rv_steps (fst (noc_xfer rv_buf_init 2 0x1000 0 0x2000 0x40 64)) k
      \<lparr>rv_regs = (\<lambda>_. 0), rv_pc = 0, rv_mem = (\<lambda>_. 0), rv_log = []\<rparr> = Some s' \<and>
     last (rv_log s') = (0xFFB20028, 1)"
proof -
  let ?s = "\<lparr>rv_regs = (\<lambda>_. 0), rv_pc = 0, rv_mem = (\<lambda>_. 0), rv_log = []\<rparr>"
  have "rv_n rv_buf_init + 23 \<le> RV_BUF_MAX_WORDS" "rv_pc ?s = rv_n rv_buf_init" by (simp_all add: rv_buf_init_def)
  from noc_xfer_programs_niu [OF prod.collapse [symmetric] this]
  obtain k s' where "rv_steps (fst (noc_xfer rv_buf_init 2 0x1000 0 0x2000 0x40 64)) k ?s = Some s'"
    "rv_log s' = rv_log ?s @ [(NIU_BASE, 0x1000), (NIU_BASE + 0x04, 0), (NIU_BASE + 0x0C, 0x2000), (NIU_BASE + 0x10, 0x40),
       (NIU_BASE + 0x20, 64), (NIU_BASE + 0x1C, 2), (NIU_BASE + 0x28, 1)]"
    by blast
  moreover from this(2) have "last (rv_log s') = (0xFFB20028, 1)" by simp
  ultimately show ?thesis by blast
qed

subsection \<open>Waiting\<close>

text \<open>A core and its environment: between two steps of the core, others may change memory.\<close>

inductive core_run :: "rv_buf \<Rightarrow> rv_state \<Rightarrow> rv_state \<Rightarrow> bool" for b s where
  start: "core_run b s s"
| core: "core_run b s t \<Longrightarrow> rv_step b t = Some u \<Longrightarrow> core_run b s u"
| env: "core_run b s t \<Longrightarrow> core_run b s (t\<lparr>rv_mem := m\<rparr>)"

text \<open>Straight-line code without loads: its effect on the registers does not depend on memory.\<close>

fun pure_regs :: "rv_inst \<Rightarrow> bool" where
  "pure_regs (Lui _ _) = True" | "pure_regs (AluI ADDI _ _ _) = True" | "pure_regs (Alu ADD _ _ _) = True"
| "pure_regs _ = False"

lemma li32_pure: "i \<in> set (li32_code reg v) \<Longrightarrow> pure_regs i"
  by (auto simp: li32_code_def Let_def split: if_splits prod.splits)

lemma pure_regs_exec:
  assumes "pure_regs i" "rv_regs s = rv_regs t"
  shows "rv_regs (the (rv_exec i s)) = rv_regs (the (rv_exec i t))"
  using assms by (cases i rule: pure_regs.cases) (simp_all add: wr_reg_def rd_reg_def)

definition wait_prefix :: "u32 \<Rightarrow> u32 \<Rightarrow> rv_inst list" where
  "wait_prefix addr thr = li32_code RV_T0 addr @ li32_code RV_T2 thr"

definition wait_code :: "u32 \<Rightarrow> u32 \<Rightarrow> rv_inst list" where
  "wait_code addr thr = wait_prefix addr thr @ [Load LW RV_T1 RV_T0 0, Branch BLTU RV_T1 RV_T2 (- 4)]"

lemma emit_n: "rv_n c < RV_BUF_MAX_WORDS \<Longrightarrow> rv_n (emit w c) = rv_n c + 1"
  by (simp add: rv_buf_emit_def)

lemma back_offset: "rv_n c < RV_BUF_MAX_WORDS \<Longrightarrow>
  ucast (rv_buf_offset (emit w c) (rv_buf_n_words (emit w c)) (rv_buf_n_words c)) = (- 4 :: i16)"
  by (simp add: rv_buf_offset_def rv_buf_n_words_def emit_n)

lemma wait_emits:
  assumes "rv_n c + 6 \<le> RV_BUF_MAX_WORDS"
  shows "fst (tt_sem_wait_ge c addr thr) = emit_list (map rv_encode (wait_code addr thr)) c"
proof -
  let ?c = "emit_list (map rv_encode (wait_prefix addr thr)) c"
  have "length (wait_prefix addr thr) \<le> 4"
    using li32_code_length [of RV_T0 addr] li32_code_length [of RV_T2 thr] by (simp add: wait_prefix_def)
  then have "rv_n ?c < RV_BUF_MAX_WORDS" using assms emit_list_fits [of c "map rv_encode (wait_prefix addr thr)"] by simp
  from back_offset [OF this] show ?thesis
    by (simp add: tt_sem_wait_ge_def Let_def li32_emits wait_code_def wait_prefix_def del: rv_encode.simps)
       (simp add: wait_prefix_def)
qed

lemma wait_code_ok: "i \<in> set (wait_code addr thr) \<Longrightarrow> rv_wf i"
  using li32_code_ok [of RV_T0 i addr] li32_code_ok [of RV_T2 i thr] by (auto simp: wait_code_def wait_prefix_def)

lemma wait_code_nth: "i < length (wait_code addr thr) \<Longrightarrow> rv_wf (wait_code addr thr ! i)"
  by (rule wait_code_ok [OF nth_mem])

lemma wait_prefix_regs:
  "rd_reg (run_list (wait_prefix addr thr) s) RV_T0 = addr" "rd_reg (run_list (wait_prefix addr thr) s) RV_T2 = thr"
  by (simp_all add: wait_prefix_def run_li32 rd_reg_def wr_reg_def)

text \<open>Where a core inside the wait can be, and what its registers hold there.\<close>

definition wait_inv :: "nat \<Rightarrow> u32 \<Rightarrow> u32 \<Rightarrow> rv_state \<Rightarrow> rv_state \<Rightarrow> bool" where
  "wait_inv p addr thr s t \<longleftrightarrow>
     (let is = wait_prefix addr thr; loop = p + length is in
      (\<exists>i < length is. rv_pc t = p + i \<and> rv_regs t = rv_regs (run_list (take i is) s)) \<or>
      (rv_pc t = loop \<or> rv_pc t = loop + 1) \<and> rd_reg t RV_T0 = addr \<and> rd_reg t RV_T2 = thr \<or>
      rv_pc t = loop + 2 \<and> thr \<le> rd_reg t RV_T1)"

lemma wait_inv_step:
  assumes "code_placed b p (map rv_encode (wait_code addr thr))" "rv_n b = p + length (wait_code addr thr)"
    and inv: "wait_inv p addr thr s t" and step: "rv_step b t = Some u"
  shows "wait_inv p addr thr s u"
proof -
  let ?is = "wait_prefix addr thr"
  define loop where "loop = p + length ?is"
  have len: "length (wait_code addr thr) = length ?is + 2" by (simp add: wait_code_def)
  have ex: "rv_step b t = rv_exec (wait_code addr thr ! i) t" if "rv_pc t = p + i" "i < length ?is + 2" for i
    using placed_step [OF assms(1), of i t] that wait_code_nth [of i addr thr] len by simp
  consider (pre) i where "i < length ?is" "rv_pc t = p + i" "rv_regs t = rv_regs (run_list (take i ?is) s)"
    | (load) "rv_pc t = loop" "rd_reg t RV_T0 = addr" "rd_reg t RV_T2 = thr"
    | (branch) "rv_pc t = loop + 1" "rd_reg t RV_T0 = addr" "rd_reg t RV_T2 = thr"
    | (out) "rv_pc t = loop + 2"
    using inv unfolding wait_inv_def Let_def loop_def by blast
  then show ?thesis
  proof cases
    case pre
    have "?is ! i \<in> set ?is" using pre(1) by simp
    then have pi: "pure_regs (?is ! i)" using li32_pure by (auto simp: wait_prefix_def)
    then have "straight (?is ! i)" by (cases "?is ! i" rule: pure_regs.cases) simp_all
    then obtain u' where u': "rv_exec (?is ! i) t = Some u'" "rv_pc u' = rv_pc t + 1" using straight_exec by blast
    have "rv_step b t = rv_exec (?is ! i) t" using ex [of i] pre(1,2) by (simp add: wait_code_def nth_append)
    then have u: "u' = u" using u' step by simp
    have "rv_regs u = rv_regs (the (rv_exec (?is ! i) (run_list (take i ?is) s)))"
      using pure_regs_exec [OF pi pre(3)] u'(1) u by simp
    also have "\<dots> = rv_regs (run_list (take (Suc i) ?is) s)" using pre(1) by (simp add: take_Suc_conv_app_nth)
    finally have r: "rv_regs u = rv_regs (run_list (take (Suc i) ?is) s)" .
    have pc: "rv_pc u = p + Suc i" using u u'(2) pre(2) by simp
    show ?thesis
    proof (cases "Suc i < length ?is")
      case True
      then show ?thesis using r pc unfolding wait_inv_def Let_def by blast
    next
      case False
      then have e: "Suc i = length ?is" using pre(1) by simp
      then have "rd_reg u r = rd_reg (run_list ?is s) r" for r using r by (simp add: rd_reg_def)
      then have "rv_pc u = loop" "rd_reg u RV_T0 = addr" "rd_reg u RV_T2 = thr"
        using pc e wait_prefix_regs [of addr thr s] by (simp_all add: loop_def)
      then show ?thesis unfolding wait_inv_def Let_def loop_def by blast
    qed
  next
    case load
    then have "u = next_pc (wr_reg RV_T1 (rv_mem t addr) t)"
      using ex [of "length ?is"] step by (simp add: loop_def wait_code_def)
    then have "rv_pc u = loop + 1" "rd_reg u RV_T0 = addr" "rd_reg u RV_T2 = thr" using load by simp_all
    then show ?thesis unfolding wait_inv_def Let_def loop_def by blast
  next
    case branch
    then have "u = (if rd_reg t RV_T1 < thr then jump (- 4) t else next_pc t)"
      using ex [of "length ?is + 1"] step by (simp add: loop_def wait_code_def nth_append)
    then have "rv_pc u = loop \<and> rd_reg u RV_T0 = addr \<and> rd_reg u RV_T2 = thr \<or> rv_pc u = loop + 2 \<and> thr \<le> rd_reg u RV_T1"
      using branch by (auto simp: jump_def rd_reg_def split: if_splits)
    then show ?thesis unfolding wait_inv_def Let_def loop_def by blast
  next
    case out
    then have "rv_step b t = None" using assms(2) len by (simp add: rv_step_def loop_def)
    then show ?thesis using step by simp
  qed
qed

lemma wait_inv_run:
  assumes "core_run b s t" "code_placed b p (map rv_encode (wait_code addr thr))" "rv_n b = p + length (wait_code addr thr)"
    and "rv_pc s = p"
  shows "wait_inv p addr thr s t"
  using assms(1)
proof induction
  case start
  show ?case
  proof (cases "length (wait_prefix addr thr) = 0")
    case True
    then show ?thesis by (simp add: wait_prefix_def li32_code_alt Let_def split: if_splits)
  next
    case False
    then show ?thesis using assms(4) unfolding wait_inv_def Let_def by (intro disjI1 exI [of _ 0]) simp
  qed
next
  case (core t u)
  then show ?case using wait_inv_step [OF assms(2,3)] by blast
next
  case (env t m)
  then show ?case by (simp add: wait_inv_def Let_def rd_reg_def)
qed

text \<open>
  Property C12.  The spin loop waits: however other agents change memory between its steps, a core
  that has reached the end of the emitted code last read at least the threshold from the
  counter; and once the counter holds the threshold and keeps it, two steps leave the loop.
\<close>

theorem sem_wait_ge_waits:
  assumes "rv_n c + 6 \<le> RV_BUF_MAX_WORDS" "rv_pc s = rv_n c" "core_run (fst (tt_sem_wait_ge c addr thr)) s t"
  shows "(rv_pc t = rv_n (fst (tt_sem_wait_ge c addr thr)) \<longrightarrow> thr \<le> rd_reg t RV_T1) \<and>
    (rv_pc t = rv_n (fst (tt_sem_wait_ge c addr thr)) - 2 \<and> thr \<le> rv_mem t addr \<longrightarrow>
     (\<exists>u. rv_steps (fst (tt_sem_wait_ge c addr thr)) 2 t = Some u \<and> rv_pc u = rv_n (fst (tt_sem_wait_ge c addr thr))))"
proof -
  let ?b = "fst (tt_sem_wait_ge c addr thr)" and ?is = "wait_code addr thr"
  have fit: "rv_n c + length (map rv_encode ?is) \<le> RV_BUF_MAX_WORDS"
    using assms(1) li32_code_length [of RV_T0 addr] li32_code_length [of RV_T2 thr]
    by (simp add: wait_code_def wait_prefix_def)
  have pl: "code_placed ?b (rv_n c) (map rv_encode ?is)" and n: "rv_n ?b = rv_n c + length ?is"
    using emit_list_placed [OF fit] emit_list_fits [OF fit] wait_emits [OF assms(1)] by simp_all
  note inv = wait_inv_run [OF assms(3) pl n assms(2)]
  let ?l = "length (wait_prefix addr thr)"
  have len: "length ?is = ?l + 2" by (simp add: wait_code_def)
  have "thr \<le> rd_reg t RV_T1" if "rv_pc t = rv_n ?b" using inv that n len by (auto simp: wait_inv_def Let_def)
  moreover have "\<exists>u. rv_steps ?b 2 t = Some u \<and> rv_pc u = rv_n ?b"
    if t: "rv_pc t = rv_n ?b - 2" "thr \<le> rv_mem t addr"
  proof -
    have pc: "rv_pc t = rv_n c + ?l" using t(1) n len by simp
    then have r: "rd_reg t RV_T0 = addr" "rd_reg t RV_T2 = thr" using inv by (auto simp: wait_inv_def Let_def)
    define u where "u = next_pc (wr_reg RV_T1 (rv_mem t addr) t)"
    have "rv_step ?b t = Some u"
      using placed_step [OF pl, of ?l t] wait_code_ok pc r len by (simp add: wait_code_def u_def)
    moreover have "rv_step ?b u = Some (next_pc u)"
    proof -
      have "rv_step ?b u = rv_exec (?is ! (?l + 1)) u"
        using placed_step [OF pl, of "?l + 1" u] wait_code_nth [of "?l + 1" addr thr] pc len by (simp add: u_def)
      then show ?thesis using t(2) r by (simp add: wait_code_def nth_append u_def not_less)
    qed
    ultimately show ?thesis using pc n len by (simp add: numeral_2_eq_2 u_def)
  qed
  ultimately show ?thesis by blast
qed

theorem sem_wait_ge_waits_witness:
  "\<exists>u. rv_steps (fst (tt_sem_wait_ge rv_buf_init 0 0)) 2
     \<lparr>rv_regs = (\<lambda>_. 0), rv_pc = 2, rv_mem = (\<lambda>_. 0), rv_log = []\<rparr> = Some u \<and> rv_pc u = 4"
proof -
  let ?s = "\<lparr>rv_regs = (\<lambda>_. 0), rv_pc = 0, rv_mem = (\<lambda>_. 0), rv_log = []\<rparr>"
  let ?t = "?s\<lparr>rv_pc := 2\<rparr>"
  let ?b = "fst (tt_sem_wait_ge rv_buf_init 0 0)"
  have fits: "rv_n rv_buf_init + 6 \<le> RV_BUF_MAX_WORDS" "rv_pc ?s = rv_n rv_buf_init" by (simp_all add: rv_buf_init_def)
  have code: "wait_code 0 0 = [AluI ADDI RV_T0 RV_X0 0, AluI ADDI RV_T2 RV_X0 0, Load LW RV_T1 RV_T0 0, Branch BLTU RV_T1 RV_T2 (- 4)]"
    by (simp add: wait_code_def wait_prefix_def li32_code_def)
  have b: "?b = emit_list (map rv_encode (wait_code 0 0)) rv_buf_init" by (rule wait_emits [OF fits(1)])
  have n: "rv_n ?b = 4" and pl: "code_placed ?b 0 (map rv_encode (wait_code 0 0))"
    using emit_list_fits [of rv_buf_init "map rv_encode (wait_code 0 0)"]
      emit_list_placed [of rv_buf_init "map rv_encode (wait_code 0 0)"] b
    by (simp_all add: code rv_buf_init_def)
  have "rv_step ?b ?s = Some (?s\<lparr>rv_pc := 1, rv_regs := (\<lambda>_. 0)(5 := 0)\<rparr>)"
    using placed_step [OF pl, of 0 ?s] by (simp add: code next_pc_def wr_reg_def rd_reg_def)
  moreover have "rv_step ?b (?s\<lparr>rv_pc := 1, rv_regs := (\<lambda>_. 0)(5 := 0)\<rparr>) =
      Some (?s\<lparr>rv_pc := 2, rv_regs := (\<lambda>_. 0)(5 := 0, 7 := 0)\<rparr>)"
    using placed_step [OF pl, of 1 "?s\<lparr>rv_pc := 1, rv_regs := (\<lambda>_. 0)(5 := 0)\<rparr>"]
    by (simp add: code next_pc_def wr_reg_def rd_reg_def)
  moreover have "(\<lambda>_. 0)(5 := 0, 7 := 0) = (\<lambda>_ :: u8. 0 :: u32)" by auto
  ultimately have "core_run ?b ?s ?t"
    using core_run.core [OF core_run.core [OF core_run.start]] by fastforce
  from sem_wait_ge_waits [OF fits this] n show ?thesis by simp
qed

text \<open>
  A full buffer is not noticed: the generators ignore the result of the append, so they return
  \<open>BC_OK\<close> with no code at all.
\<close>

lemma generators_ignore_overflow:
  assumes "rv_n c \<ge> RV_BUF_MAX_WORDS"
  shows "tt_noc_read c tlo tmid rlo rmid len = (c, BC_OK)" "tt_noc_write c tlo tmid rlo rmid len = (c, BC_OK)"
    "tt_sem_inc c lo mid incr = (c, BC_OK)" "tt_sem_wait_ge c addr thr = (c, BC_OK)"
    "tt_sem_acquire c addr n = (c, BC_OK)"
proof -
  have e: "emit w c = c" for w using assms by (simp add: rv_buf_emit_def)
  have li: "li32 reg v c = c" for reg v unfolding li32_emits by (rule emit_list_full [OF assms])
  have st: "store_reg v off c = c" for v off unfolding store_emits by (rule emit_list_full [OF assms])
  show "tt_noc_read c tlo tmid rlo rmid len = (c, BC_OK)" "tt_noc_write c tlo tmid rlo rmid len = (c, BC_OK)"
    by (simp_all add: tt_noc_read_def tt_noc_write_def noc_xfer_def li st)
  show inc: "tt_sem_inc c lo mid incr = (c, BC_OK)" for lo mid incr by (simp add: tt_sem_inc_def li st)
  show wt: "tt_sem_wait_ge c addr thr = (c, BC_OK)" for addr thr by (simp add: tt_sem_wait_ge_def li e Let_def)
  show "tt_sem_acquire c addr n = (c, BC_OK)" by (simp add: tt_sem_acquire_def wt inc)
qed

subsection \<open>The credit protocol\<close>

text \<open>
  A circular buffer between a producer and a consumer core.  The two counters are 32-bit words
  in L1 that only the atomic unit changes; an acquiring operation is two steps, the spin that
  ends when the counter holds enough and the atomic addition of \<open>0 - n\<close> (\<open>tt_sem_acquire\<close>), and
  the partner may act in between.  The pending fields hold the credits between the two steps;
  the held counts are the slots the producer fills and the tiles the consumer reads.  The
  request that subtracts is posted; the relation takes it to be applied before the same core's
  next acquiring load of that counter, which is what the NoC has to guarantee for the protocol.
\<close>

record cb =
  cb_free :: u32
  cb_recv :: u32
  p_pend :: "u32 option"
  c_pend :: "u32 option"
  p_held :: nat
  c_held :: nat

definition cb_start :: "u32 \<Rightarrow> cb" where
  "cb_start depth = \<lparr>cb_free = depth, cb_recv = 0, p_pend = None, c_pend = None, p_held = 0, c_held = 0\<rparr>"

inductive cb_step :: "cb \<Rightarrow> cb \<Rightarrow> bool" where
  reserve_wait: "p_pend s = None \<Longrightarrow> n \<le> cb_free s \<Longrightarrow> cb_step s (s\<lparr>p_pend := Some n\<rparr>)"
| reserve_take: "p_pend s = Some n \<Longrightarrow>
    cb_step s (s\<lparr>p_pend := None, cb_free := cb_free s + (0 - n), p_held := p_held s + unat n\<rparr>)"
| push_back: "unat n \<le> p_held s \<Longrightarrow>
    cb_step s (s\<lparr>cb_recv := cb_recv s + n, p_held := p_held s - unat n\<rparr>)"
| wait_wait: "c_pend s = None \<Longrightarrow> n \<le> cb_recv s \<Longrightarrow> cb_step s (s\<lparr>c_pend := Some n\<rparr>)"
| wait_take: "c_pend s = Some n \<Longrightarrow>
    cb_step s (s\<lparr>c_pend := None, cb_recv := cb_recv s + (0 - n), c_held := c_held s + unat n\<rparr>)"
| pop_front: "unat n \<le> c_held s \<Longrightarrow>
    cb_step s (s\<lparr>cb_free := cb_free s + n, c_held := c_held s - unat n\<rparr>)"

inductive_cases cb_stepE: "cb_step s t"

definition cb_inv :: "nat \<Rightarrow> cb \<Rightarrow> bool" where
  "cb_inv depth s \<longleftrightarrow>
     unat (cb_free s) + p_held s + unat (cb_recv s) + c_held s = depth \<and>
     (\<forall>n. p_pend s = Some n \<longrightarrow> n \<le> cb_free s) \<and> (\<forall>n. c_pend s = Some n \<longrightarrow> n \<le> cb_recv s)"

lemma unat_sub_credit: "n \<le> (x :: u32) \<Longrightarrow> unat (x + (0 - n)) = unat x - unat n"
  by (simp add: unat_sub)

lemma unat_add_credit:
  assumes "unat x + unat n < 2 ^ 32"
  shows "unat (x + n :: u32) = unat x + unat n"
  using assms by (subst unat_word_ariths(1)) simp

lemma cb_inv_step:
  assumes "cb_inv depth s" "cb_step s t" "depth < 2 ^ 32"
  shows "cb_inv depth t"
  using assms(2)
proof cases
  case (reserve_take n)
  then have "n \<le> cb_free s" using assms(1) by (simp add: cb_inv_def)
  then show ?thesis using assms(1) reserve_take unat_sub_credit [of n "cb_free s"]
    by (simp add: cb_inv_def word_le_nat_alt)
next
  case (wait_take n)
  then have "n \<le> cb_recv s" using assms(1) by (simp add: cb_inv_def)
  then show ?thesis using assms(1) wait_take unat_sub_credit [of n "cb_recv s"]
    by (simp add: cb_inv_def word_le_nat_alt)
next
  case (push_back n)
  have "unat (cb_recv s + n) = unat (cb_recv s) + unat n"
    using assms(1,3) push_back by (intro unat_add_credit) (simp add: cb_inv_def)
  then show ?thesis using assms(1) push_back by (auto simp: cb_inv_def word_le_nat_alt)
next
  case (pop_front n)
  have "unat (cb_free s + n) = unat (cb_free s) + unat n"
    using assms(1,3) pop_front by (intro unat_add_credit) (simp add: cb_inv_def)
  then show ?thesis using assms(1) pop_front by (auto simp: cb_inv_def word_le_nat_alt)
qed (use assms(1) in \<open>auto simp: cb_inv_def\<close>)



end
