(* ===== verification/Tdf_Place.thy ===== *)
theory Tdf_Place
  imports Tdf Tensix_Noc
begin

text \<open>
  L1 placement, \<open>src/src/tdf/tdf_place.c\<close>, and NoC orchestration with its emitters,
  \<open>src/src/tdf/tdf_noc.c\<close>.  The chip selected by \<open>td_setchip\<close> is an argument.  Sizes and addresses
  are 32-bit words, as in the source; the theorems compare them with the exact byte counts.
\<close>

subsection \<open>Placement\<close>

definition round_up :: "u32 \<Rightarrow> u32 \<Rightarrow> u32" where
  "round_up x a = (x + (a - 1)) AND NOT (a - 1)"

definition dtype_bytes :: "bir_type_kind \<Rightarrow> u32" where
  "dtype_bytes dt = (case dt of BIR_TYPE_FLOAT \<Rightarrow> 4 | BIR_TYPE_BFLOAT \<Rightarrow> 2 | BIR_TYPE_INT \<Rightarrow> 4 | _ \<Rightarrow> 4)"

definition td_tile_bytes :: "td_tag \<Rightarrow> u32" where
  "td_tile_bytes tag = ucast (tg_rows tag) * ucast (tg_cols tag) * dtype_bytes (tg_dtype tag)"

fun place_from :: "nat \<Rightarrow> nat list \<Rightarrow> u32 \<Rightarrow> td_mod \<Rightarrow> td_mod \<times> bc_code" where
  "place_from chip [] cur0 M = (M, BC_OK)"
| "place_from chip (i # is) cur0 M =
     (let cur = round_up cur0 TD_L1_ALIGN;
          M1 = M\<lparr>chans := (chans M)(i := (chans M i)\<lparr>ch_l1_off := cur\<rparr>)\<rparr>;
          c = chans M i;
          tile_b = td_tile_bytes (ch_tag c);
          data_b = tile_b * ucast (ch_depth c);
          total = round_up (data_b + TD_FIFO_BYTES) TD_L1_ALIGN;
          ceiling = td_shbase chip
      in if cur > ceiling \<or> total > ceiling - cur then (M1, BC_ERR_TDF)
         else place_from chip is (cur + total) M1)"

definition td_place_l1 :: "nat \<Rightarrow> td_mod \<Rightarrow> td_mod \<times> bc_code" where
  "td_place_l1 chip M = place_from chip [0..<ncha M] TD_L1_CB_BASE M"

subsection \<open>NoC addresses and arcs\<close>

definition td_noc_addr :: "u8 \<Rightarrow> u8 \<Rightarrow> u64 \<Rightarrow> u64" where
  "td_noc_addr x y local =
     (local AND 0x0000000FFFFFFFFF) OR push_bit 36 (ucast (x AND 0x3F)) OR push_bit 42 (ucast (y AND 0x3F))"

fun orchestrate_from :: "nat list \<Rightarrow> td_mod \<Rightarrow> td_mod \<times> bc_code" where
  "orchestrate_from [] M = (M, BC_OK)"
| "orchestrate_from (i # is) M =
     (let a = arcs M i in
      if ar_kind a \<noteq> TD_AR_RD \<and> ar_kind a \<noteq> TD_AR_WR then orchestrate_from is M
      else if ar_chan a \<ge> ncha M then (M, BC_ERR_TDF)
      else
        let c = chans M (ar_chan a);
            a1 = a\<lparr>ar_noc_id := (if ar_kind a = TD_AR_RD then 0 else 1)\<rparr>;
            M1 = M\<lparr>arcs := (arcs M)(i := a1)\<rparr>;
            len = td_tile_bytes (ch_tag c)
        in if len = 0 then (M1, BC_ERR_TDF)
           else if len > TD_NOC_MAX_XFER then (M1, BC_ERR_TDF)
           else orchestrate_from is (M1\<lparr>arcs := (arcs M1)(i := a1\<lparr>ar_length := len\<rparr>)\<rparr>))"

definition td_noc_orchestrate :: "td_mod \<Rightarrow> td_mod \<times> bc_code" where
  "td_noc_orchestrate M = orchestrate_from [0..<narc M] M"

definition td_emit_cb_arc :: "td_mod \<Rightarrow> td_arc_t \<Rightarrow> rv_buf \<Rightarrow> rv_buf \<times> bc_code" where
  "td_emit_cb_arc M a code =
     (if ar_chan a \<ge> ncha M then (code, BC_ERR_TDF)
      else
        let c = chans M (ar_chan a);
            data_b = td_tile_bytes (ch_tag c) * ucast (ch_depth c);
            recv = ch_l1_off c + data_b;
            freec = ch_l1_off c + data_b + 4
        in if ar_kind a = TD_AR_RSV then tt_cb_reserve_back code freec (ucast (ar_cnt a))
           else if ar_kind a = TD_AR_WAIT then tt_cb_wait_front code recv (ucast (ar_cnt a))
           else if ar_kind a = TD_AR_PUSH then
             (let cons = rgns M (ch_cons c);
                  na = td_noc_addr (ucast (rg_x cons)) (ucast (rg_y cons)) (ucast recv)
              in tt_cb_push_back code (ucast na) (ucast (drop_bit 32 na)) (ucast (ar_cnt a)))
           else if ar_kind a = TD_AR_POP then
             (let prd = rgns M (ch_prod c);
                  na = td_noc_addr (ucast (rg_x prd)) (ucast (rg_y prd)) (ucast freec)
              in tt_cb_pop_front code (ucast na) (ucast (drop_bit 32 na)) (ucast (ar_cnt a)))
           else (code, BC_ERR_TDF))"

abbreviation (input) RV_ZERO :: u8 where "RV_ZERO \<equiv> 0"
abbreviation (input) RV_A3 :: u8 where "RV_A3 \<equiv> 13"
abbreviation (input) RV_A4 :: u8 where "RV_A4 \<equiv> 14"
abbreviation (input) RV_A5 :: u8 where "RV_A5 \<equiv> 15"
abbreviation (input) RV_A6 :: u8 where "RV_A6 \<equiv> 16"
abbreviation (input) RV_A7 :: u8 where "RV_A7 \<equiv> 17"

definition RT_ARG_OFF_KARG :: "u32 \<Rightarrow> u32" where
  "RT_ARG_OFF_KARG i = 48 + i * 4"

text \<open>An append whose index is kept, as \<open>uint32_t\<close>; a refusal gives \<open>0xFFFFFFFF\<close>.\<close>

definition emit_idx :: "u32 \<Rightarrow> rv_buf \<Rightarrow> rv_buf \<times> u32" where
  "emit_idx w b = (let (b1, i) = rv_buf_emit b w in (b1, word_of_int i))"

text \<open>The loop emitter in its parts: seeding and prologue, one transfer with its gates, the loop.\<close>

definition dma_setup :: "rv_buf \<Rightarrow> bool \<Rightarrow> u32 \<Rightarrow> u32 \<Rightarrow> u32 \<Rightarrow> u32 \<Rightarrow> u32 \<Rightarrow> u32 \<Rightarrow> u32 \<Rightarrow> u32 \<Rightarrow> rv_buf" where
  "dma_setup code is_write dram_arg_slot ntiles_arg_slot l1_buf depth tile_bytes ring_end recv_addr free_addr =
     (let code = fst (if is_write then tt_sem_init code recv_addr 0 else tt_sem_init code free_addr depth);
          code = tt_li32 code RV_T0 TD_L1_RTARG_BASE;
          code = emit (rv_lw RV_A3 RV_T0 (ucast (RT_ARG_OFF_KARG dram_arg_slot))) code;
          code = emit (rv_lw RV_A5 RV_T0 (ucast (RT_ARG_OFF_KARG ntiles_arg_slot))) code;
          code = tt_li32 code RV_A4 l1_buf;
          code = tt_li32 code RV_A6 tile_bytes
      in tt_li32 code RV_A7 ring_end)"

definition dma_transfer :: "rv_buf \<Rightarrow> bool \<Rightarrow> u32 \<Rightarrow> u32 \<Rightarrow> u32 \<Rightarrow> u32 \<Rightarrow> u32 \<Rightarrow> rv_buf" where
  "dma_transfer code is_write dram_mid l1_mid tile_bytes recv_addr free_addr =
     (let code = fst (if is_write then tt_cb_wait_front code recv_addr 1 else tt_cb_reserve_back code free_addr 1);
          code = fst (if is_write then tt_noc_xfer_reg code True RV_A4 RV_A3 l1_mid dram_mid tile_bytes
                      else tt_noc_xfer_reg code False RV_A3 RV_A4 dram_mid l1_mid tile_bytes);
          code = fst (tt_noc_barrier code is_write);
          code = fst (if is_write then tt_cb_pop_front code free_addr 0 1 else tt_cb_push_back code recv_addr 0 1);
          code = emit (rv_add RV_A3 RV_A3 RV_A6) code
      in emit (rv_add RV_A4 RV_A4 RV_A6) code)"

definition td_emit_dma_loop ::
  "rv_buf \<Rightarrow> bool \<Rightarrow> u32 \<Rightarrow> u32 \<Rightarrow> u32 \<Rightarrow> u32 \<Rightarrow> u32 \<Rightarrow> u32 \<Rightarrow> u32 \<Rightarrow> u32 \<Rightarrow> u32 \<Rightarrow> rv_buf \<times> bc_code" where
  "td_emit_dma_loop code is_write dram_arg_slot ntiles_arg_slot l1_buf depth dram_mid l1_mid tile_bytes recv_addr free_addr =
     (let ring_end = l1_buf + depth * tile_bytes;
          code = dma_setup code is_write dram_arg_slot ntiles_arg_slot l1_buf depth tile_bytes ring_end recv_addr free_addr;
          loop = rv_buf_n_words code;
          (code, br_exit) = emit_idx 0 code;
          code = dma_transfer code is_write dram_mid l1_mid tile_bytes recv_addr free_addr;
          (code, br_wrap) = emit_idx 0 code;
          code = tt_li32 code RV_A4 l1_buf;
          nowrap = rv_buf_n_words code;
          code = fst (rv_buf_patch code br_wrap (rv_bltu RV_A4 RV_A7 (ucast (rv_buf_offset code br_wrap nowrap))));
          code = emit (rv_addi RV_A5 RV_A5 (-1)) code;
          jback = rv_buf_n_words code;
          code = emit (rv_jal RV_ZERO (rv_buf_offset code jback loop)) code;
          done_w = rv_buf_n_words code;
          code = fst (rv_buf_patch code br_exit (rv_beq RV_A5 RV_ZERO (ucast (rv_buf_offset code br_exit done_w))))
      in (code, BC_OK))"

subsection \<open>Placement is disjoint\<close>

text \<open>The exact size of a channel's slot: its tiles and the FIFO header, in bytes.\<close>

definition slot_bytes :: "td_chan_t \<Rightarrow> nat" where
  "slot_bytes c = unat (tg_rows (ch_tag c)) * unat (tg_cols (ch_tag c)) * unat (dtype_bytes (tg_dtype (ch_tag c))) *
     unat (ch_depth c) + 8"

lemma unat_round_up:
  assumes "unat x + 15 < 2 ^ 32"
  shows "unat (round_up x 16) = (unat x + 15) div 16 * 16"
proof -
  have "y AND NOT (mask 4) = push_bit 4 (drop_bit 4 y)" for y :: u32
    by (rule bit_word_eqI) (auto simp: bit_simps)
  moreover have "round_up x 16 = (x + 15) AND NOT (mask 4)"
    by (simp add: round_up_def flip: minus_exp_eq_not_mask)
  ultimately have "round_up x 16 = push_bit 4 (drop_bit 4 (x + 15))" by simp
  moreover have "unat (x + 15) = unat x + 15" using assms by (subst unat_word_ariths(1)) simp
  ultimately show ?thesis
    using assms by (simp add: unat_push_bit_small unat_drop_bit)
qed

lemma unat_slot:
  assumes "slot_bytes c < 2 ^ 32"
  shows "unat (td_tile_bytes (ch_tag c) * ucast (ch_depth c) + 8) = slot_bytes c"
proof -
  have "td_tile_bytes (ch_tag c) * ucast (ch_depth c) + 8 = word_of_nat (slot_bytes c)"
    by (simp add: slot_bytes_def td_tile_bytes_def)
  then show ?thesis using assms by (simp add: unsigned_of_nat take_bit_nat_eq_self)
qed

lemma shbase_bound: "td_shbase chip \<ge> TD_L1_CB_BASE \<and> unat (td_shbase chip) < 2 ^ 21"
proof -
  have "chipok chip = 0 \<or> chipok chip = 1" by (auto simp: chipok_def)
  then show ?thesis by (auto simp: td_shbase_def td_l1end_def k_chips_def)
qed

text \<open>
  What placing the channels \<open>is\<close> from \<open>cur\<close> on gives: aligned slots between \<open>cur\<close> and the ceiling, each
  ending before the next one starts, and nothing else changed.
\<close>

lemma place_from_correct:
  assumes "place_from chip is cur M = (M', BC_OK)" "distinct is" "unat cur + 15 < 2 ^ 32"
    and "\<forall>i \<in> set is. slot_bytes (chans M i) + 15 < 2 ^ 32"
  shows "(\<forall>i. (chans M' i)\<lparr>ch_l1_off := 0\<rparr> = (chans M i)\<lparr>ch_l1_off := 0\<rparr>) \<and>
    (\<forall>i. i \<notin> set is \<longrightarrow> chans M' i = chans M i) \<and>
    (\<forall>i \<in> set is. 16 dvd unat (ch_l1_off (chans M' i)) \<and> unat cur \<le> unat (ch_l1_off (chans M' i)) \<and>
       unat (ch_l1_off (chans M' i)) + slot_bytes (chans M i) \<le> unat (td_shbase chip)) \<and>
    sorted_wrt (\<lambda>i j. unat (ch_l1_off (chans M' i)) + slot_bytes (chans M i) \<le> unat (ch_l1_off (chans M' j))) is"
  using assms
proof (induction "is" arbitrary: cur M)
  case Nil
  then show ?case by simp
next
  case (Cons i "is")
  define c0 where "c0 = round_up cur 16"
  define tot where "tot = round_up (td_tile_bytes (ch_tag (chans M i)) * ucast (ch_depth (chans M i)) + 8) 16"
  define M1 where "M1 = M\<lparr>chans := (chans M)(i := (chans M i)\<lparr>ch_l1_off := c0\<rparr>)\<rparr>"
  have sz: "slot_bytes (chans M i) + 15 < 2 ^ 32" using Cons.prems(4) by simp
  have ok: "\<not> (c0 > td_shbase chip \<or> tot > td_shbase chip - c0)"
    and rest: "place_from chip is (c0 + tot) M1 = (M', BC_OK)"
    using Cons.prems(1) by (auto simp: Let_def c0_def tot_def M1_def split: if_splits)
  have c0: "unat c0 = (unat cur + 15) div 16 * 16" unfolding c0_def by (rule unat_round_up [OF Cons.prems(3)])
  have sl: "unat (td_tile_bytes (ch_tag (chans M i)) * ucast (ch_depth (chans M i)) + 8) = slot_bytes (chans M i)"
    using sz by (intro unat_slot) simp
  have tot: "unat tot = (slot_bytes (chans M i) + 15) div 16 * 16"
    unfolding tot_def using sz by (subst unat_round_up) (simp_all only: sl)
  have le: "unat c0 + unat tot \<le> unat (td_shbase chip)"
    using ok by (auto simp: not_less word_le_nat_alt unat_sub)
  then have sum: "unat (c0 + tot) = unat c0 + unat tot"
    using shbase_bound [of chip] by (subst unat_word_ariths(1)) simp
  have small: "unat (c0 + tot) + 15 < 2 ^ 32" using sum le shbase_bound [of chip] by simp
  have slots: "slot_bytes (chans M1 j) = slot_bytes (chans M j)" for j by (simp add: M1_def slot_bytes_def)
  have IH: "(\<forall>j. (chans M' j)\<lparr>ch_l1_off := 0\<rparr> = (chans M1 j)\<lparr>ch_l1_off := 0\<rparr>) \<and>
    (\<forall>j. j \<notin> set is \<longrightarrow> chans M' j = chans M1 j) \<and>
    (\<forall>j \<in> set is. 16 dvd unat (ch_l1_off (chans M' j)) \<and> unat (c0 + tot) \<le> unat (ch_l1_off (chans M' j)) \<and>
       unat (ch_l1_off (chans M' j)) + slot_bytes (chans M j) \<le> unat (td_shbase chip)) \<and>
    sorted_wrt (\<lambda>i j. unat (ch_l1_off (chans M' i)) + slot_bytes (chans M i) \<le> unat (ch_l1_off (chans M' j))) is"
    using Cons.IH [OF rest _ small, unfolded slots] Cons.prems(2,4) by simp
  have off: "ch_l1_off (chans M' i) = c0" using IH Cons.prems(2) by (simp add: M1_def)
  have fit: "slot_bytes (chans M i) \<le> unat tot" using tot by simp
  have a: "16 dvd unat c0" "unat cur \<le> unat c0" using c0 by simp_all
  show ?case
  proof (intro conjI)
    show "\<forall>j. (chans M' j)\<lparr>ch_l1_off := 0\<rparr> = (chans M j)\<lparr>ch_l1_off := 0\<rparr>" using IH by (simp add: M1_def)
    show "\<forall>j. j \<notin> set (i # is) \<longrightarrow> chans M' j = chans M j" using IH by (simp add: M1_def)
    show "\<forall>j \<in> set (i # is). 16 dvd unat (ch_l1_off (chans M' j)) \<and> unat cur \<le> unat (ch_l1_off (chans M' j)) \<and>
       unat (ch_l1_off (chans M' j)) + slot_bytes (chans M j) \<le> unat (td_shbase chip)"
      using IH off a fit le sum by fastforce
    show "sorted_wrt (\<lambda>i j. unat (ch_l1_off (chans M' i)) + slot_bytes (chans M i) \<le> unat (ch_l1_off (chans M' j))) (i # is)"
      using IH off fit sum by fastforce
  qed
qed

text \<open>
  Property C6.  Placement gives every channel its own part of L1: when it succeeds and no slot
  size overflows 32 bits, all slots, tiles and FIFO header together, are 16-byte aligned, start
  at or above the circular-buffer base, end at or below the shared slab of the chip, and are
  pairwise disjoint; nothing but the offsets changes.
\<close>

theorem td_place_l1_disjoint:
  assumes "td_place_l1 chip M = (M', BC_OK)" "\<forall>i < ncha M. slot_bytes (chans M i) + 15 < 2 ^ 32" "i < ncha M"
  shows "16 dvd unat (ch_l1_off (chans M' i)) \<and> 0x8100 \<le> unat (ch_l1_off (chans M' i)) \<and>
    unat (ch_l1_off (chans M' i)) + slot_bytes (chans M i) \<le> unat (td_shbase chip) \<and>
    (chans M' i)\<lparr>ch_l1_off := 0\<rparr> = (chans M i)\<lparr>ch_l1_off := 0\<rparr> \<and>
    (\<forall>j. i < j \<and> j < ncha M \<longrightarrow>
       unat (ch_l1_off (chans M' i)) + slot_bytes (chans M i) \<le> unat (ch_l1_off (chans M' j)))"
proof -
  have "\<forall>i \<in> set [0..<ncha M]. slot_bytes (chans M i) + 15 < 2 ^ 32" using assms(2) by simp
  note p = place_from_correct [OF assms(1) [unfolded td_place_l1_def] distinct_upt _ this]
  have "unat (ch_l1_off (chans M' i)) + slot_bytes (chans M i) \<le> unat (ch_l1_off (chans M' j))"
    if "i < j" "j < ncha M" for j
  proof -
    have s: "sorted_wrt (\<lambda>i j. unat (ch_l1_off (chans M' i)) + slot_bytes (chans M i) \<le> unat (ch_l1_off (chans M' j))) [0..<ncha M]"
      using p by simp
    show ?thesis using sorted_wrt_nth_less [OF s, of i j] that by simp
  qed
  then show ?thesis using p assms(3) by simp
qed

definition one_chan :: "u16 \<Rightarrow> u16 \<Rightarrow> u16 \<Rightarrow> td_mod" where
  "one_chan r c d = (td_init TD_TGT_TENSIX)\<lparr>ncha := 1, chans := (\<lambda>_. zero_chan\<lparr>ch_depth := d,
     ch_tag := \<lparr>tg_rows = r, tg_cols = c, tg_dtype = BIR_TYPE_FLOAT, tg_layout = TD_LAY_INTRL\<rparr>\<rparr>)\<rparr>"

lemma one_chan_place:
  "snd (td_place_l1 TD_CHIP_BH (one_chan 32 32 2)) = BC_OK"
  by (simp add: td_place_l1_def one_chan_def td_init_def zero_chan_def td_tile_bytes_def dtype_bytes_def round_up_def
      td_shbase_def td_l1end_def k_chips_def chipok_def)

theorem td_place_l1_disjoint_witness:
  "unat (ch_l1_off (chans (fst (td_place_l1 TD_CHIP_BH (one_chan 32 32 2))) 0)) + 8200 \<le> unat (td_shbase TD_CHIP_BH)"
proof -
  have e: "td_place_l1 TD_CHIP_BH (one_chan 32 32 2) = (fst (td_place_l1 TD_CHIP_BH (one_chan 32 32 2)), BC_OK)"
    using one_chan_place by (metis prod.collapse)
  have s: "slot_bytes (chans (one_chan 32 32 2) 0) = 8200"
    by (simp add: slot_bytes_def one_chan_def zero_chan_def dtype_bytes_def)
  have n: "ncha (one_chan 32 32 2) = 1" by (simp add: one_chan_def)
  have "\<forall>i < ncha (one_chan 32 32 2). slot_bytes (chans (one_chan 32 32 2) i) + 15 < 2 ^ 32" using s n by simp
  from td_place_l1_disjoint [OF e this, of 0] s n show ?thesis by simp
qed

text \<open>
  The guard against runaway depths can be bypassed: 1024 tiles of 1024 by 1024 floats are exactly
  \<open>2^32\<close> bytes, the 32-bit product is zero, and placement accepts the channel in 16 bytes.
\<close>

lemma td_place_l1_wraps:
  "snd (td_place_l1 TD_CHIP_BH (one_chan 1024 1024 1024)) = BC_OK \<and>
   slot_bytes (chans (one_chan 1024 1024 1024) 0) = 2 ^ 32 + 8"
  by (simp add: td_place_l1_def one_chan_def td_init_def zero_chan_def td_tile_bytes_def dtype_bytes_def round_up_def
      td_shbase_def td_l1end_def k_chips_def chipok_def slot_bytes_def)

subsection \<open>NoC addresses\<close>

text \<open>
  A NoC address packs its fields without overlap: the local address, the two
  coordinates and the reserved bits can all be read back from it.
\<close>

theorem td_noc_addr_fields:
  "take_bit 36 (td_noc_addr x y local) = take_bit 36 local \<and>
   take_bit 6 (drop_bit 36 (td_noc_addr x y local)) = ucast (take_bit 6 x) \<and>
   take_bit 6 (drop_bit 42 (td_noc_addr x y local)) = ucast (take_bit 6 y) \<and>
   drop_bit 48 (td_noc_addr x y local) = 0"
proof -
  have m: "local AND 0x0000000FFFFFFFFF = take_bit 36 local" "x AND 0x3F = take_bit 6 x" "y AND 0x3F = take_bit 6 y"
    by (simp_all add: take_bit_eq_mask mask_numeral)
  show ?thesis
    unfolding td_noc_addr_def m by (intro conjI; rule bit_word_eqI) (auto simp: bit_simps)
qed

subsection \<open>Orchestration\<close>

definition noc_arc :: "td_arc_t \<Rightarrow> bool" where
  "noc_arc a \<longleftrightarrow> ar_kind a = TD_AR_RD \<or> ar_kind a = TD_AR_WR"

definition noc_arc_fits :: "td_mod \<Rightarrow> td_arc_t \<Rightarrow> bool" where
  "noc_arc_fits M a \<longleftrightarrow> ar_chan a < ncha M \<and> td_tile_bytes (ch_tag (chans M (ar_chan a))) \<noteq> 0 \<and>
     td_tile_bytes (ch_tag (chans M (ar_chan a))) \<le> TD_NOC_MAX_XFER"

definition routed :: "td_mod \<Rightarrow> td_arc_t \<Rightarrow> td_arc_t" where
  "routed M a = (if noc_arc a then a\<lparr>ar_noc_id := (if ar_kind a = TD_AR_RD then 0 else 1),
     ar_length := td_tile_bytes (ch_tag (chans M (ar_chan a)))\<rparr> else a)"

lemma orchestrate_from_correct:
  assumes "distinct is"
  shows "(snd (orchestrate_from is M) = BC_OK \<longleftrightarrow> (\<forall>i \<in> set is. noc_arc (arcs M i) \<longrightarrow> noc_arc_fits M (arcs M i))) \<and>
    (snd (orchestrate_from is M) = BC_OK \<longrightarrow>
      fst (orchestrate_from is M) = M\<lparr>arcs := (\<lambda>i. if i \<in> set is then routed M (arcs M i) else arcs M i)\<rparr>)"
  using assms
proof (induction "is" arbitrary: M)
  case Nil
  then show ?case by simp
next
  case (Cons i "is")
  let ?a = "arcs M i"
  show ?case
  proof (cases "noc_arc ?a")
    case False
    then have "orchestrate_from (i # is) M = orchestrate_from is M" by (simp add: noc_arc_def)
    then show ?thesis using Cons.IH [of M] Cons.prems False by (auto simp: routed_def fun_eq_iff)
  next
    case True
    show ?thesis
    proof (cases "noc_arc_fits M ?a")
      case False
      then have "snd (orchestrate_from (i # is) M) \<noteq> BC_OK"
        using True by (auto simp: noc_arc_def noc_arc_fits_def Let_def)
      then show ?thesis using True False by simp
    next
      case fits: True
      define M1 where "M1 = M\<lparr>arcs := (arcs M)(i := routed M ?a)\<rparr>"
      have e: "orchestrate_from (i # is) M = orchestrate_from is M1"
        using True fits by (auto simp: noc_arc_def noc_arc_fits_def Let_def M1_def routed_def)
      have M1: "arcs M1 j = arcs M j" if "j \<in> set is" for j using that Cons.prems by (auto simp: M1_def)
      have same: "noc_arc_fits M1 a = noc_arc_fits M a" "routed M1 a = routed M a" for a
        by (simp_all add: M1_def noc_arc_fits_def routed_def)
      have "(\<lambda>j. if j \<in> set is then routed M1 (arcs M1 j) else arcs M1 j) =
          (\<lambda>j. if j \<in> set (i # is) then routed M (arcs M j) else arcs M j)"
        using Cons.prems unfolding same by (auto simp: fun_eq_iff M1_def)
      then show ?thesis
        using Cons.IH [of M1] Cons.prems fits M1 unfolding e same by (simp add: M1_def)
    qed
  qed
qed



subsection \<open>The transfer loop\<close>

lemma emit_list_patch:
  assumes "rv_n b + 1 + length ws \<le> RV_BUF_MAX_WORDS"
  shows "fst (rv_buf_patch (emit_list ws (emit v b)) (word_of_nat (rv_n b)) w) = emit_list ws (emit w b)"
proof -
  have n: "rv_n (emit x b) = rv_n b + 1" for x using assms by (intro emit_n) simp
  have fit: "rv_n (emit x b) + length ws \<le> RV_BUF_MAX_WORDS" for x using assms n by simp
  note f = emit_list_fits [OF fit]
  have idx: "unat (word_of_nat (rv_n b) :: u32) = rv_n b"
    using assms by (simp add: unsigned_of_nat take_bit_nat_eq_self)
  have wds: "rv_words (emit x b) = (rv_words b)(rv_n b := x)" for x using assms by (simp add: rv_buf_emit_def)
  show ?thesis
    by (rule rv_buf.equality) (auto simp: rv_buf_patch_def idx f n wds fun_eq_iff)
qed

lemma emit_idx_eq:
  "rv_n b < RV_BUF_MAX_WORDS \<Longrightarrow> emit_idx w b = (emit w b, word_of_nat (rv_n b))"
  by (simp add: emit_idx_def rv_buf_emit_def)

definition init_code :: "u32 \<Rightarrow> u32 \<Rightarrow> rv_inst list" where
  "init_code addr v = li32_code RV_T0 addr @ li32_code RV_T1 v @ [Store SW RV_T1 RV_T0 0]"

definition acquire_code :: "u32 \<Rightarrow> u32 \<Rightarrow> rv_inst list" where
  "acquire_code addr n = wait_code addr n @ request_code (inc_regs addr 0 (0 - n))"

definition xfer_reg_code :: "bool \<Rightarrow> u8 \<Rightarrow> u8 \<Rightarrow> u32 \<Rightarrow> u32 \<Rightarrow> u32 \<Rightarrow> rv_inst list" where
  "xfer_reg_code wr treg rreg tmid rmid len =
     li32_code RV_T0 NIU_BASE @ [Store SW treg RV_T0 NOC_TARG_LO] @ store_code tmid NOC_TARG_MID @
     [Store SW rreg RV_T0 NOC_RET_LO] @ store_code rmid NOC_RET_MID @ store_code len NOC_AT_LEN_BE @
     store_code (if wr then NOC_CMD_WR OR NOC_CMD_RESP_MARKED else NOC_CMD_RD) NOC_CTRL @ store_code 1 NOC_CMD_CTRL"

definition barrier_code :: "bool \<Rightarrow> rv_inst list" where
  "barrier_code wr =
     li32_code RV_T0 NIU_BASE @ [Load LW RV_T1 RV_T0 NOC_CMD_CTRL] @ li32_code RV_T0 NIU_CNT_BASE @
     [Load LW RV_T1 RV_T0 (if wr then CNT_WR_SENT else CNT_RD_REQ),
      Load LW RV_T2 RV_T0 (if wr then CNT_WR_ACK else CNT_RD_RESP), Branch BNE RV_T1 RV_T2 (- 8)]"

lemma init_emits: "fst (tt_sem_init c addr v) = emit_list (map rv_encode (init_code addr v)) c"
  by (simp add: tt_sem_init_def init_code_def li32_emits)

lemma xfer_reg_emits:
  "fst (tt_noc_xfer_reg c wr treg rreg tmid rmid len) = emit_list (map rv_encode (xfer_reg_code wr treg rreg tmid rmid len)) c"
  by (simp add: tt_noc_xfer_reg_def xfer_reg_code_def li32_emits store_emits Let_def)

lemma fits_append:
  "rv_n c + (length us + n) \<le> RV_BUF_MAX_WORDS \<Longrightarrow> rv_n (emit_list us c) + n \<le> RV_BUF_MAX_WORDS"
  using emit_list_fits [of c us] by simp

lemma acquire_emits:
  assumes "rv_n c + 6 \<le> RV_BUF_MAX_WORDS"
  shows "fst (tt_sem_acquire c addr n) = emit_list (map rv_encode (acquire_code addr n)) c"
  by (simp only: tt_sem_acquire_def fst_conv wait_emits [OF assms] inc_emits acquire_code_def map_append emit_list_simps)

lemma barrier_emits:
  assumes "rv_n c + 8 \<le> RV_BUF_MAX_WORDS"
  shows "fst (tt_noc_barrier c wr) = emit_list (map rv_encode (barrier_code wr)) c"
proof -
  let ?pre = "li32_code RV_T0 NIU_BASE @ [Load LW RV_T1 RV_T0 NOC_CMD_CTRL] @ li32_code RV_T0 NIU_CNT_BASE"
  let ?c = "emit_list (map rv_encode ?pre) c"
  have "length ?pre \<le> 5" using li32_code_length [of RV_T0 NIU_BASE] li32_code_length [of RV_T0 NIU_CNT_BASE] by simp
  then have room: "rv_n ?c + 2 < RV_BUF_MAX_WORDS"
    using assms emit_list_fits [of c "map rv_encode ?pre"] by simp
  have "ucast (rv_buf_offset (emit w2 (emit w1 ?c)) (rv_buf_n_words (emit w2 (emit w1 ?c))) (rv_buf_n_words ?c)) = (- 8 :: i16)" for w1 w2
    using room by (simp add: rv_buf_offset_def rv_buf_n_words_def emit_n)
  then show ?thesis
    by (simp add: tt_noc_barrier_def barrier_code_def Let_def li32_emits)
qed

text \<open>The code of the loop, with every branch distance in terms of the lengths of its parts.\<close>

definition dma_prologue :: "bool \<Rightarrow> u32 \<Rightarrow> u32 \<Rightarrow> u32 \<Rightarrow> u32 \<Rightarrow> u32 \<Rightarrow> u32 \<Rightarrow> u32 \<Rightarrow> rv_inst list" where
  "dma_prologue wr dslot nslot l1 depth tb recv fr =
     (if wr then init_code recv 0 else init_code fr depth) @ li32_code RV_T0 TD_L1_RTARG_BASE @
     [Load LW RV_A3 RV_T0 (ucast (RT_ARG_OFF_KARG dslot)), Load LW RV_A5 RV_T0 (ucast (RT_ARG_OFF_KARG nslot))] @
     li32_code RV_A4 l1 @ li32_code RV_A6 tb @ li32_code RV_A7 (l1 + depth * tb)"

definition dma_body :: "bool \<Rightarrow> u32 \<Rightarrow> u32 \<Rightarrow> u32 \<Rightarrow> u32 \<Rightarrow> u32 \<Rightarrow> rv_inst list" where
  "dma_body wr dmid lmid tb recv fr =
     (if wr then acquire_code recv 1 else acquire_code fr 1) @
     (if wr then xfer_reg_code True RV_A4 RV_A3 lmid dmid tb else xfer_reg_code False RV_A3 RV_A4 dmid lmid tb) @
     barrier_code wr @ request_code (if wr then inc_regs fr 0 1 else inc_regs recv 0 1) @
     [Alu ADD RV_A3 RV_A3 RV_A6, Alu ADD RV_A4 RV_A4 RV_A6]"

definition dma_tail :: "u32 \<Rightarrow> nat \<Rightarrow> rv_inst list" where
  "dma_tail l1 nb =
     Branch BLTU RV_A4 RV_A7 (word_of_nat (4 * (length (li32_code RV_A4 l1) + 1))) # li32_code RV_A4 l1 @
     [AluI ADDI RV_A5 RV_A5 (-1), Jal RV_ZERO (- word_of_nat (4 * (nb + length (li32_code RV_A4 l1) + 3)))]"

definition dma_code :: "bool \<Rightarrow> u32 \<Rightarrow> u32 \<Rightarrow> u32 \<Rightarrow> u32 \<Rightarrow> u32 \<Rightarrow> u32 \<Rightarrow> u32 \<Rightarrow> u32 \<Rightarrow> u32 \<Rightarrow> rv_inst list" where
  "dma_code wr dslot nslot l1 depth dmid lmid tb recv fr =
     (let body = dma_body wr dmid lmid tb recv fr; tail = dma_tail l1 (length body)
      in dma_prologue wr dslot nslot l1 depth tb recv fr @
         Branch BEQ RV_A5 RV_ZERO (word_of_nat (4 * (length body + length tail + 1))) # body @ tail)"

lemma code_lengths:
  "length (init_code a v) \<le> 5" "length (store_code v off) \<le> 3" "length (acquire_code a n) \<le> 26"
  "length (request_code (inc_regs a m n)) \<le> 20" "length (xfer_reg_code w t r tm rm ln) \<le> 19"
  "length (barrier_code w) \<le> 8"
proof -
  note l = li32_code_length
  show "length (init_code a v) \<le> 5"
    using l [of RV_T0 a] l [of RV_T1 v] by (simp add: init_code_def)
  show st: "length (store_code v off) \<le> 3" for v off using l [of RV_T1 v] by (simp add: store_code_def)
  show "length (acquire_code a n) \<le> 26"
    using l [of RV_T0 a] l [of RV_T2 n] request_code_length [of "inc_regs a 0 (0 - n)"]
    by (simp add: acquire_code_def wait_code_def wait_prefix_def inc_regs_def)
  show "length (request_code (inc_regs a m n)) \<le> 20"
    using request_code_length [of "inc_regs a m n"] by (simp add: inc_regs_def)
  show "length (xfer_reg_code w t r tm rm ln) \<le> 19"
    using l [of RV_T0 NIU_BASE] st [of tm NOC_TARG_MID] st [of rm NOC_RET_MID] st [of ln NOC_AT_LEN_BE]
      st [of "if w then NOC_CMD_WR OR NOC_CMD_RESP_MARKED else NOC_CMD_RD" NOC_CTRL] st [of 1 NOC_CMD_CTRL]
    unfolding xfer_reg_code_def length_append by simp
  show "length (barrier_code w) \<le> 8"
    using l [of RV_T0 NIU_BASE] l [of RV_T0 NIU_CNT_BASE] by (simp add: barrier_code_def)
qed

lemma dma_lengths:
  "length (dma_prologue wr dslot nslot l1 depth tb recv fr) \<le> 15"
  "length (dma_body wr dmid lmid tb recv fr) \<le> 75"
  "length (dma_tail l1 nb) = length (li32_code RV_A4 l1) + 3"
proof -
  note l = li32_code_length and c = code_lengths
  show "length (dma_prologue wr dslot nslot l1 depth tb recv fr) \<le> 15"
    using c(1) [of recv 0] c(1) [of fr depth] l [of RV_T0 TD_L1_RTARG_BASE] l [of RV_A4 l1] l [of RV_A6 tb] l [of RV_A7 "l1 + depth * tb"]
    unfolding dma_prologue_def length_append by (cases wr) simp_all
  show "length (dma_body wr dmid lmid tb recv fr) \<le> 75"
    using c(3) [of recv 1] c(3) [of fr 1] c(5) [of True RV_A4 RV_A3 lmid dmid tb] c(5) [of False RV_A3 RV_A4 dmid lmid tb] c(6) [of wr]
      c(4) [of fr 0 1] c(4) [of recv 0 1]
    unfolding dma_body_def length_append by (cases wr) simp_all
  show "length (dma_tail l1 nb) = length (li32_code RV_A4 l1) + 3" by (simp add: dma_tail_def)
qed

lemma offset_eq: "rv_buf_offset c (word_of_nat a) (word_of_nat (a + d)) = word_of_nat (4 * d)"
  "rv_buf_offset c (word_of_nat (a + d)) (word_of_nat a) = - word_of_nat (4 * d)"
  by (simp_all add: rv_buf_offset_def)

lemma ucast_of_nat: "ucast (word_of_nat n :: u32) = (word_of_nat n :: i16)"
  by (rule bit_word_eqI) (auto simp: bit_simps)

lemma dma_transfer_emits:
  assumes "rv_n b + 75 \<le> RV_BUF_MAX_WORDS"
  shows "dma_transfer b wr dmid lmid tb recv fr = emit_list (map rv_encode (dma_body wr dmid lmid tb recv fr)) b"
proof -
  note c = code_lengths
  let ?A = "acquire_code (if wr then recv else fr) 1"
  let ?X = "if wr then xfer_reg_code True RV_A4 RV_A3 lmid dmid tb else xfer_reg_code False RV_A3 RV_A4 dmid lmid tb"
  have la: "length ?A \<le> 26" "length ?X \<le> 19"
    using c(3) [of "if wr then recv else fr" 1] c(5) [of True RV_A4 RV_A3 lmid dmid tb] c(5) [of False RV_A3 RV_A4 dmid lmid tb] by simp_all
  have "rv_n b + 6 \<le> RV_BUF_MAX_WORDS" using assms by simp
  note acq = acquire_emits [OF this]
  have "rv_n (emit_list (map rv_encode ?X) (emit_list (map rv_encode ?A) b)) + 8 \<le> RV_BUF_MAX_WORDS"
    using fits_append [of b "map rv_encode (?A @ ?X)" 8] la assms by simp
  note br = barrier_emits [OF this]
  show ?thesis
    using br by (cases wr) (simp_all add: dma_transfer_def dma_body_def tt_cb_wait_front_def tt_cb_reserve_back_def
      tt_cb_pop_front_def tt_cb_push_back_def acq xfer_reg_emits inc_emits)
qed

lemma dma_setup_emits:
  "dma_setup c wr dslot nslot l1 depth tb (l1 + depth * tb) recv fr =
    emit_list (map rv_encode (dma_prologue wr dslot nslot l1 depth tb recv fr)) c"
  by (cases wr) (simp_all add: dma_setup_def dma_prologue_def tt_li32_def li32_emits init_emits)

lemma dma_loop_emits:
  assumes "rv_n c + 100 \<le> RV_BUF_MAX_WORDS"
  shows "td_emit_dma_loop c wr dslot nslot l1 depth dmid lmid tb recv fr =
    (emit_list (map rv_encode (dma_code wr dslot nslot l1 depth dmid lmid tb recv fr)) c, BC_OK)"
proof -
  let ?P = "dma_prologue wr dslot nslot l1 depth tb recv fr" and ?B = "dma_body wr dmid lmid tb recv fr"
  let ?W = "li32_code RV_A4 l1" and ?T = "dma_tail l1 (length (dma_body wr dmid lmid tb recv fr))"
  note len = dma_lengths(1) [of wr dslot nslot l1 depth tb recv fr] dma_lengths(2) [of wr dmid lmid tb recv fr]
    li32_code_length [of RV_A4 l1]
  define c1 where "c1 = emit_list (map rv_encode ?P) c"
  define c3 where "c3 x = emit_list (map rv_encode ?B) (emit x c1)" for x
  have n1: "rv_n c1 = rv_n c + length ?P" using emit_list_fits [of c "map rv_encode ?P"] assms len by (simp add: c1_def)
  have n3: "rv_n (c3 x) = rv_n c1 + (1 + length ?B)" for x
    using emit_list_fits [of "emit x c1" "map rv_encode ?B"] emit_n [of c1 x] assms len n1 by (simp add: c3_def)
  have "rv_n (emit 0 c1) + 75 \<le> RV_BUF_MAX_WORDS" using emit_n [of c1 0] n1 assms len by simp
  then have body: "dma_transfer (emit 0 c1) wr dmid lmid tb recv fr = c3 0" unfolding c3_def by (rule dma_transfer_emits)
  have ix: "emit_idx 0 c1 = (emit 0 c1, word_of_nat (rv_n c1))" "emit_idx 0 (c3 0) = (emit 0 (c3 0), word_of_nat (rv_n (c3 0)))"
    using n1 n3 [of 0] assms len by (simp_all add: emit_idx_eq)
  define bw where "bw = rv_bltu RV_A4 RV_A7 (word_of_nat (4 * (length ?W + 1)))"
  define c5 where "c5 x = emit_list (map rv_encode ?W) (emit x (c3 0))" for x
  have n5: "rv_n (c5 x) = rv_n (c3 0) + (length ?W + 1)" for x
    using emit_list_fits [of "emit x (c3 0)" "map rv_encode ?W"] emit_n [of "c3 0" x] assms len n1 n3 [of 0] by (simp add: c5_def)
  have p1: "fst (rv_buf_patch (c5 0) (word_of_nat (rv_n (c3 0)))
      (rv_bltu RV_A4 RV_A7 (ucast (rv_buf_offset (c5 0) (word_of_nat (rv_n (c3 0))) (rv_buf_n_words (c5 0)))))) = c5 bw"
    unfolding rv_buf_n_words_def n5 offset_eq ucast_of_nat
    unfolding bw_def c5_def
    using assms len n1 n3 [of 0] by (intro emit_list_patch) simp
  define c7 where "c7 = emit (rv_addi RV_A5 RV_A5 (-1)) (c5 bw)"
  have n7: "rv_n c7 = rv_n c1 + (length ?B + length ?W + 3)"
    using emit_n [of "c5 bw"] n5 n3 [of 0] n1 assms len by (simp add: c7_def)
  have j: "emit (rv_jal RV_ZERO (rv_buf_offset c7 (rv_buf_n_words c7) (rv_buf_n_words c1))) c7 =
      emit_list (map rv_encode ?T) (c3 0)"
    unfolding rv_buf_n_words_def n7 offset_eq by (simp add: c7_def c5_def bw_def dma_tail_def)
  define c9 where "c9 = emit_list (map rv_encode (?B @ ?T)) (emit 0 c1)"
  have c9: "emit_list (map rv_encode ?T) (c3 0) = c9" by (simp add: c9_def c3_def)
  have n9: "rv_n c9 = rv_n c1 + (length ?B + length ?T + 1)"
    using emit_list_fits [of "emit 0 c1" "map rv_encode (?B @ ?T)"] emit_n [of c1 0] dma_lengths(3) [of l1] assms len n1
    by (simp add: c9_def)
  have p2: "fst (rv_buf_patch c9 (word_of_nat (rv_n c1))
      (rv_beq RV_A5 RV_ZERO (ucast (rv_buf_offset c9 (word_of_nat (rv_n c1)) (rv_buf_n_words c9))))) =
      emit_list (map rv_encode (?B @ ?T)) (emit (rv_beq RV_A5 RV_ZERO (word_of_nat (4 * (length ?B + length ?T + 1)))) c1)"
    unfolding rv_buf_n_words_def n9 offset_eq ucast_of_nat
    unfolding c9_def
    using assms len n1 dma_lengths(3) [of l1] by (intro emit_list_patch) simp
  have li: "tt_li32 (emit 0 (c3 0)) RV_A4 l1 = c5 0" by (simp add: tt_li32_def li32_emits c5_def)
  have "td_emit_dma_loop c wr dslot nslot l1 depth dmid lmid tb recv fr =
    (emit_list (map rv_encode (?B @ ?T)) (emit (rv_beq RV_A5 RV_ZERO (word_of_nat (4 * (length ?B + length ?T + 1)))) c1), BC_OK)"
    unfolding td_emit_dma_loop_def Let_def dma_setup_emits c1_def [symmetric]
    unfolding ix(1) prod.case body
    unfolding ix(2) prod.case li p1
    unfolding c7_def [symmetric]
    unfolding j c9 p2 by (rule refl)
  then show ?thesis by (simp add: dma_code_def Let_def c1_def)
qed

text \<open>
  Property C32.  The transfer loop is closed correctly: the back-patched and emitted branches of the
  reader or writer loop leave the loop exactly when the tile counter is zero, skip exactly the
  reset of the ring pointer while it is below the ring end, and jump back to the loop test.
\<close>

theorem dma_loop_control:
  assumes "rv_n c + 100 \<le> RV_BUF_MAX_WORDS"
    and "td_emit_dma_loop c wr dslot nslot l1 depth dmid lmid tb recv fr = (b, r)"
    and "p = rv_n c + length (dma_prologue wr dslot nslot l1 depth tb recv fr)"
    and "w = p + 1 + length (dma_body wr dmid lmid tb recv fr)"
  shows "r = BC_OK \<and> code_placed b (rv_n c) (map rv_encode (dma_code wr dslot nslot l1 depth dmid lmid tb recv fr)) \<and>
    (rv_pc s = p \<longrightarrow> rv_step b s = Some (if rd_reg s RV_A5 = 0 then s\<lparr>rv_pc := rv_n b\<rparr> else next_pc s)) \<and>
    (rv_pc s = w \<longrightarrow> rv_step b s = Some (if rd_reg s RV_A4 < rd_reg s RV_A7 then s\<lparr>rv_pc := rv_n b - 2\<rparr> else next_pc s)) \<and>
    (rv_pc s = rv_n b - 1 \<longrightarrow> rv_step b s = Some (s\<lparr>rv_pc := p\<rparr>))"
proof -
  let ?P = "dma_prologue wr dslot nslot l1 depth tb recv fr" and ?B = "dma_body wr dmid lmid tb recv fr"
  let ?W = "li32_code RV_A4 l1" and ?T = "dma_tail l1 (length (dma_body wr dmid lmid tb recv fr))"
  let ?is = "dma_code wr dslot nslot l1 depth dmid lmid tb recv fr"
  note len = dma_lengths(1) [of wr dslot nslot l1 depth tb recv fr] dma_lengths(2) [of wr dmid lmid tb recv fr]
    li32_code_length [of RV_A4 l1] dma_lengths(3) [of l1 "length ?B"]
  have L: "length ?is = length ?P + 1 + length ?B + length ?T" by (simp add: dma_code_def Let_def)
  have e: "b = emit_list (map rv_encode ?is) c" "r = BC_OK" using dma_loop_emits [OF assms(1)] assms(2) by simp_all
  have fit: "rv_n c + length (map rv_encode ?is) \<le> RV_BUF_MAX_WORDS" using L len assms(1) by simp
  have pl: "code_placed b (rv_n c) (map rv_encode ?is)" unfolding e by (rule emit_list_placed [OF fit])
  have nb: "rv_n b = rv_n c + length ?is" unfolding e using emit_list_fits [OF fit] by simp
  have at: "?is ! length ?P = Branch BEQ RV_A5 RV_ZERO (word_of_nat (4 * (length ?B + length ?T + 1)))"
    "?is ! (length ?P + 1 + length ?B) = Branch BLTU RV_A4 RV_A7 (word_of_nat (4 * (length ?W + 1)))"
    "?is ! (length ?P + length ?B + length ?W + 3) = Jal RV_ZERO (- word_of_nat (4 * (length ?B + length ?W + 3)))"
    by (simp_all add: dma_code_def dma_tail_def Let_def nth_append)
  have s16: "sint (word_of_nat n :: i16) = int n" if "n < 4096" for n
    using that by (simp add: signed_of_nat signed_take_bit_int_eq_self)
  have s32: "sint (- word_of_nat n :: u32) = - int n" if "n < 4096" for n
  proof -
    have "- word_of_nat n = (word_of_int (- int n) :: u32)" by simp
    then show ?thesis using that by (simp only: signed_of_int) (simp add: signed_take_bit_int_eq_self)
  qed
  show ?thesis
  proof (intro conjI impI)
    show "r = BC_OK" "code_placed b (rv_n c) (map rv_encode ?is)" by fact+
    assume "rv_pc s = p"
    then show "rv_step b s = Some (if rd_reg s RV_A5 = 0 then s\<lparr>rv_pc := rv_n b\<rparr> else next_pc s)"
      using placed_step [OF pl, of "length ?P" s] len L s16 [of "4 * (length ?B + length ?T + 1)"] nb assms(3)
      unfolding at by (simp add: jump_def rd_reg_def)
  next
    assume "rv_pc s = w"
    then show "rv_step b s = Some (if rd_reg s RV_A4 < rd_reg s RV_A7 then s\<lparr>rv_pc := rv_n b - 2\<rparr> else next_pc s)"
      using placed_step [OF pl, of "length ?P + 1 + length ?B" s] len L s16 [of "4 * (length ?W + 1)"] nb assms(3,4)
      unfolding at by (simp add: jump_def)
  next
    assume "rv_pc s = rv_n b - 1"
    then show "rv_step b s = Some (s\<lparr>rv_pc := p\<rparr>)"
      using placed_step [OF pl, of "length ?P + length ?B + length ?W + 3" s] len L
        s32 [of "4 * (length ?B + length ?W + 3)"] nb assms(3)
      unfolding at by (simp add: jump_def wr_reg_def)
  qed
qed

theorem dma_loop_control_witness:
  "rv_step (fst (td_emit_dma_loop rv_buf_init True 0 1 0x10000 2 0 0 4096 0x12000 0x12004))
     \<lparr>rv_regs = (\<lambda>_. 0), rv_pc = length (dma_prologue True 0 1 0x10000 2 4096 0x12000 0x12004), rv_mem = (\<lambda>_. 0), rv_log = []\<rparr> =
   Some \<lparr>rv_regs = (\<lambda>_. 0), rv_pc = rv_n (fst (td_emit_dma_loop rv_buf_init True 0 1 0x10000 2 0 0 4096 0x12000 0x12004)),
     rv_mem = (\<lambda>_. 0), rv_log = []\<rparr>"
proof -
  have "rv_n rv_buf_init + 100 \<le> RV_BUF_MAX_WORDS" by (simp add: rv_buf_init_def)
  from dma_loop_control [OF this prod.collapse [symmetric] refl refl, of True 0 1 "0x10000" 2 0 0 4096 "0x12000" "0x12004"
    "\<lparr>rv_regs = (\<lambda>_. 0), rv_pc = length (dma_prologue True 0 1 0x10000 2 4096 0x12000 0x12004), rv_mem = (\<lambda>_. 0), rv_log = []\<rparr>"]
  show ?thesis by (simp add: rv_buf_init_def rd_reg_def)
qed

end
