(* ===== verification/Source_Text.thy ===== *)
theory Source_Text
  imports Booth_Prelude
begin

text \<open>
  Positions in a source text, shared by the lexers: the line of a position, where that line starts,
  and the text between two positions.
\<close>

abbreviation (input) LF :: char where "LF \<equiv> CHR 0x0A"

text \<open>The line and column of a position, read off the source.\<close>

definition line_at :: "string \<Rightarrow> nat \<Rightarrow> nat" where
  "line_at src p = 1 + count_list (take p src) LF"

definition start_at :: "string \<Rightarrow> nat \<Rightarrow> nat" where
  "start_at src p = p - length (takeWhile (\<lambda>c. c \<noteq> LF) (rev (take p src)))"

definition slice :: "string \<Rightarrow> nat \<Rightarrow> nat \<Rightarrow> string" where
  "slice src p q = take (q - p) (drop p src)"

lemma slice_nth: "p + i < q \<Longrightarrow> q \<le> length src \<Longrightarrow> slice src p q ! i = src ! (p + i)"
  by (simp add: slice_def)

lemma slice_length [simp]: "q \<le> length src \<Longrightarrow> length (slice src p q) = q - p"
  by (simp add: slice_def)

lemma slice_set: "q \<le> length src \<Longrightarrow> set (slice src p q) = {src ! i | i. p \<le> i \<and> i < q}"
proof -
  assume q: "q \<le> length src"
  have "set (slice src p q) = {slice src p q ! i | i. i < q - p}" using q by (auto simp: set_conv_nth)
  also have "\<dots> = {src ! i | i. p \<le> i \<and> i < q}"
  proof (rule set_eqI, rule iffI)
    fix x assume "x \<in> {src ! i | i. p \<le> i \<and> i < q}"
    then obtain i where i: "x = src ! i" "p \<le> i" "i < q" by blast
    then have "x = slice src p q ! (i - p)" using slice_nth [of p "i - p" q src] q by simp
    then show "x \<in> {slice src p q ! i | i. i < q - p}" using i by (intro CollectI exI [of _ "i - p"]) simp
  next
    fix x assume "x \<in> {slice src p q ! i | i. i < q - p}"
    then obtain i where "x = slice src p q ! i" "i < q - p" by blast
    then show "x \<in> {src ! i | i. p \<le> i \<and> i < q}" using q by (intro CollectI exI [of _ "p + i"]) (simp add: slice_nth)
  qed
  finally show ?thesis .
qed

lemma slice_hd: "p < q \<Longrightarrow> q \<le> length src \<Longrightarrow> slice src p q \<noteq> [] \<and> hd (slice src p q) = src ! p"
proof -
  assume *: "p < q" "q \<le> length src"
  then have "slice src p q \<noteq> []" by (auto simp: slice_def)
  then show ?thesis using slice_nth [of p 0 q src] * by (simp add: hd_conv_nth)
qed

lemma line_start_Suc:
  assumes "p < length src"
  shows "line_at src (Suc p) = line_at src p + (if src ! p = LF then 1 else 0)"
    "start_at src (Suc p) = (if src ! p = LF then Suc p else start_at src p)"
  using assms length_takeWhile_le [of "\<lambda>c. c \<noteq> LF" "rev (take p src)"]
  by (simp_all add: line_at_def start_at_def take_Suc_conv_app_nth)

lemma start_at_le: "start_at src p \<le> p"
  by (simp add: start_at_def)

text \<open>Without a newline in between, two positions are on the same line.\<close>

lemma same_line:
  assumes "p \<le> q" "q \<le> length src" "\<forall>i. p \<le> i \<and> i < q \<longrightarrow> src ! i \<noteq> LF"
  shows "line_at src q = line_at src p" "start_at src q = start_at src p"
proof -
  have "line_at src q = line_at src p \<and> start_at src q = start_at src p"
    using assms
  proof (induction rule: dec_induct)
    case (step n)
    then show ?case using line_start_Suc [of n src] by simp
  qed simp
  then show "line_at src q = line_at src p" "start_at src q = start_at src p" by simp_all
qed

lemma slice_append: "p \<le> q \<Longrightarrow> q \<le> r \<Longrightarrow> slice src p r = slice src p q @ slice src q r"
proof -
  assume "p \<le> q" "q \<le> r"
  then have e: "r - p = (q - p) + (r - q)" by simp
  show ?thesis using \<open>p \<le> q\<close> unfolding slice_def e take_add by simp
qed

lemma slice_Cons: "p < q \<Longrightarrow> q \<le> length src \<Longrightarrow> slice src p q = src ! p # slice src (Suc p) q"
  by (simp add: slice_def Cons_nth_drop_Suc [symmetric] take_Cons' split: nat.split) 

end
