(* ===== verification/Lexer.thy ===== *)
theory Lexer
  imports Source_Text
begin

text \<open>
  The CUDA lexer, \<open>src/src/fe/lexer.c\<close>: the keyword table and its binary search, the scanners for
  comments, literals, identifiers and preprocessor lines, and the main loop.  The source text is a
  list of characters whose length is \<open>src_len\<close>; positions are natural numbers (a source is shorter
  than \<open>2^32\<close>), columns are stored modulo \<open>2^16\<close> as the \<open>uint16_t\<close> field does.  Error messages are
  identified by their number, their text is not kept.  The token buffer is the list of the tokens
  written; \<open>lx_oob\<close> records a write to \<open>tokens[-1]\<close>.
\<close>

subsection \<open>Token types\<close>

abbreviation (input) TOK_INT_LIT :: nat where "TOK_INT_LIT \<equiv> 0"
abbreviation (input) TOK_FLOAT_LIT :: nat where "TOK_FLOAT_LIT \<equiv> 1"
abbreviation (input) TOK_STRING_LIT :: nat where "TOK_STRING_LIT \<equiv> 2"
abbreviation (input) TOK_CHAR_LIT :: nat where "TOK_CHAR_LIT \<equiv> 3"
abbreviation (input) TOK_IDENT :: nat where "TOK_IDENT \<equiv> 4"
abbreviation (input) TOK_LPAREN :: nat where "TOK_LPAREN \<equiv> 5"
abbreviation (input) TOK_RPAREN :: nat where "TOK_RPAREN \<equiv> 6"
abbreviation (input) TOK_LBRACKET :: nat where "TOK_LBRACKET \<equiv> 7"
abbreviation (input) TOK_RBRACKET :: nat where "TOK_RBRACKET \<equiv> 8"
abbreviation (input) TOK_LBRACE :: nat where "TOK_LBRACE \<equiv> 9"
abbreviation (input) TOK_RBRACE :: nat where "TOK_RBRACE \<equiv> 10"
abbreviation (input) TOK_SEMI :: nat where "TOK_SEMI \<equiv> 11"
abbreviation (input) TOK_COMMA :: nat where "TOK_COMMA \<equiv> 12"
abbreviation (input) TOK_DOT :: nat where "TOK_DOT \<equiv> 13"
abbreviation (input) TOK_ARROW :: nat where "TOK_ARROW \<equiv> 14"
abbreviation (input) TOK_COLON :: nat where "TOK_COLON \<equiv> 15"
abbreviation (input) TOK_DCOLON :: nat where "TOK_DCOLON \<equiv> 16"
abbreviation (input) TOK_QUESTION :: nat where "TOK_QUESTION \<equiv> 17"
abbreviation (input) TOK_ELLIPSIS :: nat where "TOK_ELLIPSIS \<equiv> 18"
abbreviation (input) TOK_PLUS :: nat where "TOK_PLUS \<equiv> 19"
abbreviation (input) TOK_MINUS :: nat where "TOK_MINUS \<equiv> 20"
abbreviation (input) TOK_STAR :: nat where "TOK_STAR \<equiv> 21"
abbreviation (input) TOK_SLASH :: nat where "TOK_SLASH \<equiv> 22"
abbreviation (input) TOK_PERCENT :: nat where "TOK_PERCENT \<equiv> 23"
abbreviation (input) TOK_INC :: nat where "TOK_INC \<equiv> 24"
abbreviation (input) TOK_DEC :: nat where "TOK_DEC \<equiv> 25"
abbreviation (input) TOK_AMP :: nat where "TOK_AMP \<equiv> 26"
abbreviation (input) TOK_PIPE :: nat where "TOK_PIPE \<equiv> 27"
abbreviation (input) TOK_CARET :: nat where "TOK_CARET \<equiv> 28"
abbreviation (input) TOK_TILDE :: nat where "TOK_TILDE \<equiv> 29"
abbreviation (input) TOK_SHL :: nat where "TOK_SHL \<equiv> 30"
abbreviation (input) TOK_SHR :: nat where "TOK_SHR \<equiv> 31"
abbreviation (input) TOK_LT :: nat where "TOK_LT \<equiv> 32"
abbreviation (input) TOK_GT :: nat where "TOK_GT \<equiv> 33"
abbreviation (input) TOK_LE :: nat where "TOK_LE \<equiv> 34"
abbreviation (input) TOK_GE :: nat where "TOK_GE \<equiv> 35"
abbreviation (input) TOK_EQ :: nat where "TOK_EQ \<equiv> 36"
abbreviation (input) TOK_NE :: nat where "TOK_NE \<equiv> 37"
abbreviation (input) TOK_LAND :: nat where "TOK_LAND \<equiv> 38"
abbreviation (input) TOK_LOR :: nat where "TOK_LOR \<equiv> 39"
abbreviation (input) TOK_BANG :: nat where "TOK_BANG \<equiv> 40"
abbreviation (input) TOK_ASSIGN :: nat where "TOK_ASSIGN \<equiv> 41"
abbreviation (input) TOK_PLUS_EQ :: nat where "TOK_PLUS_EQ \<equiv> 42"
abbreviation (input) TOK_MINUS_EQ :: nat where "TOK_MINUS_EQ \<equiv> 43"
abbreviation (input) TOK_STAR_EQ :: nat where "TOK_STAR_EQ \<equiv> 44"
abbreviation (input) TOK_SLASH_EQ :: nat where "TOK_SLASH_EQ \<equiv> 45"
abbreviation (input) TOK_PERCENT_EQ :: nat where "TOK_PERCENT_EQ \<equiv> 46"
abbreviation (input) TOK_AMP_EQ :: nat where "TOK_AMP_EQ \<equiv> 47"
abbreviation (input) TOK_PIPE_EQ :: nat where "TOK_PIPE_EQ \<equiv> 48"
abbreviation (input) TOK_CARET_EQ :: nat where "TOK_CARET_EQ \<equiv> 49"
abbreviation (input) TOK_SHL_EQ :: nat where "TOK_SHL_EQ \<equiv> 50"
abbreviation (input) TOK_SHR_EQ :: nat where "TOK_SHR_EQ \<equiv> 51"
abbreviation (input) TOK_LAUNCH_OPEN :: nat where "TOK_LAUNCH_OPEN \<equiv> 52"
abbreviation (input) TOK_LAUNCH_CLOSE :: nat where "TOK_LAUNCH_CLOSE \<equiv> 53"
abbreviation (input) TOK_HASH :: nat where "TOK_HASH \<equiv> 54"
abbreviation (input) TOK_DHASH :: nat where "TOK_DHASH \<equiv> 55"
abbreviation (input) TOK_PP_LINE :: nat where "TOK_PP_LINE \<equiv> 56"
abbreviation (input) TOK_AUTO :: nat where "TOK_AUTO \<equiv> 57"
abbreviation (input) TOK_BREAK :: nat where "TOK_BREAK \<equiv> 58"
abbreviation (input) TOK_CASE :: nat where "TOK_CASE \<equiv> 59"
abbreviation (input) TOK_CHAR :: nat where "TOK_CHAR \<equiv> 60"
abbreviation (input) TOK_CONST :: nat where "TOK_CONST \<equiv> 61"
abbreviation (input) TOK_CONTINUE :: nat where "TOK_CONTINUE \<equiv> 62"
abbreviation (input) TOK_DEFAULT :: nat where "TOK_DEFAULT \<equiv> 63"
abbreviation (input) TOK_DO :: nat where "TOK_DO \<equiv> 64"
abbreviation (input) TOK_DOUBLE :: nat where "TOK_DOUBLE \<equiv> 65"
abbreviation (input) TOK_ELSE :: nat where "TOK_ELSE \<equiv> 66"
abbreviation (input) TOK_ENUM :: nat where "TOK_ENUM \<equiv> 67"
abbreviation (input) TOK_EXTERN :: nat where "TOK_EXTERN \<equiv> 68"
abbreviation (input) TOK_FLOAT :: nat where "TOK_FLOAT \<equiv> 69"
abbreviation (input) TOK_FOR :: nat where "TOK_FOR \<equiv> 70"
abbreviation (input) TOK_GOTO :: nat where "TOK_GOTO \<equiv> 71"
abbreviation (input) TOK_IF :: nat where "TOK_IF \<equiv> 72"
abbreviation (input) TOK_INLINE :: nat where "TOK_INLINE \<equiv> 73"
abbreviation (input) TOK_INT :: nat where "TOK_INT \<equiv> 74"
abbreviation (input) TOK_LONG :: nat where "TOK_LONG \<equiv> 75"
abbreviation (input) TOK_REGISTER :: nat where "TOK_REGISTER \<equiv> 76"
abbreviation (input) TOK_RESTRICT :: nat where "TOK_RESTRICT \<equiv> 77"
abbreviation (input) TOK_RETURN :: nat where "TOK_RETURN \<equiv> 78"
abbreviation (input) TOK_SHORT :: nat where "TOK_SHORT \<equiv> 79"
abbreviation (input) TOK_SIGNED :: nat where "TOK_SIGNED \<equiv> 80"
abbreviation (input) TOK_SIZEOF :: nat where "TOK_SIZEOF \<equiv> 81"
abbreviation (input) TOK_STATIC :: nat where "TOK_STATIC \<equiv> 82"
abbreviation (input) TOK_STRUCT :: nat where "TOK_STRUCT \<equiv> 83"
abbreviation (input) TOK_SWITCH :: nat where "TOK_SWITCH \<equiv> 84"
abbreviation (input) TOK_TYPEDEF :: nat where "TOK_TYPEDEF \<equiv> 85"
abbreviation (input) TOK_UNION :: nat where "TOK_UNION \<equiv> 86"
abbreviation (input) TOK_UNSIGNED :: nat where "TOK_UNSIGNED \<equiv> 87"
abbreviation (input) TOK_VOID :: nat where "TOK_VOID \<equiv> 88"
abbreviation (input) TOK_VOLATILE :: nat where "TOK_VOLATILE \<equiv> 89"
abbreviation (input) TOK_WHILE :: nat where "TOK_WHILE \<equiv> 90"
abbreviation (input) TOK_ALIGNAS :: nat where "TOK_ALIGNAS \<equiv> 91"
abbreviation (input) TOK_ALIGNOF :: nat where "TOK_ALIGNOF \<equiv> 92"
abbreviation (input) TOK_BOOL :: nat where "TOK_BOOL \<equiv> 93"
abbreviation (input) TOK_CATCH :: nat where "TOK_CATCH \<equiv> 94"
abbreviation (input) TOK_CLASS :: nat where "TOK_CLASS \<equiv> 95"
abbreviation (input) TOK_CONST_CAST :: nat where "TOK_CONST_CAST \<equiv> 96"
abbreviation (input) TOK_CONSTEXPR :: nat where "TOK_CONSTEXPR \<equiv> 97"
abbreviation (input) TOK_DECLTYPE :: nat where "TOK_DECLTYPE \<equiv> 98"
abbreviation (input) TOK_DELETE :: nat where "TOK_DELETE \<equiv> 99"
abbreviation (input) TOK_DYNAMIC_CAST :: nat where "TOK_DYNAMIC_CAST \<equiv> 100"
abbreviation (input) TOK_EXPLICIT :: nat where "TOK_EXPLICIT \<equiv> 101"
abbreviation (input) TOK_FALSE :: nat where "TOK_FALSE \<equiv> 102"
abbreviation (input) TOK_FINAL :: nat where "TOK_FINAL \<equiv> 103"
abbreviation (input) TOK_FRIEND :: nat where "TOK_FRIEND \<equiv> 104"
abbreviation (input) TOK_MUTABLE :: nat where "TOK_MUTABLE \<equiv> 105"
abbreviation (input) TOK_NAMESPACE :: nat where "TOK_NAMESPACE \<equiv> 106"
abbreviation (input) TOK_NEW :: nat where "TOK_NEW \<equiv> 107"
abbreviation (input) TOK_NOEXCEPT :: nat where "TOK_NOEXCEPT \<equiv> 108"
abbreviation (input) TOK_NULLPTR :: nat where "TOK_NULLPTR \<equiv> 109"
abbreviation (input) TOK_OPERATOR :: nat where "TOK_OPERATOR \<equiv> 110"
abbreviation (input) TOK_OVERRIDE :: nat where "TOK_OVERRIDE \<equiv> 111"
abbreviation (input) TOK_PRIVATE :: nat where "TOK_PRIVATE \<equiv> 112"
abbreviation (input) TOK_PROTECTED :: nat where "TOK_PROTECTED \<equiv> 113"
abbreviation (input) TOK_PUBLIC :: nat where "TOK_PUBLIC \<equiv> 114"
abbreviation (input) TOK_REINTERPRET_CAST :: nat where "TOK_REINTERPRET_CAST \<equiv> 115"
abbreviation (input) TOK_STATIC_ASSERT :: nat where "TOK_STATIC_ASSERT \<equiv> 116"
abbreviation (input) TOK_STATIC_CAST :: nat where "TOK_STATIC_CAST \<equiv> 117"
abbreviation (input) TOK_TEMPLATE :: nat where "TOK_TEMPLATE \<equiv> 118"
abbreviation (input) TOK_THIS :: nat where "TOK_THIS \<equiv> 119"
abbreviation (input) TOK_THROW :: nat where "TOK_THROW \<equiv> 120"
abbreviation (input) TOK_TRUE :: nat where "TOK_TRUE \<equiv> 121"
abbreviation (input) TOK_TRY :: nat where "TOK_TRY \<equiv> 122"
abbreviation (input) TOK_TYPENAME :: nat where "TOK_TYPENAME \<equiv> 123"
abbreviation (input) TOK_USING :: nat where "TOK_USING \<equiv> 124"
abbreviation (input) TOK_VIRTUAL :: nat where "TOK_VIRTUAL \<equiv> 125"
abbreviation (input) TOK_CU_GLOBAL :: nat where "TOK_CU_GLOBAL \<equiv> 126"
abbreviation (input) TOK_CU_DEVICE :: nat where "TOK_CU_DEVICE \<equiv> 127"
abbreviation (input) TOK_CU_HOST :: nat where "TOK_CU_HOST \<equiv> 128"
abbreviation (input) TOK_CU_SHARED :: nat where "TOK_CU_SHARED \<equiv> 129"
abbreviation (input) TOK_CU_CONSTANT :: nat where "TOK_CU_CONSTANT \<equiv> 130"
abbreviation (input) TOK_CU_MANAGED :: nat where "TOK_CU_MANAGED \<equiv> 131"
abbreviation (input) TOK_CU_GRID_CONSTANT :: nat where "TOK_CU_GRID_CONSTANT \<equiv> 132"
abbreviation (input) TOK_CU_LAUNCH_BOUNDS :: nat where "TOK_CU_LAUNCH_BOUNDS \<equiv> 133"
abbreviation (input) TOK_CU_RESTRICT :: nat where "TOK_CU_RESTRICT \<equiv> 134"
abbreviation (input) TOK_CU_FORCEINLINE :: nat where "TOK_CU_FORCEINLINE \<equiv> 135"
abbreviation (input) TOK_CU_NOINLINE :: nat where "TOK_CU_NOINLINE \<equiv> 136"
abbreviation (input) TOK_CU_ALIGN :: nat where "TOK_CU_ALIGN \<equiv> 137"
abbreviation (input) TOK_ASM :: nat where "TOK_ASM \<equiv> 138"
abbreviation (input) TOK_NORETURN :: nat where "TOK_NORETURN \<equiv> 139"
abbreviation (input) TOK_EOF :: nat where "TOK_EOF \<equiv> 140"
abbreviation (input) TOK_ERROR :: nat where "TOK_ERROR \<equiv> 141"
abbreviation (input) TOK_COUNT :: nat where "TOK_COUNT \<equiv> 142"

record token =
  t_type :: nat
  t_offset :: nat
  t_len :: nat
  t_line :: nat
  t_col :: nat

datatype lex_eid = BC_E001 | BC_E002 | BC_E003 | BC_E004 | BC_E005

record lex_err =
  e_line :: nat
  e_col :: nat
  e_offset :: nat
  e_code :: bc_code
  e_eid :: lex_eid

abbreviation (input) BC_MAX_ERRORS :: nat where "BC_MAX_ERRORS \<equiv> 64"

subsection \<open>Keywords\<close>

definition kw_table :: "(string \<times> nat) list" where
  "kw_table =
     [(''_Noreturn'', TOK_NORETURN), (''__align__'', TOK_CU_ALIGN), (''__asm'', TOK_ASM),
      (''__asm__'', TOK_ASM), (''__constant__'', TOK_CU_CONSTANT), (''__device__'', TOK_CU_DEVICE),
      (''__forceinline__'', TOK_CU_FORCEINLINE), (''__global__'', TOK_CU_GLOBAL),
      (''__grid_constant__'', TOK_CU_GRID_CONSTANT), (''__host__'', TOK_CU_HOST),
      (''__inline'', TOK_INLINE), (''__inline__'', TOK_INLINE),
      (''__launch_bounds__'', TOK_CU_LAUNCH_BOUNDS), (''__managed__'', TOK_CU_MANAGED),
      (''__noinline__'', TOK_CU_NOINLINE), (''__restrict__'', TOK_CU_RESTRICT),
      (''__shared__'', TOK_CU_SHARED), (''alignas'', TOK_ALIGNAS), (''alignof'', TOK_ALIGNOF),
      (''asm'', TOK_ASM), (''auto'', TOK_AUTO), (''bool'', TOK_BOOL), (''break'', TOK_BREAK),
      (''case'', TOK_CASE), (''catch'', TOK_CATCH), (''char'', TOK_CHAR), (''class'', TOK_CLASS),
      (''const'', TOK_CONST), (''const_cast'', TOK_CONST_CAST), (''constexpr'', TOK_CONSTEXPR),
      (''continue'', TOK_CONTINUE), (''decltype'', TOK_DECLTYPE), (''default'', TOK_DEFAULT),
      (''delete'', TOK_DELETE), (''do'', TOK_DO), (''double'', TOK_DOUBLE),
      (''dynamic_cast'', TOK_DYNAMIC_CAST), (''else'', TOK_ELSE), (''enum'', TOK_ENUM),
      (''explicit'', TOK_EXPLICIT), (''extern'', TOK_EXTERN), (''false'', TOK_FALSE),
      (''final'', TOK_FINAL), (''float'', TOK_FLOAT), (''for'', TOK_FOR), (''friend'', TOK_FRIEND),
      (''goto'', TOK_GOTO), (''if'', TOK_IF), (''inline'', TOK_INLINE), (''int'', TOK_INT),
      (''long'', TOK_LONG), (''mutable'', TOK_MUTABLE), (''namespace'', TOK_NAMESPACE), (''new'', TOK_NEW),
      (''noexcept'', TOK_NOEXCEPT), (''nullptr'', TOK_NULLPTR), (''operator'', TOK_OPERATOR),
      (''override'', TOK_OVERRIDE), (''private'', TOK_PRIVATE), (''protected'', TOK_PROTECTED),
      (''public'', TOK_PUBLIC), (''register'', TOK_REGISTER), (''reinterpret_cast'', TOK_REINTERPRET_CAST),
      (''restrict'', TOK_RESTRICT), (''return'', TOK_RETURN), (''short'', TOK_SHORT),
      (''signed'', TOK_SIGNED), (''sizeof'', TOK_SIZEOF), (''static'', TOK_STATIC),
      (''static_assert'', TOK_STATIC_ASSERT), (''static_cast'', TOK_STATIC_CAST), (''struct'', TOK_STRUCT),
      (''switch'', TOK_SWITCH), (''template'', TOK_TEMPLATE), (''this'', TOK_THIS), (''throw'', TOK_THROW),
      (''true'', TOK_TRUE), (''try'', TOK_TRY), (''typedef'', TOK_TYPEDEF), (''typename'', TOK_TYPENAME),
      (''union'', TOK_UNION), (''unsigned'', TOK_UNSIGNED), (''using'', TOK_USING),
      (''virtual'', TOK_VIRTUAL), (''void'', TOK_VOID), (''volatile'', TOK_VOLATILE),
      (''while'', TOK_WHILE)]"

definition NUM_KEYWORDS :: nat where
  "NUM_KEYWORDS = length kw_table"

text \<open>The byte a C string has at a position, with the terminating zero.\<close>

definition byte_at :: "string \<Rightarrow> nat \<Rightarrow> nat" where
  "byte_at s i = (if i < length s then of_char (s ! i) else 0)"

fun strncmp :: "string \<Rightarrow> string \<Rightarrow> nat \<Rightarrow> int" where
  "strncmp a b 0 = 0"
| "strncmp a b (Suc n) =
     (if byte_at a 0 \<noteq> byte_at b 0 then int (byte_at a 0) - int (byte_at b 0)
      else if byte_at a 0 = 0 then 0
      else strncmp (tl a) (tl b) n)"

function kw_search :: "string \<Rightarrow> nat \<Rightarrow> int \<Rightarrow> int \<Rightarrow> nat" where
  "kw_search s len lo hi =
     (if lo > hi then TOK_IDENT
      else
        let mid = (lo + hi) div 2;
            kw = kw_table ! nat mid;
            cmp = strncmp s (fst kw) len
        in if cmp = 0 \<and> byte_at (fst kw) len = 0 then snd kw
           else if cmp \<le> 0 then kw_search s len lo (mid - 1)
           else kw_search s len (mid + 1) hi)"
  by pat_completeness auto
termination
  by (relation "measure (\<lambda>(s, len, lo, hi). nat (hi - lo + 1))") auto

definition lookup_keyword :: "string \<Rightarrow> nat \<Rightarrow> nat" where
  "lookup_keyword s len = kw_search s len 0 (int NUM_KEYWORDS - 1)"

definition lexer_kw_count :: int where
  "lexer_kw_count = int NUM_KEYWORDS"

definition lexer_kw_at :: "int \<Rightarrow> string option" where
  "lexer_kw_at i = (if i < 0 \<or> i \<ge> int NUM_KEYWORDS then None else Some (fst (kw_table ! nat i)))"

definition tok_names :: "(nat \<times> string) list" where
  "tok_names =
     [(TOK_INT_LIT, ''INT_LIT''), (TOK_FLOAT_LIT, ''FLOAT_LIT''), (TOK_STRING_LIT, ''STRING_LIT''),
      (TOK_CHAR_LIT, ''CHAR_LIT''), (TOK_IDENT, ''IDENT''), (TOK_LPAREN, ''(''), (TOK_RPAREN, '')''),
      (TOK_LBRACKET, ''[''), (TOK_RBRACKET, '']''), (TOK_LBRACE, ''{''), (TOK_RBRACE, ''}''),
      (TOK_SEMI, '';''), (TOK_COMMA, '',''), (TOK_DOT, ''.''), (TOK_ARROW, ''->''), (TOK_COLON, '':''),
      (TOK_DCOLON, ''::''), (TOK_QUESTION, ''?''), (TOK_ELLIPSIS, ''...''), (TOK_PLUS, ''+''),
      (TOK_MINUS, ''-''), (TOK_STAR, ''*''), (TOK_SLASH, ''/''), (TOK_PERCENT, ''%''), (TOK_INC, ''++''),
      (TOK_DEC, ''--''), (TOK_AMP, ''&''), (TOK_PIPE, ''|''), (TOK_CARET, ''^''), (TOK_TILDE, ''~''),
      (TOK_SHL, ''<<''), (TOK_SHR, ''>>''), (TOK_LT, ''<''), (TOK_GT, ''>''), (TOK_LE, ''<=''),
      (TOK_GE, ''>=''), (TOK_EQ, ''==''), (TOK_NE, ''!=''), (TOK_LAND, ''&&''), (TOK_LOR, ''||''),
      (TOK_BANG, ''!''), (TOK_ASSIGN, ''=''), (TOK_PLUS_EQ, ''+=''), (TOK_MINUS_EQ, ''-=''),
      (TOK_STAR_EQ, ''*=''), (TOK_SLASH_EQ, ''/=''), (TOK_PERCENT_EQ, ''%=''), (TOK_AMP_EQ, ''&=''),
      (TOK_PIPE_EQ, ''|=''), (TOK_CARET_EQ, ''^=''), (TOK_SHL_EQ, ''<<=''), (TOK_SHR_EQ, ''>>=''),
      (TOK_LAUNCH_OPEN, ''<<<''), (TOK_LAUNCH_CLOSE, ''>>>''), (TOK_HASH, ''#''), (TOK_DHASH, ''##''),
      (TOK_PP_LINE, ''PP_LINE''), (TOK_AUTO, ''auto''), (TOK_BREAK, ''break''), (TOK_CASE, ''case''),
      (TOK_CHAR, ''char''), (TOK_CONST, ''const''), (TOK_CONTINUE, ''continue''),
      (TOK_DEFAULT, ''default''), (TOK_DO, ''do''), (TOK_DOUBLE, ''double''), (TOK_ELSE, ''else''),
      (TOK_ENUM, ''enum''), (TOK_EXTERN, ''extern''), (TOK_FLOAT, ''float''), (TOK_FOR, ''for''),
      (TOK_GOTO, ''goto''), (TOK_IF, ''if''), (TOK_INLINE, ''inline''), (TOK_INT, ''int''),
      (TOK_LONG, ''long''), (TOK_REGISTER, ''register''), (TOK_RESTRICT, ''restrict''),
      (TOK_RETURN, ''return''), (TOK_SHORT, ''short''), (TOK_SIGNED, ''signed''), (TOK_SIZEOF, ''sizeof''),
      (TOK_STATIC, ''static''), (TOK_STRUCT, ''struct''), (TOK_SWITCH, ''switch''),
      (TOK_TYPEDEF, ''typedef''), (TOK_UNION, ''union''), (TOK_UNSIGNED, ''unsigned''),
      (TOK_VOID, ''void''), (TOK_VOLATILE, ''volatile''), (TOK_WHILE, ''while''),
      (TOK_ALIGNAS, ''alignas''), (TOK_ALIGNOF, ''alignof''), (TOK_BOOL, ''bool''), (TOK_CATCH, ''catch''),
      (TOK_CLASS, ''class''), (TOK_CONST_CAST, ''const_cast''), (TOK_CONSTEXPR, ''constexpr''),
      (TOK_DECLTYPE, ''decltype''), (TOK_DELETE, ''delete''), (TOK_DYNAMIC_CAST, ''dynamic_cast''),
      (TOK_EXPLICIT, ''explicit''), (TOK_FALSE, ''false''), (TOK_FINAL, ''final''),
      (TOK_FRIEND, ''friend''), (TOK_MUTABLE, ''mutable''), (TOK_NAMESPACE, ''namespace''),
      (TOK_NEW, ''new''), (TOK_NOEXCEPT, ''noexcept''), (TOK_NULLPTR, ''nullptr''),
      (TOK_OPERATOR, ''operator''), (TOK_OVERRIDE, ''override''), (TOK_PRIVATE, ''private''),
      (TOK_PROTECTED, ''protected''), (TOK_PUBLIC, ''public''),
      (TOK_REINTERPRET_CAST, ''reinterpret_cast''), (TOK_STATIC_ASSERT, ''static_assert''),
      (TOK_STATIC_CAST, ''static_cast''), (TOK_TEMPLATE, ''template''), (TOK_THIS, ''this''),
      (TOK_THROW, ''throw''), (TOK_TRUE, ''true''), (TOK_TRY, ''try''), (TOK_TYPENAME, ''typename''),
      (TOK_USING, ''using''), (TOK_VIRTUAL, ''virtual''), (TOK_CU_GLOBAL, ''__global__''),
      (TOK_CU_DEVICE, ''__device__''), (TOK_CU_HOST, ''__host__''), (TOK_CU_SHARED, ''__shared__''),
      (TOK_CU_CONSTANT, ''__constant__''), (TOK_CU_MANAGED, ''__managed__''),
      (TOK_CU_GRID_CONSTANT, ''__grid_constant__''), (TOK_CU_LAUNCH_BOUNDS, ''__launch_bounds__''),
      (TOK_CU_RESTRICT, ''__restrict__''), (TOK_CU_FORCEINLINE, ''__forceinline__''),
      (TOK_CU_NOINLINE, ''__noinline__''), (TOK_CU_ALIGN, ''__align__''), (TOK_ASM, ''asm''),
      (TOK_NORETURN, ''_Noreturn''), (TOK_EOF, ''EOF''), (TOK_ERROR, ''ERROR'')]"

definition token_type_name :: "int \<Rightarrow> string" where
  "token_type_name ty =
     (if ty \<ge> 0 \<and> ty < int TOK_COUNT then
        (case map_of tok_names (nat ty) of Some s \<Rightarrow> s | None \<Rightarrow> ''???'')
      else ''???'')"

subsection \<open>Characters\<close>

text \<open>The character classes of the C locale.\<close>

definition isdigit :: "char \<Rightarrow> bool" where
  "isdigit c \<longleftrightarrow> (of_char c :: nat) \<in> {48..57}"

definition isalpha :: "char \<Rightarrow> bool" where
  "isalpha c \<longleftrightarrow> (of_char c :: nat) \<in> {65..90} \<or> (of_char c :: nat) \<in> {97..122}"

definition isalnum :: "char \<Rightarrow> bool" where
  "isalnum c \<longleftrightarrow> isalpha c \<or> isdigit c"

definition isxdigit :: "char \<Rightarrow> bool" where
  "isxdigit c \<longleftrightarrow> isdigit c \<or> (of_char c :: nat) \<in> {65..70} \<or> (of_char c :: nat) \<in> {97..102}"

abbreviation (input) NUL :: char where "NUL \<equiv> CHR 0x00"
abbreviation (input) TAB :: char where "TAB \<equiv> CHR 0x09"
abbreviation (input) CR :: char where "CR \<equiv> CHR 0x0D"
abbreviation (input) DQUOTE :: char where "DQUOTE \<equiv> CHR 0x22"
abbreviation (input) SQUOTE :: char where "SQUOTE \<equiv> CHR 0x27"
abbreviation (input) BSLASH :: char where "BSLASH \<equiv> CHR 0x5C"

subsection \<open>State\<close>

record lexer =
  lx_src :: string
  lx_pos :: nat
  lx_line :: nat
  lx_line_start :: nat
  lx_tokens :: "token list"
  lx_max_tokens :: nat
  lx_errors :: "lex_err list"
  lx_oob :: bool

definition lexer_init :: "string \<Rightarrow> nat \<Rightarrow> lexer" where
  "lexer_init src max_tokens =
     \<lparr>lx_src = src, lx_pos = 0, lx_line = 1, lx_line_start = 0, lx_tokens = [], lx_max_tokens = max_tokens,
      lx_errors = [], lx_oob = False\<rparr>"

definition at_end :: "lexer \<Rightarrow> bool" where
  "at_end L \<longleftrightarrow> lx_pos L \<ge> length (lx_src L)"

definition cur :: "lexer \<Rightarrow> char" where
  "cur L = (if at_end L then NUL else lx_src L ! lx_pos L)"

definition peek :: "lexer \<Rightarrow> nat \<Rightarrow> char" where
  "peek L ahead = (if lx_pos L + ahead < length (lx_src L) then lx_src L ! (lx_pos L + ahead) else NUL)"

definition advance :: "lexer \<Rightarrow> lexer" where
  "advance L =
     (if lx_pos L < length (lx_src L) then
        (if lx_src L ! lx_pos L = LF
         then L\<lparr>lx_line := lx_line L + 1, lx_line_start := lx_pos L + 1, lx_pos := lx_pos L + 1\<rparr>
         else L\<lparr>lx_pos := lx_pos L + 1\<rparr>)
      else L)"

definition col_here :: "lexer \<Rightarrow> nat" where
  "col_here L = (lx_pos L - lx_line_start L + 1) mod 2 ^ 16"

definition emit_tok :: "nat \<Rightarrow> nat \<Rightarrow> nat \<Rightarrow> nat \<Rightarrow> nat \<Rightarrow> lexer \<Rightarrow> lexer" where
  "emit_tok ty start len line col L =
     (if length (lx_tokens L) \<ge> lx_max_tokens L then
        (if length (lx_errors L) < BC_MAX_ERRORS
         then L\<lparr>lx_errors := lx_errors L @
                [\<lparr>e_line = line, e_col = col, e_offset = start, e_code = BC_ERR_OVERFLOW, e_eid = BC_E001\<rparr>]\<rparr>
         else L)
      else L\<lparr>lx_tokens := lx_tokens L @ [\<lparr>t_type = ty, t_offset = start, t_len = len, t_line = line, t_col = col\<rparr>]\<rparr>)"

definition lex_error :: "lex_eid \<Rightarrow> lexer \<Rightarrow> lexer" where
  "lex_error eid L =
     (if length (lx_errors L) < BC_MAX_ERRORS
      then L\<lparr>lx_errors := lx_errors L @
             [\<lparr>e_line = lx_line L, e_col = col_here L, e_offset = lx_pos L, e_code = BC_ERR_LEX, e_eid = eid\<rparr>]\<rparr>
      else L)"

definition lexer_token_text :: "lexer \<Rightarrow> token \<Rightarrow> nat \<Rightarrow> string" where
  "lexer_token_text L tok bufsize =
     take (if t_len tok \<ge> bufsize then bufsize - 1 else t_len tok) (drop (t_offset tok) (lx_src L))"

subsection \<open>Scanners\<close>

text \<open>The loop \<open>while (!at_end(L) && P) advance(L)\<close>.\<close>

function skip_while :: "(char \<Rightarrow> bool) \<Rightarrow> lexer \<Rightarrow> lexer" where
  "skip_while P L = (if \<not> at_end L \<and> P (cur L) then skip_while P (advance L) else L)"
  by pat_completeness auto
termination
  by (relation "measure (\<lambda>(P, L). length (lx_src L) - lx_pos L)") (auto simp: at_end_def advance_def)

definition lx_splc :: "lexer \<Rightarrow> nat" where
  "lx_splc L =
     (if cur L \<noteq> BSLASH then 0
      else if peek L 1 = LF then 2
      else if peek L 1 = CR \<and> peek L 2 = LF then 3
      else 0)"

definition skip_whitespace :: "lexer \<Rightarrow> lexer" where
  "skip_whitespace L = skip_while (\<lambda>c. c = CHR '' '' \<or> c = TAB \<or> c = CR \<or> c = LF) L"

definition skip_line_comment :: "lexer \<Rightarrow> lexer" where
  "skip_line_comment L = skip_while (\<lambda>c. c \<noteq> LF) L"

function block_loop :: "lexer \<Rightarrow> lexer" where
  "block_loop L =
     (if at_end L then lex_error BC_E002 L
      else if cur L = CHR ''*'' \<and> peek L 1 = CHR ''/'' then advance (advance L)
      else block_loop (advance L))"
  by pat_completeness auto
termination
  by (relation "measure (\<lambda>L. length (lx_src L) - lx_pos L)") (auto simp: at_end_def advance_def)

definition skip_block_comment :: "lexer \<Rightarrow> lexer" where
  "skip_block_comment L = block_loop (advance (advance L))"

function string_loop :: "char \<Rightarrow> lexer \<Rightarrow> lexer" where
  "string_loop quote L =
     (if at_end L \<or> cur L = quote then L
      else
        let L1 = (if cur L = BSLASH then advance L else L)
        in if cur L1 = LF then lex_error BC_E003 L1
           else string_loop quote (advance L1))"
  by pat_completeness auto
termination
  by (relation "measure (\<lambda>(q, L). length (lx_src L) - lx_pos L)") (auto simp: at_end_def advance_def)

definition scan_string :: "lexer \<Rightarrow> char \<Rightarrow> lexer" where
  "scan_string L quote =
     (let start = lx_pos L; start_line = lx_line L; start_col = col_here L;
          ty = (if quote = DQUOTE then TOK_STRING_LIT else TOK_CHAR_LIT);
          L = string_loop quote (advance L);
          L = (if \<not> at_end L then advance L else lex_error BC_E004 L)
      in emit_tok ty start (lx_pos L - start) start_line start_col L)"

definition scan_exponent :: "char \<Rightarrow> char \<Rightarrow> lexer \<times> bool \<Rightarrow> lexer \<times> bool" where
  "scan_exponent e E st =
     (let (L, is_float) = st in
      if cur L = e \<or> cur L = E then
        let L = advance L;
            L = (if cur L = CHR ''+'' \<or> cur L = CHR ''-'' then advance L else L)
        in (skip_while isdigit L, True)
      else (L, is_float))"

definition scan_digits :: "lexer \<Rightarrow> lexer \<times> bool" where
  "scan_digits L =
     (if cur L = CHR ''0'' \<and> (peek L 1 = CHR ''x'' \<or> peek L 1 = CHR ''X'') then
        let L = skip_while (\<lambda>c. isxdigit c \<or> c = SQUOTE) (advance (advance L))
        in scan_exponent CHR ''p'' CHR ''P''
             (if cur L = CHR ''.'' then (skip_while isxdigit (advance L), True) else (L, False))
      else if cur L = CHR ''0'' \<and> (peek L 1 = CHR ''b'' \<or> peek L 1 = CHR ''B'') then
        (skip_while (\<lambda>c. c = CHR ''0'' \<or> c = CHR ''1'' \<or> c = SQUOTE) (advance (advance L)), False)
      else
        let L = skip_while (\<lambda>c. isdigit c \<or> c = SQUOTE) L
        in scan_exponent CHR ''e'' CHR ''E''
             (if cur L = CHR ''.'' \<and> peek L 1 \<noteq> CHR ''.'' then (skip_while isdigit (advance L), True)
              else (L, False)))"

definition scan_number :: "lexer \<Rightarrow> lexer" where
  "scan_number L =
     (let start = lx_pos L; start_line = lx_line L; start_col = col_here L;
          (L, is_float) = scan_digits L;
          L = skip_while (\<lambda>c. c = CHR ''u'' \<or> c = CHR ''U'' \<or> c = CHR ''l'' \<or> c = CHR ''L'' \<or>
                              c = CHR ''f'' \<or> c = CHR ''F'') L
      in emit_tok (if is_float then TOK_FLOAT_LIT else TOK_INT_LIT) start (lx_pos L - start) start_line start_col L)"

text \<open>An encoding prefix of a string or character literal.\<close>

definition lit_prefix :: "string \<Rightarrow> bool" where
  "lit_prefix s \<longleftrightarrow> s \<in> {''L'', ''u'', ''U'', ''u8''}"

text \<open>The rewrite of the last token after a prefixed literal, \<open>tokens[num_tokens - 1]\<close>.\<close>

definition retag :: "nat \<Rightarrow> lexer \<Rightarrow> lexer" where
  "retag start L =
     (if lx_tokens L = [] then L\<lparr>lx_oob := True\<rparr>
      else L\<lparr>lx_tokens := butlast (lx_tokens L) @
             [(last (lx_tokens L))\<lparr>t_offset := start, t_len := lx_pos L - start\<rparr>]\<rparr>)"

definition scan_ident :: "lexer \<Rightarrow> lexer" where
  "scan_ident L =
     (let start = lx_pos L; start_line = lx_line L; start_col = col_here L;
          L = skip_while (\<lambda>c. isalnum c \<or> c = CHR ''_'') L;
          len = lx_pos L - start;
          text = take len (drop start (lx_src L))
      in if (cur L = DQUOTE \<or> cur L = SQUOTE) \<and> lit_prefix text
         then retag start (scan_string L (cur L))
         else emit_tok (lookup_keyword (drop start (lx_src L)) len) start len start_line start_col L)"

function pp_loop :: "lexer \<Rightarrow> lexer" where
  "pp_loop L =
     (if \<not> at_end L \<and> cur L \<noteq> LF then
        let n = lx_splc L; n = (if n = 0 then 1 else n)
        in pp_loop ((advance ^^ n) L)
      else L)"
  by pat_completeness auto
termination
proof (relation "measure (\<lambda>L. length (lx_src L) - lx_pos L)", goal_cases)
  case (2 L x n)
  have "lx_src ((advance ^^ n) L) = lx_src L \<and> lx_pos L + (if n = 0 then 0 else 1) \<le> lx_pos ((advance ^^ n) L)"
    if "\<not> at_end L" for n
    using that by (induction n) (auto simp: advance_def at_end_def)
  from this [of n] have "0 < n \<Longrightarrow> lx_src ((advance ^^ n) L) = lx_src L \<and> lx_pos L < lx_pos ((advance ^^ n) L)"
    using 2 by simp
  moreover have "0 < n" using 2 by (auto split: if_splits)
  ultimately show ?case using 2(1) by (simp add: at_end_def diff_less_mono2)
qed simp

definition scan_pp_line :: "lexer \<Rightarrow> lexer" where
  "scan_pp_line L =
     (let L1 = pp_loop L
      in emit_tok TOK_PP_LINE (lx_pos L) (lx_pos L1 - lx_pos L) (lx_line L) (col_here L) L1)"

subsection \<open>The main loop\<close>

text \<open>An operator of \<open>n\<close> characters whose first one is already consumed.\<close>

definition op_tok :: "nat \<Rightarrow> nat \<Rightarrow> nat \<Rightarrow> nat \<Rightarrow> nat \<Rightarrow> lexer \<Rightarrow> lexer" where
  "op_tok start line col ty n L = emit_tok ty start n line col ((advance ^^ (n - 1)) L)"

text \<open>
  The switch over the first character \<open>c\<close>; \<open>d\<close> and \<open>e\<close> are the next two.  The answer is the type of
  the token and its length, which is also the number of characters consumed.
\<close>

definition op_kind :: "char \<Rightarrow> char \<Rightarrow> char \<Rightarrow> (nat \<times> nat) option" where
  "op_kind c d e =
     (if c = CHR ''('' then Some (TOK_LPAREN, 1)
      else if c = CHR '')'' then Some (TOK_RPAREN, 1)
      else if c = CHR ''['' then Some (TOK_LBRACKET, 1)
      else if c = CHR '']'' then Some (TOK_RBRACKET, 1)
      else if c = CHR ''{'' then Some (TOK_LBRACE, 1)
      else if c = CHR ''}'' then Some (TOK_RBRACE, 1)
      else if c = CHR '';'' then Some (TOK_SEMI, 1)
      else if c = CHR '','' then Some (TOK_COMMA, 1)
      else if c = CHR ''~'' then Some (TOK_TILDE, 1)
      else if c = CHR ''?'' then Some (TOK_QUESTION, 1)
      else if c = CHR ''.'' then
        (if d = CHR ''.'' \<and> e = CHR ''.'' then Some (TOK_ELLIPSIS, 3) else Some (TOK_DOT, 1))
      else if c = CHR '':'' then (if d = CHR '':'' then Some (TOK_DCOLON, 2) else Some (TOK_COLON, 1))
      else if c = CHR ''+'' then
        (if d = CHR ''+'' then Some (TOK_INC, 2)
         else if d = CHR ''='' then Some (TOK_PLUS_EQ, 2) else Some (TOK_PLUS, 1))
      else if c = CHR ''-'' then
        (if d = CHR ''-'' then Some (TOK_DEC, 2)
         else if d = CHR ''='' then Some (TOK_MINUS_EQ, 2)
         else if d = CHR ''>'' then Some (TOK_ARROW, 2) else Some (TOK_MINUS, 1))
      else if c = CHR ''*'' then (if d = CHR ''='' then Some (TOK_STAR_EQ, 2) else Some (TOK_STAR, 1))
      else if c = CHR ''/'' then (if d = CHR ''='' then Some (TOK_SLASH_EQ, 2) else Some (TOK_SLASH, 1))
      else if c = CHR ''%'' then (if d = CHR ''='' then Some (TOK_PERCENT_EQ, 2) else Some (TOK_PERCENT, 1))
      else if c = CHR ''&'' then
        (if d = CHR ''&'' then Some (TOK_LAND, 2)
         else if d = CHR ''='' then Some (TOK_AMP_EQ, 2) else Some (TOK_AMP, 1))
      else if c = CHR ''|'' then
        (if d = CHR ''|'' then Some (TOK_LOR, 2)
         else if d = CHR ''='' then Some (TOK_PIPE_EQ, 2) else Some (TOK_PIPE, 1))
      else if c = CHR ''^'' then (if d = CHR ''='' then Some (TOK_CARET_EQ, 2) else Some (TOK_CARET, 1))
      else if c = CHR ''!'' then (if d = CHR ''='' then Some (TOK_NE, 2) else Some (TOK_BANG, 1))
      else if c = CHR ''='' then (if d = CHR ''='' then Some (TOK_EQ, 2) else Some (TOK_ASSIGN, 1))
      else if c = CHR ''<'' then
        (if d = CHR ''<'' \<and> e = CHR ''<'' then Some (TOK_LAUNCH_OPEN, 3)
         else if d = CHR ''<'' \<and> e = CHR ''='' then Some (TOK_SHL_EQ, 3)
         else if d = CHR ''<'' then Some (TOK_SHL, 2)
         else if d = CHR ''='' then Some (TOK_LE, 2) else Some (TOK_LT, 1))
      else if c = CHR ''>'' then
        (if d = CHR ''>'' \<and> e = CHR ''>'' then Some (TOK_LAUNCH_CLOSE, 3)
         else if d = CHR ''>'' \<and> e = CHR ''='' then Some (TOK_SHR_EQ, 3)
         else if d = CHR ''>'' then Some (TOK_SHR, 2)
         else if d = CHR ''='' then Some (TOK_GE, 2) else Some (TOK_GT, 1))
      else None)"

definition lex_op :: "char \<Rightarrow> nat \<Rightarrow> nat \<Rightarrow> nat \<Rightarrow> lexer \<Rightarrow> lexer" where
  "lex_op c start line col L =
     (case op_kind c (cur L) (peek L 1) of
        Some (ty, n) \<Rightarrow> op_tok start line col ty n L
      | None \<Rightarrow> op_tok start line col TOK_ERROR 1 (lex_error BC_E005 L))"

definition lex_one :: "lexer \<Rightarrow> lexer" where
  "lex_one L =
     (let start = lx_pos L; start_line = lx_line L; start_col = col_here L; c = cur L in
      if c = CHR ''/'' \<and> peek L 1 = CHR ''/'' then skip_line_comment L
      else if c = CHR ''/'' \<and> peek L 1 = CHR ''*'' then skip_block_comment L
      else if c = CHR ''#'' then
        (if peek L 1 = CHR ''#'' then emit_tok TOK_DHASH start 2 start_line start_col (advance (advance L))
         else scan_pp_line L)
      else if c = DQUOTE \<or> c = SQUOTE then scan_string L c
      else if isdigit c \<or> c = CHR ''.'' \<and> isdigit (peek L 1) then scan_number L
      else if isalpha c \<or> c = CHR ''_'' then scan_ident L
      else lex_op c start start_line start_col (advance L))"

text \<open>
  Scanning without emitting is a number of single advances, with errors possibly recorded on the
  way.  Every turn of the main loop advances at least once, so the loop ends.
\<close>

definition fwd :: "lexer \<Rightarrow> lexer \<Rightarrow> bool" where
  "fwd L L' \<longleftrightarrow> (\<exists>k es. L' = ((advance ^^ k) L)\<lparr>lx_errors := es\<rparr>)"

lemma advance_errors: "advance (L\<lparr>lx_errors := es\<rparr>) = (advance L)\<lparr>lx_errors := es\<rparr>"
  by (simp add: advance_def)

lemma advances_errors: "(advance ^^ k) (L\<lparr>lx_errors := es\<rparr>) = ((advance ^^ k) L)\<lparr>lx_errors := es\<rparr>"
  by (induction k) (simp_all add: advance_errors)

lemma fwd_refl [intro, simp]: "fwd L L"
  unfolding fwd_def by (intro exI [of _ 0] exI [of _ "lx_errors L"]) simp

lemma fwd_advances [intro, simp]: "fwd L ((advance ^^ k) L)"
  unfolding fwd_def by (intro exI [of _ k] exI [of _ "lx_errors ((advance ^^ k) L)"]) simp

lemma fwd_advance [intro, simp]: "fwd L (advance L)"
  using fwd_advances [of L 1] by simp

lemma fwd_trans [trans]:
  assumes "fwd L L1" "fwd L1 L2"
  shows "fwd L L2"
proof -
  from assms obtain j es k es' where "L1 = ((advance ^^ j) L)\<lparr>lx_errors := es\<rparr>" "L2 = ((advance ^^ k) L1)\<lparr>lx_errors := es'\<rparr>"
    unfolding fwd_def by blast
  then have "L2 = ((advance ^^ (k + j)) L)\<lparr>lx_errors := es'\<rparr>" by (simp add: advances_errors funpow_add)
  then show ?thesis unfolding fwd_def by blast
qed

lemma fwd_error [intro, simp]: "fwd L (lex_error e L)"
  unfolding fwd_def lex_error_def
  by (rule exI [of _ 0], cases "length (lx_errors L) < BC_MAX_ERRORS") (auto intro: exI [of _ "lx_errors L"])

lemma advance_src [simp]: "lx_src (advance L) = lx_src L" "lx_tokens (advance L) = lx_tokens L"
    "lx_max_tokens (advance L) = lx_max_tokens L" "lx_oob (advance L) = lx_oob L"
    "lx_pos (advance L) = (if at_end L then lx_pos L else lx_pos L + 1)"
  by (simp_all add: advance_def at_end_def)

lemma advances_facts:
  "lx_src ((advance ^^ k) L) = lx_src L \<and> lx_tokens ((advance ^^ k) L) = lx_tokens L \<and>
   lx_max_tokens ((advance ^^ k) L) = lx_max_tokens L \<and> lx_oob ((advance ^^ k) L) = lx_oob L \<and>
   lx_pos L \<le> lx_pos ((advance ^^ k) L)"
  by (induction k) auto

lemma fwd_facts:
  assumes "fwd L L'"
  shows "lx_src L' = lx_src L" "lx_tokens L' = lx_tokens L" "lx_max_tokens L' = lx_max_tokens L"
    "lx_oob L' = lx_oob L" "lx_pos L \<le> lx_pos L'"
proof -
  from assms obtain k es where "L' = ((advance ^^ k) L)\<lparr>lx_errors := es\<rparr>" unfolding fwd_def by blast
  then show "lx_src L' = lx_src L" "lx_tokens L' = lx_tokens L" "lx_max_tokens L' = lx_max_tokens L"
    "lx_oob L' = lx_oob L" "lx_pos L \<le> lx_pos L'"
    using advances_facts [of k L] by simp_all
qed

declare skip_while.simps [simp del] block_loop.simps [simp del] string_loop.simps [simp del] pp_loop.simps [simp del]

lemma fwd_skip_while [intro, simp]: "fwd L (skip_while P L)"
proof (induction P L rule: skip_while.induct)
  case (1 P L)
  then show ?case by (subst skip_while.simps) (auto intro: fwd_trans [OF fwd_advance])
qed

lemma fwd_block_loop [intro, simp]: "fwd L (block_loop L)"
proof (induction L rule: block_loop.induct)
  case (1 L)
  then show ?case
    by (subst block_loop.simps) (auto intro: fwd_trans [OF fwd_advance] fwd_trans [OF fwd_advance fwd_advance])
qed

lemma fwd_string_loop [intro, simp]: "fwd L (string_loop q L)"
proof (induction q L rule: string_loop.induct)
  case (1 q L)
  show ?case
  proof (cases "at_end L \<or> cur L = q")
    case False
    define L1 where "L1 = (if cur L = BSLASH then advance L else L)"
    have "fwd L L1" by (simp add: L1_def)
    moreover have "fwd L1 (if cur L1 = LF then lex_error BC_E003 L1 else string_loop q (advance L1))"
      using 1 [OF False L1_def] by (auto intro: fwd_trans [OF fwd_advance])
    ultimately show ?thesis
      using False by (subst string_loop.simps) (simp only: if_False L1_def [symmetric] Let_def, rule fwd_trans)
  qed (simp add: string_loop.simps)
qed

lemma fwd_pp_loop [intro, simp]: "fwd L (pp_loop L)"
proof (induction L rule: pp_loop.induct)
  case (1 L)
  show ?case
  proof (cases "\<not> at_end L \<and> cur L \<noteq> LF")
    case True
    from fwd_trans [OF fwd_advances 1 [OF True refl refl]] True
    show ?thesis by (subst pp_loop.simps) (simp only: simp_thms if_True Let_def)
  next
    case False
    then show ?thesis by (subst pp_loop.simps) (simp only: if_False fwd_refl)
  qed
qed

lemma fwd_stepI [intro]: "fwd L M \<Longrightarrow> fwd L (advance M)" "fwd L M \<Longrightarrow> fwd L (skip_while P M)"
  by (rule fwd_trans, assumption, simp)+

lemma skip_while_step: "\<not> at_end L \<Longrightarrow> P (cur L) \<Longrightarrow> skip_while P L = skip_while P (advance L)"
  by (subst skip_while.simps) simp

lemma skip_while_stop: "at_end L \<or> \<not> P (cur L) \<Longrightarrow> skip_while P L = L"
  by (subst skip_while.simps) auto

lemma fwd_exponent: "fwd L (fst st) \<Longrightarrow> fwd L (fst (scan_exponent e E st))"
  by (auto simp: scan_exponent_def Let_def split_beta)

lemma fwd_digits:
  assumes "\<not> at_end L" "isdigit (cur L) \<or> cur L = CHR ''.'' \<and> isdigit (peek L 1)"
  shows "fwd (advance L) (fst (scan_digits L))"
proof -
  let ?D = "\<lambda>c. isdigit c \<or> c = SQUOTE"
  have two: "fwd (advance L) (skip_while P (advance (advance L)))" for P
    by (rule fwd_trans [OF fwd_advance fwd_skip_while])
  have dec: "fwd (advance L) (fst (if cur (skip_while ?D L) = CHR ''.'' \<and> peek (skip_while ?D L) 1 \<noteq> CHR ''.''
      then (skip_while isdigit (advance (skip_while ?D L)), True) else (skip_while ?D L, False)))"
  proof (cases "isdigit (cur L)")
    case True
    then have "skip_while ?D L = skip_while ?D (advance L)" using assms(1) by (intro skip_while_step) auto
    then have "fwd (advance L) (skip_while ?D L)" by simp
    then show ?thesis by auto
  next
    case False
    then have "skip_while ?D L = L" "cur L = CHR ''.''" using assms(2) by (auto intro: skip_while_stop)
    moreover have "peek L 1 \<noteq> CHR ''.''" using False assms(2) by (auto simp: isdigit_def)
    ultimately show ?thesis by simp
  qed
  have hex: "fwd (advance L) (fst (if cur L1 = CHR ''.'' then (skip_while isxdigit (advance L1), True) else (L1, False)))"
    if "fwd (advance L) L1" for L1
    using that by auto
  show ?thesis
  proof (cases "cur L = CHR ''0'' \<and> (peek L 1 = CHR ''x'' \<or> peek L 1 = CHR ''X'')")
    case True
    show ?thesis unfolding scan_digits_def Let_def if_P [OF True] by (intro fwd_exponent hex two)
  next
    case hexF: False
    show ?thesis
    proof (cases "cur L = CHR ''0'' \<and> (peek L 1 = CHR ''b'' \<or> peek L 1 = CHR ''B'')")
      case True
      show ?thesis unfolding scan_digits_def Let_def if_not_P [OF hexF] if_P [OF True] fst_conv by (rule two)
    next
      case False
      show ?thesis
        unfolding scan_digits_def Let_def if_not_P [OF hexF] if_not_P [OF False] by (intro fwd_exponent dec)
    qed
  qed
qed

lemma emit_facts [simp]: "lx_src (emit_tok ty s n ln cl L) = lx_src L" "lx_pos (emit_tok ty s n ln cl L) = lx_pos L"
    "lx_max_tokens (emit_tok ty s n ln cl L) = lx_max_tokens L" "lx_oob (emit_tok ty s n ln cl L) = lx_oob L"
    "lx_line (emit_tok ty s n ln cl L) = lx_line L" "lx_line_start (emit_tok ty s n ln cl L) = lx_line_start L"
  by (simp_all add: emit_tok_def)

lemma retag_facts [simp]: "lx_src (retag s L) = lx_src L" "lx_pos (retag s L) = lx_pos L"
    "lx_max_tokens (retag s L) = lx_max_tokens L" "lx_line (retag s L) = lx_line L"
    "lx_line_start (retag s L) = lx_line_start L"
  by (simp_all add: retag_def)

lemma scan_string_emits:
  obtains L' where "fwd (advance L) L'"
    "scan_string L q = emit_tok (if q = DQUOTE then TOK_STRING_LIT else TOK_CHAR_LIT) (lx_pos L)
       (lx_pos L' - lx_pos L) (lx_line L) (col_here L) L'"
proof -
  let ?S = "string_loop q (advance L)"
  let ?L = "if \<not> at_end ?S then advance ?S else lex_error BC_E004 ?S"
  have "fwd ?S ?L" by simp
  then have "fwd (advance L) ?L" by (rule fwd_trans [OF fwd_string_loop])
  then show ?thesis by (rule that) (simp add: scan_string_def Let_def)
qed

lemma scan_number_emits:
  assumes "\<not> at_end L" "isdigit (cur L) \<or> cur L = CHR ''.'' \<and> isdigit (peek L 1)"
  obtains L' f where "fwd (advance L) L'"
    "scan_number L = emit_tok (if f then TOK_FLOAT_LIT else TOK_INT_LIT) (lx_pos L) (lx_pos L' - lx_pos L)
       (lx_line L) (col_here L) L'"
  by (rule that [OF fwd_trans [OF fwd_digits [OF assms] fwd_skip_while], of "snd (scan_digits L)"])
    (simp add: scan_number_def Let_def split_beta)

lemma scan_pp_emits:
  assumes "\<not> at_end L" "cur L \<noteq> LF"
  obtains L' where "fwd (advance L) L'"
    "scan_pp_line L = emit_tok TOK_PP_LINE (lx_pos L) (lx_pos L' - lx_pos L) (lx_line L) (col_here L) L'"
proof -
  obtain m where "pp_loop L = pp_loop ((advance ^^ m) (advance L))"
  proof -
    have "pp_loop L = pp_loop ((advance ^^ (if lx_splc L = 0 then 1 else lx_splc L)) L)"
      using assms by (subst pp_loop.simps) (simp add: Let_def)
    moreover have "(if lx_splc L = 0 then 1 else lx_splc L) = Suc (lx_splc L - 1)" by simp
    ultimately show ?thesis using that [of "lx_splc L - 1"] by (simp only: funpow_Suc_right comp_apply)
  qed
  then have "fwd (advance L) (pp_loop L)" using fwd_trans [OF fwd_advances fwd_pp_loop] by metis
  then show ?thesis by (rule that) (simp add: scan_pp_line_def Let_def)
qed

lemma scan_ident_emits:
  assumes "\<not> at_end L" "isalpha (cur L) \<or> cur L = CHR ''_''"
    and "I = skip_while (\<lambda>c. isalnum c \<or> c = CHR ''_'') L" "text = take (lx_pos I - lx_pos L) (drop (lx_pos L) (lx_src L))"
  shows "fwd (advance L) I"
    and "scan_ident L = (if (cur I = DQUOTE \<or> cur I = SQUOTE) \<and> lit_prefix text
           then retag (lx_pos L) (scan_string I (cur I))
           else emit_tok (lookup_keyword (drop (lx_pos L) (lx_src L)) (lx_pos I - lx_pos L)) (lx_pos L)
                  (lx_pos I - lx_pos L) (lx_line L) (col_here L) I)"
proof -
  have "I = skip_while (\<lambda>c. isalnum c \<or> c = CHR ''_'') (advance L)"
    unfolding assms(3) using assms(1,2) by (intro skip_while_step) (auto simp: isalnum_def)
  then show f: "fwd (advance L) I" by simp
  have "lx_src I = lx_src L" using fwd_facts(1) [OF f] by simp
  then show "scan_ident L = (if (cur I = DQUOTE \<or> cur I = SQUOTE) \<and> lit_prefix text
           then retag (lx_pos L) (scan_string I (cur I))
           else emit_tok (lookup_keyword (drop (lx_pos L) (lx_src L)) (lx_pos I - lx_pos L)) (lx_pos L)
                  (lx_pos I - lx_pos L) (lx_line L) (col_here L) I)"
    by (simp only: scan_ident_def Let_def assms(3) [symmetric] assms(4))
qed

text \<open>The shape of every operator: a token of one to three characters, or an error token.\<close>

lemma lex_op_emits:
  obtains L' ty n where "fwd L L'" "lex_op c start line col L = emit_tok ty start n line col L'"
proof (cases "op_kind c (cur L) (peek L 1)")
  case None
  show ?thesis by (rule that [OF fwd_error [of L BC_E005], of TOK_ERROR 1]) (unfold lex_op_def None op_tok_def, simp)
next
  case (Some p)
  show ?thesis
    by (rule that [OF fwd_advances [of L "snd p - 1"], of "fst p" "snd p"]) (unfold lex_op_def Some op_tok_def, simp add: split_beta)
qed

text \<open>One turn of the main loop: some advances, then no token, a token, or a token rewritten.\<close>

definition scans :: "lexer \<Rightarrow> lexer \<Rightarrow> bool" where
  "scans L X \<longleftrightarrow>
     (\<exists>L'. fwd (advance L) L' \<and>
        (X = L' \<or> (\<exists>ty s n ln cl. X = emit_tok ty s n ln cl L' \<or> (\<exists>st. X = retag st (emit_tok ty s n ln cl L')))))"

lemma scansI:
  "fwd (advance L) X \<Longrightarrow> scans L X"
  "fwd (advance L) L' \<Longrightarrow> X = emit_tok ty s n ln cl L' \<Longrightarrow> scans L X"
  "fwd (advance L) L' \<Longrightarrow> X = retag st (emit_tok ty s n ln cl L') \<Longrightarrow> scans L X"
  unfolding scans_def by blast+

lemma scans_if: "(b \<Longrightarrow> scans L x) \<Longrightarrow> (\<not> b \<Longrightarrow> scans L y) \<Longrightarrow> scans L (if b then x else y)"
  by simp

lemma scans_ident:
  assumes "\<not> at_end L" "isalpha (cur L) \<or> cur L = CHR ''_''"
  shows "scans L (scan_ident L)"
proof -
  let ?I = "skip_while (\<lambda>c. isalnum c \<or> c = CHR ''_'') L"
  note I = scan_ident_emits [OF assms refl refl]
  obtain L' where L': "fwd (advance ?I) L'" "scan_string ?I (cur ?I) = emit_tok (if cur ?I = DQUOTE then TOK_STRING_LIT else TOK_CHAR_LIT)
      (lx_pos ?I) (lx_pos L' - lx_pos ?I) (lx_line ?I) (col_here ?I) L'"
    using scan_string_emits .
  have "fwd (advance L) L'" using fwd_trans [OF I(1) fwd_trans [OF fwd_advance L'(1)]] .
  then show ?thesis unfolding I(2) using scansI(3) [OF _ arg_cong [OF L'(2), of "retag (lx_pos L)"]] scansI(2) [OF I(1) refl]
    by (intro scans_if)
qed

lemma lex_one_scans:
  assumes "\<not> at_end L"
  shows "scans L (lex_one L)"
  unfolding lex_one_def Let_def
proof (intro scans_if, goal_cases)
  case 1
  then have "skip_line_comment L = skip_while (\<lambda>c. c \<noteq> LF) (advance L)"
    unfolding skip_line_comment_def using assms by (intro skip_while_step) auto
  then show ?case by (intro scansI(1)) simp
next
  case 2
  show ?case
    unfolding skip_block_comment_def by (rule scansI(1)) (rule fwd_trans [OF fwd_advance fwd_block_loop])
next
  case 3
  show ?case by (rule scansI(2) [OF _ refl]) simp
next
  case 4
  then have "cur L \<noteq> LF" by simp
  from scan_pp_emits [OF assms this] show ?case using scansI(2) by metis
next
  case 5
  show ?case using scan_string_emits scansI(2) by metis
next
  case 6
  from scan_number_emits [OF assms 6(5)] show ?case using scansI(2) by metis
next
  case 7
  then show ?case by (intro scans_ident [OF assms])
next
  case 8
  show ?case using lex_op_emits scansI(2) by metis
qed

lemma lex_one_moves:
  assumes "\<not> at_end L"
  shows "lx_src (lex_one L) = lx_src L \<and> lx_pos L < lx_pos (lex_one L)"
proof -
  have adv: "lx_src L' = lx_src L \<and> lx_pos L < lx_pos L'" if "fwd (advance L) L'" for L'
    using fwd_facts [OF that] assms by simp
  then show ?thesis using lex_one_scans [OF assms] by (auto simp: scans_def)
qed

function tokenize_loop :: "lexer \<Rightarrow> lexer" where
  "tokenize_loop L =
     (if at_end L then L
      else
        let L1 = skip_whitespace L
        in if at_end L1 then L1 else tokenize_loop (lex_one L1))"
  by pat_completeness auto
termination
proof (relation "measure (\<lambda>L. length (lx_src L) - lx_pos L)", goal_cases)
  case (2 L L1)
  have "fwd L L1" using 2(2) by (simp add: skip_whitespace_def)
  from fwd_facts [OF this] lex_one_moves [OF 2(3)] 2(1,3) show ?case by (auto simp: at_end_def)
qed simp

definition lexer_tokenize :: "lexer \<Rightarrow> lexer \<times> bc_code" where
  "lexer_tokenize L =
     (let L1 = tokenize_loop L;
          L2 = emit_tok TOK_EOF (lx_pos L1) 0 (lx_line L1) (col_here L1) L1
      in (L2, if length (lx_errors L2) > 0 then BC_ERR_LEX else BC_OK))"

end
