(* ===== verification/Lexer_Correct.thy ===== *)
theory Lexer_Correct
  imports Lexer "HOL-Library.Char_ord" "HOL-Library.List_Lexorder"
begin

text \<open>
  Correctness of the lexer: the binary search over the keyword table is a lookup, and the main
  loop cuts the source into gaps and well-formed tokens.
\<close>

subsection \<open>The keyword search\<close>

definition nul_free :: "string \<Rightarrow> bool" where
  "nul_free s \<longleftrightarrow> NUL \<notin> set s"

lemma byte_nonzero: "nul_free s \<Longrightarrow> i < length s \<Longrightarrow> byte_at s i \<noteq> 0"
proof -
  assume "nul_free s" "i < length s"
  then have "s ! i \<noteq> NUL" unfolding nul_free_def by (metis nth_mem)
  then have "(of_char (s ! i) :: nat) \<noteq> of_char NUL" unfolding of_char_eq_iff .
  then show ?thesis using \<open>i < length s\<close> by (simp add: byte_at_def)
qed

text \<open>\<open>strncmp\<close> against a whole keyword is the lexicographic order, except for a proper prefix.\<close>

lemma strncmp_order:
  assumes "nul_free (take n a)" "nul_free kw" "n \<le> length a"
  shows "(strncmp a kw n < 0 \<longrightarrow> take n a < kw) \<and> (strncmp a kw n > 0 \<longrightarrow> kw < take n a) \<and>
    (strncmp a kw n = 0 \<longrightarrow> n \<le> length kw \<and> take n kw = take n a)"
  using assms
proof (induction n arbitrary: a kw)
  case (Suc n)
  from Suc.prems(3) obtain x a' where a: "a = x # a'" by (cases a) auto
  have x: "(of_char x :: nat) \<noteq> 0"
    using byte_nonzero [OF Suc.prems(1), of 0] a by (simp add: byte_at_def)
  show ?case
  proof (cases kw)
    case Nil
    then show ?thesis using a x by (simp add: byte_at_def)
  next
    case (Cons y kw')
    have y: "(of_char y :: nat) \<noteq> 0"
      using byte_nonzero [OF Suc.prems(2), of 0] Cons by (simp add: byte_at_def)
    have eq: "x = y \<longleftrightarrow> (of_char x :: nat) = of_char y" by simp
    have "nul_free (take n a')" "nul_free kw'" "n \<le> length a'"
      using Suc.prems a Cons by (auto simp: nul_free_def)
    from Suc.IH [OF this] show ?thesis
      using a Cons x y by (auto simp: byte_at_def less_char_def)
  qed
qed simp

lemma prefix_less: "take (length s) kw = s \<Longrightarrow> length s < length kw \<Longrightarrow> s < (kw :: string)"
proof (induction s arbitrary: kw)
  case (Cons x s)
  then show ?case by (cases kw) auto
qed (auto simp: neq_Nil_conv)

lemma kw_sorted: "sorted_wrt (<) (map fst kw_table)"
  by code_simp

lemma kw_nul_free: "\<forall>k \<in> set kw_table. nul_free (fst k)"
  by code_simp

lemma kw_less: "i < j \<Longrightarrow> j < NUM_KEYWORDS \<Longrightarrow> fst (kw_table ! i) < fst (kw_table ! j)"
  using sorted_wrt_nth_less [OF kw_sorted, of i j] by (simp add: NUM_KEYWORDS_def)

lemma kw_distinct: "distinct (map fst kw_table)"
  using kw_sorted by (simp only: strict_sorted_iff)

definition kw_type :: "string \<Rightarrow> nat" where
  "kw_type w = (case map_of kw_table w of Some ty \<Rightarrow> ty | None \<Rightarrow> TOK_IDENT)"

lemma kw_type_range: "kw_type w \<notin> {TOK_INT_LIT, TOK_FLOAT_LIT, TOK_STRING_LIT, TOK_CHAR_LIT, TOK_PP_LINE, TOK_ERROR}"
proof -
  have "\<forall>k \<in> set kw_table. snd k \<notin> {TOK_INT_LIT, TOK_FLOAT_LIT, TOK_STRING_LIT, TOK_CHAR_LIT, TOK_PP_LINE, TOK_ERROR}"
    by code_simp
  then show ?thesis unfolding kw_type_def by (auto split: option.splits dest!: map_of_SomeD)
qed

declare kw_search.simps [simp del]

lemma kw_search_finds:
  assumes "len \<le> length s" "nul_free (take len s)" "0 \<le> lo" "hi < int NUM_KEYWORDS"
    and "\<forall>k < NUM_KEYWORDS. fst (kw_table ! k) = take len s \<longrightarrow> lo \<le> int k \<and> int k \<le> hi"
  shows "kw_search s len lo hi = kw_type (take len s)"
  using assms
proof (induction s len lo hi rule: kw_search.induct)
  case (1 s len lo hi)
  let ?w = "take len s"
  show ?case
  proof (cases "lo > hi")
    case True
    then have "\<forall>k < NUM_KEYWORDS. fst (kw_table ! k) \<noteq> ?w" using 1(7) by force
    then have "?w \<notin> fst ` set kw_table" unfolding NUM_KEYWORDS_def by (metis imageE in_set_conv_nth)
    then have "map_of kw_table ?w = None" by (simp add: map_of_eq_None_iff)
    then show ?thesis using True by (subst kw_search.simps) (simp add: kw_type_def)
  next
    case False
    define mid where "mid = (lo + hi) div 2"
    define m where "m = nat mid"
    define kw where "kw = kw_table ! m"
    define cmp where "cmp = strncmp s (fst kw) len"
    have m: "lo \<le> mid" "mid \<le> hi" "int m = mid" "m < NUM_KEYWORDS"
      using False 1(5,6) by (auto simp: mid_def m_def)
    have kwm: "kw \<in> set kw_table" using m(4) by (simp add: kw_def NUM_KEYWORDS_def)
    then have nf: "nul_free (fst kw)" using kw_nul_free by blast
    have ord: "(cmp < 0 \<longrightarrow> ?w < fst kw) \<and> (cmp > 0 \<longrightarrow> fst kw < ?w) \<and>
        (cmp = 0 \<longrightarrow> len \<le> length (fst kw) \<and> take len (fst kw) = ?w)"
      unfolding cmp_def by (rule strncmp_order [OF 1(4) nf 1(3)])
    have unf: "kw_search s len lo hi = (if cmp = 0 \<and> byte_at (fst kw) len = 0 then snd kw
        else if cmp \<le> 0 then kw_search s len lo (mid - 1) else kw_search s len (mid + 1) hi)"
      using False by (subst kw_search.simps) (simp add: mid_def m_def kw_def cmp_def Let_def)
    consider (hit) "cmp = 0" "byte_at (fst kw) len = 0" | (left) "\<not> (cmp = 0 \<and> byte_at (fst kw) len = 0)" "cmp \<le> 0" | (right) "cmp > 0"
      by linarith
    then show ?thesis
    proof cases
      case hit
      then have "length (fst kw) \<le> len" using byte_nonzero [OF nf, of len] by (cases "len < length (fst kw)") auto
      moreover have "take len (fst kw) = ?w" using ord hit(1) by blast
      ultimately have "fst kw = ?w" by (simp only: take_all)
      then have "(?w, snd kw) \<in> set kw_table" using kwm by (metis prod.collapse)
      then have "map_of kw_table ?w = Some (snd kw)" using kw_distinct by (simp add: map_of_eq_Some_iff)
      then show ?thesis using hit unf by (simp add: kw_type_def)
    next
      case left
      have less: "?w < fst kw"
      proof (cases "cmp = 0")
        case True
        then have "byte_at (fst kw) len \<noteq> 0" using left by simp
        then have "len < length (fst kw)" by (simp add: byte_at_def split: if_splits)
        then show ?thesis using True ord prefix_less [of ?w "fst kw"] 1(3) by simp
      qed (use left ord in simp)
      have "int k \<le> mid - 1" if "k < NUM_KEYWORDS" "fst (kw_table ! k) = ?w" for k
      proof (rule ccontr)
        assume "\<not> int k \<le> mid - 1"
        then have "m \<le> k" using m(3) by linarith
        then have "fst kw \<le> fst (kw_table ! k)" using kw_less [of m k] that(1) by (cases "m = k") (auto simp: kw_def)
        then show False using less that(2) by simp
      qed
      then have "kw_search s len lo (mid - 1) = kw_type ?w"
        using 1(1) [OF False mid_def _ cmp_def [unfolded kw_def m_def]] left 1(3-7) m
        by (simp add: kw_def m_def)
      then show ?thesis unfolding unf using left by auto
    next
      case right
      then have less: "fst kw < ?w" using ord by simp
      have "mid + 1 \<le> int k" if "k < NUM_KEYWORDS" "fst (kw_table ! k) = ?w" for k
      proof (rule ccontr)
        assume "\<not> mid + 1 \<le> int k"
        then have "k \<le> m" using m(3) by linarith
        then have "fst (kw_table ! k) \<le> fst kw" using kw_less [of k m] m(4) by (cases "m = k") (auto simp: kw_def)
        then show False using less that(2) by simp
      qed
      then have "kw_search s len (mid + 1) hi = kw_type ?w"
        using 1(2) [OF False mid_def _ cmp_def [unfolded kw_def m_def]] right 1(3-7) m
        by (simp add: kw_def m_def)
      then show ?thesis using right unf by simp
    qed
  qed
qed

lemma lookup_kw_type: "len \<le> length s \<Longrightarrow> nul_free (take len s) \<Longrightarrow> lookup_keyword s len = kw_type (take len s)"
  unfolding lookup_keyword_def by (rule kw_search_finds) auto

text \<open>
  Property C29.  Keyword lookup is exact: for every identifier in the source the binary search
  over prefixes gives the token type of the keyword table's entry for it, and an identifier
  token when there is none.
\<close>

theorem lookup_keyword_exact:
  assumes "len \<le> length s" "nul_free (take len s)"
  shows "lookup_keyword s len = (case map_of kw_table (take len s) of Some ty \<Rightarrow> ty | None \<Rightarrow> TOK_IDENT)"
  unfolding kw_type_def [symmetric] by (rule lookup_kw_type [OF assms])

theorem lookup_keyword_exact_witness: "lookup_keyword ''while(x)'' 5 = TOK_WHILE"
proof -
  have "map_of kw_table ''while'' = Some TOK_WHILE" by code_simp
  then show ?thesis using lookup_keyword_exact [of 5 "''while(x)''"] by (simp add: nul_free_def)
qed

subsection \<open>Positions\<close>

definition col_at :: "string \<Rightarrow> nat \<Rightarrow> nat" where
  "col_at src p = (p - start_at src p + 1) mod 2 ^ 16"

text \<open>The position fields of a lexer state agree with the source.\<close>

definition placed_at :: "lexer \<Rightarrow> bool" where
  "placed_at L \<longleftrightarrow> lx_pos L \<le> length (lx_src L) \<and> lx_line L = line_at (lx_src L) (lx_pos L) \<and>
     lx_line_start L = start_at (lx_src L) (lx_pos L)"

lemma placed_advance: "placed_at L \<Longrightarrow> placed_at (advance L)"
  by (auto simp: placed_at_def advance_def line_start_Suc)

lemma placed_fwd:
  assumes "placed_at L" "fwd L L'"
  shows "placed_at L'"
proof -
  have "placed_at ((advance ^^ k) L)" for k
    using assms(1) by (induction k) (simp_all add: placed_advance)
  then show ?thesis using assms(2) unfolding fwd_def by (auto simp: placed_at_def)
qed

lemma placed_col: "placed_at L \<Longrightarrow> col_here L = col_at (lx_src L) (lx_pos L)"
  by (simp add: placed_at_def col_here_def col_at_def)

lemma cur_nth: "\<not> at_end L \<Longrightarrow> cur L = lx_src L ! lx_pos L \<and> lx_pos L < length (lx_src L)"
  by (simp add: cur_def at_end_def)

lemma peek_nth: "peek L k = c \<Longrightarrow> c \<noteq> NUL \<Longrightarrow> lx_pos L + k < length (lx_src L) \<and> lx_src L ! (lx_pos L + k) = c"
  by (auto simp: peek_def split: if_splits)

lemma advances_pos: "lx_pos L + k \<le> length (lx_src L) \<Longrightarrow> lx_pos ((advance ^^ k) L) = lx_pos L + k"
proof (induction k)
  case (Suc k)
  then have "lx_pos ((advance ^^ k) L) = lx_pos L + k" by simp
  then show ?case using Suc.prems advances_facts [of k L] by (simp add: at_end_def)
qed simp

lemma skip_while_range:
  "lx_pos L \<le> p \<Longrightarrow> p < lx_pos (skip_while P L) \<Longrightarrow> P (lx_src L ! p)"
proof (induction P L rule: skip_while.induct)
  case (1 P L)
  show ?case
  proof (cases "\<not> at_end L \<and> P (cur L)")
    case True
    then have s: "skip_while P L = skip_while P (advance L)" by (simp add: skip_while_step)
    show ?thesis
    proof (cases "p = lx_pos L")
      case False
      then show ?thesis using 1 True s by simp
    qed (use True cur_nth [of L] in simp)
  next
    case False
    then have "skip_while P L = L" by (intro skip_while_stop) auto
    then show ?thesis using 1 by simp
  qed
qed

lemma skip_while_end: "at_end (skip_while P L) \<or> \<not> P (cur (skip_while P L))"
proof (induction P L rule: skip_while.induct)
  case (1 P L)
  show ?case
  proof (cases "\<not> at_end L \<and> P (cur L)")
    case False
    then have "skip_while P L = L" by (intro skip_while_stop) auto
    then show ?thesis using False by auto
  qed (use 1 in \<open>simp add: skip_while_step\<close>)
qed

subsection \<open>What a lexed source is\<close>

definition is_blank :: "char \<Rightarrow> bool" where
  "is_blank c \<longleftrightarrow> c = CHR '' '' \<or> c = TAB \<or> c = CR \<or> c = LF"

definition closes :: "string \<Rightarrow> nat \<Rightarrow> bool" where
  "closes src i \<longleftrightarrow> Suc i < length src \<and> src ! i = CHR ''*'' \<and> src ! Suc i = CHR ''/''"

text \<open>
  A gap: blanks, a line comment up to the end of its line, or a block comment up to its first
  closing mark (or the end of the source when there is none).
\<close>

definition gap_at :: "string \<Rightarrow> nat \<Rightarrow> nat \<Rightarrow> bool" where
  "gap_at src p q \<longleftrightarrow> p \<le> q \<and> q \<le> length src \<and>
     ((\<forall>i. p \<le> i \<and> i < q \<longrightarrow> is_blank (src ! i)) \<or>
      p + 2 \<le> q \<and> src ! p = CHR ''/'' \<and>
       (src ! Suc p = CHR ''/'' \<and> (\<forall>i. p \<le> i \<and> i < q \<longrightarrow> src ! i \<noteq> LF) \<and> (q = length src \<or> src ! q = LF) \<or>
        src ! Suc p = CHR ''*'' \<and>
         ((\<forall>i. p + 2 \<le> i \<longrightarrow> \<not> closes src i) \<and> q = length src \<or>
          p + 4 \<le> q \<and> closes src (q - 2) \<and> (\<forall>i. p + 2 \<le> i \<and> i < q - 2 \<longrightarrow> \<not> closes src i))))"

definition id_char :: "char \<Rightarrow> bool" where
  "id_char c \<longleftrightarrow> isalnum c \<or> c = CHR ''_''"

text \<open>The text a token of each type has.\<close>

definition word_text :: "nat \<Rightarrow> string \<Rightarrow> bool" where
  "word_text ty s \<longleftrightarrow> s \<noteq> [] \<and> \<not> isdigit (hd s) \<and> (\<forall>c \<in> set s. id_char c) \<and> ty = kw_type s"

definition tok_text :: "nat \<Rightarrow> string \<Rightarrow> bool" where
  "tok_text ty s \<longleftrightarrow>
     (if ty = TOK_INT_LIT \<or> ty = TOK_FLOAT_LIT then isdigit (hd s) \<or> hd s = CHR ''.'' \<and> isdigit (s ! 1)
      else if ty = TOK_STRING_LIT \<or> ty = TOK_CHAR_LIT then
        (\<exists>pre body. s = pre @ (if ty = TOK_STRING_LIT then DQUOTE else SQUOTE) # body \<and> (pre = [] \<or> lit_prefix pre))
      else if ty = TOK_PP_LINE then hd s = CHR ''#''
      else if ty = TOK_ERROR then length s = 1
      else word_text ty s \<or> s = token_type_name (int ty))"

text \<open>
  A token at its place.  The column of a literal is the one of its opening quote, which differs
  from the one of the token's first character when the literal has an encoding prefix.
\<close>

definition tok_col :: "string \<Rightarrow> nat \<Rightarrow> string \<Rightarrow> nat \<Rightarrow> nat" where
  "tok_col src ty s p = col_at src (p + (if ty = TOK_STRING_LIT \<or> ty = TOK_CHAR_LIT
     then length (takeWhile (\<lambda>c. c \<noteq> DQUOTE \<and> c \<noteq> SQUOTE) s) else 0))"

definition tok_at :: "string \<Rightarrow> nat \<Rightarrow> token \<Rightarrow> bool" where
  "tok_at src p t \<longleftrightarrow>
     (let q = p + t_len t; s = slice src p q in
      t_offset t = p \<and> 0 < t_len t \<and> q \<le> length src \<and> t_line t = line_at src p \<and>
      t_col t = tok_col src (t_type t) s p \<and> tok_text (t_type t) s \<and>
      (word_text (t_type t) s \<longrightarrow> q = length src \<or> \<not> id_char (src ! q)))"

text \<open>The source up to a position is gaps and tokens, the tokens being the list.\<close>

inductive lexes :: "string \<Rightarrow> nat \<Rightarrow> token list \<Rightarrow> bool" for src where
  lexes_start: "lexes src 0 []"
| lexes_gap: "lexes src p ts \<Longrightarrow> gap_at src p q \<Longrightarrow> lexes src q ts"
| lexes_token: "lexes src p ts \<Longrightarrow> tok_at src p t \<Longrightarrow> lexes src (p + t_len t) (ts @ [t])"

lemma lexes_bounds: "lexes src p ts \<Longrightarrow> p \<le> length src \<and> length ts \<le> p"
  by (induction rule: lexes.induct) (auto simp: gap_at_def tok_at_def Let_def)

text \<open>The loop invariant: there is always room, because every token has a character of its own.\<close>

definition lex_ok :: "lexer \<Rightarrow> bool" where
  "lex_ok L \<longleftrightarrow> placed_at L \<and> lexes (lx_src L) (lx_pos L) (lx_tokens L) \<and> \<not> lx_oob L \<and>
     length (lx_src L) < lx_max_tokens L"

lemma lex_ok_gap:
  assumes "lex_ok L" "fwd L L'" "gap_at (lx_src L) (lx_pos L) (lx_pos L')"
  shows "lex_ok L'"
  using assms placed_fwd [OF _ assms(2)] fwd_facts [OF assms(2)]
  by (auto simp: lex_ok_def intro: lexes_gap)

lemma lex_ok_room: "lex_ok L \<Longrightarrow> length (lx_tokens L) < lx_max_tokens L"
  using lexes_bounds [of "lx_src L" "lx_pos L" "lx_tokens L"] by (simp add: lex_ok_def)

lemma lex_ok_token:
  assumes "lex_ok L" "\<not> at_end L" "fwd (advance L) L'"
    and "tok_text ty (slice (lx_src L) (lx_pos L) (lx_pos L'))"
    and "tok_col (lx_src L) ty (slice (lx_src L) (lx_pos L) (lx_pos L')) (lx_pos L) = col"
    and "word_text ty (slice (lx_src L) (lx_pos L) (lx_pos L')) \<Longrightarrow>
      lx_pos L' = length (lx_src L) \<or> \<not> id_char (lx_src L ! lx_pos L')"
  shows "lex_ok (emit_tok ty (lx_pos L) (lx_pos L' - lx_pos L) (lx_line L) col L')"
proof -
  have f: "fwd L L'" by (rule fwd_trans [OF fwd_advance assms(3)])
  note ff = fwd_facts [OF f]
  have pl: "placed_at L" "placed_at L'" using assms(1) placed_fwd [OF _ f] by (auto simp: lex_ok_def)
  have lt: "lx_pos L < lx_pos L'" using fwd_facts(5) [OF assms(3)] assms(2) by simp
  let ?t = "\<lparr>t_type = ty, t_offset = lx_pos L, t_len = lx_pos L' - lx_pos L, t_line = lx_line L, t_col = col\<rparr>"
  have "tok_at (lx_src L) (lx_pos L) ?t"
    using assms(4,5,6) lt pl ff(1) by (simp add: tok_at_def placed_at_def)
  then have "lexes (lx_src L) (lx_pos L') (lx_tokens L @ [?t])"
    using lexes_token [of "lx_src L" "lx_pos L" "lx_tokens L" ?t] assms(1) lt by (simp add: lex_ok_def)
  moreover have "emit_tok ty (lx_pos L) (lx_pos L' - lx_pos L) (lx_line L) col L' = L'\<lparr>lx_tokens := lx_tokens L @ [?t]\<rparr>"
    using lex_ok_room [OF assms(1)] ff by (simp add: emit_tok_def)
  ultimately show ?thesis using assms(1) pl ff by (simp add: lex_ok_def placed_at_def)
qed

subsection \<open>Gaps\<close>

lemma ok_whitespace: "lex_ok L \<Longrightarrow> lex_ok (skip_whitespace L)"
proof -
  assume ok: "lex_ok L"
  have f: "fwd L (skip_whitespace L)" by (simp add: skip_whitespace_def)
  have "placed_at (skip_whitespace L)" using ok placed_fwd [OF _ f] by (simp add: lex_ok_def)
  moreover have "is_blank (lx_src L ! i)" if "lx_pos L \<le> i" "i < lx_pos (skip_whitespace L)" for i
    using skip_while_range [OF that [unfolded skip_whitespace_def]] by (simp add: is_blank_def)
  ultimately have "gap_at (lx_src L) (lx_pos L) (lx_pos (skip_whitespace L))"
    using fwd_facts [OF f] by (simp add: gap_at_def placed_at_def)
  then show ?thesis by (rule lex_ok_gap [OF ok f])
qed

lemma ok_line_comment:
  assumes "lex_ok L" "\<not> at_end L" "cur L = CHR ''/''" "peek L 1 = CHR ''/''"
  shows "lex_ok (skip_line_comment L)"
proof -
  let ?L = "skip_while (\<lambda>c. c \<noteq> LF) L"
  have f: "fwd L ?L" by simp
  note ff = fwd_facts [OF f]
  have pl: "placed_at ?L" using assms(1) placed_fwd [OF _ f] by (simp add: lex_ok_def)
  have one: "lx_pos L + 1 < length (lx_src L)" "lx_src L ! (lx_pos L + 1) = CHR ''/''"
    using peek_nth [OF assms(4)] by simp_all
  have s0: "?L = skip_while (\<lambda>c. c \<noteq> LF) (advance L)" using assms by (intro skip_while_step) auto
  also have "\<dots> = skip_while (\<lambda>c. c \<noteq> LF) (advance (advance L))"
    using one assms(2) by (intro skip_while_step) (auto simp: at_end_def cur_def)
  finally have "lx_pos (advance (advance L)) \<le> lx_pos ?L"
    using fwd_facts(5) [OF fwd_skip_while [of "advance (advance L)" "\<lambda>c. c \<noteq> LF"]] by simp
  then have two: "lx_pos L + 2 \<le> lx_pos ?L" using one assms(2) by (simp add: at_end_def)
  have "lx_src L ! i \<noteq> LF" if "lx_pos L \<le> i" "i < lx_pos ?L" for i
    using skip_while_range [OF that] by simp
  moreover have "lx_pos ?L = length (lx_src L) \<or> lx_src L ! lx_pos ?L = LF"
    using skip_while_end [of "\<lambda>c. c \<noteq> LF" L] pl ff(1) by (auto simp: at_end_def cur_def placed_at_def split: if_splits)
  ultimately have "gap_at (lx_src L) (lx_pos L) (lx_pos ?L)"
    using two one cur_nth [OF assms(2)] assms(3) pl ff by (simp add: gap_at_def placed_at_def)
  then show ?thesis unfolding skip_line_comment_def by (rule lex_ok_gap [OF assms(1) f])
qed

lemma block_loop_end:
  assumes "lx_pos L \<le> length (lx_src L)"
  shows "(\<forall>i \<ge> lx_pos L. \<not> closes (lx_src L) i) \<and> lx_pos (block_loop L) = length (lx_src L) \<or>
    lx_pos L + 2 \<le> lx_pos (block_loop L) \<and> closes (lx_src L) (lx_pos (block_loop L) - 2) \<and>
    (\<forall>i. lx_pos L \<le> i \<and> i < lx_pos (block_loop L) - 2 \<longrightarrow> \<not> closes (lx_src L) i)"
  using assms
proof (induction L rule: block_loop.induct)
  case (1 L)
  show ?case
  proof (cases "at_end L")
    case True
    then have "lx_pos (block_loop L) = lx_pos L" by (subst block_loop.simps) (simp add: lex_error_def)
    then show ?thesis using True 1(2) by (auto simp: at_end_def closes_def)
  next
    case False
    show ?thesis
    proof (cases "cur L = CHR ''*'' \<and> peek L 1 = CHR ''/''")
      case True
      then have c: "closes (lx_src L) (lx_pos L)"
        using cur_nth [OF False] peek_nth [of L 1] by (auto simp: closes_def)
      then have "lx_pos (block_loop L) = lx_pos L + 2"
        using True False by (subst block_loop.simps) (auto simp: at_end_def closes_def)
      then show ?thesis using c by auto
    next
      case nc: False
      then have c: "\<not> closes (lx_src L) (lx_pos L)"
        using cur_nth [OF False] by (auto simp: closes_def peek_def)
      have b: "block_loop L = block_loop (advance L)" using False nc by (subst block_loop.simps) auto
      have split: "i = lx_pos L \<or> lx_pos (advance L) \<le> i" if "lx_pos L \<le> i" for i using that False by auto
      have "lx_pos (advance L) \<le> length (lx_src (advance L))" using False by (simp add: at_end_def)
      from 1(1) [OF False nc this] show ?thesis
        unfolding b using c split False by (auto simp: le_Suc_eq)
    qed
  qed
qed

lemma ok_block_comment:
  assumes "lex_ok L" "\<not> at_end L" "cur L = CHR ''/''" "peek L 1 = CHR ''*''"
  shows "lex_ok (skip_block_comment L)"
proof -
  let ?A = "advance (advance L)" and ?L = "skip_block_comment L"
  have one: "lx_pos L + 1 < length (lx_src L)" "lx_src L ! (lx_pos L + 1) = CHR ''*''"
    using peek_nth [OF assms(4)] by simp_all
  have A: "lx_pos ?A = lx_pos L + 2" "lx_src ?A = lx_src L" using one by (simp_all add: at_end_def)
  have fA: "fwd ?A ?L" by (simp add: skip_block_comment_def)
  have f: "fwd L ?L" by (rule fwd_trans [OF fwd_trans [OF fwd_advance fwd_advance] fA])
  have pl: "placed_at ?L" using assms(1) placed_fwd [OF _ f] by (simp add: lex_ok_def)
  have "gap_at (lx_src L) (lx_pos L) (lx_pos ?L)"
    using block_loop_end [of ?A] one A fwd_facts [OF f] fwd_facts(5) [OF fA] cur_nth [OF assms(2)] assms(3) pl
    by (auto simp: gap_at_def placed_at_def skip_block_comment_def [symmetric])
  then show ?thesis by (rule lex_ok_gap [OF assms(1) f])
qed

subsection \<open>Tokens\<close>

lemma not_word_text: "\<not> id_char (hd s) \<or> isdigit (hd s) \<Longrightarrow> \<not> word_text ty s"
  by (cases s) (auto simp: word_text_def)

lemma tok_col_plain: "ty \<noteq> TOK_STRING_LIT \<Longrightarrow> ty \<noteq> TOK_CHAR_LIT \<Longrightarrow> tok_col src ty s p = col_at src p"
  by (simp add: tok_col_def)

text \<open>The common case: the token's first character decides that it is not a word.\<close>

lemma ok_plain_token:
  assumes "lex_ok L" "\<not> at_end L" "fwd (advance L) L'" "\<not> id_char (cur L) \<or> isdigit (cur L)"
    and "ty \<noteq> TOK_STRING_LIT" "ty \<noteq> TOK_CHAR_LIT"
    and "tok_text ty (slice (lx_src L) (lx_pos L) (lx_pos L'))"
  shows "lex_ok (emit_tok ty (lx_pos L) (lx_pos L' - lx_pos L) (lx_line L) (col_here L) L')"
proof (rule lex_ok_token [OF assms(1,2,3,7)])
  show "tok_col (lx_src L) ty (slice (lx_src L) (lx_pos L) (lx_pos L')) (lx_pos L) = col_here L"
    using assms(1,5,6) placed_col [of L] by (simp add: tok_col_plain lex_ok_def)
  have "lx_pos L < lx_pos L'" "lx_pos L' \<le> length (lx_src L)"
    using fwd_facts [OF assms(3)] assms(1,2) placed_fwd [OF _ fwd_trans [OF fwd_advance assms(3)]]
    by (auto simp: lex_ok_def placed_at_def)
  from slice_hd [OF this] have "hd (slice (lx_src L) (lx_pos L) (lx_pos L')) = cur L"
    using cur_nth [OF assms(2)] by simp
  then show "lx_pos L' = length (lx_src L) \<or> \<not> id_char (lx_src L ! lx_pos L')"
    if "word_text ty (slice (lx_src L) (lx_pos L) (lx_pos L'))"
    using that assms(4) not_word_text [of "slice (lx_src L) (lx_pos L) (lx_pos L')"] by auto
qed

lemma fwd_slice:
  assumes "lex_ok L" "\<not> at_end L" "fwd (advance L) L'"
  shows "lx_pos L < lx_pos L'" "lx_pos L' \<le> length (lx_src L)"
    "hd (slice (lx_src L) (lx_pos L) (lx_pos L')) = cur L"
    "\<exists>s. slice (lx_src L) (lx_pos L) (lx_pos L') = cur L # s"
proof -
  show *: "lx_pos L < lx_pos L'" "lx_pos L' \<le> length (lx_src L)"
    using fwd_facts [OF assms(3)] assms(1,2) placed_fwd [OF _ fwd_trans [OF fwd_advance assms(3)]]
    by (auto simp: lex_ok_def placed_at_def)
  from slice_hd [OF this] show h: "hd (slice (lx_src L) (lx_pos L) (lx_pos L')) = cur L"
    using cur_nth [OF assms(2)] by simp
  show "\<exists>s. slice (lx_src L) (lx_pos L) (lx_pos L') = cur L # s"
    using slice_hd [OF *] cur_nth [OF assms(2)] by (metis list.collapse)
qed

lemma ok_pp:
  assumes "lex_ok L" "\<not> at_end L" "cur L = CHR ''#''"
  shows "lex_ok (scan_pp_line L)"
proof -
  have "cur L \<noteq> LF" using assms(3) by simp
  then obtain L' where L': "fwd (advance L) L'" "scan_pp_line L = emit_tok TOK_PP_LINE (lx_pos L) (lx_pos L' - lx_pos L) (lx_line L) (col_here L) L'"
    using scan_pp_emits [OF assms(2)] by metis
  show ?thesis unfolding L'(2)
    by (rule ok_plain_token [OF assms(1,2) L'(1)])
      (use fwd_slice [OF assms(1,2) L'(1)] assms(3) in \<open>simp_all add: tok_text_def id_char_def isalnum_def isalpha_def isdigit_def\<close>)
qed

lemma digits_after_dot:
  assumes "\<not> at_end L" "cur L = CHR ''.''" "isdigit (peek L 1)"
  shows "fwd (advance (advance L)) (fst (scan_digits L))"
proof -
  have p: "lx_pos L + 1 < length (lx_src L)" "isdigit (lx_src L ! (lx_pos L + 1))"
    using assms(3) by (auto simp: peek_def isdigit_def split: if_splits)
  have s: "skip_while (\<lambda>c. isdigit c \<or> c = SQUOTE) L = L" using assms(2) by (intro skip_while_stop) (simp add: isdigit_def)
  have "peek L 1 \<noteq> CHR ''.''" using assms(3) by (auto simp: isdigit_def)
  then have d: "scan_digits L = scan_exponent CHR ''e'' CHR ''E'' (skip_while isdigit (advance L), True)"
    using assms(2) s by (simp add: scan_digits_def)
  have "skip_while isdigit (advance L) = skip_while isdigit (advance (advance L))"
    using p by (intro skip_while_step) (auto simp: at_end_def cur_def)
  then show ?thesis unfolding d by (intro fwd_exponent) simp
qed

lemma number_length:
  assumes "\<not> at_end L" "cur L = CHR ''.''" "isdigit (peek L 1)" "scan_number L = emit_tok ty st n ln cl L'"
  shows "lx_pos L + 2 \<le> lx_pos L' \<and> isdigit (lx_src L ! (lx_pos L + 1))"
proof -
  have p: "lx_pos L + 1 < length (lx_src L)" "isdigit (lx_src L ! (lx_pos L + 1))"
    using assms(3) by (auto simp: peek_def isdigit_def split: if_splits)
  have "lx_pos L' = lx_pos (scan_number L)" using assms(4) by simp
  also have "\<dots> \<ge> lx_pos (fst (scan_digits L))"
    using fwd_facts(5) [OF fwd_skip_while] by (simp add: scan_number_def Let_def split_beta)
  finally have "lx_pos (advance (advance L)) \<le> lx_pos L'"
    using fwd_facts(5) [OF digits_after_dot [OF assms(1-3)]] by linarith
  then show ?thesis using p by (simp add: at_end_def)
qed

lemma ok_number:
  assumes "lex_ok L" "\<not> at_end L" "isdigit (cur L) \<or> cur L = CHR ''.'' \<and> isdigit (peek L 1)"
  shows "lex_ok (scan_number L)"
proof -
  obtain L' f where L': "fwd (advance L) L'" "scan_number L = emit_tok (if f then TOK_FLOAT_LIT else TOK_INT_LIT) (lx_pos L)
      (lx_pos L' - lx_pos L) (lx_line L) (col_here L) L'"
    using scan_number_emits [OF assms(2,3)] by blast
  note s = fwd_slice [OF assms(1,2) L'(1)]
  have "tok_text ty (slice (lx_src L) (lx_pos L) (lx_pos L'))" if "ty = TOK_FLOAT_LIT \<or> ty = TOK_INT_LIT" for ty
  proof (cases "isdigit (cur L)")
    case False
    then have dot: "cur L = CHR ''.''" "isdigit (peek L 1)" using assms(3) by auto
    note n = number_length [OF assms(2) dot L'(2)]
    then have "slice (lx_src L) (lx_pos L) (lx_pos L') ! 1 = lx_src L ! (lx_pos L + 1)"
      using s(2) by (intro slice_nth) auto
    then show ?thesis using that dot n s(3) by (auto simp: tok_text_def)
  qed (use that s(3) in \<open>auto simp: tok_text_def\<close>)
  then show ?thesis unfolding L'(2)
    by (intro ok_plain_token [OF assms(1,2) L'(1)])
      (use assms(3) in \<open>auto simp: id_char_def isalnum_def isalpha_def isdigit_def\<close>)
qed

lemma lit_type_text:
  assumes "q = DQUOTE \<or> q = SQUOTE" "pre = [] \<or> lit_prefix pre"
  shows "tok_text (if q = DQUOTE then TOK_STRING_LIT else TOK_CHAR_LIT) (pre @ q # body)"
    "\<not> word_text (if q = DQUOTE then TOK_STRING_LIT else TOK_CHAR_LIT) (pre @ q # body)"
    "takeWhile (\<lambda>c. c \<noteq> DQUOTE \<and> c \<noteq> SQUOTE) (pre @ q # body) = pre"
proof -
  show "tok_text (if q = DQUOTE then TOK_STRING_LIT else TOK_CHAR_LIT) (pre @ q # body)"
    using assms by (auto simp: tok_text_def)
  have "\<not> id_char q" using assms(1) by (auto simp: id_char_def isalnum_def isalpha_def isdigit_def)
  then show "\<not> word_text (if q = DQUOTE then TOK_STRING_LIT else TOK_CHAR_LIT) (pre @ q # body)"
    by (simp add: word_text_def)
  have "\<forall>c \<in> set pre. c \<noteq> DQUOTE \<and> c \<noteq> SQUOTE" using assms(2) by (auto simp: lit_prefix_def)
  then show "takeWhile (\<lambda>c. c \<noteq> DQUOTE \<and> c \<noteq> SQUOTE) (pre @ q # body) = pre"
    using assms(1) by (subst takeWhile_append2) auto
qed

lemma ok_string:
  assumes "lex_ok L" "\<not> at_end L" "cur L = DQUOTE \<or> cur L = SQUOTE"
  shows "lex_ok (scan_string L (cur L))"
proof -
  obtain L' where L': "fwd (advance L) L'" "scan_string L (cur L) = emit_tok (if cur L = DQUOTE then TOK_STRING_LIT else TOK_CHAR_LIT)
      (lx_pos L) (lx_pos L' - lx_pos L) (lx_line L) (col_here L) L'"
    using scan_string_emits by blast
  obtain s where s: "slice (lx_src L) (lx_pos L) (lx_pos L') = [] @ cur L # s"
    using fwd_slice(4) [OF assms(1,2) L'(1)] by auto
  note t = lit_type_text [OF assms(3), of "[]" s, simplified append_Nil]
  show ?thesis unfolding L'(2)
    by (rule lex_ok_token [OF assms(1,2) L'(1)])
      (use t s placed_col [of L] assms(1) in \<open>auto simp: tok_col_def lex_ok_def\<close>)
qed

lemma id_char_not: "id_char c \<Longrightarrow> c \<noteq> LF \<and> c \<noteq> NUL"
  by (auto simp: id_char_def isalnum_def isalpha_def isdigit_def)

lemma retag_emit:
  assumes "length (lx_tokens L) < lx_max_tokens L"
  shows "retag st (emit_tok ty st' n ln cl L) = emit_tok ty st (lx_pos L - st) ln cl L"
  using assms by (simp add: retag_def emit_tok_def)

lemma ok_ident:
  assumes "lex_ok L" "\<not> at_end L" "isalpha (cur L) \<or> cur L = CHR ''_''"
  shows "lex_ok (scan_ident L)"
proof -
  define I where "I = skip_while (\<lambda>c. isalnum c \<or> c = CHR ''_'') L"
  define w where "w = slice (lx_src L) (lx_pos L) (lx_pos I)"
  note e = scan_ident_emits [OF assms(2,3) I_def w_def [unfolded slice_def]]
  note s = fwd_slice [OF assms(1,2) e(1)]
  have fI: "fwd L I" by (rule fwd_trans [OF fwd_advance e(1)])
  note ff = fwd_facts [OF fI]
  have pI: "placed_at I" using placed_fwd [OF _ fI] assms(1) by (simp add: lex_ok_def)
  have ch: "id_char (lx_src L ! i)" if "lx_pos L \<le> i" "i < lx_pos I" for i
    using skip_while_range [OF that [unfolded I_def]] by (simp add: id_char_def)
  then have chs: "\<forall>c \<in> set w. id_char c" unfolding w_def slice_set [OF s(2)] by blast
  show ?thesis
  proof (cases "(cur I = DQUOTE \<or> cur I = SQUOTE) \<and> lit_prefix w")
    case True
    obtain L' where L': "fwd (advance I) L'" "scan_string I (cur I) = emit_tok (if cur I = DQUOTE then TOK_STRING_LIT else TOK_CHAR_LIT)
        (lx_pos I) (lx_pos L' - lx_pos I) (lx_line I) (col_here I) L'"
      using scan_string_emits by blast
    have nI: "\<not> at_end I" using True by (auto simp: cur_def split: if_splits)
    have f: "fwd (advance L) L'" by (rule fwd_trans [OF e(1) fwd_trans [OF fwd_advance L'(1)]])
    note s' = fwd_slice [OF assms(1,2) f]
    have lt: "lx_pos I < lx_pos L'" using fwd_facts(5) [OF L'(1)] nI by simp
    have "slice (lx_src L) (lx_pos L) (lx_pos L') = w @ slice (lx_src L) (lx_pos I) (lx_pos L')"
    proof -
      have "lx_pos L' - lx_pos L = (lx_pos I - lx_pos L) + (lx_pos L' - lx_pos I)" using lt s(1) by simp
      then show ?thesis using s(1) unfolding w_def slice_def by (simp only: take_add drop_drop) simp
    qed
    moreover have "slice (lx_src L) (lx_pos I) (lx_pos L') = cur I # tl (slice (lx_src L) (lx_pos I) (lx_pos L'))"
      using slice_hd [OF lt s'(2)] cur_nth [OF nI] ff(1) by (metis list.collapse)
    ultimately obtain body where body: "slice (lx_src L) (lx_pos L) (lx_pos L') = w @ cur I # body" by metis
    note t = lit_type_text [of "cur I" w body]
    have q: "cur I = DQUOTE \<or> cur I = SQUOTE" "w = [] \<or> lit_prefix w" using True by auto
    have "\<forall>i. lx_pos L \<le> i \<and> i < lx_pos I \<longrightarrow> lx_src L ! i \<noteq> LF"
      using ch id_char_not by blast
    then have "lx_line I = lx_line L"
      using same_line [of "lx_pos L" "lx_pos I" "lx_src L"] s pI assms(1) ff(1) by (simp add: placed_at_def lex_ok_def)
    then have "scan_ident L = emit_tok (if cur I = DQUOTE then TOK_STRING_LIT else TOK_CHAR_LIT) (lx_pos L)
        (lx_pos L' - lx_pos L) (lx_line L) (col_here I) L'"
      unfolding e(2) if_P [OF True] L'(2) using lex_ok_room [OF assms(1)] fwd_facts [OF f] by (simp add: retag_emit)
    moreover have "length w = lx_pos I - lx_pos L" using s(2) by (simp add: w_def)
    then have "tok_col (lx_src L) (if cur I = DQUOTE then TOK_STRING_LIT else TOK_CHAR_LIT)
        (slice (lx_src L) (lx_pos L) (lx_pos L')) (lx_pos L) = col_here I"
      using t(3) [OF q] body placed_col [OF pI] ff(1,5) by (simp add: tok_col_def)
    ultimately show ?thesis
      using lex_ok_token [OF assms(1,2) f _ _, of "if cur I = DQUOTE then TOK_STRING_LIT else TOK_CHAR_LIT" "col_here I"]
        t(1,2) [OF q] body by simp
  next
    case False
    have len: "lx_pos I - lx_pos L \<le> length (drop (lx_pos L) (lx_src L))" using s(2) by simp
    have "nul_free w" using chs id_char_not unfolding nul_free_def by blast
    then have kw: "lookup_keyword (drop (lx_pos L) (lx_src L)) (lx_pos I - lx_pos L) = kw_type w"
      using lookup_kw_type [OF len] by (simp add: w_def slice_def)
    have "w \<noteq> []" "hd w = cur L" using s by (auto simp: w_def slice_def)
    then have wt: "word_text (kw_type w) w"
      using chs assms(3) by (auto simp: word_text_def isdigit_def isalpha_def)
    have stop: "lx_pos I = length (lx_src L) \<or> \<not> id_char (lx_src L ! lx_pos I)"
      using skip_while_end [of "\<lambda>c. isalnum c \<or> c = CHR ''_''" L] pI ff(1) unfolding I_def [symmetric]
      by (auto simp: at_end_def cur_def placed_at_def id_char_def split: if_splits)
    have "kw_type w \<notin> {TOK_INT_LIT, TOK_FLOAT_LIT, TOK_STRING_LIT, TOK_CHAR_LIT, TOK_PP_LINE, TOK_ERROR}"
      by (rule kw_type_range)
    then show ?thesis unfolding e(2) if_not_P [OF False] kw
      by (intro lex_ok_token [OF assms(1,2) e(1)])
        (use wt stop placed_col [of L] assms(1) in \<open>auto simp: w_def [symmetric] tok_text_def tok_col_plain lex_ok_def\<close>)
  qed
qed

text \<open>Every operator token is spelled as the name table says.\<close>

definition op_good :: "char \<Rightarrow> char \<Rightarrow> char \<Rightarrow> nat \<times> nat \<Rightarrow> bool" where
  "op_good c d e p \<longleftrightarrow>
     (case p of (ty, n) \<Rightarrow> 1 \<le> n \<and> n \<le> 3 \<and> (2 \<le> n \<longrightarrow> d \<noteq> NUL) \<and> (n = 3 \<longrightarrow> e \<noteq> NUL) \<and>
        ty \<notin> {TOK_INT_LIT, TOK_FLOAT_LIT, TOK_STRING_LIT, TOK_CHAR_LIT, TOK_PP_LINE, TOK_ERROR} \<and>
        take n [c, d, e] = token_type_name (int ty))"

lemma op_name_list:
  "list_all (\<lambda>(n, s). token_type_name n = s)
    [(5, ''(''), (6, '')''), (7, ''[''), (8, '']''), (9, ''{''), (10, ''}''), (11, '';''), (12, '',''),
     (13, ''.''), (14, ''->''), (15, '':''), (16, ''::''), (17, ''?''), (18, ''...''), (19, ''+''),
     (20, ''-''), (21, ''*''), (22, ''/''), (23, ''%''), (24, ''++''), (25, ''--''), (26, ''&''),
     (27, ''|''), (28, ''^''), (29, ''~''), (30, ''<<''), (31, ''>>''), (32, ''<''), (33, ''>''),
     (34, ''<=''), (35, ''>=''), (36, ''==''), (37, ''!=''), (38, ''&&''), (39, ''||''), (40, ''!''),
     (41, ''=''), (42, ''+=''), (43, ''-=''), (44, ''*=''), (45, ''/=''), (46, ''%=''), (47, ''&=''),
     (48, ''|=''), (49, ''^=''), (50, ''<<=''), (51, ''>>=''), (52, ''<<<''), (53, ''>>>''),
     (54, ''#''), (55, ''##'')]"
  by code_simp

lemmas op_names = op_name_list [unfolded list.pred_inject prod.case]

lemma op_kind_good: "op_kind c d e = Some p \<Longrightarrow> op_good c d e p"
  apply (simp only: op_kind_def split: if_split_asm)
  apply (simp_all only: option.inject option.distinct)
  apply (auto simp add: op_good_def op_names)
  done

lemma ok_operator:
  assumes "lex_ok L" "\<not> at_end L" "\<not> id_char (cur L)"
  shows "lex_ok (lex_op (cur L) (lx_pos L) (lx_line L) (col_here L) (advance L))"
proof (cases "op_kind (cur L) (cur (advance L)) (peek (advance L) 1)")
  case None
  let ?E = "lex_error BC_E005 (advance L)"
  have f: "fwd (advance L) ?E" by simp
  have E: "lx_pos ?E = lx_pos L + 1" using assms(2) by (simp add: lex_error_def)
  have "lex_ok (emit_tok TOK_ERROR (lx_pos L) (lx_pos ?E - lx_pos L) (lx_line L) (col_here L) ?E)"
    by (rule ok_plain_token [OF assms(1,2) f])
      (use assms(3) fwd_slice(2) [OF assms(1,2) f] E in \<open>auto simp: tok_text_def\<close>)
  then show ?thesis using E by (simp add: lex_op_def None [simplified] op_tok_def)
next
  case (Some p)
  obtain ty n where p: "p = (ty, n)" by (cases p)
  let ?A = "(advance ^^ (n - 1)) (advance L)" and ?c = "cur L" and ?d = "cur (advance L)" and ?e = "peek (advance L) 1"
  have g: "1 \<le> n" "n \<le> 3" "2 \<le> n \<longrightarrow> ?d \<noteq> NUL" "n = 3 \<longrightarrow> ?e \<noteq> NUL"
    "ty \<notin> {TOK_INT_LIT, TOK_FLOAT_LIT, TOK_STRING_LIT, TOK_CHAR_LIT, TOK_PP_LINE, TOK_ERROR}"
    "take n [?c, ?d, ?e] = token_type_name (int ty)"
    using op_kind_good [OF Some] unfolding p op_good_def by auto
  have f: "fwd (advance L) ?A" by simp
  have c: "?c = lx_src L ! lx_pos L" "lx_pos L < length (lx_src L)" using cur_nth [OF assms(2)] by auto
  have d: "lx_pos L + 1 < length (lx_src L) \<and> ?d = lx_src L ! (lx_pos L + 1)" if "2 \<le> n"
    using g(3) that assms(2) by (auto simp: cur_def at_end_def split: if_splits)
  have e: "lx_pos L + 2 < length (lx_src L) \<and> ?e = lx_src L ! (lx_pos L + 2)" if "n = 3"
    using g(4) that assms(2) by (auto simp: peek_def split: if_splits)
  have len: "lx_pos L + n \<le> length (lx_src L)"
    using c d e g(1,2) by (cases "n = 3"; cases "n = 2") auto
  have pos: "lx_pos ?A = lx_pos L + n"
    using advances_pos [of "advance L" "n - 1"] len g(1) assms(2) by simp
  have "slice (lx_src L) (lx_pos L) (lx_pos L + n) = take n [?c, ?d, ?e]"
  proof (rule nth_equalityI)
    fix i assume i: "i < length (slice (lx_src L) (lx_pos L) (lx_pos L + n))"
    then have "i < n" using len by simp
    then have "i = 0 \<or> i = 1 \<and> 2 \<le> n \<or> i = 2 \<and> n = 3" using g(2) by linarith
    then show "slice (lx_src L) (lx_pos L) (lx_pos L + n) ! i = take n [?c, ?d, ?e] ! i"
      using slice_nth [of "lx_pos L" i "lx_pos L + n" "lx_src L"] len c d e \<open>i < n\<close> by auto
  qed (use len g(2) in simp)
  then have tt: "tok_text ty (slice (lx_src L) (lx_pos L) (lx_pos ?A))" using g(5,6) pos by (simp add: tok_text_def)
  have "lex_ok (emit_tok ty (lx_pos L) (lx_pos ?A - lx_pos L) (lx_line L) (col_here L) ?A)"
    by (rule ok_plain_token [OF assms(1,2) f]) (use assms(3) g(5) tt in auto)
  then show ?thesis using pos by (simp add: lex_op_def Some [simplified] p op_tok_def)
qed

lemma lex_ok_if: "(b \<Longrightarrow> lex_ok x) \<Longrightarrow> (\<not> b \<Longrightarrow> lex_ok y) \<Longrightarrow> lex_ok (if b then x else y)"
  by simp

lemma ok_lex_one:
  assumes "lex_ok L" "\<not> at_end L"
  shows "lex_ok (lex_one L)"
proof -
  have dh: "lex_ok (emit_tok TOK_DHASH (lx_pos L) 2 (lx_line L) (col_here L) (advance (advance L)))"
    if "cur L = CHR ''#''" "peek L 1 = CHR ''#''"
  proof -
    have one: "lx_pos L + 1 < length (lx_src L)" "lx_src L ! (lx_pos L + 1) = CHR ''#''"
      using peek_nth [OF that(2)] by simp_all
    then have A: "lx_pos (advance (advance L)) = lx_pos L + 2" by (simp add: at_end_def)
    have f: "fwd (advance L) (advance (advance L))" by simp
    have "slice (lx_src L) (lx_pos L) (lx_pos L + 2) = ''##''"
    proof (rule nth_equalityI)
      fix i assume "i < length (slice (lx_src L) (lx_pos L) (lx_pos L + 2))"
      then have "i = 0 \<or> i = 1" using one by auto
      then show "slice (lx_src L) (lx_pos L) (lx_pos L + 2) ! i = ''##'' ! i"
        using slice_nth [of "lx_pos L" i "lx_pos L + 2" "lx_src L"] one cur_nth [OF assms(2)] that(1) by auto
    qed (use one in simp)
    then have "tok_text TOK_DHASH (slice (lx_src L) (lx_pos L) (lx_pos (advance (advance L))))"
      using A by (simp add: tok_text_def op_names)
    from ok_plain_token [OF assms f _ _ _ this] show ?thesis
      using that(1) A by (simp add: id_char_def isalnum_def isalpha_def isdigit_def)
  qed
  have sym: "\<not> id_char (cur L)" if "\<not> (isdigit (cur L) \<or> cur L = CHR ''.'' \<and> isdigit (peek L 1))"
      "\<not> (isalpha (cur L) \<or> cur L = CHR ''_'')"
    using that by (auto simp: id_char_def isalnum_def)
  show ?thesis
    unfolding lex_one_def Let_def
  proof (intro lex_ok_if, goal_cases)
    case 5
    then show ?case by (intro ok_string [OF assms])
  qed (blast intro: ok_line_comment [OF assms] ok_block_comment [OF assms] dh ok_pp [OF assms]
      ok_number [OF assms] ok_ident [OF assms] ok_operator [OF assms sym])+
qed

declare tokenize_loop.simps [simp del]

lemma ok_tokenize_loop:
  assumes "lex_ok L"
  shows "lex_ok (tokenize_loop L) \<and> at_end (tokenize_loop L) \<and> lx_src (tokenize_loop L) = lx_src L"
  using assms
proof (induction L rule: tokenize_loop.induct)
  case (1 L)
  note ok = ok_whitespace [OF 1(2)]
  have src: "lx_src (skip_whitespace L) = lx_src L"
    using fwd_facts(1) [OF fwd_skip_while] by (simp add: skip_whitespace_def)
  consider "at_end L" | "\<not> at_end L" "at_end (skip_whitespace L)" | "\<not> at_end L" "\<not> at_end (skip_whitespace L)" by blast
  then show ?case
  proof cases
    case 3
    have "tokenize_loop L = tokenize_loop (lex_one (skip_whitespace L))"
      using 3 by (subst tokenize_loop.simps) (simp add: Let_def)
    then show ?thesis using 1(1) [OF 3(1) refl 3(2) ok_lex_one [OF ok 3(2)]] lex_one_moves [OF 3(2)] src by simp
  qed (use 1(2) ok src in \<open>subst tokenize_loop.simps, simp add: Let_def\<close>)+
qed


lemmas lex_eval = lexer_tokenize_def tokenize_loop.simps lexer_init_def at_end_def advance_def cur_def peek_def
  skip_whitespace_def skip_while.simps lex_one_def lex_op_def op_kind_def op_tok_def emit_tok_def col_here_def


subsection \<open>A buffer of any size\<close>

definition lex_bounded :: "lexer \<Rightarrow> bool" where
  "lex_bounded L \<longleftrightarrow> length (lx_tokens L) \<le> lx_max_tokens L \<and> (0 < lx_max_tokens L \<longrightarrow> \<not> lx_oob L)"

lemma bounded_emit: "lex_bounded L \<Longrightarrow> lex_bounded (emit_tok ty s n ln cl L)"
  by (simp add: lex_bounded_def emit_tok_def)

lemma bounded_retag: "lex_bounded L \<Longrightarrow> lex_bounded (retag st (emit_tok ty s n ln cl L))"
  by (auto simp: lex_bounded_def emit_tok_def retag_def)

lemma bounded_fwd: "lex_bounded L \<Longrightarrow> fwd L L' \<Longrightarrow> lex_bounded L' \<and> lx_max_tokens L' = lx_max_tokens L"
  using fwd_facts [of L L'] by (simp add: lex_bounded_def)

lemma bounded_scans:
  assumes "lex_bounded L" "scans L X"
  shows "lex_bounded X \<and> lx_max_tokens X = lx_max_tokens L"
proof -
  obtain L' where L': "fwd (advance L) L'"
    "X = L' \<or> (\<exists>ty s n ln cl. X = emit_tok ty s n ln cl L' \<or> (\<exists>st. X = retag st (emit_tok ty s n ln cl L')))"
    using assms(2) unfolding scans_def by blast
  note b = bounded_fwd [OF assms(1) fwd_trans [OF fwd_advance L'(1)]]
  then show ?thesis using L'(2) bounded_emit [of L'] bounded_retag [of L'] by auto
qed

lemma bounded_loop: "lex_bounded L \<Longrightarrow> lex_bounded (tokenize_loop L) \<and> lx_max_tokens (tokenize_loop L) = lx_max_tokens L"
proof (induction L rule: tokenize_loop.induct)
  case (1 L)
  have w: "lex_bounded (skip_whitespace L) \<and> lx_max_tokens (skip_whitespace L) = lx_max_tokens L"
    using bounded_fwd [OF 1(2) fwd_skip_while] by (simp add: skip_whitespace_def)
  show ?case
  proof (cases "at_end L \<or> at_end (skip_whitespace L)")
    case True
    then show ?thesis using 1(2) w by (subst (1 2) tokenize_loop.simps) (auto simp: Let_def)
  next
    case False
    then have "tokenize_loop L = tokenize_loop (lex_one (skip_whitespace L))"
      by (subst tokenize_loop.simps) (simp add: Let_def)
    moreover have "lex_bounded (lex_one (skip_whitespace L)) \<and> lx_max_tokens (lex_one (skip_whitespace L)) = lx_max_tokens L"
      using bounded_scans [OF _ lex_one_scans] w False by auto
    ultimately show ?thesis using 1(1) False by auto
  qed
qed

text \<open>
  Property C30.  Whatever the source and the size of the token buffer, tokenizing ends with the
  tokens within the buffer and, for a buffer of at least one token, without the write before
  its start that the rewrite of a prefixed literal could do.
\<close>

theorem lexer_tokenize_bounded:
  "length (lx_tokens (fst (lexer_tokenize (lexer_init src max_tokens)))) \<le> max_tokens \<and>
   (0 < max_tokens \<longrightarrow> \<not> lx_oob (fst (lexer_tokenize (lexer_init src max_tokens))))"
proof -
  have "lex_bounded (lexer_init src max_tokens)" by (simp add: lex_bounded_def lexer_init_def)
  note b = bounded_loop [OF this]
  have "lex_bounded (fst (lexer_tokenize (lexer_init src max_tokens)))"
    unfolding lexer_tokenize_def Let_def fst_conv using b by (intro bounded_emit) simp
  moreover have "lx_max_tokens (fst (lexer_tokenize (lexer_init src max_tokens))) = max_tokens"
    using b by (simp add: lexer_tokenize_def Let_def lexer_init_def)
  ultimately show ?thesis by (simp add: lex_bounded_def)
qed

theorem lexer_tokenize_bounded_witness: "\<not> lx_oob (fst (lexer_tokenize (lexer_init ''u8'' 1)))"
  using lexer_tokenize_bounded [of "''u8''" 1] by simp

text \<open>
  With a full buffer the rewrite of a prefixed literal hits the token before it: here the identifier
  \<open>x\<close> is given the place of the literal that was refused.
\<close>

lemma retag_full_buffer:
  "retag 2 (emit_tok TOK_STRING_LIT 3 3 1 4
     \<lparr>lx_src = [CHR ''x'', CHR '' '', CHR ''L'', DQUOTE, CHR ''s'', DQUOTE], lx_pos = 6, lx_line = 1, lx_line_start = 0,
      lx_tokens = [\<lparr>t_type = TOK_IDENT, t_offset = 0, t_len = 1, t_line = 1, t_col = 1\<rparr>], lx_max_tokens = 1,
      lx_errors = [], lx_oob = False\<rparr>) =
     \<lparr>lx_src = [CHR ''x'', CHR '' '', CHR ''L'', DQUOTE, CHR ''s'', DQUOTE], lx_pos = 6, lx_line = 1, lx_line_start = 0,
      lx_tokens = [\<lparr>t_type = TOK_IDENT, t_offset = 2, t_len = 4, t_line = 1, t_col = 1\<rparr>], lx_max_tokens = 1,
      lx_errors = [\<lparr>e_line = 1, e_col = 4, e_offset = 3, e_code = BC_ERR_OVERFLOW, e_eid = BC_E001\<rparr>], lx_oob = False\<rparr>"
  by (simp add: retag_def emit_tok_def)

end
