(* ===== verification/Tn_Lex.thy ===== *)
theory Tn_Lex
  imports Source_Text "HOL-Library.Char_ord"
begin

text \<open>
  The lexer of the Triton frontend, \<open>src/src/triton/lex.c\<close>: Python tokens with indentation.  The
  source is a list of characters whose length is \<open>src_len\<close>; positions are natural numbers (a source is
  shorter than \<open>2^30\<close>), columns are kept modulo \<open>2^16\<close> as the \<open>uint16_t\<close> field does.  The stack of
  indentation columns is a list, deepest last; the token buffer is the list of the tokens written.
  An error is its number and place, message texts are left out.
\<close>

subsection \<open>Token kinds\<close>

abbreviation (input) TN_TOK_NEWLINE :: nat where "TN_TOK_NEWLINE \<equiv> 0"
abbreviation (input) TN_TOK_INDENT :: nat where "TN_TOK_INDENT \<equiv> 1"
abbreviation (input) TN_TOK_DEDENT :: nat where "TN_TOK_DEDENT \<equiv> 2"
abbreviation (input) TN_TOK_IDENT :: nat where "TN_TOK_IDENT \<equiv> 3"
abbreviation (input) TN_TOK_INT :: nat where "TN_TOK_INT \<equiv> 4"
abbreviation (input) TN_TOK_FLOAT :: nat where "TN_TOK_FLOAT \<equiv> 5"
abbreviation (input) TN_TOK_STRING :: nat where "TN_TOK_STRING \<equiv> 6"
abbreviation (input) TN_TOK_KW_DEF :: nat where "TN_TOK_KW_DEF \<equiv> 7"
abbreviation (input) TN_TOK_KW_RETURN :: nat where "TN_TOK_KW_RETURN \<equiv> 8"
abbreviation (input) TN_TOK_KW_PASS :: nat where "TN_TOK_KW_PASS \<equiv> 9"
abbreviation (input) TN_TOK_KW_IF :: nat where "TN_TOK_KW_IF \<equiv> 10"
abbreviation (input) TN_TOK_KW_ELIF :: nat where "TN_TOK_KW_ELIF \<equiv> 11"
abbreviation (input) TN_TOK_KW_ELSE :: nat where "TN_TOK_KW_ELSE \<equiv> 12"
abbreviation (input) TN_TOK_KW_FOR :: nat where "TN_TOK_KW_FOR \<equiv> 13"
abbreviation (input) TN_TOK_KW_WHILE :: nat where "TN_TOK_KW_WHILE \<equiv> 14"
abbreviation (input) TN_TOK_KW_BREAK :: nat where "TN_TOK_KW_BREAK \<equiv> 15"
abbreviation (input) TN_TOK_KW_CONTINUE :: nat where "TN_TOK_KW_CONTINUE \<equiv> 16"
abbreviation (input) TN_TOK_KW_IN :: nat where "TN_TOK_KW_IN \<equiv> 17"
abbreviation (input) TN_TOK_KW_NOT :: nat where "TN_TOK_KW_NOT \<equiv> 18"
abbreviation (input) TN_TOK_KW_AND :: nat where "TN_TOK_KW_AND \<equiv> 19"
abbreviation (input) TN_TOK_KW_OR :: nat where "TN_TOK_KW_OR \<equiv> 20"
abbreviation (input) TN_TOK_KW_IS :: nat where "TN_TOK_KW_IS \<equiv> 21"
abbreviation (input) TN_TOK_KW_NONE :: nat where "TN_TOK_KW_NONE \<equiv> 22"
abbreviation (input) TN_TOK_KW_TRUE :: nat where "TN_TOK_KW_TRUE \<equiv> 23"
abbreviation (input) TN_TOK_KW_FALSE :: nat where "TN_TOK_KW_FALSE \<equiv> 24"
abbreviation (input) TN_TOK_KW_IMPORT :: nat where "TN_TOK_KW_IMPORT \<equiv> 25"
abbreviation (input) TN_TOK_KW_FROM :: nat where "TN_TOK_KW_FROM \<equiv> 26"
abbreviation (input) TN_TOK_KW_AS :: nat where "TN_TOK_KW_AS \<equiv> 27"
abbreviation (input) TN_TOK_KW_LAMBDA :: nat where "TN_TOK_KW_LAMBDA \<equiv> 28"
abbreviation (input) TN_TOK_KW_GLOBAL :: nat where "TN_TOK_KW_GLOBAL \<equiv> 29"
abbreviation (input) TN_TOK_KW_NONLOCAL :: nat where "TN_TOK_KW_NONLOCAL \<equiv> 30"
abbreviation (input) TN_TOK_KW_ASSERT :: nat where "TN_TOK_KW_ASSERT \<equiv> 31"
abbreviation (input) TN_TOK_KW_DEL :: nat where "TN_TOK_KW_DEL \<equiv> 32"
abbreviation (input) TN_TOK_LPAREN :: nat where "TN_TOK_LPAREN \<equiv> 33"
abbreviation (input) TN_TOK_RPAREN :: nat where "TN_TOK_RPAREN \<equiv> 34"
abbreviation (input) TN_TOK_LBRACK :: nat where "TN_TOK_LBRACK \<equiv> 35"
abbreviation (input) TN_TOK_RBRACK :: nat where "TN_TOK_RBRACK \<equiv> 36"
abbreviation (input) TN_TOK_LBRACE :: nat where "TN_TOK_LBRACE \<equiv> 37"
abbreviation (input) TN_TOK_RBRACE :: nat where "TN_TOK_RBRACE \<equiv> 38"
abbreviation (input) TN_TOK_COLON :: nat where "TN_TOK_COLON \<equiv> 39"
abbreviation (input) TN_TOK_COMMA :: nat where "TN_TOK_COMMA \<equiv> 40"
abbreviation (input) TN_TOK_SEMI :: nat where "TN_TOK_SEMI \<equiv> 41"
abbreviation (input) TN_TOK_DOT :: nat where "TN_TOK_DOT \<equiv> 42"
abbreviation (input) TN_TOK_AT :: nat where "TN_TOK_AT \<equiv> 43"
abbreviation (input) TN_TOK_ARROW :: nat where "TN_TOK_ARROW \<equiv> 44"
abbreviation (input) TN_TOK_ASSIGN :: nat where "TN_TOK_ASSIGN \<equiv> 45"
abbreviation (input) TN_TOK_AADD :: nat where "TN_TOK_AADD \<equiv> 46"
abbreviation (input) TN_TOK_ASUB :: nat where "TN_TOK_ASUB \<equiv> 47"
abbreviation (input) TN_TOK_AMUL :: nat where "TN_TOK_AMUL \<equiv> 48"
abbreviation (input) TN_TOK_ADIV :: nat where "TN_TOK_ADIV \<equiv> 49"
abbreviation (input) TN_TOK_AFDIV :: nat where "TN_TOK_AFDIV \<equiv> 50"
abbreviation (input) TN_TOK_AMOD :: nat where "TN_TOK_AMOD \<equiv> 51"
abbreviation (input) TN_TOK_APOW :: nat where "TN_TOK_APOW \<equiv> 52"
abbreviation (input) TN_TOK_AAND :: nat where "TN_TOK_AAND \<equiv> 53"
abbreviation (input) TN_TOK_AOR :: nat where "TN_TOK_AOR \<equiv> 54"
abbreviation (input) TN_TOK_AXOR :: nat where "TN_TOK_AXOR \<equiv> 55"
abbreviation (input) TN_TOK_ASHL :: nat where "TN_TOK_ASHL \<equiv> 56"
abbreviation (input) TN_TOK_ASHR :: nat where "TN_TOK_ASHR \<equiv> 57"
abbreviation (input) TN_TOK_AMATMUL :: nat where "TN_TOK_AMATMUL \<equiv> 58"
abbreviation (input) TN_TOK_PLUS :: nat where "TN_TOK_PLUS \<equiv> 59"
abbreviation (input) TN_TOK_MINUS :: nat where "TN_TOK_MINUS \<equiv> 60"
abbreviation (input) TN_TOK_STAR :: nat where "TN_TOK_STAR \<equiv> 61"
abbreviation (input) TN_TOK_SLASH :: nat where "TN_TOK_SLASH \<equiv> 62"
abbreviation (input) TN_TOK_FSLASH :: nat where "TN_TOK_FSLASH \<equiv> 63"
abbreviation (input) TN_TOK_PERCENT :: nat where "TN_TOK_PERCENT \<equiv> 64"
abbreviation (input) TN_TOK_DSTAR :: nat where "TN_TOK_DSTAR \<equiv> 65"
abbreviation (input) TN_TOK_AMP :: nat where "TN_TOK_AMP \<equiv> 66"
abbreviation (input) TN_TOK_PIPE :: nat where "TN_TOK_PIPE \<equiv> 67"
abbreviation (input) TN_TOK_CARET :: nat where "TN_TOK_CARET \<equiv> 68"
abbreviation (input) TN_TOK_TILDE :: nat where "TN_TOK_TILDE \<equiv> 69"
abbreviation (input) TN_TOK_SHL :: nat where "TN_TOK_SHL \<equiv> 70"
abbreviation (input) TN_TOK_SHR :: nat where "TN_TOK_SHR \<equiv> 71"
abbreviation (input) TN_TOK_LT :: nat where "TN_TOK_LT \<equiv> 72"
abbreviation (input) TN_TOK_GT :: nat where "TN_TOK_GT \<equiv> 73"
abbreviation (input) TN_TOK_LE :: nat where "TN_TOK_LE \<equiv> 74"
abbreviation (input) TN_TOK_GE :: nat where "TN_TOK_GE \<equiv> 75"
abbreviation (input) TN_TOK_EQ :: nat where "TN_TOK_EQ \<equiv> 76"
abbreviation (input) TN_TOK_NE :: nat where "TN_TOK_NE \<equiv> 77"
abbreviation (input) TN_TOK_WALRUS :: nat where "TN_TOK_WALRUS \<equiv> 78"
abbreviation (input) TN_TOK_EOF :: nat where "TN_TOK_EOF \<equiv> 79"
abbreviation (input) TN_TOK_COUNT :: nat where "TN_TOK_COUNT \<equiv> 80"

abbreviation (input) TN_MAX_INDENTS :: nat where "TN_MAX_INDENTS \<equiv> 64"
abbreviation (input) TN_MAX_ERRORS :: nat where "TN_MAX_ERRORS \<equiv> 64"

record tn_tok =
  tk_kind :: nat
  tk_off :: nat
  tk_len :: nat
  tk_line :: nat
  tk_col :: nat

record tn_error =
  te_eid :: nat
  te_line :: nat
  te_col :: nat

record tn_lex =
  tn_src :: string
  tn_pos :: nat
  tn_line :: nat
  tn_lstart :: nat
  tn_indents :: "nat list"
  tn_paren :: nat
  tn_pending :: nat
  tn_at_start :: bool
  tn_toks :: "tn_tok list"
  tn_max :: nat
  tn_errs :: "tn_error list"

subsection \<open>Character classes\<close>

definition char_in :: "char \<Rightarrow> char \<Rightarrow> char \<Rightarrow> bool" where
  "char_in lo hi c \<longleftrightarrow> lo \<le> c \<and> c \<le> hi"

definition tx_alph :: "char \<Rightarrow> bool" where
  "tx_alph c \<longleftrightarrow> char_in CHR ''a'' CHR ''z'' c \<or> char_in CHR ''A'' CHR ''Z'' c \<or> c = CHR ''_''"

definition tx_dig :: "char \<Rightarrow> bool" where
  "tx_dig c \<longleftrightarrow> char_in CHR ''0'' CHR ''9'' c"

definition tx_idn :: "char \<Rightarrow> bool" where
  "tx_idn c \<longleftrightarrow> tx_alph c \<or> tx_dig c"

definition tx_hex :: "char \<Rightarrow> bool" where
  "tx_hex c \<longleftrightarrow> tx_dig c \<or> char_in CHR ''a'' CHR ''f'' c \<or> char_in CHR ''A'' CHR ''F'' c"

subsection \<open>Tables\<close>

definition tn_kws :: "(string \<times> nat) list" where
  "tn_kws =
     [(''def'', TN_TOK_KW_DEF), (''return'', TN_TOK_KW_RETURN), (''pass'', TN_TOK_KW_PASS),
      (''if'', TN_TOK_KW_IF), (''elif'', TN_TOK_KW_ELIF), (''else'', TN_TOK_KW_ELSE),
      (''for'', TN_TOK_KW_FOR), (''while'', TN_TOK_KW_WHILE), (''break'', TN_TOK_KW_BREAK),
      (''continue'', TN_TOK_KW_CONTINUE), (''in'', TN_TOK_KW_IN), (''not'', TN_TOK_KW_NOT),
      (''and'', TN_TOK_KW_AND), (''or'', TN_TOK_KW_OR), (''is'', TN_TOK_KW_IS),
      (''None'', TN_TOK_KW_NONE), (''True'', TN_TOK_KW_TRUE), (''False'', TN_TOK_KW_FALSE),
      (''import'', TN_TOK_KW_IMPORT), (''from'', TN_TOK_KW_FROM), (''as'', TN_TOK_KW_AS),
      (''lambda'', TN_TOK_KW_LAMBDA), (''global'', TN_TOK_KW_GLOBAL), (''nonlocal'', TN_TOK_KW_NONLOCAL),
      (''assert'', TN_TOK_KW_ASSERT), (''del'', TN_TOK_KW_DEL)]"

definition tn_kw_lookup :: "string \<Rightarrow> nat" where
  "tn_kw_lookup s = (case find (\<lambda>kw. fst kw = s) tn_kws of Some kw \<Rightarrow> snd kw | None \<Rightarrow> TN_TOK_IDENT)"

definition tn_tok_names :: "string list" where
  "tn_tok_names =
     [''NEWLINE'', ''INDENT'', ''DEDENT'', ''IDENT'', ''INT'', ''FLOAT'', ''STRING'', ''def'', ''return'',
      ''pass'', ''if'', ''elif'', ''else'', ''for'', ''while'', ''break'', ''continue'', ''in'', ''not'',
      ''and'', ''or'', ''is'', ''None'', ''True'', ''False'', ''import'', ''from'', ''as'', ''lambda'',
      ''global'', ''nonlocal'', ''assert'', ''del'', ''('', '')'', ''['', '']'', ''{'', ''}'', '':'',
      '','', '';'', ''.'', ''@'', ''->'', ''='', ''+='', ''-='', ''*='', ''/='', ''//='', ''%='', ''**='',
      ''&='', ''|='', ''^='', ''<<='', ''>>='', ''@='', ''+'', ''-'', ''*'', ''/'', ''//'', ''%'', ''**'',
      ''&'', ''|'', ''^'', ''~'', ''<<'', ''>>'', ''<'', ''>'', ''<='', ''>='', ''=='', ''!='', '':='',
      ''EOF'']"

definition tn_tok_name :: "int \<Rightarrow> string" where
  "tn_tok_name kind = (if kind < 0 \<or> kind \<ge> int TN_TOK_COUNT then ''?'' else tn_tok_names ! nat kind)"

subsection \<open>Bookkeeping\<close>

definition tn_col :: "nat \<Rightarrow> nat \<Rightarrow> nat" where
  "tn_col off lstart = nat ((int off - int lstart) mod 2 ^ 16)"

definition tn_err :: "nat \<Rightarrow> tn_lex \<Rightarrow> tn_lex" where
  "tn_err eid L =
     (if length (tn_errs L) \<ge> TN_MAX_ERRORS then L
      else L\<lparr>tn_errs := tn_errs L @ [\<lparr>te_eid = eid, te_line = tn_line L, te_col = tn_col (tn_pos L) (tn_lstart L)\<rparr>]\<rparr>)"

definition tn_emit_at :: "nat \<Rightarrow> nat \<Rightarrow> nat \<Rightarrow> nat \<Rightarrow> nat \<Rightarrow> tn_lex \<Rightarrow> tn_lex" where
  "tn_emit_at kind off len line lstart L =
     (if length (tn_toks L) \<ge> tn_max L then L
      else L\<lparr>tn_toks := tn_toks L @ [\<lparr>tk_kind = kind, tk_off = off, tk_len = len, tk_line = line, tk_col = tn_col off lstart\<rparr>]\<rparr>)"

definition tn_emit :: "nat \<Rightarrow> nat \<Rightarrow> nat \<Rightarrow> tn_lex \<Rightarrow> tn_lex" where
  "tn_emit kind off len L = tn_emit_at kind off len (tn_line L) (tn_lstart L) L"

text \<open>The character \<open>k\<close> ahead, if it is inside the source; skipping characters of a class.\<close>

definition peekc :: "tn_lex \<Rightarrow> nat \<Rightarrow> char option" where
  "peekc L k = (if tn_pos L + k < length (tn_src L) then Some (tn_src L ! (tn_pos L + k)) else None)"

definition adv :: "nat \<Rightarrow> tn_lex \<Rightarrow> tn_lex" where
  "adv n L = L\<lparr>tn_pos := tn_pos L + n\<rparr>"

definition skip :: "(char \<Rightarrow> bool) \<Rightarrow> tn_lex \<Rightarrow> tn_lex" where
  "skip P L = adv (length (takeWhile P (drop (tn_pos L) (tn_src L)))) L"

text \<open>Past a newline at the current position.\<close>

definition next_line :: "tn_lex \<Rightarrow> tn_lex" where
  "next_line L = L\<lparr>tn_pos := tn_pos L + 1, tn_line := tn_line L + 1, tn_lstart := tn_pos L + 1\<rparr>"


lemma bookkeeping_pos [simp]:
  "tn_pos (tn_err e L) = tn_pos L" "tn_src (tn_err e L) = tn_src L" "tn_pos (tn_emit_at k p n l s L) = tn_pos L"
  "tn_src (tn_emit_at k p n l s L) = tn_src L" "tn_pos (tn_emit k p n L) = tn_pos L" "tn_src (tn_emit k p n L) = tn_src L"
  "tn_pos (adv n L) = tn_pos L + n" "tn_src (adv n L) = tn_src L" "tn_src (skip P L) = tn_src L"
  "tn_pos (next_line L) = tn_pos L + 1" "tn_src (next_line L) = tn_src L"
  by (simp_all add: tn_err_def tn_emit_at_def tn_emit_def adv_def skip_def next_line_def)

lemma skip_le: "tn_pos L \<le> tn_pos (skip P L)"
  by (simp add: skip_def)

lemma peekc_Some: "peekc L k = Some c \<longleftrightarrow> tn_pos L + k < length (tn_src L) \<and> tn_src L ! (tn_pos L + k) = c"
  by (auto simp: peekc_def)

lemma skip_peek:
  assumes "L1 = skip P L" "peekc L1 0 = Some c"
  shows "tn_pos L \<le> tn_pos L1" "tn_pos L1 < length (tn_src L)" "tn_src L1 = tn_src L"
  using assms skip_le [of L P] by (simp_all add: peekc_Some)

lemma skip_moves: "peekc L 0 = Some c \<Longrightarrow> P c \<Longrightarrow> tn_pos L < tn_pos (skip P L)"
  by (simp add: skip_def adv_def peekc_Some Cons_nth_drop_Suc [symmetric])

subsection \<open>Indentation\<close>

text \<open>The column of a real token against the stack.\<close>

fun pop_indents :: "nat \<Rightarrow> nat \<Rightarrow> tn_lex \<Rightarrow> nat list \<Rightarrow> tn_lex" where
  "pop_indents col start L [] = L\<lparr>tn_indents := []\<rparr>"
| "pop_indents col start L (t # ts) =
     (if t > col then pop_indents col start (tn_emit TN_TOK_DEDENT start 0 L) ts else L\<lparr>tn_indents := rev (t # ts)\<rparr>)"

definition top_indent :: "nat list \<Rightarrow> nat" where
  "top_indent ds = (if ds = [] then 0 else last ds)"

definition indent_to :: "nat \<Rightarrow> nat \<Rightarrow> tn_lex \<Rightarrow> tn_lex \<times> bool" where
  "indent_to col start L =
     (if col > top_indent (tn_indents L) then
        (if length (tn_indents L) \<ge> TN_MAX_INDENTS then (tn_err 112 L, False)
         else ((tn_emit TN_TOK_INDENT start 0 (L\<lparr>tn_indents := tn_indents L @ [col]\<rparr>))\<lparr>tn_at_start := False\<rparr>, True))
      else if col < top_indent (tn_indents L) then
        (let L1 = pop_indents col start L (rev (tn_indents L))
         in if top_indent (tn_indents L1) \<noteq> col then (tn_err 113 L1, False) else (L1\<lparr>tn_at_start := False\<rparr>, True))
      else (L\<lparr>tn_at_start := False\<rparr>, True))"

function tn_indent :: "tn_lex \<Rightarrow> tn_lex \<times> bool" where
  "tn_indent L =
     (let L1 = skip (\<lambda>c. c = CHR '' '' \<or> c = CHR 0x09) L in
      case peekc L1 0 of
        None \<Rightarrow> (L1\<lparr>tn_pending := length (tn_indents L1), tn_indents := []\<rparr>, True)
      | Some c \<Rightarrow>
          if c = CHR 0x0D then tn_indent (adv 1 L1)
          else if c = CHR ''#'' then
            (let L2 = skip (\<lambda>c. c \<noteq> CHR 0x0A) L1 in tn_indent (if peekc L2 0 \<noteq> None then next_line L2 else L2))
          else if c = CHR 0x0A then tn_indent (next_line L1)
          else indent_to (tn_pos L1 - tn_pos L) (tn_pos L) L1)"
  by pat_completeness auto
termination
proof (relation "measure (\<lambda>L. length (tn_src L) - tn_pos L)", goal_cases)
  case (2 L L1 c)
  note s = skip_peek [OF 2(1,2)]
  show ?case using s by (simp add: diff_less_mono2)
next
  case (3 L L1 c L2)
  note s = skip_peek [OF 3(1,2)]
  have "tn_pos L1 < tn_pos L2" unfolding 3(5) by (rule skip_moves [OF 3(2)]) (use 3(4) in simp)
  then show ?case using s 3(5) by (auto simp: peekc_def split: if_splits)
next
  case (4 L L1 c)
  note s = skip_peek [OF 4(1,2)]
  show ?case using s by (simp add: diff_less_mono2)
qed simp

declare tn_indent.simps [simp del]


subsection \<open>Identifiers and numbers\<close>

definition span :: "tn_lex \<Rightarrow> nat \<Rightarrow> string" where
  "span L start = take (tn_pos L - start) (drop start (tn_src L))"

definition tn_scan_ident :: "tn_lex \<Rightarrow> tn_lex" where
  "tn_scan_ident L =
     (let start = tn_pos L; L1 = skip tx_idn L
      in tn_emit (tn_kw_lookup (span L1 start)) start (tn_pos L1 - start) L1)"

abbreviation tx_digu :: "char \<Rightarrow> bool" where "tx_digu c \<equiv> tx_dig c \<or> c = CHR ''_''"

definition num_prefix :: "tn_lex \<Rightarrow> (char \<Rightarrow> bool) option" where
  "num_prefix L =
     (if peekc L 0 = Some CHR ''0'' then
        (case peekc L 1 of
           Some p \<Rightarrow>
             if p = CHR ''x'' \<or> p = CHR ''X'' then Some (\<lambda>c. tx_hex c \<or> c = CHR ''_'')
             else if p = CHR ''o'' \<or> p = CHR ''O'' \<or> p = CHR ''b'' \<or> p = CHR ''B'' then Some tx_digu
             else None
         | None \<Rightarrow> None)
      else None)"

definition num_fraction :: "tn_lex \<Rightarrow> tn_lex \<times> bool" where
  "num_fraction L = (if peekc L 0 = Some CHR ''.'' then (skip tx_digu (adv 1 L), True) else (L, False))"

definition num_exponent :: "tn_lex \<Rightarrow> tn_lex \<times> bool" where
  "num_exponent L =
     (if peekc L 0 = Some CHR ''e'' \<or> peekc L 0 = Some CHR ''E'' then
        (let L1 = adv 1 L;
             L2 = (if peekc L1 0 = Some CHR ''+'' \<or> peekc L1 0 = Some CHR ''-'' then adv 1 L1 else L1)
         in (skip tx_dig L2, True))
      else (L, False))"

definition num_suffix :: "tn_lex \<Rightarrow> tn_lex \<times> bool" where
  "num_suffix L = (if peekc L 0 = Some CHR ''j'' \<or> peekc L 0 = Some CHR ''J'' then (adv 1 L, True) else (L, False))"

definition tn_scan_num :: "tn_lex \<Rightarrow> tn_lex" where
  "tn_scan_num L =
     (let start = tn_pos L in
      case num_prefix L of
        Some P \<Rightarrow> (let L1 = skip P (adv 2 L) in tn_emit TN_TOK_INT start (tn_pos L1 - start) L1)
      | None \<Rightarrow>
          (let (L1, f1) = num_fraction (skip tx_digu L);
               (L2, f2) = num_exponent L1;
               (L3, f3) = num_suffix L2
           in tn_emit (if f1 \<or> f2 \<or> f3 then TN_TOK_FLOAT else TN_TOK_INT) start (tn_pos L3 - start) L3))"

subsection \<open>Strings\<close>

definition triple_at :: "char \<Rightarrow> tn_lex \<Rightarrow> bool" where
  "triple_at q L \<longleftrightarrow> peekc L 0 = Some q \<and> peekc L 1 = Some q \<and> peekc L 2 = Some q"

text \<open>Past a backslash and the character after it.\<close>

definition skip_escape :: "tn_lex \<Rightarrow> tn_lex" where
  "skip_escape L =
     adv 2 (if peekc L 1 = Some CHR 0x0A then L\<lparr>tn_line := tn_line L + 1, tn_lstart := tn_pos L + 2\<rparr> else L)"

fun triple_loop :: "char \<Rightarrow> nat \<Rightarrow> tn_lex \<Rightarrow> tn_lex \<times> bool" where
  "triple_loop q 0 L = (L, False)"
| "triple_loop q (Suc guard) L =
     (if peekc L 2 = None then (L, False)
      else if triple_at q L then (adv 3 L, True)
      else if peekc L 0 = Some CHR 0x5C \<and> peekc L 1 \<noteq> None then triple_loop q guard (skip_escape L)
      else if peekc L 0 = Some CHR 0x0A then triple_loop q guard (next_line L)
      else triple_loop q guard (adv 1 L))"

function string_loop_tn :: "char \<Rightarrow> tn_lex \<Rightarrow> tn_lex \<times> bool" where
  "string_loop_tn q L =
     (case peekc L 0 of
        None \<Rightarrow> (L, True)
      | Some c \<Rightarrow>
          if c = q then (L, True)
          else if c = CHR 0x5C \<and> peekc L 1 \<noteq> None then string_loop_tn q (skip_escape L)
          else if c = CHR 0x0A then (L, False)
          else string_loop_tn q (adv 1 L))"
  by pat_completeness auto
termination
  by (relation "measure (\<lambda>(q, L). length (tn_src L) - tn_pos L)") (auto simp: peekc_Some skip_escape_def)

declare string_loop_tn.simps [simp del]

definition tn_scan_str_at :: "nat \<Rightarrow> tn_lex \<Rightarrow> tn_lex" where
  "tn_scan_str_at start L =
     (let line = tn_line L; lstart = tn_lstart L; quote = tn_src L ! tn_pos L;
          finish = (\<lambda>L. tn_emit_at TN_TOK_STRING start (tn_pos L - start) line lstart L)
      in if peekc L 2 \<noteq> None \<and> peekc L 1 = Some quote \<and> peekc L 2 = Some quote then
           (let (L1, closed) = triple_loop quote (length (tn_src L)) (adv 3 L)
            in finish (if closed then L1 else tn_err 118 L1))
         else
           (let (L1, ok) = string_loop_tn quote (adv 1 L)
            in if \<not> ok then finish (tn_err 114 L1)
               else finish (if peekc L1 0 \<noteq> None then adv 1 L1 else L1)))"

definition tn_scan_str :: "tn_lex \<Rightarrow> tn_lex" where
  "tn_scan_str L = tn_scan_str_at (tn_pos L) L"

definition is_prefix_letter :: "char \<Rightarrow> bool" where
  "is_prefix_letter c \<longleftrightarrow> c \<in> set ''rRbBfFuU''"

definition tn_is_str_prefix :: "tn_lex \<Rightarrow> nat" where
  "tn_is_str_prefix L =
     (let n = length (takeWhile is_prefix_letter (take 2 (drop (tn_pos L) (tn_src L))))
      in if n = 0 then 0
         else if peekc L n = Some CHR 0x22 \<or> peekc L n = Some CHR 0x27 then n else 0)"

subsection \<open>Operators\<close>

text \<open>The kind and length of the operator at a character, given the two characters after it.\<close>

definition two :: "char option \<Rightarrow> char \<Rightarrow> nat \<Rightarrow> nat \<Rightarrow> (nat \<times> nat) option" where
  "two c1 d k2 k1 = (if c1 = Some d then Some (k2, 2) else Some (k1, 1))"

definition three :: "char \<Rightarrow> char option \<Rightarrow> char option \<Rightarrow> nat \<Rightarrow> nat \<Rightarrow> nat \<Rightarrow> nat \<Rightarrow> (nat \<times> nat) option" where
  "three d c1 c2 k3 k2 keq k1 =
     (if c1 = Some d then (if c2 = Some CHR ''='' then Some (k3, 3) else Some (k2, 2))
      else two c1 CHR ''='' keq k1)"

definition tn_op :: "char \<Rightarrow> char option \<Rightarrow> char option \<Rightarrow> (nat \<times> nat) option" where
  "tn_op c c1 c2 =
     (if c = CHR ''('' then Some (TN_TOK_LPAREN, 1)
      else if c = CHR '')'' then Some (TN_TOK_RPAREN, 1)
      else if c = CHR ''['' then Some (TN_TOK_LBRACK, 1)
      else if c = CHR '']'' then Some (TN_TOK_RBRACK, 1)
      else if c = CHR ''{'' then Some (TN_TOK_LBRACE, 1)
      else if c = CHR ''}'' then Some (TN_TOK_RBRACE, 1)
      else if c = CHR '','' then Some (TN_TOK_COMMA, 1)
      else if c = CHR '';'' then Some (TN_TOK_SEMI, 1)
      else if c = CHR ''.'' then Some (TN_TOK_DOT, 1)
      else if c = CHR ''~'' then Some (TN_TOK_TILDE, 1)
      else if c = CHR '':'' then two c1 CHR ''='' TN_TOK_WALRUS TN_TOK_COLON
      else if c = CHR ''@'' then two c1 CHR ''='' TN_TOK_AMATMUL TN_TOK_AT
      else if c = CHR ''+'' then two c1 CHR ''='' TN_TOK_AADD TN_TOK_PLUS
      else if c = CHR ''-'' then (if c1 = Some CHR ''='' then Some (TN_TOK_ASUB, 2) else two c1 CHR ''>'' TN_TOK_ARROW TN_TOK_MINUS)
      else if c = CHR ''*'' then three CHR ''*'' c1 c2 TN_TOK_APOW TN_TOK_DSTAR TN_TOK_AMUL TN_TOK_STAR
      else if c = CHR ''/'' then three CHR ''/'' c1 c2 TN_TOK_AFDIV TN_TOK_FSLASH TN_TOK_ADIV TN_TOK_SLASH
      else if c = CHR ''%'' then two c1 CHR ''='' TN_TOK_AMOD TN_TOK_PERCENT
      else if c = CHR ''&'' then two c1 CHR ''='' TN_TOK_AAND TN_TOK_AMP
      else if c = CHR ''|'' then two c1 CHR ''='' TN_TOK_AOR TN_TOK_PIPE
      else if c = CHR ''^'' then two c1 CHR ''='' TN_TOK_AXOR TN_TOK_CARET
      else if c = CHR ''<'' then three CHR ''<'' c1 c2 TN_TOK_ASHL TN_TOK_SHL TN_TOK_LE TN_TOK_LT
      else if c = CHR ''>'' then three CHR ''>'' c1 c2 TN_TOK_ASHR TN_TOK_SHR TN_TOK_GE TN_TOK_GT
      else if c = CHR ''='' then two c1 CHR ''='' TN_TOK_EQ TN_TOK_ASSIGN
      else if c = CHR ''!'' then (if c1 = Some CHR ''='' then Some (TN_TOK_NE, 2) else None)
      else None)"

definition tn_emit_op :: "nat \<Rightarrow> nat \<Rightarrow> tn_lex \<Rightarrow> tn_lex" where
  "tn_emit_op kind n L = adv n (tn_emit kind (tn_pos L) n L)"

definition paren_after :: "char \<Rightarrow> nat \<Rightarrow> nat" where
  "paren_after c d = (if c \<in> set ''([{'' then d + 1 else if c \<in> set '')]}'' then d - 1 else d)"

definition tn_scan_op :: "tn_lex \<Rightarrow> tn_lex" where
  "tn_scan_op L =
     (let c = tn_src L ! tn_pos L in
      case tn_op c (peekc L 1) (peekc L 2) of
        Some (kind, n) \<Rightarrow> (tn_emit_op kind n L)\<lparr>tn_paren := paren_after c (tn_paren L)\<rparr>
      | None \<Rightarrow> adv 1 (tn_err (if c = CHR ''!'' then 115 else 116) L))"

subsection \<open>The main loop\<close>

definition tn_lex_init :: "string \<Rightarrow> nat \<Rightarrow> tn_lex" where
  "tn_lex_init src max_tokens =
     \<lparr>tn_src = src, tn_pos = 0, tn_line = 1, tn_lstart = 0, tn_indents = [], tn_paren = 0, tn_pending = 0, tn_at_start = True,
      tn_toks = [], tn_max = max_tokens, tn_errs = []\<rparr>"

definition tn_newline :: "tn_lex \<Rightarrow> tn_lex" where
  "tn_newline L =
     next_line (if tn_paren L = 0 then (tn_emit TN_TOK_NEWLINE (tn_pos L) 0 L)\<lparr>tn_at_start := True\<rparr> else L)"

definition tn_token :: "char \<Rightarrow> tn_lex \<Rightarrow> tn_lex" where
  "tn_token c L =
     (if tx_alph c then
        (let pre = tn_is_str_prefix L
         in if pre > 0 then tn_scan_str_at (tn_pos L) (adv pre L) else tn_scan_ident L)
      else if tx_dig c then tn_scan_num L
      else if c = CHR ''.'' \<and> (case peekc L 1 of Some d \<Rightarrow> tx_dig d | None \<Rightarrow> False) then tn_scan_num L
      else if c = CHR 0x22 \<or> c = CHR 0x27 then tn_scan_str L
      else tn_scan_op L)"

definition tn_step :: "tn_lex \<Rightarrow> tn_lex \<times> bool" where
  "tn_step L =
     (if tn_pending L > 0 then ((tn_emit TN_TOK_DEDENT (tn_pos L) 0 L)\<lparr>tn_pending := tn_pending L - 1\<rparr>, True)
      else if tn_at_start L \<and> tn_paren L = 0 then tn_indent L
      else
        let c = tn_src L ! tn_pos L in
        if c = CHR '' '' \<or> c = CHR 0x09 \<or> c = CHR 0x0D then (adv 1 L, True)
        else if c = CHR 0x5C \<and> peekc L 1 = Some CHR 0x0A then
          (L\<lparr>tn_pos := tn_pos L + 2, tn_line := tn_line L + 1, tn_lstart := tn_pos L + 2\<rparr>, True)
        else if c = CHR 0x0A then (tn_newline L, True)
        else if c = CHR ''#'' then (skip (\<lambda>c. c \<noteq> CHR 0x0A) L, True)
        else (tn_token c L, True))"

text \<open>The loop with the number of turns its guard still allows.\<close>

fun tn_loop :: "nat \<Rightarrow> tn_lex \<Rightarrow> tn_lex \<times> bool" where
  "tn_loop 0 L = (if tn_pos L < length (tn_src L) then (tn_err 117 L, False) else (L, True))"
| "tn_loop (Suc turns) L =
     (if tn_pos L < length (tn_src L) then
        (case tn_step L of (L1, ok) \<Rightarrow> if ok then tn_loop turns L1 else (L1, False))
      else (L, True))"

fun close_indents :: "nat \<Rightarrow> tn_lex \<Rightarrow> tn_lex" where
  "close_indents 0 L = L"
| "close_indents (Suc d) L = close_indents d (tn_emit TN_TOK_DEDENT (tn_pos L) 0 L)"

definition tn_finish :: "tn_lex \<Rightarrow> tn_lex" where
  "tn_finish L =
     (let L1 = (if tn_toks L \<noteq> [] \<and> tk_kind (last (tn_toks L)) \<noteq> TN_TOK_NEWLINE then tn_emit TN_TOK_NEWLINE (tn_pos L) 0 L else L);
          L2 = (close_indents (length (tn_indents L1)) L1)\<lparr>tn_indents := []\<rparr>
      in tn_emit TN_TOK_EOF (tn_pos L2) 0 L2)"

definition tn_tokenize :: "tn_lex \<Rightarrow> tn_lex \<times> bc_code" where
  "tn_tokenize L =
     (case tn_loop (length (tn_src L) * 4) L of
        (L1, ok) \<Rightarrow> if ok then (tn_finish L1, BC_OK) else (L1, BC_ERR_TRITON))"

text \<open>The text of a token into a buffer of a size: the bytes before the zero, and the length returned.\<close>

definition tn_tok_text :: "tn_lex \<Rightarrow> tn_tok \<Rightarrow> int \<Rightarrow> string \<times> int" where
  "tn_tok_text L tok bufsize =
     (let n = (if int (tk_len tok) \<ge> bufsize then bufsize - 1 else int (tk_len tok))
      in (if n > 0 then take (nat n) (drop (tk_off tok) (tn_src L)) else [], n))"

end
