(* ===== verification/Tn_Lex_Correct.thy ===== *)
theory Tn_Lex_Correct
  imports Tn_Lex
begin

text \<open>
  Correctness of the Triton lexer: the operator scan is maximal munch over the name table, the main
  loop never runs out of turns, the tokens cut the source, and indents and dedents nest.
\<close>

subsection \<open>Operators\<close>

definition tn_ops :: "nat list" where
  "tn_ops = [33..<79]"

text \<open>An operator of the name table at the front of a text, and the longest one.\<close>

definition op_at :: "string \<Rightarrow> nat \<Rightarrow> bool" where
  "op_at s k \<longleftrightarrow> k \<in> set tn_ops \<and> take (length (tn_tok_names ! k)) s = tn_tok_names ! k"

definition munch :: "string \<Rightarrow> nat \<times> nat \<Rightarrow> bool" where
  "munch s r \<longleftrightarrow> op_at s (fst r) \<and> snd r = length (tn_tok_names ! fst r) \<and>
     (\<forall>k. op_at s k \<longrightarrow> length (tn_tok_names ! k) \<le> snd r)"

lemma tn_ops_list: "tn_ops = [33, 34, 35, 36, 37, 38, 39, 40, 41, 42, 43, 44, 45, 46, 47, 48, 49, 50, 51, 52, 53, 54, 55, 56, 57, 58, 59, 60, 61, 62,
    63, 64, 65, 66, 67, 68, 69, 70, 71, 72, 73, 74, 75, 76, 77, 78]"
  by (simp add: tn_ops_def upt_rec)

definition nth_char :: "string \<Rightarrow> nat \<Rightarrow> char option" where
  "nth_char s k = (if k < length s then Some (s ! k) else None)"

definition tn_op_names :: "(nat \<times> string) list" where
  "tn_op_names = map (\<lambda>k. (k, tn_tok_names ! k)) tn_ops"

lemma op_names_list: "tn_op_names = [(33, ''(''), (34, '')''), (35, ''[''), (36, '']''), (37, ''{''), (38, ''}''), (39, '':''), (40, '',''), (41, '';''),
   (42, ''.''), (43, ''@''), (44, ''->''), (45, ''=''), (46, ''+=''), (47, ''-=''), (48, ''*=''), (49, ''/=''), (50, ''//=''), (51, ''%=''),
   (52, ''**=''), (53, ''&=''), (54, ''|=''), (55, ''^=''), (56, ''<<=''), (57, ''>>=''), (58, ''@=''), (59, ''+''), (60, ''-''), (61, ''*''),
   (62, ''/''), (63, ''//''), (64, ''%''), (65, ''**''), (66, ''&''), (67, ''|''), (68, ''^''), (69, ''~''), (70, ''<<''), (71, ''>>''),
   (72, ''<''), (73, ''>''), (74, ''<=''), (75, ''>=''), (76, ''==''), (77, ''!=''), (78, '':='')]"
  by (simp add: tn_op_names_def tn_ops_list tn_tok_names_def)

lemma op_at_names: "op_at s k \<longleftrightarrow> (\<exists>w. (k, w) \<in> set tn_op_names \<and> take (length w) s = w)"
  by (auto simp: op_at_def tn_op_names_def)

definition ops_from :: "char \<Rightarrow> (nat \<times> string) list" where
  "ops_from c = filter (\<lambda>kw. hd (snd kw) = c) tn_op_names"

lemma ops_from_simps:
  "ops_from CHR ''('' = [(33, ''('')]" "ops_from CHR '')'' = [(34, '')'')]" "ops_from CHR ''['' = [(35, ''['')]"
  "ops_from CHR '']'' = [(36, '']'')]" "ops_from CHR ''{'' = [(37, ''{'')]" "ops_from CHR ''}'' = [(38, ''}'')]"
  "ops_from CHR '':'' = [(39, '':''), (78, '':='')]" "ops_from CHR '','' = [(40, '','')]" "ops_from CHR '';'' = [(41, '';'')]"
  "ops_from CHR ''.'' = [(42, ''.'')]" "ops_from CHR ''@'' = [(43, ''@''), (58, ''@='')]"
  "ops_from CHR ''-'' = [(44, ''->''), (47, ''-=''), (60, ''-'')]" "ops_from CHR ''='' = [(45, ''=''), (76, ''=='')]"
  "ops_from CHR ''+'' = [(46, ''+=''), (59, ''+'')]" "ops_from CHR ''*'' = [(48, ''*=''), (52, ''**=''), (61, ''*''), (65, ''**'')]"
  "ops_from CHR ''/'' = [(49, ''/=''), (50, ''//=''), (62, ''/''), (63, ''//'')]" "ops_from CHR ''%'' = [(51, ''%=''), (64, ''%'')]"
  "ops_from CHR ''&'' = [(53, ''&=''), (66, ''&'')]" "ops_from CHR ''|'' = [(54, ''|=''), (67, ''|'')]"
  "ops_from CHR ''^'' = [(55, ''^=''), (68, ''^'')]" "ops_from CHR ''~'' = [(69, ''~'')]"
  "ops_from CHR ''<'' = [(56, ''<<=''), (70, ''<<''), (72, ''<''), (74, ''<='')]"
  "ops_from CHR ''>'' = [(57, ''>>=''), (71, ''>>''), (73, ''>''), (75, ''>='')]" "ops_from CHR ''!'' = [(77, ''!='')]"
  by (simp_all add: ops_from_def op_names_list)

lemma ops_from_none: "c \<notin> set ''()[]{}:,;.@-=+*/%&|^~<>!'' \<Longrightarrow> ops_from c = []"
  by (auto simp: ops_from_def op_names_list filter_empty_conv)

lemma op_at_from: "op_at (c # s) k \<longleftrightarrow> (\<exists>w. (k, w) \<in> set (ops_from c) \<and> take (length w) (c # s) = w)"
proof -
  have "\<forall>kw \<in> set tn_op_names. snd kw \<noteq> []" by (simp add: op_names_list)
  then have "\<And>w. (k, w) \<in> set tn_op_names \<Longrightarrow> take (length w) (c # s) = w \<Longrightarrow> hd w = c"
    by (metis hd_take list.sel(1) length_greater_0_conv snd_conv)
  then show ?thesis unfolding op_at_names ops_from_def by auto
qed

lemma munch_from:
  "munch (c # s) r \<longleftrightarrow> (\<exists>w. (fst r, w) \<in> set (ops_from c) \<and> take (length w) (c # s) = w \<and> snd r = length w) \<and>
     (\<forall>kw \<in> set (ops_from c). take (length (snd kw)) (c # s) = snd kw \<longrightarrow> length (snd kw) \<le> snd r)"
proof -
  have 1: "(\<exists>w. (fst r, w) \<in> set (ops_from c) \<and> take (length w) (c # s) = w \<and> snd r = length w) \<longleftrightarrow>
      op_at (c # s) (fst r) \<and> snd r = length (tn_tok_names ! fst r)"
    unfolding op_at_from by (auto simp: ops_from_def tn_op_names_def)
  have 2: "(\<forall>kw \<in> set (ops_from c). take (length (snd kw)) (c # s) = snd kw \<longrightarrow> length (snd kw) \<le> snd r) \<longleftrightarrow>
      (\<forall>k. op_at (c # s) k \<longrightarrow> length (tn_tok_names ! k) \<le> snd r)"
    unfolding op_at_from by (fastforce simp: ops_from_def tn_op_names_def)
  show ?thesis unfolding 1 2 munch_def by blast
qed

definition munches :: "string \<Rightarrow> (nat \<times> nat) option \<Rightarrow> bool" where
  "munches s r \<longleftrightarrow> (case r of Some r \<Rightarrow> munch s r | None \<Rightarrow> \<forall>k. \<not> op_at s k)"

lemma tn_op_munch: "munches (c # s) (tn_op c (nth_char s 0) (nth_char s 1))"
proof (cases "c \<in> set ''()[]{}:,;.@-=+*/%&|^~<>!''")
  case False
  then have "tn_op c (nth_char s 0) (nth_char s 1) = None" by (simp add: tn_op_def)
  then show ?thesis by (simp add: munches_def op_at_from ops_from_none [OF False])
next
  case True
  note simps = munches_def tn_op_def munch_from ops_from_simps op_at_from two_def three_def nth_char_def
  show ?thesis
  proof (cases s)
    case Nil
    then show ?thesis using True
      by (simp only: list.set insert_iff empty_iff) (elim disjE; simp add: simps)
  next
    case (Cons c1 s1)
    then show ?thesis using True
      by (cases s1; simp only: list.set insert_iff empty_iff) (elim disjE; simp add: simps)+
  qed
qed


subsection \<open>What a lexed source is\<close>

text \<open>A stretch of source without a token.\<close>

definition tn_blank :: "char \<Rightarrow> bool" where
  "tn_blank c \<longleftrightarrow> c = CHR '' '' \<or> c = CHR 0x09 \<or> c = CHR 0x0D"

definition tn_bad :: "string \<Rightarrow> bool" where
  "tn_bad s \<longleftrightarrow> s \<noteq> [] \<and> \<not> tx_idn (hd s) \<and> hd s \<notin> {CHR 0x22, CHR 0x27, CHR ''#'', LF} \<and> \<not> tn_blank (hd s) \<and> (\<forall>k. \<not> op_at s k)"

inductive tn_gap :: "string \<Rightarrow> nat \<Rightarrow> nat \<Rightarrow> bool" for src where
  gap_blank: "p < length src \<Longrightarrow> tn_blank (src ! p) \<Longrightarrow> tn_gap src p (Suc p)"
| gap_newline: "p < length src \<Longrightarrow> src ! p = LF \<Longrightarrow> tn_gap src p (Suc p)"
| gap_continued: "Suc p < length src \<Longrightarrow> src ! p = CHR 0x5C \<Longrightarrow> src ! Suc p = LF \<Longrightarrow> tn_gap src p (p + 2)"
| gap_comment: "p < q \<Longrightarrow> q \<le> length src \<Longrightarrow> src ! p = CHR ''#'' \<Longrightarrow> LF \<notin> set (slice src p q) \<Longrightarrow> q = length src \<or> src ! q = LF \<Longrightarrow>
    tn_gap src p q"
| gap_bad: "tn_bad (drop p src) \<Longrightarrow> tn_gap src p (Suc p)"

text \<open>The text of a token, given with the source after it.\<close>

definition word_tok :: "nat \<Rightarrow> string \<Rightarrow> string \<Rightarrow> bool" where
  "word_tok k s rest \<longleftrightarrow> s \<noteq> [] \<and> tx_alph (hd s) \<and> (\<forall>c \<in> set s. tx_idn c) \<and> (rest = [] \<or> \<not> tx_idn (hd rest)) \<and> k = tn_kw_lookup s"

definition int_text :: "string \<Rightarrow> bool" where
  "int_text s \<longleftrightarrow> (\<forall>c \<in> set s. tx_digu c) \<or>
     (\<exists>p ds. s = CHR ''0'' # p # ds \<and>
       (p \<in> set ''xX'' \<and> (\<forall>c \<in> set ds. tx_hex c \<or> c = CHR ''_'') \<or> p \<in> set ''oObB'' \<and> (\<forall>c \<in> set ds. tx_digu c)))"

definition frac_text :: "string \<Rightarrow> bool" where
  "frac_text s \<longleftrightarrow> s = [] \<or> (\<exists>ds. s = CHR ''.'' # ds \<and> (\<forall>c \<in> set ds. tx_digu c))"

definition exp_text :: "string \<Rightarrow> bool" where
  "exp_text s \<longleftrightarrow> s = [] \<or> (\<exists>e sg ds. s = e # sg @ ds \<and> e \<in> set ''eE'' \<and> (sg = [] \<or> sg = ''+'' \<or> sg = ''-'') \<and> (\<forall>c \<in> set ds. tx_dig c))"

definition suf_text :: "string \<Rightarrow> bool" where
  "suf_text s \<longleftrightarrow> s = [] \<or> s = ''j'' \<or> s = ''J''"

definition float_text :: "string \<Rightarrow> bool" where
  "float_text s \<longleftrightarrow> (\<exists>ds f e j. s = ds @ f @ e @ j \<and> (\<forall>c \<in> set ds. tx_digu c) \<and> frac_text f \<and> exp_text e \<and> suf_text j \<and> f @ e @ j \<noteq> [])"

definition num_start :: "string \<Rightarrow> bool" where
  "num_start s \<longleftrightarrow> s \<noteq> [] \<and> (tx_dig (hd s) \<or> (\<exists>d s'. s = CHR ''.'' # d # s' \<and> tx_dig d))"

text \<open>The unescaped characters of a string literal, from a position up to another.\<close>

definition closes3 :: "char \<Rightarrow> string \<Rightarrow> nat \<Rightarrow> bool" where
  "closes3 q src r \<longleftrightarrow> r + 2 < length src \<and> src ! r = q \<and> src ! (r + 1) = q \<and> src ! (r + 2) = q"

definition str_stop :: "bool \<Rightarrow> char \<Rightarrow> string \<Rightarrow> nat \<Rightarrow> bool" where
  "str_stop triple q src r \<longleftrightarrow> (if triple then closes3 q src r else src ! r = q \<or> src ! r = LF)"

inductive str_run :: "bool \<Rightarrow> char \<Rightarrow> string \<Rightarrow> nat \<Rightarrow> nat \<Rightarrow> bool" for triple q src p where
  run_start: "str_run triple q src p p"
| run_escape: "str_run triple q src p r \<Longrightarrow> Suc r < length src \<Longrightarrow> src ! r = CHR 0x5C \<Longrightarrow> str_run triple q src p (r + 2)"
| run_char: "str_run triple q src p r \<Longrightarrow> r < length src \<Longrightarrow> src ! r \<noteq> CHR 0x5C \<Longrightarrow> \<not> str_stop triple q src r \<Longrightarrow>
    str_run triple q src p (Suc r)"

text \<open>
  A string literal: up to two prefix letters, the quote, and the characters up to the first closing
  quote, with the quote; or up to the newline or end of source that cuts it off.  An unclosed
  triple-quoted one stops two characters before the end of the source.
\<close>

definition str_at :: "string \<Rightarrow> nat \<Rightarrow> nat \<Rightarrow> bool" where
  "str_at src p e \<longleftrightarrow> (\<exists>n q r. n \<le> 2 \<and> (\<forall>i < n. is_prefix_letter (src ! (p + i))) \<and> p + n < length src \<and> src ! (p + n) = q \<and>
     (q = CHR 0x22 \<or> q = CHR 0x27) \<and>
     (if closes3 q src (p + n) then
        str_run True q src (p + n + 3) r \<and> (closes3 q src r \<and> e = r + 3 \<or> length src \<le> r + 2 \<and> e = r)
      else
        str_run False q src (p + n + 1) r \<and>
          (r < length src \<and> src ! r = q \<and> e = r + 1 \<or> r < length src \<and> src ! r = LF \<and> e = r \<or>
           e = length src \<and> (r = e \<or> Suc r = e \<and> src ! r = CHR 0x5C))))"

definition is_layout :: "nat \<Rightarrow> bool" where
  "is_layout k \<longleftrightarrow> k = TN_TOK_NEWLINE \<or> k = TN_TOK_INDENT \<or> k = TN_TOK_DEDENT \<or> k = TN_TOK_EOF"

definition text_ok :: "nat \<Rightarrow> string \<Rightarrow> string \<Rightarrow> bool" where
  "text_ok k s rest \<longleftrightarrow>
     (if is_layout k then s = []
      else if k = TN_TOK_INT then int_text s \<and> num_start s
      else if k = TN_TOK_FLOAT then float_text s \<and> num_start s
      else if k \<in> set tn_ops then munch (s @ rest) (k, length s)
      else word_tok k s rest)"

definition tn_text_at :: "nat \<Rightarrow> string \<Rightarrow> nat \<Rightarrow> nat \<Rightarrow> bool" where
  "tn_text_at k src p q \<longleftrightarrow> (if k = TN_TOK_STRING then str_at src p q else text_ok k (slice src p q) (drop q src))"

definition tn_tok_at :: "string \<Rightarrow> nat \<Rightarrow> tn_tok \<Rightarrow> bool" where
  "tn_tok_at src p t \<longleftrightarrow>
     (let q = p + tk_len t in
      tk_off t = p \<and> q \<le> length src \<and> tk_line t = line_at src p \<and> tk_col t = (p - start_at src p) mod 2 ^ 16 \<and>
      tn_text_at (tk_kind t) src p q)"

inductive tn_cut :: "string \<Rightarrow> nat \<Rightarrow> tn_tok list \<Rightarrow> bool" for src where
  cut_start: "tn_cut src 0 []"
| cut_gap: "tn_cut src p ts \<Longrightarrow> tn_gap src p q \<Longrightarrow> tn_cut src q ts"
| cut_tok: "tn_cut src p ts \<Longrightarrow> tn_tok_at src p t \<Longrightarrow> tn_cut src (p + tk_len t) (ts @ [t])"

text \<open>The nesting depth after a list of tokens, if no block is closed that is not open.\<close>

fun tn_depth :: "nat \<Rightarrow> tn_tok list \<Rightarrow> nat option" where
  "tn_depth d [] = Some d"
| "tn_depth d (t # ts) =
     (if tk_kind t = TN_TOK_INDENT then tn_depth (d + 1) ts
      else if tk_kind t = TN_TOK_DEDENT then (if d = 0 then None else tn_depth (d - 1) ts)
      else tn_depth d ts)"

lemma tn_depth_snoc: "tn_depth d (ts @ [t]) = (case tn_depth d ts of None \<Rightarrow> None | Some n \<Rightarrow> tn_depth n [t])"
  by (induction ts arbitrary: d) auto

subsection \<open>The invariant of the lexer\<close>

definition at_pos :: "tn_lex \<Rightarrow> nat \<Rightarrow> bool" where
  "at_pos L p \<longleftrightarrow> p \<le> length (tn_src L) \<and> tn_line L = line_at (tn_src L) p \<and> tn_lstart L = start_at (tn_src L) p"

definition cut_ok :: "tn_lex \<Rightarrow> nat \<Rightarrow> nat \<Rightarrow> bool" where
  "cut_ok L p d \<longleftrightarrow> (length (tn_toks L) < tn_max L \<longrightarrow> tn_cut (tn_src L) p (tn_toks L) \<and> tn_depth 0 (tn_toks L) = Some d)"

definition stack_ok :: "nat list \<Rightarrow> bool" where
  "stack_ok ds \<longleftrightarrow> sorted_wrt (<) (0 # ds) \<and> length ds \<le> TN_MAX_INDENTS"

definition errs_ok :: "tn_lex \<Rightarrow> bool" where
  "errs_ok L \<longleftrightarrow> (\<forall>e \<in> set (tn_errs L). te_eid e \<in> {112, 113, 114, 115, 116, 118})"

definition tn_ok :: "tn_lex \<Rightarrow> bool" where
  "tn_ok L \<longleftrightarrow> at_pos L (tn_pos L) \<and> cut_ok L (tn_pos L) (length (tn_indents L) + tn_pending L) \<and> stack_ok (tn_indents L) \<and>
     errs_ok L \<and> (tn_pending L > 0 \<longrightarrow> tn_pos L = length (tn_src L))"

text \<open>One state is another moved forward, possibly with an error reported.\<close>

definition moved :: "tn_lex \<Rightarrow> tn_lex \<Rightarrow> bool" where
  "moved L L' \<longleftrightarrow> tn_src L' = tn_src L \<and> tn_indents L' = tn_indents L \<and> tn_paren L' = tn_paren L \<and> tn_pending L' = tn_pending L \<and>
     tn_at_start L' = tn_at_start L \<and> tn_toks L' = tn_toks L \<and> tn_max L' = tn_max L \<and> tn_pos L \<le> tn_pos L' \<and>
     at_pos L' (tn_pos L') \<and> errs_ok L'"

lemma moved_facts:
  assumes "moved L L'"
  shows "tn_src L' = tn_src L" "tn_indents L' = tn_indents L" "tn_paren L' = tn_paren L" "tn_pending L' = tn_pending L"
    "tn_at_start L' = tn_at_start L" "tn_toks L' = tn_toks L" "tn_max L' = tn_max L" "tn_pos L \<le> tn_pos L'" "errs_ok L'"
    "tn_pos L' \<le> length (tn_src L)" "tn_line L' = line_at (tn_src L) (tn_pos L')" "tn_lstart L' = start_at (tn_src L) (tn_pos L')"
  using assms by (auto simp: moved_def at_pos_def)

lemma moved_refl: "tn_ok L \<Longrightarrow> moved L L"
  by (simp add: moved_def tn_ok_def)

lemma moved_trans: "moved L L' \<Longrightarrow> moved L' L'' \<Longrightarrow> moved L L''"
  by (auto simp: moved_def)

lemma moved_err: "moved L L' \<Longrightarrow> e \<in> {112, 113, 114, 115, 116, 118} \<Longrightarrow> moved L (tn_err e L')"
  by (auto simp: moved_def tn_err_def at_pos_def errs_ok_def)

lemma moved_adv:
  assumes "moved L L'" "tn_pos L' + n \<le> length (tn_src L')" "LF \<notin> set (slice (tn_src L') (tn_pos L') (tn_pos L' + n))"
  shows "moved L (adv n L')"
proof -
  have "\<forall>i. tn_pos L' \<le> i \<and> i < tn_pos L' + n \<longrightarrow> tn_src L' ! i \<noteq> LF"
    using assms(2,3) by (simp add: slice_set) metis
  note s = same_line [OF _ assms(2) this]
  show ?thesis using assms(1,2) s unfolding moved_def by (simp add: adv_def at_pos_def errs_ok_def)
qed

lemma moved_adv1: "moved L L' \<Longrightarrow> peekc L' 0 = Some c \<Longrightarrow> c \<noteq> LF \<Longrightarrow> moved L (adv 1 L')"
  by (rule moved_adv) (auto simp: peekc_Some slice_def Cons_nth_drop_Suc [symmetric])

lemma moved_next_line: "moved L L' \<Longrightarrow> peekc L' 0 = Some LF \<Longrightarrow> moved L (next_line L')"
  by (auto simp: moved_def next_line_def at_pos_def errs_ok_def peekc_Some line_start_Suc)

lemma skip_slice: "slice (tn_src L) (tn_pos L) (tn_pos (skip P L)) = takeWhile P (drop (tn_pos L) (tn_src L))"
  by (simp add: slice_def skip_def takeWhile_eq_take [symmetric])

lemma skip_rest: "drop (tn_pos (skip P L)) (tn_src L) = dropWhile P (drop (tn_pos L) (tn_src L))"
  by (simp add: skip_def dropWhile_eq_drop add.commute)

lemma skip_bound: "tn_pos L \<le> length (tn_src L) \<Longrightarrow> tn_pos (skip P L) \<le> length (tn_src L)"
  using length_takeWhile_le [of P "drop (tn_pos L) (tn_src L)"] by (simp add: skip_def)

lemma skip_set: "c \<in> set (slice (tn_src L) (tn_pos L) (tn_pos (skip P L))) \<Longrightarrow> P c"
  unfolding skip_slice by (rule set_takeWhileD [THEN conjunct2])

lemma skip_hd: "drop (tn_pos (skip P L)) (tn_src L) = [] \<or> \<not> P (hd (drop (tn_pos (skip P L)) (tn_src L)))"
  unfolding skip_rest using hd_dropWhile [of P] by auto

lemma moved_skip:
  assumes "moved L L'" "\<not> P LF"
  shows "moved L (skip P L')"
proof -
  have b: "tn_pos L' \<le> length (tn_src L')" using moved_facts(1,10) [OF assms(1)] by simp
  have e: "tn_pos L' + length (takeWhile P (drop (tn_pos L') (tn_src L'))) = tn_pos (skip P L')" by (simp add: skip_def)
  show ?thesis unfolding skip_def
    by (rule moved_adv [OF assms(1)]; unfold e) (use skip_bound [OF b] skip_set [of LF L' P] assms(2) in auto)
qed

lemma moved_escape:
  assumes "moved L L'" "peekc L' 0 = Some CHR 0x5C" "peekc L' 1 \<noteq> None"
  shows "moved L (skip_escape L')"
proof -
  have p: "Suc (tn_pos L') < length (tn_src L')" "tn_src L' ! tn_pos L' = CHR 0x5C"
    using assms(2,3) by (auto simp: peekc_def split: if_splits)
  have s: "line_at (tn_src L') (Suc (tn_pos L')) = line_at (tn_src L') (tn_pos L')"
    "start_at (tn_src L') (Suc (tn_pos L')) = start_at (tn_src L') (tn_pos L')"
    using line_start_Suc [of "tn_pos L'" "tn_src L'"] p by simp_all
  show ?thesis
    using assms(1) p s line_start_Suc [of "Suc (tn_pos L')" "tn_src L'"]
    by (auto simp: moved_def skip_escape_def adv_def at_pos_def errs_ok_def peekc_def)
qed

lemma tn_col_place: "tn_col p (start_at src p) = (p - start_at src p) mod 2 ^ 16"
proof -
  have "int p - int (start_at src p) = int (p - start_at src p)" using start_at_le by (simp add: of_nat_diff)
  then show ?thesis unfolding tn_col_def by (metis nat_int of_nat_mod of_nat_numeral of_nat_power)
qed

lemma emit_sel [simp]:
  "tn_line (tn_emit_at k p n l s L) = tn_line L" "tn_lstart (tn_emit_at k p n l s L) = tn_lstart L"
  "tn_indents (tn_emit_at k p n l s L) = tn_indents L" "tn_paren (tn_emit_at k p n l s L) = tn_paren L"
  "tn_pending (tn_emit_at k p n l s L) = tn_pending L" "tn_at_start (tn_emit_at k p n l s L) = tn_at_start L"
  "tn_max (tn_emit_at k p n l s L) = tn_max L" "tn_errs (tn_emit_at k p n l s L) = tn_errs L"
  by (simp_all add: tn_emit_at_def)

text \<open>A token over the stretch moved across.\<close>

lemma moved_token:
  assumes "tn_ok L" "moved L L'" "tn_pos L < tn_pos L'" "\<not> is_layout k"
    "tn_text_at k (tn_src L) (tn_pos L) (tn_pos L')"
  shows "tn_ok (tn_emit_at k (tn_pos L) (tn_pos L' - tn_pos L) (tn_line L) (tn_lstart L) L')"
proof -
  let ?t = "\<lparr>tk_kind = k, tk_off = tn_pos L, tk_len = tn_pos L' - tn_pos L, tk_line = tn_line L, tk_col = tn_col (tn_pos L) (tn_lstart L)\<rparr>"
  note m = moved_facts [OF assms(2)]
  have pend: "tn_pending L = 0" using assms(1,3) m(10) by (auto simp: tn_ok_def)
  have c: "cut_ok L (tn_pos L) (length (tn_indents L))" "at_pos L (tn_pos L)" "stack_ok (tn_indents L)"
    using assms(1) pend by (simp_all add: tn_ok_def)
  have at: "tn_tok_at (tn_src L) (tn_pos L) ?t"
    using assms(3,5) m(10) c(2) by (simp add: tn_tok_at_def at_pos_def tn_col_place)
  have "cut_ok (tn_emit_at k (tn_pos L) (tn_pos L' - tn_pos L) (tn_line L) (tn_lstart L) L') (tn_pos L') (length (tn_indents L))"
    using c(1) m cut_tok [OF _ at] assms(3,4)
    by (simp add: cut_ok_def tn_emit_at_def tn_depth_snoc is_layout_def)
  then show ?thesis using m c(3) pend by (simp add: tn_ok_def at_pos_def errs_ok_def)
qed

lemma emit_token:
  assumes "tn_ok L" "moved L L'" "tn_pos L < tn_pos L'" "\<not> is_layout k" "tn_line L' = tn_line L" "tn_lstart L' = tn_lstart L"
    "tn_text_at k (tn_src L) (tn_pos L) (tn_pos L')"
  shows "tn_ok (tn_emit k (tn_pos L) (tn_pos L' - tn_pos L) L')"
  using moved_token [OF assms(1-4,7)] assms(5,6) by (simp add: tn_emit_def)

lemma line_same [simp]:
  "tn_line (adv n L) = tn_line L" "tn_lstart (adv n L) = tn_lstart L" "tn_line (skip P L) = tn_line L" "tn_lstart (skip P L) = tn_lstart L"
  "tn_line (fst (num_fraction L)) = tn_line L" "tn_lstart (fst (num_fraction L)) = tn_lstart L"
  "tn_line (fst (num_exponent L)) = tn_line L" "tn_lstart (fst (num_exponent L)) = tn_lstart L"
  "tn_line (fst (num_suffix L)) = tn_line L" "tn_lstart (fst (num_suffix L)) = tn_lstart L"
  by (simp_all add: adv_def skip_def num_fraction_def num_exponent_def num_suffix_def Let_def)

subsection \<open>Words, numbers and strings\<close>

lemma alph_not_lf [simp]: "\<not> tx_idn LF" "\<not> tx_dig LF" "\<not> tx_hex LF" "\<not> tx_alph LF"
  by (simp_all add: tx_idn_def tx_alph_def tx_dig_def tx_hex_def char_in_def less_eq_char_def)

lemma kw_lookup_range: "tn_kw_lookup s = 3 \<or> 7 \<le> tn_kw_lookup s \<and> tn_kw_lookup s < 33"
proof -
  have r: "\<forall>kw \<in> set tn_kws. 7 \<le> snd kw \<and> snd kw < 33" by (simp add: tn_kws_def)
  show ?thesis
  proof (cases "find (\<lambda>kw. fst kw = s) tn_kws")
    case (Some kw)
    then have "kw \<in> set tn_kws" by (auto simp: find_Some_iff)
    then show ?thesis using Some r by (simp add: tn_kw_lookup_def)
  qed (simp add: tn_kw_lookup_def)
qed

text \<open>What one turn of the main loop reaches.\<close>

definition steps_to :: "tn_lex \<Rightarrow> tn_lex \<Rightarrow> bool" where
  "steps_to L X \<longleftrightarrow> tn_ok X \<and> tn_src X = tn_src L \<and> tn_max X = tn_max L \<and> tn_pos L < tn_pos X"

lemma emit_steps:
  assumes "tn_ok L" "moved L L'" "tn_pos L < tn_pos L'" "\<not> is_layout k" "tn_line L' = tn_line L" "tn_lstart L' = tn_lstart L"
    "tn_text_at k (tn_src L) (tn_pos L) (tn_pos L')"
  shows "steps_to L (tn_emit k (tn_pos L) (tn_pos L' - tn_pos L) L')"
  using emit_token [OF assms] moved_facts [OF assms(2)] assms(3) by (simp add: steps_to_def tn_emit_def)

lemma peekc_adv: "peekc (adv n L) k = peekc L (n + k)"
  by (simp add: peekc_def adv_def add.assoc)

lemma peekc_drop: "peekc L k = Some c \<Longrightarrow> drop (tn_pos L + k) (tn_src L) = c # drop (Suc (tn_pos L + k)) (tn_src L)"
  by (auto simp: peekc_Some Cons_nth_drop_Suc)

lemma tn_ok_ident:
  assumes "tn_ok L" "peekc L 0 = Some c" "tx_alph c"
  shows "steps_to L (tn_scan_ident L)"
proof -
  let ?L = "skip tx_idn L" and ?s = "slice (tn_src L) (tn_pos L) (tn_pos (skip tx_idn L))"
  have m: "moved L ?L" by (rule moved_skip [OF moved_refl [OF assms(1)]]) simp
  have idn: "tx_idn c" using assms(3) by (simp add: tx_idn_def)
  have lt: "tn_pos L < tn_pos ?L" by (rule skip_moves [where P = tx_idn, OF assms(2) idn])
  have hd: "?s \<noteq> [] \<and> hd ?s = c"
    using slice_hd [OF lt moved_facts(10) [OF m]] assms(2) by (simp add: peekc_Some)
  have w: "word_tok (tn_kw_lookup ?s) ?s (drop (tn_pos ?L) (tn_src L))"
    using hd assms(3) skip_set [of _ L tx_idn] skip_hd [of tx_idn L] unfolding word_tok_def by blast
  have "tn_text_at (tn_kw_lookup ?s) (tn_src L) (tn_pos L) (tn_pos ?L)" "\<not> is_layout (tn_kw_lookup ?s)"
    using w kw_lookup_range [of ?s] by (auto simp: tn_text_at_def text_ok_def is_layout_def tn_ops_def)
  from emit_steps [OF assms(1) m lt this(2) _ _ this(1)] show ?thesis
    by (simp add: tn_scan_ident_def Let_def span_def slice_def)
qed

lemma fraction_part:
  assumes "moved L L'" "num_fraction L' = (X, b)"
  shows "moved L X" "tn_pos L' \<le> tn_pos X" "frac_text (slice (tn_src L) (tn_pos L') (tn_pos X))" "b \<longleftrightarrow> tn_pos L' < tn_pos X"
proof -
  note f = moved_facts [OF assms(1)]
  have "moved L X \<and> tn_pos L' \<le> tn_pos X \<and> frac_text (slice (tn_src L) (tn_pos L') (tn_pos X)) \<and> (b \<longleftrightarrow> tn_pos L' < tn_pos X)"
  proof (cases "peekc L' 0 = Some CHR ''.''")
    case True
    let ?A = "adv 1 L'"
    have X: "X = skip tx_digu ?A" "b" using assms(2) True by (simp_all add: num_fraction_def)
    have mA: "moved L ?A" by (rule moved_adv1 [OF assms(1) True]) simp
    have m: "moved L X" unfolding X(1) by (rule moved_skip [OF mA]) simp
    have le: "tn_pos L' < tn_pos X" using skip_le [of ?A tx_digu] X by simp
    have "slice (tn_src L) (tn_pos L') (tn_pos X) = CHR ''.'' # slice (tn_src L) (Suc (tn_pos L')) (tn_pos X)"
      using slice_Cons [OF le moved_facts(10) [OF m]] True f(1) by (simp add: peekc_Some)
    moreover have "\<forall>c \<in> set (slice (tn_src L) (Suc (tn_pos L')) (tn_pos X)). tx_digu c"
      using skip_set [of _ ?A tx_digu] f(1) X(1) by auto
    ultimately show ?thesis using m le X(2) by (simp add: frac_text_def)
  next
    case False
    then show ?thesis using assms by (simp add: num_fraction_def frac_text_def slice_def)
  qed
  then show "moved L X" "tn_pos L' \<le> tn_pos X" "frac_text (slice (tn_src L) (tn_pos L') (tn_pos X))" "b \<longleftrightarrow> tn_pos L' < tn_pos X"
    by blast+
qed

lemma exponent_part:
  assumes "moved L L'" "num_exponent L' = (X, b)"
  shows "moved L X" "tn_pos L' \<le> tn_pos X" "exp_text (slice (tn_src L) (tn_pos L') (tn_pos X))" "b \<longleftrightarrow> tn_pos L' < tn_pos X"
proof -
  note f = moved_facts [OF assms(1)]
  have "moved L X \<and> tn_pos L' \<le> tn_pos X \<and> exp_text (slice (tn_src L) (tn_pos L') (tn_pos X)) \<and> (b \<longleftrightarrow> tn_pos L' < tn_pos X)"
  proof (cases "peekc L' 0 = Some CHR ''e'' \<or> peekc L' 0 = Some CHR ''E''")
    case True
    then obtain e where e: "peekc L' 0 = Some e" "e = CHR ''e'' \<or> e = CHR ''E''" by auto
    let ?A = "adv 1 L'"
    let ?B = "if peekc ?A 0 = Some CHR ''+'' \<or> peekc ?A 0 = Some CHR ''-'' then adv 1 ?A else ?A"
    have X: "X = skip tx_dig ?B" "b" using assms(2) True by (auto simp: num_exponent_def Let_def)
    have mA: "moved L ?A" by (rule moved_adv1 [OF assms(1) e(1)]) (use e(2) in auto)
    have mB: "moved L ?B"
    proof (cases "peekc ?A 0 = Some CHR ''+'' \<or> peekc ?A 0 = Some CHR ''-''")
      case True
      then obtain s where s: "peekc ?A 0 = Some s" "s \<noteq> LF" by auto
      show ?thesis using moved_adv1 [OF mA s] True by simp
    next
      case False
      show ?thesis by (simp only: False if_False mA)
    qed
    have m: "moved L X" unfolding X(1) by (rule moved_skip [OF mB]) simp
    have pB: "tn_pos ?B = Suc (tn_pos L') \<or> tn_pos ?B = Suc (Suc (tn_pos L'))" by simp
    have leX: "tn_pos ?B \<le> tn_pos X" unfolding X(1) by (rule skip_le)
    have bX: "tn_pos X \<le> length (tn_src L)" by (rule moved_facts(10) [OF m])
    let ?sg = "slice (tn_src L) (Suc (tn_pos L')) (tn_pos ?B)" and ?ds = "slice (tn_src L) (tn_pos ?B) (tn_pos X)"
    have "tn_src ?B = tn_src L" using moved_facts(1) [OF mB] .
    then have ds: "\<forall>c \<in> set ?ds. tx_dig c" using skip_set [of _ ?B tx_dig] X(1) by simp
    have sg: "?sg = [] \<or> ?sg = ''+'' \<or> ?sg = ''-''"
    proof (cases "peekc ?A 0 = Some CHR ''+'' \<or> peekc ?A 0 = Some CHR ''-''")
      case True
      then have "Suc (tn_pos L') < length (tn_src L)" "tn_src L ! Suc (tn_pos L') = CHR ''+'' \<or> tn_src L ! Suc (tn_pos L') = CHR ''-''"
        using f(1) by (auto simp: peekc_Some)
      then show ?thesis using True slice_Cons [of "Suc (tn_pos L')" "Suc (Suc (tn_pos L'))" "tn_src L"] by (auto simp: slice_def)
    next
      case False
      then have "tn_pos ?B = Suc (tn_pos L')" by simp
      then show ?thesis by (simp only: slice_def) simp
    qed
    have "slice (tn_src L) (tn_pos L') (tn_pos X) = e # slice (tn_src L) (Suc (tn_pos L')) (tn_pos X)"
      using slice_Cons [of "tn_pos L'" "tn_pos X" "tn_src L"] pB leX bX e(1) f(1) by (auto simp: peekc_Some)
    also have "slice (tn_src L) (Suc (tn_pos L')) (tn_pos X) = ?sg @ ?ds"
      by (rule slice_append) (use pB leX in auto)
    finally have "exp_text (slice (tn_src L) (tn_pos L') (tn_pos X))"
      unfolding exp_text_def using sg ds e(2) by (intro disjI2 exI [of _ e] exI [of _ ?sg] exI [of _ ?ds]) simp
    then show ?thesis using m pB leX X(2) by auto
  next
    case False
    then show ?thesis using assms by (simp add: num_exponent_def exp_text_def slice_def)
  qed
  then show "moved L X" "tn_pos L' \<le> tn_pos X" "exp_text (slice (tn_src L) (tn_pos L') (tn_pos X))" "b \<longleftrightarrow> tn_pos L' < tn_pos X"
    by blast+
qed

lemma suffix_part:
  assumes "moved L L'" "num_suffix L' = (X, b)"
  shows "moved L X" "tn_pos L' \<le> tn_pos X" "suf_text (slice (tn_src L) (tn_pos L') (tn_pos X))" "b \<longleftrightarrow> tn_pos L' < tn_pos X"
proof -
  note f = moved_facts [OF assms(1)]
  have "moved L X \<and> tn_pos L' \<le> tn_pos X \<and> suf_text (slice (tn_src L) (tn_pos L') (tn_pos X)) \<and> (b \<longleftrightarrow> tn_pos L' < tn_pos X)"
  proof (cases "peekc L' 0 = Some CHR ''j'' \<or> peekc L' 0 = Some CHR ''J''")
    case True
    then obtain j where j: "peekc L' 0 = Some j" "j = CHR ''j'' \<or> j = CHR ''J''" by auto
    have X: "X = adv 1 L'" "b" using assms(2) True by (auto simp: num_suffix_def)
    have "moved L X" unfolding X(1) by (rule moved_adv1 [OF assms(1) j(1)]) (use j(2) in auto)
    moreover have "slice (tn_src L) (tn_pos L') (tn_pos X) = [j]"
      using slice_Cons [of "tn_pos L'" "tn_pos X" "tn_src L"] X j(1) f(1) by (simp add: peekc_Some slice_def)
    ultimately show ?thesis using X j(2) by (auto simp: suf_text_def)
  next
    case False
    then show ?thesis using assms by (simp add: num_suffix_def suf_text_def slice_def)
  qed
  then show "moved L X" "tn_pos L' \<le> tn_pos X" "suf_text (slice (tn_src L) (tn_pos L') (tn_pos X))" "b \<longleftrightarrow> tn_pos L' < tn_pos X"
    by blast+
qed

text \<open>Where a number may start.\<close>

definition num_here :: "tn_lex \<Rightarrow> bool" where
  "num_here L \<longleftrightarrow> (\<exists>c. peekc L 0 = Some c \<and> (tx_dig c \<or> c = CHR ''.'' \<and> (\<exists>d. peekc L 1 = Some d \<and> tx_dig d)))"

lemma num_start_slice:
  assumes "num_here L" "tn_pos L < q" "q \<le> length (tn_src L)" "peekc L 0 = Some CHR ''.'' \<longrightarrow> Suc (tn_pos L) < q"
  shows "num_start (slice (tn_src L) (tn_pos L) q)"
proof -
  obtain c where c: "peekc L 0 = Some c" "tx_dig c \<or> c = CHR ''.'' \<and> (\<exists>d. peekc L 1 = Some d \<and> tx_dig d)"
    using assms(1) unfolding num_here_def by blast
  have s: "slice (tn_src L) (tn_pos L) q = c # slice (tn_src L) (Suc (tn_pos L)) q"
    using slice_Cons [OF assms(2,3)] c(1) by (simp add: peekc_Some)
  show ?thesis
  proof (cases "tx_dig c")
    case False
    then obtain d where d: "c = CHR ''.''" "peekc L 1 = Some d" "tx_dig d" using c(2) by blast
    then have "slice (tn_src L) (Suc (tn_pos L)) q = d # slice (tn_src L) (Suc (Suc (tn_pos L))) q"
      using slice_Cons [OF _ assms(3)] assms(4) c(1) by (simp add: peekc_Some)
    then show ?thesis using s d by (simp add: num_start_def)
  qed (use s in \<open>simp add: num_start_def\<close>)
qed

lemma slice_empty: "slice src p q = [] \<longleftrightarrow> q \<le> p \<or> length src \<le> p"
  by (auto simp: slice_def)

lemma text_int: "tn_text_at TN_TOK_INT src p q \<longleftrightarrow> int_text (slice src p q) \<and> num_start (slice src p q)"
  and text_float: "tn_text_at TN_TOK_FLOAT src p q \<longleftrightarrow> float_text (slice src p q) \<and> num_start (slice src p q)"
  and text_string: "tn_text_at TN_TOK_STRING src p q \<longleftrightarrow> str_at src p q"
  and layout_num: "\<not> is_layout TN_TOK_INT" "\<not> is_layout TN_TOK_FLOAT" "\<not> is_layout TN_TOK_STRING"
  by (simp_all add: tn_text_at_def text_ok_def is_layout_def)

lemma ok_prefixed:
  assumes "tn_ok L" "num_here L" "num_prefix L = Some P" "X = skip P (adv 2 L)"
  shows "steps_to L (tn_emit TN_TOK_INT (tn_pos L) (tn_pos X - tn_pos L) X)"
proof -
  obtain p where p: "peekc L 0 = Some CHR ''0''" "peekc L 1 = Some p"
    "p \<in> set ''xX'' \<and> P = (\<lambda>c. tx_hex c \<or> c = CHR ''_'') \<or> p \<in> set ''oObB'' \<and> P = tx_digu"
    using assms(3) by (auto simp: num_prefix_def split: if_splits option.splits)
  have P: "\<not> P LF" using p(3) by auto
  have pn: "p \<noteq> LF" using p(3) by auto
  have "moved L (adv 1 (adv 1 L))"
    by (rule moved_adv1 [OF moved_adv1 [OF moved_refl [OF assms(1)] p(1)]]) (use p(2) pn in \<open>auto simp: peekc_adv\<close>)
  then have mA: "moved L (adv 2 L)" by (simp add: adv_def)
  have m: "moved L X" unfolding assms(4) by (rule moved_skip [where P = P, OF mA P])
  have le: "tn_pos L + 2 \<le> tn_pos X" using skip_le [of "adv 2 L" P] assms(4) by simp
  have bX: "tn_pos X \<le> length (tn_src L)" by (rule moved_facts(10) [OF m])
  let ?ds = "slice (tn_src L) (Suc (Suc (tn_pos L))) (tn_pos X)"
  have s: "slice (tn_src L) (tn_pos L) (tn_pos X) = CHR ''0'' # p # ?ds"
    using slice_Cons [of "tn_pos L" "tn_pos X" "tn_src L"] slice_Cons [of "Suc (tn_pos L)" "tn_pos X" "tn_src L"] le bX p(1,2)
    by (simp add: peekc_Some)
  have ds: "\<forall>c \<in> set ?ds. P c" using skip_set [of _ "adv 2 L" P] assms(4) by simp
  have D: "p \<in> set ''xX'' \<and> (\<forall>c \<in> set ?ds. tx_hex c \<or> c = CHR ''_'') \<or> p \<in> set ''oObB'' \<and> (\<forall>c \<in> set ?ds. tx_digu c)"
    using p(3)
  proof
    assume "p \<in> set ''xX'' \<and> P = (\<lambda>c. tx_hex c \<or> c = CHR ''_'')"
    then show ?thesis using ds by (intro disjI1 conjI) simp_all
  next
    assume "p \<in> set ''oObB'' \<and> P = tx_digu"
    then show ?thesis using ds by (intro disjI2 conjI) simp_all
  qed
  have "int_text (slice (tn_src L) (tn_pos L) (tn_pos X))"
    unfolding int_text_def s by (rule disjI2, rule exI, rule exI, rule conjI [OF refl D])
  moreover have "num_start (slice (tn_src L) (tn_pos L) (tn_pos X))" unfolding s by (simp add: num_start_def tx_dig_def char_in_def)
  ultimately show ?thesis
    using emit_steps [OF assms(1) m, of TN_TOK_INT] le assms(4) by (simp add: text_int layout_num)
qed

lemma ok_num:
  assumes "tn_ok L" "num_here L"
  shows "steps_to L (tn_scan_num L)"
proof (cases "num_prefix L")
  case (Some P)
  then show ?thesis using ok_prefixed [OF assms Some refl] by (simp add: tn_scan_num_def Let_def)
next
  case None
  define A where "A = skip tx_digu L"
  obtain B f1 where B: "num_fraction A = (B, f1)" by fastforce
  obtain C f2 where C: "num_exponent B = (C, f2)" by fastforce
  obtain D f3 where D: "num_suffix C = (D, f3)" by fastforce
  have mA: "moved L A" unfolding A_def by (rule moved_skip [OF moved_refl [OF assms(1)]]) simp
  note b = fraction_part [OF mA B] note c = exponent_part [OF b(1) C] note d = suffix_part [OF c(1) D]
  let ?s = "slice (tn_src L)" and ?k = "if f1 \<or> f2 \<or> f3 then TN_TOK_FLOAT else TN_TOK_INT"
  have le: "tn_pos L \<le> tn_pos A" unfolding A_def by (rule skip_le)
  have bD: "tn_pos D \<le> length (tn_src L)" by (rule moved_facts(10) [OF d(1)])
  have ds: "\<forall>c \<in> set (?s (tn_pos L) (tn_pos A)). tx_digu c" using skip_set [of _ L tx_digu] A_def by auto
  have parts: "?s (tn_pos L) (tn_pos D) = ?s (tn_pos L) (tn_pos A) @ ?s (tn_pos A) (tn_pos B) @ ?s (tn_pos B) (tn_pos C) @ ?s (tn_pos C) (tn_pos D)"
    using slice_append [of "tn_pos L" "tn_pos A" "tn_pos D" "tn_src L"] slice_append [of "tn_pos A" "tn_pos B" "tn_pos D" "tn_src L"]
      slice_append [of "tn_pos B" "tn_pos C" "tn_pos D" "tn_src L"] le b(2) c(2) d(2) by simp
  obtain ch where ch: "peekc L 0 = Some ch" "tx_dig ch \<or> ch = CHR ''.'' \<and> (\<exists>d. peekc L 1 = Some d \<and> tx_dig d)"
    using assms(2) unfolding num_here_def by blast
  have far: "tn_pos L < tn_pos D \<and> (ch = CHR ''.'' \<longrightarrow> Suc (tn_pos L) < tn_pos D)"
  proof (cases "tx_dig ch")
    case True
    then have "tn_pos L < tn_pos A" unfolding A_def using skip_moves [where P = tx_digu, OF ch(1)] by simp
    moreover have "ch \<noteq> CHR ''.''" using True by (auto simp: tx_dig_def char_in_def less_eq_char_def)
    ultimately show ?thesis using b(2) c(2) d(2) by simp
  next
    case False
    then obtain d where dd: "ch = CHR ''.''" "peekc L 1 = Some d" "tx_dig d" using ch(2) by blast
    have nd: "\<not> tx_digu CHR ''.''" by (simp add: tx_dig_def char_in_def less_eq_char_def)
    have "drop (tn_pos L) (tn_src L) = CHR ''.'' # drop (Suc (tn_pos L)) (tn_src L)" using peekc_drop [OF ch(1)] dd(1) by simp
    then have AL: "A = L" using nd by (simp add: A_def skip_def adv_def)
    have "B = skip tx_digu (adv 1 L)" using B ch(1) dd(1) AL by (simp add: num_fraction_def)
    moreover have "peekc (adv 1 L) 0 = Some d" using dd(2) by (simp add: peekc_adv)
    ultimately have "Suc (tn_pos L) < tn_pos B" using skip_moves [where P = tx_digu, of "adv 1 L" d] dd(3) by simp
    then show ?thesis using c(2) d(2) by simp
  qed
  have ns: "num_start (?s (tn_pos L) (tn_pos D))"
    by (rule num_start_slice [OF assms(2) _ bD]) (use far ch(1) in auto)
  have "tn_text_at ?k (tn_src L) (tn_pos L) (tn_pos D)"
  proof (cases "f1 \<or> f2 \<or> f3")
    case True
    then have "tn_pos A < tn_pos D" using b(2,4) c(2,4) d(2,4) by auto
    then have "?s (tn_pos A) (tn_pos D) \<noteq> []" using bD by (simp add: slice_empty)
    then have "?s (tn_pos A) (tn_pos B) @ ?s (tn_pos B) (tn_pos C) @ ?s (tn_pos C) (tn_pos D) \<noteq> []"
      using slice_append [of "tn_pos A" "tn_pos B" "tn_pos D" "tn_src L"]
        slice_append [of "tn_pos B" "tn_pos C" "tn_pos D" "tn_src L"] b(2) c(2) d(2) by simp
    then have "float_text (?s (tn_pos L) (tn_pos D))"
      unfolding float_text_def parts using ds b(3) c(3) d(3) by blast
    then show ?thesis using True ns by (simp add: text_float)
  next
    case False
    then have "tn_pos D = tn_pos A" using b(2,4) c(2,4) d(2,4) by simp
    then show ?thesis using False ds ns by (simp add: text_int int_text_def)
  qed
  moreover have "\<not> is_layout ?k" by (simp add: layout_num)
  moreover have "tn_line D = tn_line L" "tn_lstart D = tn_lstart L"
    using line_same(5,6) [of A, unfolded B] line_same(7,8) [of B, unfolded C] line_same(9,10) [of C, unfolded D] by (simp_all add: A_def)
  ultimately show ?thesis
    using emit_steps [OF assms(1) d(1)] far by (simp add: tn_scan_num_def None Let_def A_def [symmetric] B C D)
qed

lemma string_loop_run:
  assumes "string_loop_tn q L = (X, b)" "moved M L" "q \<noteq> LF" "str_run False q (tn_src M) p (tn_pos L)"
  shows "moved M X \<and> tn_pos L \<le> tn_pos X \<and> (\<exists>r. str_run False q (tn_src M) p r \<and>
    (if b then r < length (tn_src M) \<and> tn_src M ! r = q \<and> tn_pos X = r \<or>
       tn_pos X = length (tn_src M) \<and> (r = tn_pos X \<or> Suc r = tn_pos X \<and> tn_src M ! r = CHR 0x5C)
     else r < length (tn_src M) \<and> tn_src M ! r = LF \<and> tn_pos X = r))"
  using assms
proof (induction q L rule: string_loop_tn.induct)
  case (1 q L)
  note unf = string_loop_tn.simps [of q L]
  note f = moved_facts [OF 1(4)]
  show ?case
  proof (cases "peekc L 0")
    case None
    then have "tn_pos L = length (tn_src M)" "X = L" "b" using 1(3) f(1,10) unf by (auto simp: peekc_def split: if_splits)
    then show ?thesis using 1(4,6) by auto
  next
    case (Some c)
    then have c: "tn_pos L < length (tn_src M)" "tn_src M ! tn_pos L = c" using f(1) by (auto simp: peekc_Some)
    consider (quote) "c = q" | (esc) "c \<noteq> q" "c = CHR 0x5C" "peekc L 1 \<noteq> None" | (lf) "c \<noteq> q" "c = LF"
      | (last) "c \<noteq> q" "c = CHR 0x5C" "peekc L 1 = None" | (char) "c \<noteq> q" "c \<noteq> CHR 0x5C" "c \<noteq> LF" by blast
    then show ?thesis
    proof cases
      case quote
      then have "X = L" "b" using 1(3) Some unf by simp_all
      then show ?thesis using 1(4,6) c quote by auto
    next
      case lf
      then have "X = L" "\<not> b" using 1(3) Some unf by simp_all
      then show ?thesis using 1(4,6) c lf by auto
    next
      case esc
      have m: "moved M (skip_escape L)" by (rule moved_escape [OF 1(4)]) (use Some esc in auto)
      have "Suc (tn_pos L) < length (tn_src M)" using esc(3) f(1) by (auto simp: peekc_def split: if_splits)
      then have "str_run False q (tn_src M) p (tn_pos (skip_escape L))"
        using run_escape [OF 1(6)] c esc by (simp add: skip_escape_def)
      moreover have "string_loop_tn q (skip_escape L) = (X, b)" using 1(3) Some esc unf by simp
      moreover have "tn_pos L \<le> tn_pos (skip_escape L)" by (simp add: skip_escape_def)
      ultimately show ?thesis using 1(1) [OF Some esc(1) conjI [OF esc(2,3)] _ m 1(5)] by simp
    next
      case last
      have m: "moved M (adv 1 L)" by (rule moved_adv1 [OF 1(4) Some]) (use last in simp)
      have e: "Suc (tn_pos L) = length (tn_src M)" using last(3) f(1) c(1) by (auto simp: peekc_def split: if_splits)
      then have "peekc (adv 1 L) 0 = None" using f(1) by (simp add: peekc_def)
      then have "string_loop_tn q (adv 1 L) = (adv 1 L, True)" by (simp add: string_loop_tn.simps)
      then have "X = adv 1 L" "b" using 1(3) Some last unf by simp_all
      then show ?thesis using m 1(6) c last(2) e by auto
    next
      case char
      have m: "moved M (adv 1 L)" by (rule moved_adv1 [OF 1(4) Some]) (use char in simp)
      have "str_run False q (tn_src M) p (tn_pos (adv 1 L))"
        using run_char [OF 1(6) c(1)] c(2) char by (simp add: str_stop_def)
      moreover have "string_loop_tn q (adv 1 L) = (X, b)" using 1(3) Some char unf by simp
      moreover have "\<not> (c = CHR 0x5C \<and> peekc L 1 \<noteq> None)" using char by simp
      ultimately show ?thesis using 1(2) [OF Some char(1) _ char(3) _ m 1(5)] by simp
    qed
  qed
qed

lemma triple_at_closes: "peekc L 2 \<noteq> None \<Longrightarrow> triple_at q L \<longleftrightarrow> closes3 q (tn_src L) (tn_pos L)"
  by (auto simp: triple_at_def closes3_def peekc_def split: if_splits)

lemma triple_loop_run:
  assumes "triple_loop q guard L = (X, b)" "moved M L" "q \<noteq> LF" "str_run True q (tn_src M) p (tn_pos L)" "length (tn_src M) \<le> tn_pos L + guard"
  shows "moved M X \<and> tn_pos L \<le> tn_pos X \<and> (\<exists>r. str_run True q (tn_src M) p r \<and>
    (if b then closes3 q (tn_src M) r \<and> tn_pos X = r + 3 else length (tn_src M) \<le> r + 2 \<and> tn_pos X = r))"
  using assms
proof (induction q guard L rule: triple_loop.induct)
  case (1 q L)
  then show ?case by auto
next
  case (2 q guard L)
  note f = moved_facts [OF 2(5)]
  show ?case
  proof (cases "peekc L 2")
    case None
    then have "X = L" "\<not> b" "length (tn_src M) \<le> tn_pos L + 2" using 2(4) f(1) by (auto simp: peekc_def split: if_splits)
    then show ?thesis using 2(5,7) by auto
  next
    case (Some d)
    then have len: "tn_pos L + 2 < length (tn_src M)" using f(1) by (simp add: peekc_Some)
    then obtain c where c: "peekc L 0 = Some c" "tn_src M ! tn_pos L = c" using f(1) by (simp add: peekc_def)
    have p1: "peekc L 1 \<noteq> None" using len f(1) by (simp add: peekc_def)
    have cl: "triple_at q L \<longleftrightarrow> closes3 q (tn_src M) (tn_pos L)" using triple_at_closes [of L q] Some f(1) by simp
    show ?thesis
    proof (cases "triple_at q L")
      case True
      then have X: "X = adv 3 L" "b" using 2(4) Some by simp_all
      have "moved M (adv 1 (adv 1 (adv 1 L)))"
        by (intro moved_adv1 [where c = q] 2(5,6)) (use True in \<open>simp_all add: triple_at_def peekc_adv numeral_2_eq_2\<close>)
      then have "moved M X" unfolding X(1) by (simp add: adv_def numeral_3_eq_3)
      then show ?thesis using X cl True 2(7) by auto
    next
      case nt: False
      consider (esc) "c = CHR 0x5C" | (lf) "c = LF" | (char) "c \<noteq> CHR 0x5C" "c \<noteq> LF" by blast
      then show ?thesis
      proof cases
        case esc
        have m: "moved M (skip_escape L)" by (rule moved_escape [OF 2(5)]) (use c esc p1 in auto)
        have "str_run True q (tn_src M) p (tn_pos (skip_escape L))"
          using run_escape [OF 2(7)] len c esc by (simp add: skip_escape_def)
        moreover have "triple_loop q guard (skip_escape L) = (X, b)" using 2(4) Some nt c esc p1 by simp
        moreover have "tn_pos (skip_escape L) = tn_pos L + 2" by (simp add: skip_escape_def)
        ultimately show ?thesis using 2(1) [OF _ nt _ _ m 2(6)] Some c esc p1 2(8) by simp
      next
        case lf
        have m: "moved M (next_line L)" by (rule moved_next_line [OF 2(5)]) (use c lf in simp)
        have "str_run True q (tn_src M) p (tn_pos (next_line L))"
          using run_char [OF 2(7)] len c lf nt cl by (simp add: str_stop_def)
        moreover have "triple_loop q guard (next_line L) = (X, b)" using 2(4) Some nt c lf by simp
        ultimately show ?thesis using 2(2) [OF _ nt _ _ _ m 2(6)] Some c lf 2(8) by simp
      next
        case char
        have m: "moved M (adv 1 L)" by (rule moved_adv1 [OF 2(5) c(1)]) (use char in simp)
        have "str_run True q (tn_src M) p (tn_pos (adv 1 L))"
          using run_char [OF 2(7)] len c char nt cl by (simp add: str_stop_def)
        moreover have "triple_loop q guard (adv 1 L) = (X, b)" using 2(4) Some nt c char by simp
        ultimately show ?thesis using 2(3) [OF _ nt _ _ _ m 2(6)] Some c char 2(8) by simp
      qed
    qed
  qed
qed

lemma run_start_le: "str_run t q src p r \<Longrightarrow> p \<le> r"
  by (induction rule: str_run.induct) auto

lemma string_steps:
  assumes "tn_ok L" "moved L X" "tn_pos L < tn_pos X" "str_at (tn_src L) (tn_pos L) (tn_pos X)"
  shows "steps_to L (tn_emit_at TN_TOK_STRING (tn_pos L) (tn_pos X - tn_pos L) (tn_line L) (tn_lstart L) X)"
  using moved_token [OF assms(1-3), of TN_TOK_STRING] assms(3,4) moved_facts [OF assms(2)]
  by (simp add: steps_to_def text_string layout_num)

text \<open>A string literal after its prefix of \<open>n\<close> letters.\<close>

lemma tn_ok_string:
  assumes "tn_ok L" "n \<le> 2" "\<forall>i < n. is_prefix_letter (tn_src L ! (tn_pos L + i))" "peekc L n = Some q" "q = CHR 0x22 \<or> q = CHR 0x27"
  shows "steps_to L (tn_scan_str_at (tn_pos L) (adv n L))"
proof -
  let ?A = "adv n L" and ?src = "tn_src L" and ?p = "tn_pos L + n"
  have q: "?p < length ?src" "?src ! ?p = q" "q \<noteq> LF" using assms(4,5) by (auto simp: peekc_Some)
  have pl: "LF \<noteq> c" if "is_prefix_letter c" for c using that by (auto simp: is_prefix_letter_def)
  have "LF \<notin> set (slice ?src (tn_pos L) ?p)"
  proof
    assume "LF \<in> set (slice ?src (tn_pos L) ?p)"
    then obtain i where i: "LF = ?src ! i" "tn_pos L \<le> i" "i < ?p" using q(1) by (auto simp: slice_set)
    then have "i - tn_pos L < n" by linarith
    then show False using assms(3) [rule_format, of "i - tn_pos L"] pl [of LF] i by simp
  qed
  then have mA: "moved L ?A" using moved_adv [OF moved_refl [OF assms(1)], of n] q(1) by simp
  have A0: "peekc ?A 0 = Some q" using assms(4) by (simp add: peekc_adv)
  have qq: "tn_src ?A ! tn_pos ?A = q" using q(2) by simp
  note common = assms(2,3) q(1,2) assms(5)
  show ?thesis
  proof (cases "closes3 q ?src ?p")
    case True
    let ?B = "adv 3 ?A"
    have t: "triple_at q ?A" "peekc ?A 2 \<noteq> None" using True by (auto simp: triple_at_def closes3_def peekc_def add.assoc)
    have t3: "peekc ?A 2 \<noteq> None \<and> peekc ?A 1 = Some q \<and> peekc ?A 2 = Some q" using t by (simp add: triple_at_def)
    have "moved L (adv 1 (adv 1 (adv 1 ?A)))"
      by (intro moved_adv1 [where c = q] mA q(3)) (use t(1) in \<open>simp_all add: triple_at_def peekc_adv numeral_2_eq_2\<close>)
    then have mB: "moved L ?B" by (simp add: adv_def numeral_3_eq_3)
    obtain X b where X: "triple_loop q (length ?src) ?B = (X, b)" by fastforce
    have "tn_pos ?B = ?p + 3" by simp
    then obtain r where r: "moved L X" "?p + 3 \<le> tn_pos X" "str_run True q ?src (?p + 3) r"
      "if b then closes3 q ?src r \<and> tn_pos X = r + 3 else length ?src \<le> r + 2 \<and> tn_pos X = r"
      using triple_loop_run [OF X mB q(3) run_start] by auto
    have at: "str_at ?src (tn_pos L) (tn_pos X)"
      unfolding str_at_def
      by (rule exI [of _ n], rule exI [of _ q], rule exI [of _ r], unfold if_P [OF True], intro conjI common r(3))
        (use r(4) in \<open>auto split: if_splits\<close>)
    let ?Y = "if b then X else tn_err 118 X"
    have Y: "moved L ?Y" "tn_pos ?Y = tn_pos X" using r(1) moved_err [OF r(1), of 118] by auto
    have "tn_scan_str_at (tn_pos L) ?A = tn_emit_at TN_TOK_STRING (tn_pos L) (tn_pos ?Y - tn_pos L) (tn_line L) (tn_lstart L) ?Y"
      unfolding tn_scan_str_at_def Let_def qq if_P [OF t3] using X by simp
    then show ?thesis using string_steps [OF assms(1) Y(1)] Y(2) r(2) at by simp
  next
    case False
    let ?B = "adv 1 ?A"
    have nt: "\<not> (peekc ?A 2 \<noteq> None \<and> peekc ?A 1 = Some q \<and> peekc ?A 2 = Some q)"
      using False q by (auto simp: closes3_def peekc_Some)
    have mB: "moved L ?B" by (rule moved_adv1 [OF mA A0 q(3)])
    obtain X b where X: "string_loop_tn q ?B = (X, b)" by fastforce
    have "tn_pos ?B = ?p + 1" by simp
    then obtain r where r: "moved L X" "?p + 1 \<le> tn_pos X" "str_run False q ?src (?p + 1) r"
      "if b then r < length ?src \<and> ?src ! r = q \<and> tn_pos X = r \<or>
         tn_pos X = length ?src \<and> (r = tn_pos X \<or> Suc r = tn_pos X \<and> ?src ! r = CHR 0x5C)
       else r < length ?src \<and> ?src ! r = LF \<and> tn_pos X = r"
      using string_loop_run [OF X mB q(3) run_start] by auto
    let ?Y = "if \<not> b then tn_err 114 X else if peekc X 0 \<noteq> None then adv 1 X else X"
    have sx: "tn_src X = ?src" by (rule moved_facts(1) [OF r(1)])
    have "moved L (adv 1 X)" if "b" "peekc X 0 \<noteq> None"
    proof -
      have "peekc X 0 = Some q" using that r(4) sx by (auto simp: peekc_def split: if_splits)
      then show ?thesis by (rule moved_adv1 [OF r(1) _ q(3)])
    qed
    then have mY: "moved L ?Y" using r(1) moved_err [OF r(1), of 114] by simp
    have e: "r < length ?src \<and> ?src ! r = q \<and> tn_pos ?Y = r + 1 \<or> r < length ?src \<and> ?src ! r = LF \<and> tn_pos ?Y = r \<or>
        tn_pos ?Y = length ?src \<and> (r = tn_pos ?Y \<or> Suc r = tn_pos ?Y \<and> ?src ! r = CHR 0x5C)"
      using r(4) sx by (cases b) (auto simp: peekc_def)
    have "str_at ?src (tn_pos L) (tn_pos ?Y)"
      unfolding str_at_def
      by (rule exI [of _ n], rule exI [of _ q], rule exI [of _ r], unfold if_not_P [OF False], intro conjI common r(3) e)
    moreover have "tn_scan_str_at (tn_pos L) ?A = tn_emit_at TN_TOK_STRING (tn_pos L) (tn_pos ?Y - tn_pos L) (tn_line L) (tn_lstart L) ?Y"
      unfolding tn_scan_str_at_def Let_def qq if_not_P [OF nt] using X by simp
    moreover have "tn_pos L < tn_pos ?Y" using r(2) by simp
    ultimately show ?thesis using string_steps [OF assms(1) mY] by simp
  qed
qed


lemma prefix_facts:
  assumes "n = tn_is_str_prefix L" "n > 0"
  shows "n \<le> 2" "\<forall>i < n. is_prefix_letter (tn_src L ! (tn_pos L + i))" "\<exists>q. peekc L n = Some q \<and> (q = CHR 0x22 \<or> q = CHR 0x27)"
proof -
  let ?t = "take 2 (drop (tn_pos L) (tn_src L))"
  have n: "n = length (takeWhile is_prefix_letter ?t)" "peekc L n = Some CHR 0x22 \<or> peekc L n = Some CHR 0x27"
    using assms by (auto simp: tn_is_str_prefix_def Let_def split: if_splits)
  have le: "n \<le> length ?t" unfolding n(1) by (rule length_takeWhile_le)
  show "n \<le> 2" using le by simp
  show "\<exists>q. peekc L n = Some q \<and> (q = CHR 0x22 \<or> q = CHR 0x27)" using n(2) by blast
  show "\<forall>i < n. is_prefix_letter (tn_src L ! (tn_pos L + i))"
  proof (intro allI impI)
    fix i assume i: "i < n"
    then have "takeWhile is_prefix_letter ?t ! i = ?t ! i" unfolding n(1) by (rule takeWhile_nth)
    moreover have "is_prefix_letter (takeWhile is_prefix_letter ?t ! i)"
      using i nth_mem [of i "takeWhile is_prefix_letter ?t"] set_takeWhileD unfolding n(1) by metis
    ultimately show "is_prefix_letter (tn_src L ! (tn_pos L + i))" using i le by (cases "tn_pos L \<le> length (tn_src L)") simp_all
  qed
qed

lemma op_at_range: "op_at s k \<Longrightarrow> k \<in> set tn_ops"
  by (simp add: op_at_def)

lemma nth_char_peekc: "nth_char (drop (Suc (tn_pos L)) (tn_src L)) k = peekc L (Suc k)"
  by (auto simp: nth_char_def peekc_def)

lemma op_here:
  assumes "peekc L 0 = Some c"
  shows "munches (drop (tn_pos L) (tn_src L)) (tn_op c (peekc L 1) (peekc L 2))"
  using tn_op_munch [of c "drop (Suc (tn_pos L)) (tn_src L)"] peekc_drop [OF assms]
  by (simp add: nth_char_peekc numeral_2_eq_2)

lemma munch_text:
  assumes "munch (drop p src) (k, n)"
  shows "p + n \<le> length src" "0 < n" "slice src p (p + n) = tn_tok_names ! k" "k \<in> set tn_ops"
    "tn_text_at k src p (p + n)"
proof -
  have o: "op_at (drop p src) k" "n = length (tn_tok_names ! k)" using assms by (simp_all add: munch_def)
  show k: "k \<in> set tn_ops" using o(1) by (rule op_at_range)
  have t: "take n (drop p src) = tn_tok_names ! k" using o by (simp add: op_at_def)
  then show s: "slice src p (p + n) = tn_tok_names ! k" by (simp add: slice_def)
  have "list_all (\<lambda>k. tn_tok_names ! k \<noteq> []) tn_ops" by (simp add: tn_ops_list tn_tok_names_def)
  then show n0: "0 < n" using k o(2) by (simp add: list_all_iff)
  have "length (take n (drop p src)) = n" using t o(2) by simp
  then show le: "p + n \<le> length src" using n0 by simp
  have "drop p src = slice src p (p + n) @ drop (p + n) src"
    unfolding slice_def by (metis add_diff_cancel_left' append_take_drop_id drop_drop add.commute)
  then show "tn_text_at k src p (p + n)"
    using k assms le by (auto simp: tn_text_at_def text_ok_def is_layout_def tn_ops_def)
qed

lemma no_lf_ops: "k \<in> set tn_ops \<Longrightarrow> LF \<notin> set (tn_tok_names ! k)"
proof -
  have "list_all (\<lambda>k. LF \<notin> set (tn_tok_names ! k)) tn_ops" by (simp add: tn_ops_list tn_tok_names_def)
  then show "k \<in> set tn_ops \<Longrightarrow> LF \<notin> set (tn_tok_names ! k)" by (simp add: list_all_iff)
qed

lemma paren_irrelevant: "tn_ok (L\<lparr>tn_paren := d\<rparr>) \<longleftrightarrow> tn_ok L" "tn_ok (L\<lparr>tn_at_start := b\<rparr>) \<longleftrightarrow> tn_ok L"
  by (simp_all add: tn_ok_def at_pos_def cut_ok_def errs_ok_def)

lemma ok_op:
  assumes "tn_ok L" "peekc L 0 = Some c" "\<not> tx_idn c" "c \<notin> {CHR 0x22, CHR 0x27, CHR ''#'', LF}" "\<not> tn_blank c"
  shows "steps_to L (tn_scan_op L)"
proof -
  have c: "tn_pos L < length (tn_src L)" "tn_src L ! tn_pos L = c" using assms(2) by (auto simp: peekc_Some)
  note dr = peekc_drop [OF assms(2), simplified]
  show ?thesis
  proof (cases "tn_op c (peekc L 1) (peekc L 2)")
    case None
    then have "\<forall>k. \<not> op_at (drop (tn_pos L) (tn_src L)) k" using op_here [OF assms(2)] by (simp add: munches_def)
    then have "tn_bad (drop (tn_pos L) (tn_src L))" using assms(3-5) dr by (simp add: tn_bad_def)
    then have g: "tn_gap (tn_src L) (tn_pos L) (Suc (tn_pos L))" by (rule gap_bad)
    let ?e = "if c = CHR ''!'' then 115 else 116 :: nat"
    let ?X = "adv 1 (tn_err ?e L)"
    have E: "peekc (tn_err ?e L) 0 = Some c" using assms(2) by (auto simp: peekc_def split: if_splits)
    have m: "moved L ?X" by (rule moved_adv1 [OF moved_err [OF moved_refl [OF assms(1)]] E]) (use assms(4) in auto)
    note f = moved_facts [OF m]
    have "cut_ok L (tn_pos L) (length (tn_indents L) + tn_pending L)" using assms(1) by (simp add: tn_ok_def)
    then have "cut_ok ?X (Suc (tn_pos L)) (length (tn_indents L) + tn_pending L)"
      using f(1,6,7) cut_gap [OF _ g] by (simp add: cut_ok_def)
    then have "tn_ok ?X" using assms(1) f c(1) by (simp add: tn_ok_def at_pos_def)
    then show ?thesis using None c(2) f(7) by (simp add: tn_scan_op_def Let_def steps_to_def)
  next
    case (Some r)
    obtain k n where r: "r = (k, n)" by (cases r)
    have mu: "munch (drop (tn_pos L) (tn_src L)) (k, n)" using op_here [OF assms(2)] Some r by (simp add: munches_def)
    note t = munch_text [OF mu]
    have m: "moved L (adv n L)"
      by (rule moved_adv [OF moved_refl [OF assms(1)] t(1)]) (simp add: t(3) no_lf_ops [OF t(4)])
    have "\<not> is_layout k" using t(4) by (auto simp: is_layout_def tn_ops_def)
    from emit_steps [OF assms(1) m _ this _ _] t(2,5)
    have s: "steps_to L (tn_emit k (tn_pos L) n (adv n L))" by simp
    have "adv n (tn_emit k (tn_pos L) n L) = tn_emit k (tn_pos L) n (adv n L)"
      by (simp add: tn_emit_def tn_emit_at_def adv_def)
    then show ?thesis using s Some r c(2) by (simp add: tn_scan_op_def Let_def tn_emit_op_def steps_to_def paren_irrelevant)
  qed
qed


subsection \<open>Indentation\<close>

lemma emit_layout:
  assumes "cut_ok L p d" "at_pos L p" "is_layout k" "k = TN_TOK_INDENT \<Longrightarrow> d' = d + 1" "k = TN_TOK_DEDENT \<Longrightarrow> d = d' + 1"
    "k \<noteq> TN_TOK_INDENT \<Longrightarrow> k \<noteq> TN_TOK_DEDENT \<Longrightarrow> d' = d"
  shows "cut_ok (tn_emit k p 0 L) p d'"
proof (cases "length (tn_toks L) < tn_max L")
  case True
  let ?t = "\<lparr>tk_kind = k, tk_off = p, tk_len = 0, tk_line = tn_line L, tk_col = tn_col p (tn_lstart L)\<rparr>"
  have "tn_text_at k (tn_src L) p p" using assms(3) by (auto simp: tn_text_at_def text_ok_def is_layout_def slice_def)
  then have at: "tn_tok_at (tn_src L) p ?t"
    using assms(2) by (simp add: tn_tok_at_def at_pos_def tn_col_place)
  have "tn_cut (tn_src L) p (tn_toks L @ [?t])"
    using cut_tok [OF _ at] assms(1) True by (simp add: cut_ok_def)
  moreover have "tn_depth 0 (tn_toks L @ [?t]) = Some d'"
    using assms(1,4-6) True by (auto simp: cut_ok_def tn_depth_snoc)
  ultimately show ?thesis using True by (simp add: cut_ok_def tn_emit_def tn_emit_at_def)
qed (simp add: cut_ok_def tn_emit_def tn_emit_at_def)

text \<open>States that differ in the tokens and the indentation stack.\<close>

definition same_place :: "tn_lex \<Rightarrow> tn_lex \<Rightarrow> bool" where
  "same_place L X \<longleftrightarrow> tn_src X = tn_src L \<and> tn_pos X = tn_pos L \<and> tn_line X = tn_line L \<and> tn_lstart X = tn_lstart L \<and>
     tn_paren X = tn_paren L \<and> tn_pending X = tn_pending L \<and> tn_max X = tn_max L \<and> tn_errs X = tn_errs L"

lemma same_place_at: "same_place L X \<Longrightarrow> at_pos X p \<longleftrightarrow> at_pos L p"
  by (simp add: same_place_def at_pos_def)

lemma same_place_trans: "same_place L X \<Longrightarrow> same_place X Y \<Longrightarrow> same_place L Y"
  by (simp add: same_place_def)

lemma emit_same: "same_place L (tn_emit k p n L)"
  by (simp add: same_place_def tn_emit_def)

lemma pop_indents_ok:
  "cut_ok L p (length ds) \<Longrightarrow> at_pos L p \<Longrightarrow>
   cut_ok (pop_indents col p L ds) p (length (dropWhile (\<lambda>t. col < t) ds)) \<and> same_place L (pop_indents col p L ds) \<and>
   tn_indents (pop_indents col p L ds) = rev (dropWhile (\<lambda>t. col < t) ds)"
proof (induction col p L ds rule: pop_indents.induct)
  case (2 col p L t ts)
  show ?case
  proof (cases "col < t")
    case True
    have c: "cut_ok (tn_emit TN_TOK_DEDENT p 0 L) p (length ts)"
      by (rule emit_layout [OF 2(2,3)]) (simp_all add: is_layout_def)
    have a: "at_pos (tn_emit TN_TOK_DEDENT p 0 L) p" using same_place_at [OF emit_same] 2(3) by blast
    note i = 2(1) [OF True c a]
    have "same_place L (pop_indents col p (tn_emit TN_TOK_DEDENT p 0 L) ts)" using same_place_trans [OF emit_same] i by blast
    then show ?thesis using i True by simp
  qed (use 2 in \<open>simp add: cut_ok_def same_place_def\<close>)
qed (simp add: cut_ok_def same_place_def)

lemma stack_ok_append: "stack_ok (xs @ ys) \<Longrightarrow> stack_ok xs"
  by (auto simp: stack_ok_def sorted_wrt_append)

lemma stack_rev_dropWhile: "stack_ok ds \<Longrightarrow> stack_ok (rev (dropWhile P (rev ds)))"
proof -
  assume a: "stack_ok ds"
  have "ds = rev (dropWhile P (rev ds)) @ rev (takeWhile P (rev ds))"
    by (metis rev_append rev_rev_ident takeWhile_dropWhile_id)
  then obtain ys where "ds = rev (dropWhile P (rev ds)) @ ys" by blast
  then show ?thesis using a by (metis stack_ok_append)
qed

lemma stack_push: "stack_ok ds \<Longrightarrow> top_indent ds < col \<Longrightarrow> length ds < TN_MAX_INDENTS \<Longrightarrow> stack_ok (ds @ [col])"
proof (cases ds rule: rev_cases)
  case (snoc xs x)
  assume "stack_ok ds" "top_indent ds < col" "length ds < TN_MAX_INDENTS"
  then show ?thesis unfolding snoc by (auto simp: stack_ok_def top_indent_def sorted_wrt_append)
qed (simp add: stack_ok_def top_indent_def)

lemma cut_gaps: "(tn_gap src)\<^sup>*\<^sup>* p q \<Longrightarrow> tn_cut src p ts \<Longrightarrow> tn_cut src q ts"
  by (induction rule: rtranclp_induct) (auto intro: cut_gap)

lemma cut_ok_gaps: "(tn_gap (tn_src L))\<^sup>*\<^sup>* p q \<Longrightarrow> cut_ok L p d \<Longrightarrow> cut_ok L q d"
  using cut_gaps by (auto simp: cut_ok_def)

lemma blank_gaps:
  assumes "p \<le> q" "q \<le> length src" "\<forall>c \<in> set (slice src p q). tn_blank c"
  shows "(tn_gap src)\<^sup>*\<^sup>* p q"
  using assms
proof (induction rule: dec_induct)
  case (step n)
  have b: "tn_blank (src ! i)" if "p \<le> i" "i < Suc n" for i using step that by (auto simp: slice_set)
  then have "(tn_gap src)\<^sup>*\<^sup>* p n" using step(3,4) step(1) by (intro step(3)) (auto simp: slice_set)
  then show ?case using gap_blank [of n src] b [of n] step(1,4) by simp
qed simp

lemma ok_gaps:
  assumes "tn_ok L" "moved L L'" "(tn_gap (tn_src L))\<^sup>*\<^sup>* (tn_pos L) (tn_pos L')"
  shows "tn_ok L'"
proof -
  note f = moved_facts [OF assms(2)]
  have "cut_ok L (tn_pos L') (length (tn_indents L) + tn_pending L)"
    using cut_ok_gaps [OF assms(3)] assms(1) by (simp add: tn_ok_def)
  then have "cut_ok L' (tn_pos L') (length (tn_indents L') + tn_pending L')" using f by (simp add: cut_ok_def)
  then show ?thesis using assms(1) f by (auto simp: tn_ok_def at_pos_def)
qed

text \<open>What the indentation of a line leaves, when it is accepted and when it is not.\<close>

definition cut_short :: "tn_lex \<Rightarrow> bool" where
  "cut_short L \<longleftrightarrow> errs_ok L \<and> (\<exists>p d. p \<le> length (tn_src L) \<and> cut_ok L p d)"

definition indented :: "tn_lex \<Rightarrow> tn_lex \<times> bool \<Rightarrow> bool" where
  "indented L r \<longleftrightarrow> (case r of (X, b) \<Rightarrow>
     tn_src X = tn_src L \<and> tn_max X = tn_max L \<and> tn_paren X = tn_paren L \<and>
     (if b then tn_ok X \<and> tn_pos L \<le> tn_pos X \<and> (tn_pos X = length (tn_src L) \<or> \<not> tn_at_start X) else cut_short X))"

lemma ok_indent_to:
  assumes "tn_ok L" "tn_pending L = 0" "moved L L'" "\<forall>c \<in> set (slice (tn_src L) (tn_pos L) (tn_pos L')). tn_blank c" 
    "tn_line L' = tn_line L" "tn_lstart L' = tn_lstart L"
  shows "indented L (indent_to col (tn_pos L) L')"
proof -
  let ?p = "tn_pos L" and ?top = "top_indent (tn_indents L)"
  note f = moved_facts [OF assms(3)]
  have gaps: "(tn_gap (tn_src L))\<^sup>*\<^sup>* ?p (tn_pos L')" by (rule blank_gaps [OF f(8,10) assms(4)])
  have c: "cut_ok L' ?p (length (tn_indents L'))" and st: "stack_ok (tn_indents L')" and at: "at_pos L' ?p"
    using assms(1,2,5,6) f by (simp_all add: tn_ok_def cut_ok_def at_pos_def)
  have done': "indented L (X\<lparr>tn_at_start := False\<rparr>, True)"
    if "same_place L' X" "cut_ok X ?p (length (tn_indents X))" "stack_ok (tn_indents X)" for X
  proof -
    note s = that(1) [unfolded same_place_def]
    have "(tn_gap (tn_src X))\<^sup>*\<^sup>* ?p (tn_pos X)" using gaps s f(1) by simp
    then have "cut_ok X (tn_pos X) (length (tn_indents X))" using that(2) by (rule cut_ok_gaps)
    then have "tn_ok X" using s that(3) f assms(2) by (simp add: tn_ok_def at_pos_def errs_ok_def)
    then show ?thesis using s f by (simp add: indented_def paren_irrelevant)
  qed
  have short: "indented L (tn_err e X, False)"
    if "same_place L' X" "cut_ok X ?p d" "e \<in> {112, 113}" for X d e
  proof -
    have "errs_ok (tn_err e X)" using that(1,3) f(9) by (auto simp: errs_ok_def tn_err_def same_place_def)
    moreover have "cut_ok (tn_err e X) ?p d" using that(2) by (simp add: cut_ok_def tn_err_def)
    ultimately have "cut_short (tn_err e X)"
      using at f(1) that(1) unfolding cut_short_def by (auto simp: at_pos_def same_place_def)
    moreover have "tn_src (tn_err e X) = tn_src L" "tn_max (tn_err e X) = tn_max L" "tn_paren (tn_err e X) = tn_paren L"
      using that(1) f by (simp_all add: same_place_def tn_err_def)
    ultimately show ?thesis by (simp add: indented_def)
  qed
  have refl: "same_place L' L'" by (simp add: same_place_def)
  consider (deeper) "?top < col" | (shallower) "col < ?top" | (equal) "col = ?top" by linarith
  then show ?thesis
  proof cases
    case deeper
    show ?thesis
    proof (cases "length (tn_indents L) \<ge> TN_MAX_INDENTS")
      case True
      then show ?thesis using short [OF refl c, of 112] deeper f(2) by (simp add: indent_to_def)
    next
      case False
      let ?M = "L'\<lparr>tn_indents := tn_indents L' @ [col]\<rparr>"
      let ?X = "tn_emit TN_TOK_INDENT ?p 0 ?M"
      have "cut_ok ?M ?p (length (tn_indents L'))" "at_pos ?M ?p" using c at by (simp_all add: cut_ok_def at_pos_def)
      then have "cut_ok ?X ?p (length (tn_indents ?X))"
        by (rule emit_layout) (simp_all add: is_layout_def tn_emit_def)
      moreover have "stack_ok (tn_indents ?X)"
        using stack_push [OF st] deeper False f(2) by (simp add: tn_emit_def)
      moreover have "same_place L' ?X" by (simp add: same_place_def tn_emit_def)
      ultimately show ?thesis using done' [of ?X] deeper False f(2) by (simp add: indent_to_def)
    qed
  next
    case shallower
    let ?X = "pop_indents col ?p L' (rev (tn_indents L'))"
    have "cut_ok L' ?p (length (rev (tn_indents L')))" using c by simp
    note pop = pop_indents_ok [OF this at, of col]
    then have X: "cut_ok ?X ?p (length (tn_indents ?X))" "same_place L' ?X"
        "tn_indents ?X = rev (dropWhile (\<lambda>t. col < t) (rev (tn_indents L')))" by simp_all
    have "stack_ok (tn_indents ?X)" unfolding X(3) by (rule stack_rev_dropWhile [OF st])
    then show ?thesis
      using done' [OF X(2,1)] short [OF X(2,1), of 113] shallower f(2) by (simp add: indent_to_def Let_def)
  next
    case equal
    then show ?thesis using done' [OF refl c st] f(2) by (simp add: indent_to_def)
  qed
qed


lemma indented_trans:
  assumes "indented L' r" "tn_src L' = tn_src L" "tn_max L' = tn_max L" "tn_paren L' = tn_paren L" "tn_pos L \<le> tn_pos L'"
  shows "indented L r"
  using assms by (auto simp: indented_def split: if_splits prod.splits)

lemma slice_blank_gaps:
  assumes "tn_ok L" "L1 = skip (\<lambda>c. c = CHR '' '' \<or> c = CHR 0x09) L"
  shows "moved L L1" "\<forall>c \<in> set (slice (tn_src L) (tn_pos L) (tn_pos L1)). tn_blank c"
    "(tn_gap (tn_src L))\<^sup>*\<^sup>* (tn_pos L) (tn_pos L1)"
proof -
  show m: "moved L L1" unfolding assms(2) by (rule moved_skip [OF moved_refl [OF assms(1)]]) simp
  show b: "\<forall>c \<in> set (slice (tn_src L) (tn_pos L) (tn_pos L1)). tn_blank c"
    using skip_set [of _ L "\<lambda>c. c = CHR '' '' \<or> c = CHR 0x09"] assms(2) by (auto simp: tn_blank_def)
  show "(tn_gap (tn_src L))\<^sup>*\<^sup>* (tn_pos L) (tn_pos L1)"
    by (rule blank_gaps [OF moved_facts(8,10) [OF m] b])
qed

lemma comment_skip:
  assumes "moved M L" "peekc L 0 = Some CHR ''#''" "L2 = skip (\<lambda>c. c \<noteq> CHR 0x0A) L"
  shows "moved M L2" "tn_gap (tn_src M) (tn_pos L) (tn_pos L2)" "tn_pos L < tn_pos L2"
    "peekc L2 0 = None \<or> peekc L2 0 = Some LF"
proof -
  let ?P = "\<lambda>c. c \<noteq> CHR 0x0A"
  note f = moved_facts [OF assms(1)]
  show m: "moved M L2" unfolding assms(3) by (rule moved_skip [OF assms(1)]) simp
  show lt: "tn_pos L < tn_pos L2" unfolding assms(3) by (rule skip_moves [where P = ?P, OF assms(2)]) simp
  note le = moved_facts(10) [OF m]
  have d: "drop (tn_pos L2) (tn_src L) = [] \<or> hd (drop (tn_pos L2) (tn_src L)) = LF"
    using skip_hd [of ?P L] assms(3) by simp
  have e: "tn_pos L2 = length (tn_src M) \<or> tn_src M ! tn_pos L2 = LF"
  proof (cases "tn_pos L2 < length (tn_src M)")
    case True
    then show ?thesis using d f(1) by (simp add: hd_drop_conv_nth)
  qed (use le in simp)
  show "tn_gap (tn_src M) (tn_pos L) (tn_pos L2)"
  proof (rule gap_comment [OF lt le _ _ e])
    show "tn_src M ! tn_pos L = CHR ''#''" using assms(2) f(1) by (simp add: peekc_Some)
    show "LF \<notin> set (slice (tn_src M) (tn_pos L) (tn_pos L2))"
      using skip_set [of LF L ?P] assms(3) f(1) by auto
  qed
  show "peekc L2 0 = None \<or> peekc L2 0 = Some LF" using e moved_facts(1) [OF m] by (auto simp: peekc_def)
qed

lemma newline_gap: "moved M L \<Longrightarrow> peekc L 0 = Some LF \<Longrightarrow> tn_gap (tn_src M) (tn_pos L) (tn_pos (next_line L))"
  using moved_facts(1) [of M L] gap_newline [of "tn_pos L" "tn_src M"] by (simp add: peekc_Some)

lemma sel_same [simp]:
  "tn_pending (adv n L) = tn_pending L" "tn_pending (skip P L) = tn_pending L" "tn_pending (next_line L) = tn_pending L"
  by (simp_all add: adv_def skip_def next_line_def)

lemma ok_indent:
  assumes "tn_ok L" "tn_pending L = 0"
  shows "indented L (tn_indent L)"
  using assms
proof (induction L rule: tn_indent.induct)
  case (1 L)
  define L1 where "L1 = skip (\<lambda>c. c = CHR '' '' \<or> c = CHR 0x09) L"
  note b = slice_blank_gaps [OF 1(4) L1_def]
  note f = moved_facts [OF b(1)]
  have unf: "tn_indent L = (case peekc L1 0 of None \<Rightarrow> (L1\<lparr>tn_pending := length (tn_indents L1), tn_indents := []\<rparr>, True)
      | Some c \<Rightarrow>
          if c = CHR 0x0D then tn_indent (adv 1 L1)
          else if c = CHR ''#'' then
            (let L2 = skip (\<lambda>c. c \<noteq> CHR 0x0A) L1 in tn_indent (if peekc L2 0 \<noteq> None then next_line L2 else L2))
          else if c = CHR 0x0A then tn_indent (next_line L1)
          else indent_to (tn_pos L1 - tn_pos L) (tn_pos L) L1)"
    by (subst tn_indent.simps) (simp only: Let_def L1_def)
  have cont: "indented L r" if "indented L' r" "moved L L'" for L' r
    using indented_trans [OF that(1)] moved_facts [OF that(2)] by simp
  show ?case
  proof (cases "peekc L1 0")
    case None
    have end_: "tn_pos L1 = length (tn_src L)" using None f(1,10) by (simp add: peekc_def split: if_splits)
    have "tn_ok L1" by (rule ok_gaps [OF 1(4) b(1,3)])
    then have "tn_ok (L1\<lparr>tn_pending := length (tn_indents L1), tn_indents := []\<rparr>)"
      using end_ f 1(5) by (simp add: tn_ok_def at_pos_def cut_ok_def errs_ok_def stack_ok_def)
    then show ?thesis using None f end_ by (simp add: unf indented_def)
  next
    case (Some c)
    consider (cr) "c = CHR 0x0D" | (hash) "c = CHR ''#''" | (lf) "c = LF" | (tok) "c \<noteq> CHR 0x0D" "c \<noteq> CHR ''#''" "c \<noteq> LF" by blast
    then show ?thesis
    proof cases
      case cr
      have m: "moved L (adv 1 L1)" by (rule moved_adv1 [OF b(1) Some]) (use cr in simp)
      have "tn_gap (tn_src L) (tn_pos L1) (tn_pos (adv 1 L1))"
        using gap_blank [of "tn_pos L1" "tn_src L"] Some cr f(1) by (simp add: peekc_Some tn_blank_def)
      then have ok: "tn_ok (adv 1 L1)" by (intro ok_gaps [OF 1(4) m] rtranclp.rtrancl_into_rtrancl [OF b(3)])
      have "indented (adv 1 L1) (tn_indent (adv 1 L1))"
        by (rule 1(1) [OF L1_def Some cr ok]) (use 1(5) f(4) in simp)
      then show ?thesis using cont [OF _ m] Some cr by (simp add: unf)
    next
      case hash
      define L2 where "L2 = skip (\<lambda>c. c \<noteq> CHR 0x0A) L1"
      have h: "peekc L1 0 = Some CHR ''#''" using Some hash by simp
      note k = comment_skip [OF b(1) h L2_def]
      let ?N = "if peekc L2 0 \<noteq> None then next_line L2 else L2"
      have g: "(tn_gap (tn_src L))\<^sup>*\<^sup>* (tn_pos L) (tn_pos L2)"
        by (rule rtranclp.rtrancl_into_rtrancl [OF b(3) k(2)])
      have m: "moved L ?N" using moved_next_line [OF k(1)] k(1,4) by auto
      have "(tn_gap (tn_src L))\<^sup>*\<^sup>* (tn_pos L) (tn_pos ?N)"
      proof (cases "peekc L2 0 = None")
        case False
        then have lf: "peekc L2 0 = Some LF" using disjE [OF k(4)] by metis
        show ?thesis using rtranclp.rtrancl_into_rtrancl [OF g newline_gap [OF k(1) lf]] lf by simp
      qed (use g in simp)
      then have ok: "tn_ok ?N" by (rule ok_gaps [OF 1(4) m])
      have p: "tn_pending ?N = 0" using 1(5) moved_facts(4) [OF m] by simp
      have ne: "c \<noteq> CHR 0x0D" using hash by simp
      have "indented ?N (tn_indent ?N)" by (rule 1(2) [OF L1_def Some ne hash L2_def ok p])
      then have "indented L (tn_indent ?N)" by (rule cont [OF _ m])
      then show ?thesis using Some hash by (simp add: unf L2_def [symmetric] del: peekc_Some)
    next
      case lf
      have n: "peekc L1 0 = Some LF" using Some lf by simp
      note m = moved_next_line [OF b(1) n]
      have ok: "tn_ok (next_line L1)"
        by (intro ok_gaps [OF 1(4) m] rtranclp.rtrancl_into_rtrancl [OF b(3)] newline_gap [OF b(1) n])
      have "indented (next_line L1) (tn_indent (next_line L1))"
        by (rule 1(3) [OF L1_def Some _ _ lf ok]) (use lf 1(5) f(4) in simp_all)
      then show ?thesis using cont [OF _ m] Some lf by (simp add: unf)
    next
      case tok
      have "indented L (indent_to (tn_pos L1 - tn_pos L) (tn_pos L) L1)"
        by (rule ok_indent_to [OF 1(4,5) b(1,2)]) (simp_all add: L1_def)
      then show ?thesis using Some tok by (simp add: unf)
    qed
  qed
qed


subsection \<open>The main loop\<close>

definition weight :: "tn_lex \<Rightarrow> nat" where
  "weight L = 2 * (length (tn_src L) - tn_pos L) + (if tn_at_start L \<and> tn_paren L = 0 then 1 else 0)"

definition stepped :: "tn_lex \<Rightarrow> tn_lex \<times> bool \<Rightarrow> bool" where
  "stepped L r \<longleftrightarrow> (case r of (X, b) \<Rightarrow>
     tn_src X = tn_src L \<and> tn_max X = tn_max L \<and> (if b then tn_ok X \<and> weight X < weight L else cut_short X))"

lemma steps_stepped: "tn_pos L < length (tn_src L) \<Longrightarrow> steps_to L X \<Longrightarrow> stepped L (X, True)"
  by (auto simp: stepped_def steps_to_def weight_def)

lemma gap_steps:
  assumes "tn_ok L" "moved L X" "tn_gap (tn_src L) (tn_pos L) (tn_pos X)" "tn_pos L < tn_pos X"
  shows "steps_to L X"
  using ok_gaps [OF assms(1,2) r_into_rtranclp [where r = "tn_gap (tn_src L)", OF assms(3)]] moved_facts [OF assms(2)] assms(4) by (simp add: steps_to_def)

lemma ok_token:
  assumes "tn_ok L" "peekc L 0 = Some c" "\<not> tn_blank c" "c \<noteq> LF" "c \<noteq> CHR ''#''"
  shows "steps_to L (tn_token c L)"
proof -
  have dot: "num_here L" if "tx_dig c \<or> c = CHR ''.'' \<and> (case peekc L 1 of Some d \<Rightarrow> tx_dig d | None \<Rightarrow> False)"
    using that assms(2) unfolding num_here_def by (auto split: option.splits)
  consider (pre) "tx_alph c" "0 < tn_is_str_prefix L" | (word) "tx_alph c" "tn_is_str_prefix L = 0"
    | (num) "\<not> tx_alph c" "tx_dig c \<or> c = CHR ''.'' \<and> (case peekc L 1 of Some d \<Rightarrow> tx_dig d | None \<Rightarrow> False)"
    | (str) "\<not> tx_alph c" "\<not> (tx_dig c \<or> c = CHR ''.'' \<and> (case peekc L 1 of Some d \<Rightarrow> tx_dig d | None \<Rightarrow> False))" "c = CHR 0x22 \<or> c = CHR 0x27"
    | (op) "\<not> tx_alph c" "\<not> (tx_dig c \<or> c = CHR ''.'' \<and> (case peekc L 1 of Some d \<Rightarrow> tx_dig d | None \<Rightarrow> False))" "\<not> (c = CHR 0x22 \<or> c = CHR 0x27)"
    by blast
  then show ?thesis
  proof cases
    case pre
    note p = prefix_facts [OF refl pre(2)]
    obtain q where "peekc L (tn_is_str_prefix L) = Some q" "q = CHR 0x22 \<or> q = CHR 0x27" using p(3) by blast
    from tn_ok_string [OF assms(1) p(1,2) this] show ?thesis using pre by (simp add: tn_token_def Let_def)
  next
    case word
    then show ?thesis using tn_ok_ident [OF assms(1,2) word(1)] by (simp add: tn_token_def)
  next
    case num
    have "tn_token c L = tn_scan_num L" using num by (auto simp: tn_token_def)
    then show ?thesis using ok_num [OF assms(1) dot [OF num(2)]] by simp
  next
    case str
    have "steps_to L (tn_scan_str_at (tn_pos L) (adv 0 L))"
      by (rule tn_ok_string [OF assms(1)]) (use assms(2) str(3) in simp_all)
    moreover have "tn_token c L = tn_scan_str L" using str by (auto simp: tn_token_def)
    ultimately show ?thesis by (simp add: tn_scan_str_def adv_def)
  next
    case op
    have "tn_token c L = tn_scan_op L" using op by (auto simp: tn_token_def)
    moreover have "steps_to L (tn_scan_op L)"
      by (rule ok_op [OF assms(1,2)]) (use op assms in \<open>auto simp: tx_idn_def\<close>)
    ultimately show ?thesis by simp
  qed
qed

lemma ok_newline:
  assumes "tn_ok L" "peekc L 0 = Some LF"
  shows "steps_to L (tn_newline L)"
proof -
  have p: "tn_pos L < length (tn_src L)" using assms(2) by (simp add: peekc_Some)
  have step: "steps_to L (next_line M)" if "tn_ok M" "same_place L M" "tn_indents M = tn_indents L" for M
  proof -
    have "peekc M 0 = Some LF" using assms(2) that(2) by (auto simp: same_place_def peekc_def split: if_splits)
    note m = moved_next_line [OF moved_refl [OF that(1)] this]
    have "steps_to M (next_line M)"
      by (rule gap_steps [OF that(1) m]) (use newline_gap [OF moved_refl [OF that(1)] \<open>peekc M 0 = Some LF\<close>] in simp_all)
    then show ?thesis using that(2) by (simp add: steps_to_def same_place_def)
  qed
  show ?thesis
  proof (cases "tn_paren L = 0")
    case True
    let ?M = "(tn_emit TN_TOK_NEWLINE (tn_pos L) 0 L)\<lparr>tn_at_start := True\<rparr>"
    have "cut_ok (tn_emit TN_TOK_NEWLINE (tn_pos L) 0 L) (tn_pos L) (length (tn_indents L) + tn_pending L)"
      by (rule emit_layout) (use assms(1) in \<open>simp_all add: tn_ok_def is_layout_def\<close>)
    then have "tn_ok (tn_emit TN_TOK_NEWLINE (tn_pos L) 0 L)"
      using assms(1) by (simp add: tn_ok_def tn_emit_def at_pos_def errs_ok_def)
    then have "tn_ok ?M" by (simp add: paren_irrelevant)
    from step [OF this] show ?thesis using True by (simp add: tn_newline_def same_place_def tn_emit_def)
  next
    case False
    then show ?thesis using step [OF assms(1)] by (simp add: tn_newline_def same_place_def)
  qed
qed

lemma ok_step:
  assumes "tn_ok L" "tn_pos L < length (tn_src L)"
  shows "stepped L (tn_step L)"
proof -
  have p0: "tn_pending L = 0" using assms by (auto simp: tn_ok_def)
  define c where "c = tn_src L ! tn_pos L"
  have c: "peekc L 0 = Some c" using assms(2) by (simp add: peekc_def c_def)
  show ?thesis
  proof (cases "tn_at_start L \<and> tn_paren L = 0")
    case True
    obtain X b where X: "tn_indent L = (X, b)" by fastforce
    have i: "indented L (X, b)" using ok_indent [OF assms(1) p0] X by simp
    then have "tn_src X = tn_src L \<and> tn_max X = tn_max L" by (simp add: indented_def)
    moreover have "tn_ok X \<and> weight X < weight L" if b
      using i that True assms(2) by (auto simp: indented_def weight_def)
    moreover have "cut_short X" if "\<not> b" using i that by (simp add: indented_def)
    ultimately have "stepped L (X, b)" by (simp add: stepped_def)
    then show ?thesis using X p0 unfolding tn_step_def if_P [OF True] by simp
  next
    case False
    have red: "tn_step L = (if c = CHR '' '' \<or> c = CHR 0x09 \<or> c = CHR 0x0D then (adv 1 L, True)
        else if c = CHR 0x5C \<and> peekc L 1 = Some CHR 0x0A then
          (L\<lparr>tn_pos := tn_pos L + 2, tn_line := tn_line L + 1, tn_lstart := tn_pos L + 2\<rparr>, True)
        else if c = CHR 0x0A then (tn_newline L, True)
        else if c = CHR ''#'' then (skip (\<lambda>c. c \<noteq> CHR 0x0A) L, True)
        else (tn_token c L, True))"
      unfolding tn_step_def Let_def c_def if_not_P [OF False] using p0 by simp
    consider (blank) "tn_blank c" | (cont) "c = CHR 0x5C" "peekc L 1 = Some LF" | (lf) "c = LF" | (hash) "c = CHR ''#''"
      | (tok) "\<not> tn_blank c" "\<not> (c = CHR 0x5C \<and> peekc L 1 = Some LF)" "c \<noteq> LF" "c \<noteq> CHR ''#''" by blast
    then show ?thesis
    proof cases
      case blank
      have m: "moved L (adv 1 L)" by (rule moved_adv1 [OF moved_refl [OF assms(1)] c]) (use blank in \<open>auto simp: tn_blank_def\<close>)
      have "steps_to L (adv 1 L)"
        by (rule gap_steps [OF assms(1) m]) (use gap_blank [OF assms(2)] blank in \<open>simp_all add: c_def\<close>)
      then show ?thesis unfolding red using blank steps_stepped [OF assms(2)] by (simp add: tn_blank_def)
    next
      case cont
      let ?X = "L\<lparr>tn_pos := tn_pos L + 2, tn_line := tn_line L + 1, tn_lstart := tn_pos L + 2\<rparr>"
      have l: "Suc (tn_pos L) < length (tn_src L)" "tn_src L ! Suc (tn_pos L) = LF" using cont(2) by (auto simp: peekc_Some)
      have e: "skip_escape L = ?X" using cont(2) by (simp add: skip_escape_def adv_def)
      have m: "moved L ?X" using moved_escape [OF moved_refl [OF assms(1)]] c cont by (simp add: e)
      have "steps_to L ?X"
        by (rule gap_steps [OF assms(1) m]) (use gap_continued [OF l(1) _ l(2)] cont(1) in \<open>simp_all add: c_def\<close>)
      then show ?thesis unfolding red using cont steps_stepped [OF assms(2)] by simp
    next
      case lf
      then show ?thesis unfolding red using steps_stepped [OF assms(2) ok_newline [OF assms(1)]] c by simp
    next
      case hash
      note k = comment_skip [OF moved_refl [OF assms(1)] _ refl]
      have h: "peekc L 0 = Some CHR ''#''" using c hash by simp
      have "steps_to L (skip (\<lambda>c. c \<noteq> CHR 0x0A) L)" by (rule gap_steps [OF assms(1) k(1) [OF h] k(2) [OF h] k(3) [OF h]])
      then show ?thesis unfolding red using hash steps_stepped [OF assms(2)] by simp
    next
      case tok
      have "tn_step L = (tn_token c L, True)" using tok by (auto simp: red tn_blank_def)
      then show ?thesis using steps_stepped [OF assms(2) ok_token [OF assms(1) c tok(1,3,4)]] by simp
    qed
  qed
qed

lemma ok_loop:
  "tn_ok L \<Longrightarrow> weight L \<le> turns \<Longrightarrow>
   (case tn_loop turns L of (X, b) \<Rightarrow> tn_src X = tn_src L \<and> tn_max X = tn_max L \<and>
     (if b then tn_ok X \<and> tn_pos X = length (tn_src L) else cut_short X))"
proof (induction turns L rule: tn_loop.induct)
  case (1 L)
  then show ?case by (auto simp: weight_def tn_ok_def at_pos_def)
next
  case (2 turns L)
  show ?case
  proof (cases "tn_pos L < length (tn_src L)")
    case True
    obtain X b where X: "tn_step L = (X, b)" by fastforce
    note s = ok_step [OF 2(2) True, unfolded X stepped_def prod.case]
    show ?thesis
    proof (cases b)
      case bt: True
      then have "tn_ok X" "weight X \<le> turns" using s 2(3) by auto
      then show ?thesis using 2(1) [OF True X [symmetric] bt] s True X bt by (simp split: prod.splits)
    qed (use s True X in simp)
  next
    case False
    then have "tn_pos L = length (tn_src L)" using 2(2) by (simp add: tn_ok_def at_pos_def)
    then show ?thesis using 2(2) by simp
  qed
qed


subsection \<open>The whole source\<close>

lemma close_indents_ok:
  "cut_ok L (tn_pos L) (d + k) \<Longrightarrow> at_pos L (tn_pos L) \<Longrightarrow>
   cut_ok (close_indents d L) (tn_pos L) k \<and> same_place L (close_indents d L)"
proof (induction d L rule: close_indents.induct)
  case (2 d L)
  let ?X = "tn_emit TN_TOK_DEDENT (tn_pos L) 0 L"
  have c: "cut_ok ?X (tn_pos ?X) (d + k)" unfolding bookkeeping_pos
    by (rule emit_layout [OF 2(2,3)]) (simp_all add: is_layout_def)
  have a: "at_pos ?X (tn_pos ?X)" using same_place_at [OF emit_same] 2(3) by simp
  note i = 2(1) [OF c a]
  then have "same_place L (close_indents d ?X)" using same_place_trans [OF emit_same] by blast
  then show ?case using i by simp
qed (simp add: same_place_def)

lemma ok_finish:
  assumes "tn_ok L" "X = tn_finish L"
  shows "cut_ok X (tn_pos L) (tn_pending L)" "same_place L X"
    "length (tn_toks X) < tn_max X \<Longrightarrow> tk_kind (last (tn_toks X)) = TN_TOK_EOF \<and> tn_toks X \<noteq> []"
proof -
  let ?p = "tn_pos L"
  define L1 where "L1 = (if tn_toks L \<noteq> [] \<and> tk_kind (last (tn_toks L)) \<noteq> TN_TOK_NEWLINE then tn_emit TN_TOK_NEWLINE ?p 0 L else L)"
  define L2 where "L2 = (close_indents (length (tn_indents L1)) L1)\<lparr>tn_indents := []\<rparr>"
  have X: "X = tn_emit TN_TOK_EOF (tn_pos L2) 0 L2" unfolding assms(2) tn_finish_def Let_def L1_def [symmetric] L2_def [symmetric] ..
  have c: "cut_ok L ?p (length (tn_indents L) + tn_pending L)" "at_pos L ?p" using assms(1) by (simp_all add: tn_ok_def)
  have "cut_ok (tn_emit TN_TOK_NEWLINE ?p 0 L) ?p (length (tn_indents L) + tn_pending L)"
    by (rule emit_layout [OF c]) (simp_all add: is_layout_def)
  then have c1: "cut_ok L1 ?p (length (tn_indents L1) + tn_pending L)" and s1: "same_place L L1"
    using c(1) emit_same by (auto simp: L1_def same_place_def tn_emit_def)
  have p1: "tn_pos L1 = ?p" using s1 by (simp add: same_place_def)
  have a1: "at_pos L1 ?p" using same_place_at [OF s1] c(2) by simp
  have c2: "cut_ok L2 ?p (tn_pending L)" and s2: "same_place L1 L2"
    using close_indents_ok [of L1 "length (tn_indents L1)" "tn_pending L"] c1 a1 p1 by (auto simp: L2_def cut_ok_def same_place_def)
  have p2: "tn_pos L2 = ?p" using s2 p1 by (simp add: same_place_def)
  have a2: "at_pos L2 ?p" using same_place_at [OF s2] a1 by simp
  show "cut_ok X ?p (tn_pending L)" unfolding X p2 by (rule emit_layout [OF c2 a2]) (simp_all add: is_layout_def)
  show "same_place L X" unfolding X by (rule same_place_trans [OF s1 same_place_trans [OF s2 emit_same]])
  show "length (tn_toks X) < tn_max X \<Longrightarrow> tk_kind (last (tn_toks X)) = TN_TOK_EOF \<and> tn_toks X \<noteq> []"
    unfolding X by (auto simp: tn_emit_def tn_emit_at_def split: if_splits)
qed

lemma init_ok: "tn_ok (tn_lex_init src m)"
  by (simp add: tn_ok_def tn_lex_init_def at_pos_def cut_ok_def stack_ok_def errs_ok_def line_at_def start_at_def cut_start)

lemma init_sel [simp]: "tn_src (tn_lex_init src m) = src" "tn_max (tn_lex_init src m) = m"
  by (simp_all add: tn_lex_init_def)

lemma init_weight: "src \<noteq> [] \<Longrightarrow> weight (tn_lex_init src m) \<le> length src * 4"
  by (cases src) (simp_all add: weight_def tn_lex_init_def)

text \<open>What \<open>tn_tokenize\<close> leaves on a fresh lexer.\<close>

lemma tokenize_result:
  assumes "tn_tokenize (tn_lex_init src m) = (X, code)"
  shows "tn_src X = src" "tn_max X = m" "errs_ok X"
    "code = BC_OK \<Longrightarrow> cut_ok X (length src) (tn_pending X) \<and>
       (length (tn_toks X) < m \<longrightarrow> tk_kind (last (tn_toks X)) = TN_TOK_EOF \<and> tn_toks X \<noteq> [])"
    "code \<noteq> BC_OK \<Longrightarrow> cut_short X"
proof -
  let ?I = "tn_lex_init src m"
  obtain L b where L: "tn_loop (length src * 4) ?I = (L, b)" by fastforce
  have l: "tn_src L = src" "tn_max L = m" "b \<Longrightarrow> tn_ok L \<and> tn_pos L = length src" "\<not> b \<Longrightarrow> cut_short L"
  proof -
    have "tn_src L = src \<and> tn_max L = m \<and> (if b then tn_ok L \<and> tn_pos L = length src else cut_short L)"
    proof (cases "src = []")
      case True
      then show ?thesis using L init_ok [of src m] by (auto simp: tn_lex_init_def)
    next
      case False
      then show ?thesis using ok_loop [OF init_ok init_weight [OF False], of m] unfolding L prod.case init_sel by (auto split: if_splits)
    qed
    then show "tn_src L = src" "tn_max L = m" "b \<Longrightarrow> tn_ok L \<and> tn_pos L = length src" "\<not> b \<Longrightarrow> cut_short L" by auto
  qed
  have X: "(X, code) = (if b then (tn_finish L, BC_OK) else (L, BC_ERR_TRITON))"
    using assms L by (simp add: tn_tokenize_def)
  have r: "tn_src X = src \<and> tn_max X = m \<and> errs_ok X \<and>
      (code = BC_OK \<longrightarrow> cut_ok X (length src) (tn_pending X) \<and>
       (length (tn_toks X) < m \<longrightarrow> tk_kind (last (tn_toks X)) = TN_TOK_EOF \<and> tn_toks X \<noteq> [])) \<and>
      (code \<noteq> BC_OK \<longrightarrow> cut_short X)"
  proof (cases b)
    case True
    then have x: "X = tn_finish L" "code = BC_OK" "tn_ok L" "tn_pos L = length src" using X l(3) by auto
    note f = ok_finish [OF x(3,1)]
    have "tn_src X = src" "tn_max X = m" "errs_ok X" "tn_pending X = tn_pending L"
      using f(2) l(1,2) x(3) by (simp_all add: same_place_def tn_ok_def errs_ok_def)
    then show ?thesis using f(1,3) x(2,4) by simp
  next
    case False
    then show ?thesis using X l by (auto simp: cut_short_def)
  qed
  then show "tn_src X = src" "tn_max X = m" "errs_ok X"
    "code = BC_OK \<Longrightarrow> cut_ok X (length src) (tn_pending X) \<and>
       (length (tn_toks X) < m \<longrightarrow> tk_kind (last (tn_toks X)) = TN_TOK_EOF \<and> tn_toks X \<noteq> [])"
    "code \<noteq> BC_OK \<Longrightarrow> cut_short X" by blast+
qed

text \<open>A block of one statement, and the same block followed by a blank line inside it.\<close>

definition tn_sample :: string where
  "tn_sample = ''if x:'' @ [LF] @ ''  y**=2''"

lemma tn_sample_tokens:
  "tn_toks (fst (tn_tokenize (tn_lex_init tn_sample 20))) =
    [\<lparr>tk_kind = TN_TOK_KW_IF, tk_off = 0, tk_len = 2, tk_line = 1, tk_col = 0\<rparr>,
     \<lparr>tk_kind = TN_TOK_IDENT, tk_off = 3, tk_len = 1, tk_line = 1, tk_col = 3\<rparr>,
     \<lparr>tk_kind = TN_TOK_COLON, tk_off = 4, tk_len = 1, tk_line = 1, tk_col = 4\<rparr>,
     \<lparr>tk_kind = TN_TOK_NEWLINE, tk_off = 5, tk_len = 0, tk_line = 1, tk_col = 5\<rparr>,
     \<lparr>tk_kind = TN_TOK_INDENT, tk_off = 6, tk_len = 0, tk_line = 2, tk_col = 0\<rparr>,
     \<lparr>tk_kind = TN_TOK_IDENT, tk_off = 8, tk_len = 1, tk_line = 2, tk_col = 2\<rparr>,
     \<lparr>tk_kind = TN_TOK_APOW, tk_off = 9, tk_len = 3, tk_line = 2, tk_col = 3\<rparr>,
     \<lparr>tk_kind = TN_TOK_INT, tk_off = 12, tk_len = 1, tk_line = 2, tk_col = 6\<rparr>,
     \<lparr>tk_kind = TN_TOK_NEWLINE, tk_off = 13, tk_len = 0, tk_line = 2, tk_col = 7\<rparr>,
     \<lparr>tk_kind = TN_TOK_DEDENT, tk_off = 13, tk_len = 0, tk_line = 2, tk_col = 7\<rparr>,
     \<lparr>tk_kind = TN_TOK_EOF, tk_off = 13, tk_len = 0, tk_line = 2, tk_col = 7\<rparr>]"
  "snd (tn_tokenize (tn_lex_init tn_sample 20)) = BC_OK"
  "length tn_sample = 13"
  by code_simp+

lemma tn_sample_blank_end:
  "map tk_kind (tn_toks (fst (tn_tokenize (tn_lex_init (tn_sample @ [LF, LF]) 20)))) =
    [TN_TOK_KW_IF, TN_TOK_IDENT, TN_TOK_COLON, TN_TOK_NEWLINE, TN_TOK_INDENT, TN_TOK_IDENT, TN_TOK_APOW, TN_TOK_INT,
     TN_TOK_NEWLINE, TN_TOK_EOF]"
  "tn_pending (fst (tn_tokenize (tn_lex_init (tn_sample @ [LF, LF]) 20))) = 1"
  "snd (tn_tokenize (tn_lex_init (tn_sample @ [LF, LF]) 20)) = BC_OK"
  by code_simp+

text \<open>A single-quoted string that reaches the end of the source is accepted without an error.\<close>

lemma tn_open_string_accepted:
  "tn_errs (fst (tn_tokenize (tn_lex_init [CHR 0x22, CHR ''a''] 20))) = []"
  "map tk_kind (tn_toks (fst (tn_tokenize (tn_lex_init [CHR 0x22, CHR ''a''] 20)))) = [TN_TOK_STRING, TN_TOK_NEWLINE, TN_TOK_EOF]"
  by code_simp+

text \<open>
  Property C24.  Triton tokenizing cuts the source: with room for the tokens, the source is a sequence
  of gaps (blanks, comments, continued lines, characters that start no token) and tokens, in order and
  without overlap.  Every token has the line and column of its place and the text of its kind: a word
  is a maximal run of identifier characters typed by the keyword table, an operator is the longest one
  of the name table that is at its place, a number has the shape of its literal, a string runs to its
  first unescaped closing quote.  A source that is accepted is cut up to its end, with an end token last.
\<close>

theorem tn_tokenize_cuts:
  assumes "tn_tokenize (tn_lex_init src m) = (L, code)" "length (tn_toks L) < m"
  shows "if code = BC_OK then tn_cut src (length src) (tn_toks L) \<and> tk_kind (last (tn_toks L)) = TN_TOK_EOF
    else \<exists>p \<le> length src. tn_cut src p (tn_toks L)"
  using tokenize_result [OF assms(1)] assms(2) by (auto simp: cut_ok_def cut_short_def)

theorem tn_tokenize_cuts_witness: "tn_cut tn_sample 13 (tn_toks (fst (tn_tokenize (tn_lex_init tn_sample 20))))"
proof -
  let ?r = "tn_tokenize (tn_lex_init tn_sample 20)"
  have "length (tn_toks (fst ?r)) < 20" by (simp add: tn_sample_tokens)
  from tn_tokenize_cuts [OF prod.collapse [symmetric] this] show ?thesis by (simp only: tn_sample_tokens(2,3) if_True simp_thms)
qed




text \<open>
  Property C27.  Operators are scanned by maximal munch over the name table: when some operator of the table is
  at the place, the scan emits the longest one that is, with its length, and moves past it; otherwise it emits
  nothing and skips the character.
\<close>

theorem tn_scan_op_munch:
  assumes "tn_pos L < length (tn_src L)"
  shows "if \<exists>k. op_at (drop (tn_pos L) (tn_src L)) k then
      \<exists>k n. munch (drop (tn_pos L) (tn_src L)) (k, n) \<and> tn_pos (tn_scan_op L) = tn_pos L + n \<and>
        tn_toks (tn_scan_op L) = tn_toks (tn_emit k (tn_pos L) n L)
    else tn_pos (tn_scan_op L) = tn_pos L + 1 \<and> tn_toks (tn_scan_op L) = tn_toks L"
proof -
  define c where "c = tn_src L ! tn_pos L"
  have c: "peekc L 0 = Some c" using assms by (simp add: peekc_def c_def)
  note h = op_here [OF c, unfolded munches_def]
  show ?thesis
  proof (cases "tn_op c (peekc L 1) (peekc L 2)")
    case None
    then show ?thesis using h c_def by (simp add: tn_scan_op_def Let_def adv_def tn_err_def)
  next
    case (Some r)
    obtain k n where r: "r = (k, n)" by (cases r)
    have m: "munch (drop (tn_pos L) (tn_src L)) (k, n)" using h Some r by simp
    then have "\<exists>k. op_at (drop (tn_pos L) (tn_src L)) k" by (auto simp: munch_def)
    moreover have "tn_pos (tn_scan_op L) = tn_pos L + n" "tn_toks (tn_scan_op L) = tn_toks (tn_emit k (tn_pos L) n L)"
      using Some r c_def by (simp_all add: tn_scan_op_def Let_def tn_emit_op_def adv_def)
    ultimately show ?thesis using m by auto
  qed
qed

theorem tn_scan_op_munch_witness:
  "\<exists>k n. munch ''**=2'' (k, n) \<and> tn_pos (tn_scan_op (tn_lex_init ''**=2'' 9)) = n"
proof -
  have "op_at ''**=2'' TN_TOK_STAR" by (simp add: op_at_def tn_ops_list tn_tok_names_def)
  then have "\<exists>k. op_at (drop 0 ''**=2'') k" by auto
  then show ?thesis using tn_scan_op_munch [of "tn_lex_init ''**=2'' 9"] by (auto simp: tn_lex_init_def)
qed

end
