(* ===== verification/Bir_Sroa.thy ===== *)
theory Bir_Sroa
  imports Bir_Insert
begin

text \<open>
  Scalar replacement of aggregates, \<open>src/src/ir/bir_sroa.c\<close>.  The static work arrays with their
  counts are lists; a full array is a refusal, as in the source.  \<open>BIR_VAL_NONE\<close> as a type index is
  \<open>None\<close>.  The driver's \<open>while (progress)\<close> loop has no guard in the source and is a partial function.
\<close>

subsection \<open>Helpers\<close>

abbreviation (input) SROA_MAX_GEP :: nat where "SROA_MAX_GEP \<equiv> 2048"
abbreviation (input) SROA_MAX_USE :: nat where "SROA_MAX_USE \<equiv> 2048"
abbreviation (input) SROA_MAX_FIELD :: nat where "SROA_MAX_FIELD \<equiv> 64"

definition is_scalar :: "bir_module \<Rightarrow> nat \<Rightarrow> bool" where
  "is_scalar M t \<longleftrightarrow> t < num_types M \<and>
     (let k = t_kind (types M t) in k = BIR_TYPE_INT \<or> k = BIR_TYPE_FLOAT \<or> k = BIR_TYPE_BFLOAT \<or> k = BIR_TYPE_PTR)"

definition pointee :: "bir_module \<Rightarrow> nat \<Rightarrow> nat option" where
  "pointee M t = (if t < num_types M \<and> t_kind (types M t) = BIR_TYPE_PTR then Some (t_inner (types M t)) else None)"

definition struct_pointee :: "bir_module \<Rightarrow> nat \<Rightarrow> nat option" where
  "struct_pointee M t =
     (case pointee M t of
        None \<Rightarrow> None
      | Some st \<Rightarrow> if st \<ge> num_types M \<or> t_kind (types M st) \<noteq> BIR_TYPE_STRUCT then None else Some st)"

text \<open>The operand slots looked at are those of \<open>remap_inst\<close>: the two C switches enumerate them alike.\<close>

definition refs_value :: "bir_module \<Rightarrow> bir_inst \<Rightarrow> u32 \<Rightarrow> bool" where
  "refs_value M I v =
     (let ovf = (i_num_operands I = BIR_OPERANDS_OVERFLOW);
          start = unat (i_operands I 0);
          count = unat (i_operands I 1)
      in if i_op I = BIR_BR then False
         else if i_op I = BIR_BR_COND then i_operands I 0 = v
         else if ovf then list_ex (\<lambda>j. extra_operands M (start + j) = v) (remap_slots (i_op I) True count)
         else list_ex (\<lambda>j. i_operands I j = v) (remap_slots (i_op I) False (i_num_operands I)))"

text \<open>The instructions of a function in the order of its blocks.\<close>

definition func_insts :: "bir_module \<Rightarrow> bir_func \<Rightarrow> nat list" where
  "func_insts M F =
     concat (map (\<lambda>b. [b_first_inst (blocks M b)..<b_first_inst (blocks M b) + b_num_insts (blocks M b)])
       [f_first_block F..<f_first_block F + f_num_blocks F])"

subsection \<open>One struct alloca\<close>

text \<open>Pass 1: the constant-index GEPs on the struct pointer \<open>av\<close> with their fields, or an escape.\<close>

fun scan_geps :: "bir_module \<Rightarrow> nat \<Rightarrow> nat \<Rightarrow> nat list \<Rightarrow> (nat \<times> nat) list \<Rightarrow> (nat \<times> nat) list option" where
  "scan_geps M st sa [] geps = Some geps"
| "scan_geps M st sa (ii # is) geps =
     (let I = insts M ii; av = BIR_MAKE_VAL sa in
      if i_op I = BIR_GEP \<and> i_operands I 0 = av then
        (let idxop = i_operands I 1;
             fi = c_d (bir_consts M (BIR_VAL_INDEX idxop));
             f = unat (ucast fi :: u32);
             ft = type_fields M (t_count (types M st) + f)
         in if \<not> BIR_VAL_IS_CONST idxop then None
            else if sint fi < 0 \<or> f \<ge> t_num_fields (types M st) then None
            else if \<not> is_scalar M ft then None
            else if length geps \<ge> SROA_MAX_GEP then None
            else scan_geps M st sa is (geps @ [(ii, f)]))
      else if ii \<noteq> sa \<and> refs_value M I av then None
      else scan_geps M st sa is geps)"

text \<open>Pass 2, for one GEP: its loads (address slot 0) and stores (address slot 1), or an escape.\<close>

definition use_step :: "bir_module \<Rightarrow> nat \<times> nat \<Rightarrow> nat \<Rightarrow> (nat \<times> nat \<times> nat) list \<Rightarrow> (nat \<times> nat \<times> nat) list option" where
  "use_step M g ii uses =
     (let I = insts M ii; gv = BIR_MAKE_VAL (fst g) in
      if ii = fst g then Some uses
      else if i_op I = BIR_LOAD \<and> i_operands I 0 = gv then
        (if length uses \<ge> SROA_MAX_USE then None else Some (uses @ [(ii, 0, snd g)]))
      else if i_op I = BIR_STORE \<and> i_operands I 1 = gv then
        (if length uses \<ge> SROA_MAX_USE then None else Some (uses @ [(ii, 1, snd g)]))
      else if refs_value M I gv then None
      else Some uses)"

fun scan_uses :: "bir_module \<Rightarrow> nat \<times> nat \<Rightarrow> nat list \<Rightarrow> (nat \<times> nat \<times> nat) list \<Rightarrow> (nat \<times> nat \<times> nat) list option" where
  "scan_uses M g [] uses = Some uses"
| "scan_uses M g (ii # is) uses = Option.bind (use_step M g ii uses) (scan_uses M g is)"

fun all_uses :: "bir_module \<Rightarrow> nat list \<Rightarrow> (nat \<times> nat) list \<Rightarrow> (nat \<times> nat \<times> nat) list \<Rightarrow> (nat \<times> nat \<times> nat) list option" where
  "all_uses M ps [] uses = Some uses"
| "all_uses M ps (g # gs) uses = Option.bind (scan_uses M g ps uses) (all_uses M ps gs)"

text \<open>The distinct fields, each with the pointer type of its first GEP.\<close>

fun collect_fields :: "bir_module \<Rightarrow> (nat \<times> nat) list \<Rightarrow> (nat \<times> nat) list \<Rightarrow> (nat \<times> nat) list option" where
  "collect_fields M [] fs = Some fs"
| "collect_fields M (g # gs) fs =
     (if snd g \<in> fst ` set fs then collect_fields M gs fs
      else if length fs \<ge> SROA_MAX_FIELD then None
      else collect_fields M gs (fs @ [(snd g, i_type (insts M (fst g)))]))"

fun slot_of :: "(nat \<times> nat) list \<Rightarrow> nat \<Rightarrow> nat" where
  "slot_of [] f = 0"
| "slot_of (x # xs) f = (if fst x = f then 0 else if f \<in> fst ` set xs then Suc (slot_of xs f) else 0)"

definition locate :: "bir_module \<Rightarrow> bir_func \<Rightarrow> nat \<Rightarrow> nat \<times> nat" where
  "locate M F sa =
     (case find (\<lambda>b. b_first_inst (blocks M b) \<le> sa \<and> sa < b_first_inst (blocks M b) + b_num_insts (blocks M b))
             [f_first_block F..<f_first_block F + f_num_blocks F] of
        None \<Rightarrow> (0, 0)
      | Some b \<Rightarrow> (b, sa - b_first_inst (blocks M b)))"

definition new_alloca :: "bir_module \<Rightarrow> nat \<Rightarrow> nat \<times> nat \<Rightarrow> bir_inst" where
  "new_alloca M sa fp = zero_inst\<lparr>i_op := BIR_ALLOCA, i_num_operands := 0, i_subop := i_subop (insts M sa),
     i_type := snd fp\<rparr>"

definition repoint :: "nat \<Rightarrow> (nat \<times> nat) list \<Rightarrow> nat \<times> nat \<times> nat \<Rightarrow> bir_module \<Rightarrow> bir_module" where
  "repoint base fs u M =
     (let (ui, us, uf) = u; ii = ui + length fs
      in M\<lparr>insts := (insts M)(ii := (insts M ii)\<lparr>i_operands :=
             (i_operands (insts M ii))(us := BIR_MAKE_VAL (base + slot_of fs uf))\<rparr>)\<rparr>)"

definition try_alloca :: "bir_module \<Rightarrow> bir_func \<Rightarrow> nat \<Rightarrow> bir_module \<times> bool" where
  "try_alloca M F sa =
     (case struct_pointee M (i_type (insts M sa)) of
        None \<Rightarrow> (M, False)
      | Some st \<Rightarrow>
        (case scan_geps M st sa (func_insts M F) [] of
           None \<Rightarrow> (M, False)
         | Some geps \<Rightarrow>
             if geps = [] then (M, False)
             else
               (case all_uses M (func_insts M F) geps [] of
                  None \<Rightarrow> (M, False)
                | Some uses \<Rightarrow>
                    if uses = [] then (M, False)
                    else
                      (case collect_fields M geps [] of
                         None \<Rightarrow> (M, False)
                       | Some fs \<Rightarrow>
                           (let (blk, pos) = locate M F sa;
                                (M1, r) = bir_insert M blk pos (map (new_alloca M sa) fs)
                            in case r of
                                 None \<Rightarrow> (M1, False)
                               | Some base \<Rightarrow> (fold (repoint base fs) uses M1, True))))))"

subsection \<open>The driver\<close>

fun sroa_scan :: "bir_func \<Rightarrow> nat list \<Rightarrow> bir_module \<Rightarrow> bir_module \<times> bool" where
  "sroa_scan F [] M = (M, False)"
| "sroa_scan F (ii # is) M =
     (if i_op (insts M ii) \<noteq> BIR_ALLOCA then sroa_scan F is M
      else if struct_pointee M (i_type (insts M ii)) = None then sroa_scan F is M
      else
        let (M1, progress) = try_alloca M F ii
        in if progress then (M1, True) else sroa_scan F is M1)"

definition sroa_round :: "nat \<Rightarrow> bir_module \<Rightarrow> bir_module \<times> bool" where
  "sroa_round f M = sroa_scan (funcs M f) (func_insts M (funcs M f)) M"

partial_function (option) sroa_loop :: "nat \<Rightarrow> bir_module \<Rightarrow> bir_module option" where
  "sroa_loop f M = (case sroa_round f M of (M1, progress) \<Rightarrow> if progress then sroa_loop f M1 else Some M1)"

fun sroa_funcs :: "nat list \<Rightarrow> bir_module \<Rightarrow> bir_module option" where
  "sroa_funcs [] M = Some M"
| "sroa_funcs (f # fs) M = Option.bind (sroa_loop f M) (sroa_funcs fs)"

definition bir_sroa :: "bir_module option \<Rightarrow> bir_module option option" where
  "bir_sroa Mo =
     (case Mo of
        None \<Rightarrow> Some None
      | Some M \<Rightarrow> map_option Some (sroa_funcs [0..<num_funcs M] M))"

subsection \<open>What the scans find\<close>

definition is_gep :: "bir_module \<Rightarrow> nat \<Rightarrow> nat \<Rightarrow> bool" where
  "is_gep M sa ii \<longleftrightarrow> i_op (insts M ii) = BIR_GEP \<and> i_operands (insts M ii) 0 = BIR_MAKE_VAL sa"

definition gep_field :: "bir_module \<Rightarrow> nat \<Rightarrow> nat" where
  "gep_field M ii = unat (ucast (c_d (bir_consts M (BIR_VAL_INDEX (i_operands (insts M ii) 1)))) :: u32)"

definition addr_slot :: "bir_inst \<Rightarrow> nat" where
  "addr_slot I = (if i_op I = BIR_LOAD then 0 else 1)"

definition is_access :: "bir_module \<Rightarrow> nat \<Rightarrow> bool" where
  "is_access M p \<longleftrightarrow> i_op (insts M p) = BIR_LOAD \<or> i_op (insts M p) = BIR_STORE"

definition addr :: "bir_module \<Rightarrow> nat \<Rightarrow> u32" where
  "addr M p = i_operands (insts M p) (addr_slot (insts M p))"

lemma scan_geps_spec:
  assumes "scan_geps M st sa ps acc = Some geps"
  shows "geps = acc @ map (\<lambda>ii. (ii, gep_field M ii)) (filter (is_gep M sa) ps)"
  using assms
proof (induction ps arbitrary: acc)
  case (Cons ii ps)
  show ?case
  proof (cases "is_gep M sa ii")
    case True
    then have "scan_geps M st sa ps (acc @ [(ii, gep_field M ii)]) = Some geps"
      using Cons.prems by (simp add: is_gep_def gep_field_def Let_def split: if_splits)
    from Cons.IH [OF this] show ?thesis using True by simp
  next
    case False
    then have "scan_geps M st sa ps acc = Some geps"
      using Cons.prems by (auto simp: is_gep_def Let_def split: if_splits)
    from Cons.IH [OF this] show ?thesis using False by simp
  qed
qed simp

lemma use_step_spec:
  assumes "use_step M g ii acc = Some uses"
  shows "uses = acc @ (if ii \<noteq> fst g \<and> is_access M ii \<and> addr M ii = BIR_MAKE_VAL (fst g)
      then [(ii, addr_slot (insts M ii), snd g)] else [])"
  using assms by (auto simp: use_step_def Let_def is_access_def addr_def addr_slot_def split: if_splits)

lemma scan_uses_spec:
  assumes "scan_uses M g ps acc = Some uses"
  shows "uses = acc @ map (\<lambda>ii. (ii, addr_slot (insts M ii), snd g))
      (filter (\<lambda>ii. ii \<noteq> fst g \<and> is_access M ii \<and> addr M ii = BIR_MAKE_VAL (fst g)) ps)"
  using assms
proof (induction ps arbitrary: acc)
  case (Cons ii ps)
  then obtain mid where m: "use_step M g ii acc = Some mid" "scan_uses M g ps mid = Some uses"
    by (auto simp: bind_eq_Some_conv)
  then show ?case using Cons.IH [OF m(2)] use_step_spec [OF m(1)] by (simp split: if_splits)
qed simp

lemma all_uses_spec:
  assumes "all_uses M ps gs acc = Some uses"
  shows "set uses = set acc \<union> {(ii, addr_slot (insts M ii), f) | ii g f. (g, f) \<in> set gs \<and> ii \<in> set ps \<and> ii \<noteq> g \<and>
      is_access M ii \<and> addr M ii = BIR_MAKE_VAL g}"
  using assms
proof (induction gs arbitrary: acc)
  case (Cons g gs)
  then obtain mid where m: "scan_uses M g ps acc = Some mid" "all_uses M ps gs mid = Some uses"
    by (auto simp: bind_eq_Some_conv)
  have "set mid = set acc \<union> {(ii, addr_slot (insts M ii), snd g) | ii. ii \<in> set ps \<and> ii \<noteq> fst g \<and>
      is_access M ii \<and> addr M ii = BIR_MAKE_VAL (fst g)}"
    unfolding scan_uses_spec [OF m(1)] by auto
  then show ?case using Cons.IH [OF m(2)] by (cases g) auto
qed simp

lemma collect_fields_spec:
  assumes "collect_fields M gs acc = Some fs" "distinct (map fst acc)"
  shows "distinct (map fst fs) \<and> fst ` set fs = fst ` set acc \<union> snd ` set gs"
  using assms
proof (induction gs arbitrary: acc)
  case (Cons g gs)
  then show ?case by (auto split: if_splits)
qed simp

lemma slot_of_spec: "f \<in> fst ` set fs \<Longrightarrow> slot_of fs f < length fs \<and> fst (fs ! slot_of fs f) = f"
  by (induction fs) auto

lemma slot_of_inj:
  assumes "f \<in> fst ` set fs" "g \<in> fst ` set fs" "slot_of fs f = slot_of fs g"
  shows "f = g"
  using slot_of_spec [OF assms(1)] slot_of_spec [OF assms(2)] unfolding assms(3) by simp

lemma locate_spec:
  assumes "sa \<in> set (func_insts M F)" "locate M F sa = (b, pos)"
  shows "b_first_inst (blocks M b) + pos = sa" "b \<in> {f_first_block F..<f_first_block F + f_num_blocks F}"
    "pos < b_num_insts (blocks M b)"
proof -
  let ?P = "\<lambda>b. b_first_inst (blocks M b) \<le> sa \<and> sa < b_first_inst (blocks M b) + b_num_insts (blocks M b)"
  obtain c where "c \<in> set [f_first_block F..<f_first_block F + f_num_blocks F]" "?P c"
    using assms(1) by (auto simp: func_insts_def)
  then have "find ?P [f_first_block F..<f_first_block F + f_num_blocks F] \<noteq> None"
    unfolding find_None_iff by blast
  then obtain d where d: "find ?P [f_first_block F..<f_first_block F + f_num_blocks F] = Some d" by blast
  then have "?P d" "d \<in> set [f_first_block F..<f_first_block F + f_num_blocks F]"
    unfolding find_Some_iff by (metis nth_mem)+
  moreover have "b = d" "pos = sa - b_first_inst (blocks M d)" using assms(2) d by (auto simp: locate_def)
  ultimately show "b_first_inst (blocks M b) + pos = sa" "b \<in> {f_first_block F..<f_first_block F + f_num_blocks F}"
    "pos < b_num_insts (blocks M b)" by auto
qed

text \<open>The loop that repoints the accesses, for uses that determine their slot and field.\<close>

lemma repoint_all:
  assumes "\<forall>u s f s' f'. (u, s, f) \<in> set uses \<longrightarrow> (u, s', f') \<in> set uses \<longrightarrow> s = s' \<and> f = f'"
  shows "(\<forall>u s f. (u, s, f) \<in> set uses \<longrightarrow> insts (fold (repoint base fs) uses M) (u + length fs) =
        (insts M (u + length fs))\<lparr>i_operands := (i_operands (insts M (u + length fs)))(s := BIR_MAKE_VAL (base + slot_of fs f))\<rparr>) \<and>
    (\<forall>p. (\<forall>u s f. (u, s, f) \<in> set uses \<longrightarrow> p \<noteq> u + length fs) \<longrightarrow>
        insts (fold (repoint base fs) uses M) p = insts M p)"
  using assms
proof (induction uses rule: rev_induct)
  case (snoc x uses)
  obtain u s f where x: "x = (u, s, f)" by (cases x)
  let ?R = "fold (repoint base fs) uses M"
  have IH: "(\<forall>u s f. (u, s, f) \<in> set uses \<longrightarrow> insts ?R (u + length fs) =
        (insts M (u + length fs))\<lparr>i_operands := (i_operands (insts M (u + length fs)))(s := BIR_MAKE_VAL (base + slot_of fs f))\<rparr>) \<and>
      (\<forall>p. (\<forall>u s f. (u, s, f) \<in> set uses \<longrightarrow> p \<noteq> u + length fs) \<longrightarrow> insts ?R p = insts M p)"
    using snoc.prems by (intro snoc.IH allI impI) (metis UnCI set_append)
  note IH1 = IH [THEN conjunct1, rule_format] and IH2 = IH [THEN conjunct2, rule_format]
  have old: "(insts ?R (u + length fs))\<lparr>i_operands := (i_operands (insts ?R (u + length fs)))(s := w)\<rparr> =
      (insts M (u + length fs))\<lparr>i_operands := (i_operands (insts M (u + length fs)))(s := w)\<rparr>" for w
  proof (cases "\<exists>s' f'. (u, s', f') \<in> set uses")
    case True
    then obtain s' f' where "(u, s', f') \<in> set uses" by blast
    moreover from this have "s' = s" using snoc.prems [rule_format, of u s f s' f'] by (simp add: x)
    ultimately show ?thesis using IH1 by simp
  next
    case False
    then have "insts ?R (u + length fs) = insts M (u + length fs)" by (intro IH2) auto
    then show ?thesis by simp
  qed
  have same: "s' = s \<and> f' = f" if "(u, s', f') \<in> set uses" for s' f'
    using snoc.prems [rule_format, of u s f s' f'] that by (simp add: x)
  have r: "fold (repoint base fs) (uses @ [x]) M = ?R\<lparr>insts := (insts ?R)(u + length fs := (insts M (u + length fs))
      \<lparr>i_operands := (i_operands (insts M (u + length fs)))(s := BIR_MAKE_VAL (base + slot_of fs f))\<rparr>)\<rparr>"
    by (simp add: x repoint_def Let_def old)
  show ?case
  proof (intro conjI allI impI)
    fix u' s' f'
    assume "(u', s', f') \<in> set (uses @ [x])"
    then consider "u' = u" "s' = s" "f' = f" | "u' \<noteq> u" "(u', s', f') \<in> set uses"
      using same by (cases "u' = u") (auto simp: x)
    then show "insts (fold (repoint base fs) (uses @ [x]) M) (u' + length fs) =
        (insts M (u' + length fs))\<lparr>i_operands := (i_operands (insts M (u' + length fs)))(s' := BIR_MAKE_VAL (base + slot_of fs f'))\<rparr>"
    proof cases
      case 2
      then have "insts ?R (u' + length fs) = (insts M (u' + length fs))\<lparr>i_operands := (i_operands (insts M (u' + length fs)))
          (s' := BIR_MAKE_VAL (base + slot_of fs f'))\<rparr>" using IH1 by blast
      then show ?thesis using 2(1) unfolding r by simp
    qed (simp only: r, simp)
  next
    fix p
    assume "\<forall>u s f. (u, s, f) \<in> set (uses @ [x]) \<longrightarrow> p \<noteq> u + length fs"
    then have "p \<noteq> u + length fs" "insts ?R p = insts M p" by (auto simp: x intro!: IH2)
    then show "insts (fold (repoint base fs) (uses @ [x]) M) p = insts M p" unfolding r by simp
  qed
qed simp

lemma repoint_keeps: "\<exists>is. fold (repoint base fs) uses M = M\<lparr>insts := is\<rparr>"
proof (induction uses arbitrary: M)
  case Nil
  show ?case by (intro exI [of _ "insts M"]) simp
next
  case (Cons u uses)
  obtain js where "repoint base fs u M = M\<lparr>insts := js\<rparr>" by (cases u) (auto simp: repoint_def Let_def)
  then show ?case using Cons.IH [of "repoint base fs u M"] by auto
qed


subsection \<open>No escape\<close>

text \<open>What the two passes let through: the references to the struct pointer and to its GEPs.\<close>

lemma scan_geps_only:
  assumes "scan_geps M st sa ps acc = Some geps" "ii \<in> set ps" "ii \<noteq> sa" "refs_value M (insts M ii) (BIR_MAKE_VAL sa)"
  shows "is_gep M sa ii"
  using assms
proof (induction ps arbitrary: acc)
  case (Cons p ps)
  then show ?case by (cases "ii = p") (auto simp: is_gep_def Let_def split: if_splits)
qed simp

lemma scan_geps_fields:
  assumes "scan_geps M st sa ps acc = Some geps" "ii \<in> set ps" "is_gep M sa ii"
  shows "BIR_VAL_IS_CONST (i_operands (insts M ii) 1) \<and> gep_field M ii < t_num_fields (types M st) \<and>
    is_scalar M (type_fields M (t_count (types M st) + gep_field M ii))"
  using assms
proof (induction ps arbitrary: acc)
  case (Cons p ps)
  then show ?case by (cases "ii = p") (auto simp: is_gep_def gep_field_def Let_def split: if_splits)
qed simp

lemma scan_uses_only:
  assumes "scan_uses M g ps acc = Some uses" "ii \<in> set ps" "ii \<noteq> fst g"
    "refs_value M (insts M ii) (BIR_MAKE_VAL (fst g))"
  shows "is_access M ii \<and> addr M ii = BIR_MAKE_VAL (fst g)"
  using assms
proof (induction ps arbitrary: acc)
  case (Cons p ps)
  then obtain mid where m: "use_step M g p acc = Some mid" "scan_uses M g ps mid = Some uses"
    by (auto simp: bind_eq_Some_conv)
  show ?case
  proof (cases "ii = p")
    case True
    then show ?thesis using m(1) Cons.prems(3,4)
      by (auto simp: use_step_def Let_def is_access_def addr_def addr_slot_def split: if_splits)
  next
    case False
    then show ?thesis using Cons.IH [OF m(2)] Cons.prems by simp
  qed
qed simp

lemma all_uses_only:
  assumes "all_uses M ps gs acc = Some uses" "ii \<in> set ps" "(g, f) \<in> set gs" "ii \<noteq> g"
    "refs_value M (insts M ii) (BIR_MAKE_VAL g)"
  shows "is_access M ii \<and> addr M ii = BIR_MAKE_VAL g"
  using assms
proof (induction gs arbitrary: acc)
  case (Cons h gs)
  then obtain mid where m: "scan_uses M h ps acc = Some mid" "all_uses M ps gs mid = Some uses"
    by (auto simp: bind_eq_Some_conv)
  show ?case
  proof (cases "h = (g, f)")
    case True
    then show ?thesis using scan_uses_only [OF m(1)] Cons.prems by simp
  next
    case False
    then show ?thesis using Cons.IH [OF m(2)] Cons.prems by simp
  qed
qed simp

lemma try_alloca_steps:
  assumes "try_alloca M F sa = (M', True)"
  obtains st geps uses fs blk pos M1 base where
    "scan_geps M st sa (func_insts M F) [] = Some geps" "all_uses M (func_insts M F) geps [] = Some uses"
    "uses \<noteq> []" "collect_fields M geps [] = Some fs" "locate M F sa = (blk, pos)"
    "bir_insert M blk pos (map (new_alloca M sa) fs) = (M1, Some base)" "M' = fold (repoint base fs) uses M1"
    "struct_pointee M (i_type (insts M sa)) = Some st"
  using assms unfolding try_alloca_def
  by (auto simp: Let_def split: option.splits prod.splits if_splits)


subsection \<open>Executions\<close>

text \<open>
  The program around the memory is any function from the values read so far to the next access:
  the position of a load or store, the address its operand evaluates to when that is not a cell of
  the struct, and the value a store writes.  The cells of a split object are apart from every
  other address.
\<close>

datatype 'a loc = Cell nat nat | Outer 'a

fun mem_run :: "nat \<Rightarrow> (nat \<Rightarrow> 'a \<Rightarrow> 'a loc) \<Rightarrow> (nat \<Rightarrow> bool) \<Rightarrow> ('v list \<Rightarrow> (nat \<times> 'a \<times> 'v) option) \<Rightarrow>
    ('a loc \<Rightarrow> 'v) \<Rightarrow> 'v list \<Rightarrow> 'v list" where
  "mem_run 0 loc st prog m hist = hist"
| "mem_run (Suc n) loc st prog m hist =
     (case prog hist of
        None \<Rightarrow> hist
      | Some (p, a, v) \<Rightarrow>
          if st p then mem_run n loc st prog (m(loc p a := v)) (hist @ [v])
          else mem_run n loc st prog m (hist @ [m (loc p a)]))"

definition gep_of :: "bir_module \<Rightarrow> bir_func \<Rightarrow> nat \<Rightarrow> nat \<Rightarrow> nat option" where
  "gep_of M F sa p = find (\<lambda>g. is_gep M sa g \<and> addr M p = BIR_MAKE_VAL g) (func_insts M F)"

definition loc_struct :: "bir_module \<Rightarrow> bir_func \<Rightarrow> nat \<Rightarrow> nat \<Rightarrow> 'a \<Rightarrow> 'a loc" where
  "loc_struct M F sa p a = (case gep_of M F sa p of Some g \<Rightarrow> Cell sa (gep_field M g) | None \<Rightarrow> Outer a)"

definition loc_split :: "bir_module \<Rightarrow> nat \<Rightarrow> nat \<Rightarrow> nat \<Rightarrow> 'a \<Rightarrow> 'a loc" where
  "loc_split M sa K p a =
     (case find (\<lambda>k. addr M p = BIR_MAKE_VAL (sa + k)) [0..<K] of Some k \<Rightarrow> Cell (sa + k) 0 | None \<Rightarrow> Outer a)"

definition shifted :: "nat \<Rightarrow> nat \<Rightarrow> nat \<Rightarrow> nat" where
  "shifted sa K p = (if p < sa then p else p + K)"

abbreviation is_store :: "bir_module \<Rightarrow> nat \<Rightarrow> bool" where
  "is_store M p \<equiv> i_op (insts M p) = BIR_STORE"

lemma mem_run_sim:
  assumes "\<And>hist p a v. prog hist = Some (p, a, v) \<Longrightarrow> st' (sh p) = st p"
    and "\<And>hist p a v. prog hist = Some (p, a, v) \<Longrightarrow> loc p a \<in> L \<and> loc' (sh p) a = h (loc p a)"
    and "inj_on h L" "\<forall>x \<in> L. m' (h x) = m x"
  shows "mem_run n loc' st' (\<lambda>hist. map_option (\<lambda>(p, a, v). (sh p, a, v)) (prog hist)) m' hist =
    mem_run n loc st prog m hist"
  using assms(4)
proof (induction n arbitrary: m m' hist)
  case (Suc n)
  show ?case
  proof (cases "prog hist")
    case (Some e)
    obtain p a v where e: "e = (p, a, v)" by (cases e)
    note pr = Some [unfolded e]
    have l: "loc p a \<in> L" "loc' (sh p) a = h (loc p a)" using assms(2) [OF pr] by simp_all
    have upd: "\<forall>x \<in> L. (m'(h (loc p a) := v)) (h x) = (m(loc p a := v)) x"
      using Suc.prems inj_on_eq_iff [OF assms(3)] l(1) by simp
    show ?thesis using Suc.IH [OF upd] Suc.IH [OF Suc.prems] Suc.prems l assms(1) [OF pr] by (simp add: pr del: fun_upd_apply)
  qed simp
qed simp


subsection \<open>Splitting keeps the values read\<close>

text \<open>
  What the pass relies on: the function's instructions are in range, overflow operands are not
  shared, loads and stores are inline with their operands, and an access through a GEP of the
  struct comes after the struct's alloca.
\<close>

definition sroa_ready :: "bir_module \<Rightarrow> bir_func \<Rightarrow> nat \<Rightarrow> bool" where
  "sroa_ready M F sa \<longleftrightarrow> sa \<in> set (func_insts M F) \<and> i_op (insts M sa) = BIR_ALLOCA \<and>
     list_all (\<lambda>p. p < num_insts M \<and>
       (is_access M p \<longrightarrow> addr_slot (insts M p) < i_num_operands (insts M p) \<and> i_num_operands (insts M p) \<le> BIR_OPERANDS_INLINE) \<and>
       (is_access M p \<and> gep_of M F sa p \<noteq> None \<longrightarrow> sa < p)) (func_insts M F) \<and>
     ext_apart (insts M) (num_insts M) \<and> num_insts M \<le> BIR_MAX_INSTS"

lemma sroa_readyD:
  assumes "sroa_ready M F sa" "p \<in> set (func_insts M F)"
  shows "p < num_insts M" "p < 2 ^ 31"
    "is_access M p \<Longrightarrow> addr_slot (insts M p) < i_num_operands (insts M p) \<and> i_num_operands (insts M p) \<le> BIR_OPERANDS_INLINE"
    "is_access M p \<Longrightarrow> gep_of M F sa p \<noteq> None \<Longrightarrow> sa < p"
proof -
  show "p < num_insts M" "is_access M p \<Longrightarrow> addr_slot (insts M p) < i_num_operands (insts M p) \<and> i_num_operands (insts M p) \<le> BIR_OPERANDS_INLINE"
    "is_access M p \<Longrightarrow> gep_of M F sa p \<noteq> None \<Longrightarrow> sa < p"
    using assms unfolding sroa_ready_def list_all_iff by blast+
  then show "p < 2 ^ 31" using assms(1) by (simp add: sroa_ready_def)
qed

lemma gep_of_Some: "gep_of M F sa p = Some g \<Longrightarrow> g \<in> set (func_insts M F) \<and> is_gep M sa g \<and> addr M p = BIR_MAKE_VAL g"
  by (auto simp: gep_of_def find_Some_iff)

lemma gep_of_unique:
  assumes "sroa_ready M F sa" "g \<in> set (func_insts M F)" "is_gep M sa g" "addr M p = BIR_MAKE_VAL g"
  shows "gep_of M F sa p = Some g"
proof (cases "gep_of M F sa p")
  case None
  then show ?thesis using assms(2-4) by (auto simp: gep_of_def find_None_iff)
next
  case (Some h)
  then have "h \<in> set (func_insts M F)" "addr M p = BIR_MAKE_VAL h" using gep_of_Some by blast+
  then have "h = g"
    using assms(2,4) sroa_readyD(2) [OF assms(1)] by (metis make_val_inject)
  then show ?thesis using Some by simp
qed

definition split_uses :: "bir_module \<Rightarrow> bir_func \<Rightarrow> nat \<Rightarrow> (nat \<times> nat \<times> nat) set" where
  "split_uses M F sa = {(p, addr_slot (insts M p), gep_field M g) | p g.
     p \<in> set (func_insts M F) \<and> is_access M p \<and> gep_of M F sa p = Some g}"

lemma found_uses:
  assumes ready: "sroa_ready M F sa" and geps: "scan_geps M st sa (func_insts M F) [] = Some geps"
    and uses: "all_uses M (func_insts M F) geps [] = Some uses"
  shows "set uses = split_uses M F sa"
proof -
  have g: "(g, f) \<in> set geps \<longleftrightarrow> g \<in> set (func_insts M F) \<and> is_gep M sa g \<and> f = gep_field M g" for g f
    using scan_geps_spec [OF geps] by auto
  have ne: "ii \<noteq> g" if "is_access M ii" "is_gep M sa g" for ii g
    using that by (auto simp: is_access_def is_gep_def)
  show ?thesis
  proof (intro equalityI subsetI)
    fix u
    assume "u \<in> set uses"
    then obtain ii g where "u = (ii, addr_slot (insts M ii), gep_field M g)" "g \<in> set (func_insts M F)" "is_gep M sa g"
        "ii \<in> set (func_insts M F)" "is_access M ii" "addr M ii = BIR_MAKE_VAL g"
      unfolding all_uses_spec [OF uses] by (auto simp: g)
    then show "u \<in> split_uses M F sa" unfolding split_uses_def using gep_of_unique [OF ready] by blast
  next
    fix u
    assume "u \<in> split_uses M F sa"
    then obtain p h where u: "u = (p, addr_slot (insts M p), gep_field M h)" "p \<in> set (func_insts M F)" "is_access M p"
        "gep_of M F sa p = Some h"
      unfolding split_uses_def by blast
    note h = gep_of_Some [OF u(4)]
    then have "(h, gep_field M h) \<in> set geps" "p \<noteq> h" using g ne u(3) by auto
    then show "u \<in> set uses" unfolding all_uses_spec [OF uses] using u h by blast
  qed
qed

lemma new_alloca_remap: "remap_head at n (new_alloca M sa fp) = new_alloca M sa fp"
  by (auto simp: remap_head_def inl_slots_def remap_slots_def new_alloca_def intro!: bir_inst.equality)


text \<open>The rewritten module: the new allocas, the old instructions shifted, the accesses repointed.\<close>

lemma split_result:
  assumes ready: "sroa_ready M F sa" and r: "try_alloca M F sa = (M', True)"
  obtains fs where "distinct (map fst fs)"
    "fst ` set fs = gep_field M ` {g \<in> set (func_insts M F). is_gep M sa g}"
    "0 < length fs" "num_insts M + length fs \<le> BIR_MAX_INSTS"
    "\<forall>k < length fs. insts M' (sa + k) = new_alloca M sa (fs ! k)"
    "\<forall>p \<in> set (func_insts M F). insts M' (shifted sa (length fs) p) =
       (case if is_access M p then gep_of M F sa p else None of
          None \<Rightarrow> remap_head sa (length fs) (insts M p)
        | Some g \<Rightarrow> (let I = remap_head sa (length fs) (insts M p) in
            I\<lparr>i_operands := (i_operands I)(addr_slot (insts M p) := BIR_MAKE_VAL (sa + slot_of fs (gep_field M g)))\<rparr>))"
proof -
  obtain st geps uses fs blk pos M1 base where
    geps: "scan_geps M st sa (func_insts M F) [] = Some geps" and uses: "all_uses M (func_insts M F) geps [] = Some uses"
    and ne: "uses \<noteq> []" and fs: "collect_fields M geps [] = Some fs" and loc: "locate M F sa = (blk, pos)"
    and ins: "bir_insert M blk pos (map (new_alloca M sa) fs) = (M1, Some base)" and M': "M' = fold (repoint base fs) uses M1"
    by (rule try_alloca_steps [OF r])
  let ?K = "length fs"
  have sa: "sa \<in> set (func_insts M F)" and apart: "ext_apart (insts M) (num_insts M)"
    using ready by (simp_all add: sroa_ready_def)
  note lo = locate_spec [OF sa loc]
  have N: "sa < num_insts M" using sroa_readyD(1) [OF ready sa] .
  have base: "base = sa" using ins lo(1) by (auto simp: bir_insert_def Let_def split: if_splits)
  have plain: "\<forall>I \<in> set (map (new_alloca M sa) fs). \<not> overflow I" by (auto simp: new_alloca_def)
  note ri = bir_insert_result [OF ins [unfolded base] less_imp_le [OF N] apart plain, unfolded length_map]
  note U = found_uses [OF ready geps uses]
  have fixed: "\<forall>u s f s' f'. (u, s, f) \<in> set uses \<longrightarrow> (u, s', f') \<in> set uses \<longrightarrow> s = s' \<and> f = f'"
    unfolding U split_uses_def by auto
  note rep = repoint_all [OF fixed, of base fs M1, folded M']
  have after: "sa < u" if "(u, s, f) \<in> set uses" for u s f
    using that sroa_readyD(4) [OF ready] unfolding U split_uses_def by fastforce
  show thesis
  proof (rule that [of fs])
    have d: "distinct (map fst fs) \<and> fst ` set fs = fst ` set [] \<union> snd ` set geps"
      using collect_fields_spec [OF fs] by simp
    then show "distinct (map fst fs)" by blast
    show f: "fst ` set fs = gep_field M ` {g \<in> set (func_insts M F). is_gep M sa g}"
      using d scan_geps_spec [OF geps] by (auto simp: image_def)
    obtain u s f where "(u, s, f) \<in> split_uses M F sa" using ne unfolding U [symmetric] by (cases uses) auto
    then obtain p g where "gep_of M F sa p = Some g" unfolding split_uses_def by blast
    then have "gep_field M g \<in> fst ` set fs" unfolding f using gep_of_Some by blast
    then show "0 < ?K" by (cases fs) auto
    show "num_insts M + ?K \<le> BIR_MAX_INSTS" using ri(9) .
    show "\<forall>k < ?K. insts M' (sa + k) = new_alloca M sa (fs ! k)"
    proof (intro allI impI)
      fix k
      assume k: "k < ?K"
      have "sa + k \<noteq> u + ?K" if "(u, s, f) \<in> set uses" for u s f using after [OF that] k by simp
      then have "insts M' (sa + k) = insts M1 (sa + k)" using rep by blast
      also have "\<dots> = remap_head sa ?K (new_alloca M sa (fs ! k))"
        using ri(1) [of "sa + k"] k N opened_array(3) [OF less_imp_le [OF N], of k "map (new_alloca M sa) fs" "insts M"] by simp
      finally show "insts M' (sa + k) = new_alloca M sa (fs ! k)" by (simp only: new_alloca_remap)
    qed
    show "\<forall>p \<in> set (func_insts M F). insts M' (shifted sa ?K p) = (case if is_access M p then gep_of M F sa p else None of
          None \<Rightarrow> remap_head sa ?K (insts M p)
        | Some g \<Rightarrow> (let I = remap_head sa ?K (insts M p) in
            I\<lparr>i_operands := (i_operands I)(addr_slot (insts M p) := BIR_MAKE_VAL (sa + slot_of fs (gep_field M g)))\<rparr>))"
      (is "\<forall>p \<in> _. ?P p")
    proof
      fix p
      assume p: "p \<in> set (func_insts M F)"
      have pN: "p < num_insts M" using sroa_readyD(1) [OF ready p] .
      let ?q = "shifted sa ?K p"
      have M1: "insts M1 ?q = remap_head sa ?K (insts M p)"
        using ri(1) [of ?q] pN opened_array(1,2) [OF less_imp_le [OF N], of p "insts M" "map (new_alloca M sa) fs"]
        by (auto simp: shifted_def)
      show "?P p"
      proof (cases "if is_access M p then gep_of M F sa p else None")
        case None
        have "?q \<noteq> u + ?K" if u: "(u, s, f) \<in> set uses" for u s f
        proof
          assume "?q = u + ?K"
          then have "u = p" using after [OF u] by (auto simp: shifted_def split: if_splits)
          then show False using None u unfolding U split_uses_def by auto
        qed
        then have "insts M' ?q = insts M1 ?q" using rep by blast
        then show ?thesis using M1 None by simp
      next
        case (Some g)
        then have u: "(p, addr_slot (insts M p), gep_field M g) \<in> set uses"
          using p unfolding U split_uses_def by (auto split: if_splits)
        have q: "?q = p + ?K" using after [OF u] by (simp add: shifted_def)
        have "insts M' (p + ?K) = (insts M1 (p + ?K))\<lparr>i_operands := (i_operands (insts M1 (p + ?K)))
            (addr_slot (insts M p) := BIR_MAKE_VAL (base + slot_of fs (gep_field M g)))\<rparr>"
          using rep u by blast
        then show ?thesis using M1 unfolding Some q base by (simp add: Let_def)
      qed
    qed
  qed
qed


lemma rv_avoids:
  assumes "k < n" "at + n < 2 ^ 31"
  shows "rv v at n \<noteq> BIR_MAKE_VAL (at + k)"
proof (cases "v = BIR_VAL_NONE \<or> BIR_VAL_IS_CONST v")
  case True
  have "BIR_VAL_IS_CONST BIR_VAL_NONE" by (simp add: val_is_const_iff_ge)
  then have "BIR_VAL_IS_CONST v" using True by blast
  moreover have "\<not> BIR_VAL_IS_CONST (BIR_MAKE_VAL (at + k))" using assms by (intro make_val_not_const) simp
  ultimately have "v \<noteq> BIR_MAKE_VAL (at + k)" by metis
  then show ?thesis using True by (simp add: rv_def)
next
  case False
  have lt: "BIR_VAL_INDEX v < 2 ^ 31" by (simp add: val_index_mod)
  have inj: "word_of_nat i = (word_of_nat j :: u32) \<longleftrightarrow> i = j" if "i < 2 ^ 32" "j < 2 ^ 32" for i j
  proof -
    have "unat (word_of_nat i :: u32) = i" "unat (word_of_nat j :: u32) = j"
      using that by (simp_all add: unat_of_nat take_bit_nat_eq_self)
    then show ?thesis by metis
  qed
  show ?thesis
  proof (cases "BIR_VAL_INDEX v \<ge> at")
    case True
    then show ?thesis using False lt assms inj [of "BIR_VAL_INDEX v + n" "at + k"]
      by (simp add: rv_def BIR_MAKE_VAL_def Let_def)
  next
    case low: False
    then have "BIR_MAKE_VAL (BIR_VAL_INDEX v) \<noteq> BIR_MAKE_VAL (at + k)"
      using make_val_inject [OF lt, of "at + k"] assms by simp
    then show ?thesis using False low make_val_of_index [of v] by (simp add: rv_def Let_def)
  qed
qed

lemma addr_remap:
  assumes "sroa_ready M F sa" "p \<in> set (func_insts M F)" "is_access M p" "insts M' q = remap_head sa n (insts M p)"
  shows "addr M' q = rv (addr M p) sa n"
proof -
  have "addr_slot (insts M p) \<in> inl_slots (insts M p)"
    using sroa_readyD(3) [OF assms(1,2,3)] assms(3)
    by (auto simp: inl_slots_def remap_slots_def is_access_def addr_slot_def)
  moreover have "addr_slot (remap_head sa n (insts M p)) = addr_slot (insts M p)" by (simp add: addr_slot_def)
  ultimately show ?thesis using assms(4) by (simp add: addr_def) (simp add: remap_head_def)
qed


definition split_cell :: "nat \<Rightarrow> (nat \<times> nat) list \<Rightarrow> 'a loc \<Rightarrow> 'a loc" where
  "split_cell sa fs l = (case l of Cell _ f \<Rightarrow> Cell (sa + slot_of fs f) 0 | Outer a \<Rightarrow> Outer a)"

lemma split_access:
  assumes ready: "sroa_ready M F sa" and p: "p \<in> set (func_insts M F)" "is_access M p"
    and fs: "fst ` set fs = gep_field M ` {g \<in> set (func_insts M F). is_gep M sa g}"
    and N: "num_insts M + length fs \<le> BIR_MAX_INSTS"
    and q: "insts M' q =
       (case gep_of M F sa p of
          None \<Rightarrow> remap_head sa (length fs) (insts M p)
        | Some g \<Rightarrow> (let I = remap_head sa (length fs) (insts M p) in
            I\<lparr>i_operands := (i_operands I)(addr_slot (insts M p) := BIR_MAKE_VAL (sa + slot_of fs (gep_field M g)))\<rparr>))"
  shows "loc_split M' sa (length fs) q a = split_cell sa fs (loc_struct M F sa p a)"
    and "i_op (insts M' q) = i_op (insts M p)"
proof -
  show op: "i_op (insts M' q) = i_op (insts M p)" unfolding q by (simp add: Let_def split: option.split)
  have "sa \<in> set (func_insts M F)" using ready by (simp add: sroa_ready_def)
  then have "sa < num_insts M" by (rule sroa_readyD(1) [OF ready])
  then have lt: "sa + length fs < 2 ^ 31" using N by simp
  show "loc_split M' sa (length fs) q a = split_cell sa fs (loc_struct M F sa p a)"
  proof (cases "gep_of M F sa p")
    case None
    then have "addr M' q = rv (addr M p) sa (length fs)" using addr_remap [OF ready p, of M' q] q by simp
    then have "find (\<lambda>k. addr M' q = BIR_MAKE_VAL (sa + k)) [0..<length fs] = None"
      using rv_avoids lt by (auto simp: find_None_iff)
    then show ?thesis using None by (simp add: loc_split_def loc_struct_def split_cell_def)
  next
    case (Some g)
    let ?s = "slot_of fs (gep_field M g)"
    have "gep_field M g \<in> fst ` set fs" unfolding fs using gep_of_Some [OF Some] by blast
    then have s: "?s < length fs" using slot_of_spec by blast
    have sl: "addr_slot (insts M' q) = addr_slot (insts M p)" using op by (simp add: addr_slot_def)
    have ad: "addr M' q = BIR_MAKE_VAL (sa + ?s)" unfolding addr_def sl using q by (simp add: Some Let_def)
    have "(addr M' q = BIR_MAKE_VAL (sa + k)) = (k = ?s)" if "k < length fs" for k
      unfolding ad using make_val_inject [of "sa + ?s" "sa + k"] that s lt by auto
    then have "find (\<lambda>k. addr M' q = BIR_MAKE_VAL (sa + k)) [0..<length fs] = Some ?s"
      unfolding find_Some_iff using s by (intro exI [of _ ?s]) auto
    then show ?thesis using Some by (simp add: loc_split_def loc_struct_def split_cell_def)
  qed
qed




subsection \<open>The driver ends\<close>

lemma remap_all_num: "num_insts (for_loop 0 N (remap_inst at n) M) = num_insts M"
  by (rule for_loop_proj) (simp add: remap_inst_def Let_def)

lemma bir_insert_grows:
  "bir_insert M b pos src = (M1, r) \<Longrightarrow>
     (case r of None \<Rightarrow> num_insts M1 = num_insts M
      | Some at \<Rightarrow> num_insts M < num_insts M1 \<and> num_insts M1 \<le> BIR_MAX_INSTS)"
  by (auto simp: bir_insert_def Let_def bir_pfull_def remap_all_num split: if_splits)

lemma try_alloca_grows:
  assumes "try_alloca M F sa = (M', progress)"
  shows "if progress then num_insts M < num_insts M' \<and> num_insts M' \<le> BIR_MAX_INSTS else num_insts M' = num_insts M"
proof (cases progress)
  case True
  then obtain st geps uses fs blk pos M1 base where
    ins: "bir_insert M blk pos (map (new_alloca M sa) fs) = (M1, Some base)" and M': "M' = fold (repoint base fs) uses M1"
    using assms by (auto elim: try_alloca_steps)
  then obtain js where "M' = M1\<lparr>insts := js\<rparr>" using repoint_keeps by blast
  then show ?thesis using bir_insert_grows [OF ins] True by simp
next
  case False
  then show ?thesis using assms
    by (auto simp: try_alloca_def Let_def split: option.splits prod.splits if_splits dest: bir_insert_grows)
qed

lemma sroa_scan_grows:
  "sroa_scan F ps M = (M', progress) \<Longrightarrow>
     (if progress then num_insts M < num_insts M' \<and> num_insts M' \<le> BIR_MAX_INSTS else num_insts M' = num_insts M)"
proof (induction ps arbitrary: M)
  case (Cons ii ps)
  obtain M1 pr where t: "try_alloca M F ii = (M1, pr)" by (cases "try_alloca M F ii")
  note g = try_alloca_grows [OF t]
  show ?case using Cons.prems Cons.IH [of M] Cons.IH [of M1] g t
    by (cases pr) (auto split: if_splits)
qed simp

lemma sroa_loop_ends: "\<exists>M'. sroa_loop f M = Some M'"
proof (induction "BIR_MAX_INSTS - num_insts M" arbitrary: M rule: less_induct)
  case less
  obtain M1 pr where r: "sroa_round f M = (M1, pr)" by (cases "sroa_round f M")
  show ?case
  proof (cases pr)
    case True
    then have "num_insts M < num_insts M1 \<and> num_insts M1 \<le> BIR_MAX_INSTS"
      using sroa_scan_grows r unfolding sroa_round_def by fastforce
    then have "BIR_MAX_INSTS - num_insts M1 < BIR_MAX_INSTS - num_insts M" by (intro diff_less_mono2) linarith+
    from less [OF this] show ?thesis using r True by (simp add: sroa_loop.simps)
  next
    case False
    then show ?thesis using r by (simp add: sroa_loop.simps)
  qed
qed

text \<open>
  Property C16.  The pass always ends: the driver's unguarded loop repeats only after a split, every
  split adds instructions, and the instruction array is bounded.
\<close>

theorem bir_sroa_terminates: "\<exists>r. bir_sroa Mo = Some r"
proof -
  have "\<exists>M'. sroa_funcs fs M = Some M'" for fs M
    by (induction fs arbitrary: M) (use sroa_loop_ends in \<open>fastforce simp: bind_eq_Some_conv\<close>)+
  then show ?thesis by (auto simp: bir_sroa_def split: option.split)
qed


subsection \<open>Samples\<close>

text \<open>A struct of two integers: store to both fields, load the first, return it.\<close>

definition sroa_module :: "u32 \<Rightarrow> bir_module" where
  "sroa_module v = (cleared_module ((\<lambda>_. zero_inst)(
       0 := zero_inst\<lparr>i_op := BIR_ALLOCA, i_type := 2\<rparr>,
       1 := zero_inst\<lparr>i_op := BIR_GEP, i_num_operands := 2, i_type := 3, i_operands := ops_of [0, BIR_MAKE_CONST 0]\<rparr>,
       2 := zero_inst\<lparr>i_op := BIR_GEP, i_num_operands := 2, i_type := 3, i_operands := ops_of [0, BIR_MAKE_CONST 1]\<rparr>,
       3 := zero_inst\<lparr>i_op := BIR_STORE, i_num_operands := 2, i_operands := ops_of [v, 1]\<rparr>,
       4 := zero_inst\<lparr>i_op := BIR_STORE, i_num_operands := 2, i_operands := ops_of [BIR_MAKE_CONST 1, 2]\<rparr>,
       5 := zero_inst\<lparr>i_op := BIR_LOAD, i_num_operands := 1, i_operands := ops_of [1]\<rparr>,
       6 := zero_inst\<lparr>i_op := BIR_RET, i_num_operands := 1, i_operands := ops_of [5]\<rparr>)))\<lparr>num_insts := 7,
       types := (\<lambda>_. zero_type)(0 := zero_type\<lparr>t_kind := BIR_TYPE_INT, t_width := 32\<rparr>,
         1 := zero_type\<lparr>t_kind := BIR_TYPE_STRUCT, t_num_fields := 2\<rparr>,
         2 := zero_type\<lparr>t_kind := BIR_TYPE_PTR, t_inner := 1\<rparr>, 3 := zero_type\<lparr>t_kind := BIR_TYPE_PTR\<rparr>), num_types := 4,
       type_fields := (\<lambda>_. 0), bir_consts := (\<lambda>_. zero_const)(1 := zero_const\<lparr>c_d := 1\<rparr>), num_consts := 2,
       blocks := (\<lambda>_. zero_block\<lparr>b_num_insts := 7\<rparr>), num_blocks := 1,
       funcs := (\<lambda>_. zero_func\<lparr>f_num_blocks := 1, f_total_insts := 7\<rparr>), num_funcs := 1\<rparr>"

lemmas sroa_eval = sroa_module_def cleared_module_def zero_inst_def zero_type_def zero_const_def zero_block_def zero_func_def
  ops_of_def

lemma sroa_module_insts: "func_insts (sroa_module v) (funcs (sroa_module v) 0) = [0, 1, 2, 3, 4, 5, 6]"
  by (simp add: func_insts_def sroa_eval upt_rec)

lemma sroa_module_scans:
  assumes "v = BIR_MAKE_CONST 0 \<or> v = 1"
  shows "struct_pointee (sroa_module v) (i_type (insts (sroa_module v) 0)) = Some 1"
    "scan_geps (sroa_module v) 1 0 [0, 1, 2, 3, 4, 5, 6] [] = Some [(1, 0), (2, 1)]"
    "all_uses (sroa_module v) [0, 1, 2, 3, 4, 5, 6] [(1, 0), (2, 1)] [] = Some [(3, 1, 0), (5, 0, 0), (4, 1, 1)]"
    "collect_fields (sroa_module v) [(1, 0), (2, 1)] [] = Some [(0, 3), (1, 3)]"
    "locate (sroa_module v) (funcs (sroa_module v) 0) 0 = (0, 0)"
  using assms
  by (auto simp: struct_pointee_def pointee_def is_scalar_def refs_value_def remap_slots_def use_step_def locate_def
      sroa_eval BIR_MAKE_VAL_def BIR_MAKE_CONST_def BIR_VAL_IS_CONST_def BIR_VAL_INDEX_def upt_rec Let_def)

lemma sroa_module_splits:
  assumes "v = BIR_MAKE_CONST 0 \<or> v = 1"
  shows "snd (try_alloca (sroa_module v) (funcs (sroa_module v) 0) 0)"
proof -
  have "\<exists>b. snd (bir_insert (sroa_module v) 0 0 (map (new_alloca (sroa_module v) 0) [(0, 3), (1, 3)])) = Some b"
    by (simp add: bir_insert_def sroa_eval Let_def)
  then obtain M1 b where "bir_insert (sroa_module v) 0 0 (map (new_alloca (sroa_module v) 0) [(0, 3), (1, 3)]) = (M1, Some b)"
    by (metis prod.collapse)
  then show ?thesis unfolding try_alloca_def sroa_module_insts using sroa_module_scans [OF assms] by simp
qed


text \<open>
  A store whose value is the field pointer it stores through passes the second pass: the address
  slot is looked at first, and the value slot is never compared.  The pointer is stored to memory
  all the same.
\<close>

lemma sroa_accepts_self_store:
  "snd (try_alloca (sroa_module 1) (funcs (sroa_module 1) 0) 0) \<and> is_gep (sroa_module 1) 0 1 \<and>
   i_op (insts (sroa_module 1) 3) = BIR_STORE \<and> i_operands (insts (sroa_module 1) 3) 0 = BIR_MAKE_VAL 1"
  using sroa_module_splits [of 1] by (simp add: is_gep_def sroa_eval BIR_MAKE_VAL_def)

lemma sroa_module_ready: "sroa_ready (sroa_module v) (funcs (sroa_module v) 0) 0"
  unfolding sroa_ready_def sroa_module_insts
  by (simp add: is_access_def addr_slot_def ext_apart_def ext_cells_def sroa_eval)

definition sroa_prog :: "int list \<Rightarrow> (nat \<times> unit \<times> int) option" where
  "sroa_prog hist = (if length hist < 3 then Some ([(3, (), 7), (4, (), 9), (5, (), 0)] ! length hist) else None)"

lemma sroa_prog_ok:
  "sroa_prog hist = Some (p, a, v) \<Longrightarrow> p \<in> {3, 4, 5}"
  using less_Suc_eq [of "length hist" 2] by (auto simp: sroa_prog_def numeral_3_eq_3 less_Suc_eq split: if_splits)



end
