(* ===== verification/Bir_Mem2reg.thy ===== *)
theory Bir_Mem2reg
  imports Bir_Dce Bir_Sroa
begin

text \<open>
  Promotion of stack slots to SSA values, \<open>src/src/ir/bir_mem2reg.c\<close>: the working state \<open>m2r_t\<close>
  is a record, block numbers are local to the function as in the source, the arrays with counts are
  lists.  \<open>M2R_UNDEF\<close> and \<open>M2R_UNVISITED\<close> are kept as numbers.  Loops with a guard counter keep
  it as fuel; the counter of a guard that has run out may go below zero in C, where every later test
  fails as it does at zero.
\<close>

subsection \<open>State\<close>

abbreviation (input) M2R_MAX_PROMOTE :: nat where "M2R_MAX_PROMOTE \<equiv> 256"
abbreviation (input) M2R_MAX_BLOCKS :: nat where "M2R_MAX_BLOCKS \<equiv> 4096"
abbreviation (input) M2R_MAX_PREDS :: nat where "M2R_MAX_PREDS \<equiv> 16"
abbreviation (input) M2R_MAX_DF :: nat where "M2R_MAX_DF \<equiv> 64"
abbreviation (input) M2R_MAX_STACK :: nat where "M2R_MAX_STACK \<equiv> 4096"
abbreviation (input) M2R_MAX_PHIS :: nat where "M2R_MAX_PHIS \<equiv> 8192"
abbreviation (input) M2R_MAX_CHANGES :: nat where "M2R_MAX_CHANGES \<equiv> 65536"

definition M2R_UNDEF :: nat where "M2R_UNDEF = 0xFFFFFFFF"
definition M2R_UNVISITED :: nat where "M2R_UNVISITED = 0xFFFFFFFE"

text \<open>A phi record is the instruction, its block and the position of its slot in \<open>promote\<close>.\<close>

type_synonym phi_rec = "nat \<times> nat \<times> nat"

record m2r =
  m_M :: bir_module
  m_func_idx :: nat
  m_base_block :: nat
  m_num_blocks :: nat
  m_base_inst :: nat
  m_orig :: nat
  promote :: "(nat \<times> nat) list"
  preds :: "nat \<Rightarrow> nat list"
  idom :: "nat \<Rightarrow> nat"
  rpo :: "nat list"
  rpo_num :: "nat \<Rightarrow> nat"
  df :: "nat \<Rightarrow> nat list"
  dt_child :: "nat \<Rightarrow> nat"
  dt_sibling :: "nat \<Rightarrow> nat"
  phis :: "phi_rec list"
  val_top :: "nat \<Rightarrow> u32"
  val_remap :: "nat \<Rightarrow> u32"
  m_dead :: "nat \<Rightarrow> bool"
  changes :: "(nat \<times> u32) list"

subsection \<open>Helpers\<close>

definition ptr_inner :: "bir_module \<Rightarrow> nat \<Rightarrow> nat" where
  "ptr_inner M t = (if t < num_types M \<and> t_kind (types M t) = BIR_TYPE_PTR then t_inner (types M t) else 0)"

abbreviation is_scalar_type :: "bir_module \<Rightarrow> nat \<Rightarrow> bool" where
  "is_scalar_type \<equiv> is_scalar"

definition find_promote_idx :: "(nat \<times> nat) list \<Rightarrow> nat \<Rightarrow> nat option" where
  "find_promote_idx pr a = find (\<lambda>i. fst (pr ! i) = a) [0..<length pr]"

definition get_alloca_ref :: "bir_module \<Rightarrow> bir_inst \<Rightarrow> bool \<Rightarrow> nat" where
  "get_alloca_ref M I st =
     (let ref = if st then i_operands I 1 else i_operands I 0 in
      if BIR_VAL_IS_CONST ref \<or> ref = BIR_VAL_NONE then 0
      else let idx = BIR_VAL_INDEX ref in
        if idx \<ge> num_insts M then 0
        else if i_op (insts M idx) = BIR_ALLOCA then idx else 0)"

definition make_undef :: "bir_module \<Rightarrow> nat \<Rightarrow> bir_module \<times> u32" where
  "make_undef M t =
     (case find (\<lambda>i. c_kind (bir_consts M i) = BIR_CONST_UNDEF \<and> c_type (bir_consts M i) = t) [0..<num_consts M] of
        Some i \<Rightarrow> (M, BIR_MAKE_CONST i)
      | None \<Rightarrow>
          if num_consts M \<ge> BIR_MAX_CONSTS then (bir_pfull M BIR_P_CONSTS, BIR_VAL_NONE)
          else (M\<lparr>bir_consts := (bir_consts M)(num_consts M := \<lparr>c_kind = BIR_CONST_UNDEF, c_type = t, c_d = 0\<rparr>),
                  num_consts := num_consts M + 1\<rparr>, BIR_MAKE_CONST (num_consts M)))"

text \<open>The successors of local block \<open>bi\<close>, as absolute block indices; a switch reports at most 16.\<close>

definition get_succs :: "m2r \<Rightarrow> nat \<Rightarrow> nat list" where
  "get_succs S bi =
     (let M = m_M S; B = blocks M (m_base_block S + bi); I = insts M (b_first_inst B + b_num_insts B - 1) in
      if b_num_insts B = 0 then []
      else if i_op I = BIR_BR then [unat (i_operands I 0)]
      else if i_op I = BIR_BR_COND then [unat (i_operands I 1), unat (i_operands I 2)]
      else if i_op I = BIR_SWITCH then
        (if i_num_operands I = BIR_OPERANDS_OVERFLOW then
           let st = unat (i_operands I 0); ct = unat (i_operands I 1)
           in if ct \<ge> 2 then take M2R_MAX_PREDS (map (\<lambda>j. unat (extra_operands M (st + j))) (1 # filter odd [3..<ct]))
              else []
         else [unat (i_operands I 1)])
      else [])"

text \<open>The successors that are blocks of the function, by local index: every caller tests this.\<close>

definition local_succs :: "m2r \<Rightarrow> nat \<Rightarrow> nat list" where
  "local_succs S bi =
     map (\<lambda>t. t - m_base_block S)
       (filter (\<lambda>t. m_base_block S \<le> t \<and> t - m_base_block S < m_num_blocks S) (get_succs S bi))"

subsection \<open>Step 1: promotable slots\<close>

definition find_allocas :: "bir_module \<Rightarrow> nat \<Rightarrow> nat \<Rightarrow> (nat \<times> nat) list" where
  "find_allocas M lo hi =
     for_loop lo hi (\<lambda>i pr.
       if length pr \<ge> M2R_MAX_PROMOTE then pr
       else if i_op (insts M i) \<noteq> BIR_ALLOCA then pr
       else let pointee = ptr_inner M (i_type (insts M i))
            in if is_scalar_type M pointee then pr @ [(i, pointee)] else pr) []"

text \<open>A slot whose address is used as a value: its place is taken by the last of the list.\<close>

definition disqualify :: "bir_module \<Rightarrow> nat \<Rightarrow> nat \<Rightarrow> u32 \<Rightarrow> (nat \<times> nat) list \<Rightarrow> (nat \<times> nat) list" where
  "disqualify M lo hi ref pr =
     (if BIR_VAL_IS_CONST ref \<or> ref = BIR_VAL_NONE then pr
      else let ri = BIR_VAL_INDEX ref in
        if lo \<le> ri \<and> ri < hi \<and> i_op (insts M ri) = BIR_ALLOCA then
          (case find_promote_idx pr ri of
             None \<Rightarrow> pr
           | Some p \<Rightarrow> (butlast pr)[p := last pr])
        else pr)"

definition escape_refs :: "bir_module \<Rightarrow> bir_inst \<Rightarrow> u32 list" where
  "escape_refs M I =
     (if i_op I = BIR_LOAD then []
      else if i_op I = BIR_BR \<or> i_op I = BIR_BR_COND \<or> i_op I = BIR_SWITCH then []
      else if i_op I = BIR_STORE then [i_operands I 0]
      else if i_num_operands I = BIR_OPERANDS_OVERFLOW then
        let start = unat (i_operands I 0); count = unat (i_operands I 1)
        in map (\<lambda>j. extra_operands M (start + j)) [0..<min count (num_extra_ops M - start)]
      else map (i_operands I) [0..<min (i_num_operands I) BIR_OPERANDS_INLINE])"

definition step1_find_promotable :: "m2r \<Rightarrow> m2r" where
  "step1_find_promotable S =
     (let M = m_M S; lo = m_base_inst S; hi = m_base_inst S + m_orig S
      in S\<lparr>promote := for_loop lo hi (\<lambda>i. fold (disqualify M lo hi) (escape_refs M (insts M i))) (find_allocas M lo hi)\<rparr>)"

subsection \<open>Step 2: predecessors\<close>

definition add_pred :: "nat \<Rightarrow> nat \<Rightarrow> (nat \<Rightarrow> nat list) \<Rightarrow> (nat \<Rightarrow> nat list)" where
  "add_pred bi s pd =
     (if length (pd s) < M2R_MAX_PREDS \<and> bi \<notin> set (pd s) then pd(s := pd s @ [bi]) else pd)"

definition step2_build_preds :: "m2r \<Rightarrow> m2r" where
  "step2_build_preds S =
     S\<lparr>preds := for_loop 0 (m_num_blocks S) (\<lambda>bi. fold (add_pred bi) (local_succs S bi))
        (\<lambda>b. if b < m_num_blocks S then [] else preds S b)\<rparr>"

subsection \<open>Step 3: order and dominators\<close>

text \<open>The depth-first search with an explicit stack (top first); the result is the post-order.\<close>

function rpo_dfs :: "(nat \<Rightarrow> nat list) \<Rightarrow> nat \<Rightarrow> (nat \<Rightarrow> bool) \<Rightarrow> nat list \<Rightarrow> nat list \<Rightarrow> nat list" where
  "rpo_dfs sc nb vis [] post = post"
| "rpo_dfs sc nb vis (cur # st) post =
     (case find (\<lambda>s. s < nb \<and> \<not> vis s \<and> Suc (length st) < M2R_MAX_STACK) (sc cur) of
        Some s \<Rightarrow> rpo_dfs sc nb (vis(s := True)) (s # cur # st) post
      | None \<Rightarrow> rpo_dfs sc nb vis st (if length post < nb then post @ [cur] else post))"
  by pat_completeness auto
termination
proof (relation "(\<lambda>(sc, nb, vis, st, post). card {s. s < nb \<and> \<not> vis s}) <*mlex*> measure (\<lambda>(sc, nb, vis, st, post). length st)",
    goal_cases)
  case (3 sc nb vis cur st post s)
  then have s: "s < nb" "\<not> vis s" by (auto simp: find_Some_iff)
  have "{t. t < nb \<and> \<not> (vis(s := True)) t} \<subset> {t. t < nb \<and> \<not> vis t}" using s by auto
  then show ?case by (intro mlex_less) (simp add: psubset_card_mono del: fun_upd_apply)
qed (auto intro: mlex_leq wf_mlex)

text \<open>The inner loops of the intersection: climb the side with the larger number.\<close>

fun climb :: "(nat \<Rightarrow> nat) \<Rightarrow> (nat \<Rightarrow> nat) \<Rightarrow> nat \<Rightarrow> nat \<Rightarrow> nat \<Rightarrow> nat \<times> nat" where
  "climb rn dm 0 a b = (a, 0)"
| "climb rn dm (Suc g) a b = (if rn a > rn b then climb rn dm g (dm a) b else (a, Suc g))"

lemma climb_guard: "snd (climb rn dm g a b) \<le> g"
  by (induction rn dm g a b rule: climb.induct) auto

function intersect :: "(nat \<Rightarrow> nat) \<Rightarrow> (nat \<Rightarrow> nat) \<Rightarrow> nat \<Rightarrow> nat \<Rightarrow> nat \<Rightarrow> nat" where
  "intersect rn dm 0 a b = a"
| "intersect rn dm (Suc g) a b =
     (if a = b then a
      else intersect rn dm (snd (climb rn dm (snd (climb rn dm g a b)) b (fst (climb rn dm g a b))))
        (fst (climb rn dm g a b)) (fst (climb rn dm (snd (climb rn dm g a b)) b (fst (climb rn dm g a b)))))"
  by pat_completeness auto
termination
  by (relation "measure (\<lambda>(rn, dm, g, a, b). g)") (auto intro: le_imp_less_Suc order_trans [OF climb_guard climb_guard])

definition new_idom :: "nat \<Rightarrow> (nat \<Rightarrow> nat) \<Rightarrow> (nat \<Rightarrow> nat) \<Rightarrow> nat list \<Rightarrow> nat" where
  "new_idom nb rn dm ps =
     fold (\<lambda>p nw. if dm p = M2R_UNDEF then nw else if nw = M2R_UNDEF then p else intersect rn dm (2 * nb) nw p) ps M2R_UNDEF"

definition dom_visit :: "m2r \<Rightarrow> nat \<Rightarrow> (nat \<Rightarrow> nat) \<times> bool \<Rightarrow> (nat \<Rightarrow> nat) \<times> bool" where
  "dom_visit S b st =
     (let (dm, changed) = st; nw = new_idom (m_num_blocks S) (rpo_num S) dm (preds S b)
      in if nw \<noteq> M2R_UNDEF \<and> dm b \<noteq> nw then (dm(b := nw), True) else (dm, changed))"

fun dom_rounds :: "nat \<Rightarrow> m2r \<Rightarrow> (nat \<Rightarrow> nat) \<Rightarrow> (nat \<Rightarrow> nat) \<times> bool" where
  "dom_rounds 0 S dm = (dm, True)"
| "dom_rounds (Suc g) S dm =
     (let (dm', changed) = fold (dom_visit S) (tl (rpo S)) (dm, False)
      in if changed then dom_rounds g S dm' else (dm', False))"

definition rpo_order :: "m2r \<Rightarrow> nat list" where
  "rpo_order S = rev (rpo_dfs (local_succs S) (m_num_blocks S) (\<lambda>b. b = 0) [0] [])"

definition rpo_numbers :: "nat \<Rightarrow> nat list \<Rightarrow> (nat \<Rightarrow> nat) \<Rightarrow> (nat \<Rightarrow> nat)" where
  "rpo_numbers nb order old =
     (\<lambda>b. case find (\<lambda>i. order ! i = b) [0..<length order] of
        Some i \<Rightarrow> i
      | None \<Rightarrow> if b < nb then M2R_UNDEF else old b)"

definition dt_lists :: "nat \<Rightarrow> (nat \<Rightarrow> nat) \<Rightarrow> (nat \<Rightarrow> nat) \<times> (nat \<Rightarrow> nat) \<Rightarrow> (nat \<Rightarrow> nat) \<times> (nat \<Rightarrow> nat)" where
  "dt_lists nb dm st =
     for_loop 1 nb (\<lambda>i (ch, sib).
         if dm i \<noteq> M2R_UNDEF \<and> dm i \<noteq> i then (ch(dm i := i), sib(i := ch (dm i))) else (ch, sib))
       ((\<lambda>i. if i < nb then M2R_UNDEF else fst st i), (\<lambda>i. if i < nb then M2R_UNDEF else snd st i))"

text \<open>The iteration, with the flag that tells whether its last sweep still changed something.\<close>

definition dominator_loop :: "m2r \<Rightarrow> (nat \<Rightarrow> nat) \<times> bool" where
  "dominator_loop S =
     (let nb = m_num_blocks S
      in dom_rounds (nb * 4 + 16) S (\<lambda>b. if b = 0 then 0 else if b < nb then M2R_UNDEF else idom S b))"

definition step3_order :: "m2r \<Rightarrow> m2r" where
  "step3_order S =
     (let order = rpo_order S in S\<lparr>rpo := order, rpo_num := rpo_numbers (m_num_blocks S) order (rpo_num S)\<rparr>)"

definition step3_compute_dominators :: "m2r \<Rightarrow> m2r" where
  "step3_compute_dominators S =
     (let S1 = step3_order S; dm = fst (dominator_loop S1);
          (ch, sib) = dt_lists (m_num_blocks S) dm (dt_child S, dt_sibling S)
      in S1\<lparr>idom := dm, dt_child := ch, dt_sibling := sib\<rparr>)"

subsection \<open>Step 4: dominance frontiers\<close>

definition df_add :: "nat \<Rightarrow> nat \<Rightarrow> (nat \<Rightarrow> nat list) \<Rightarrow> (nat \<Rightarrow> nat list)" where
  "df_add r b d = (if b \<in> set (d r) \<or> length (d r) \<ge> M2R_MAX_DF then d else d(r := d r @ [b]))"

fun df_climb :: "nat \<Rightarrow> (nat \<Rightarrow> nat) \<Rightarrow> nat \<Rightarrow> nat \<Rightarrow> (nat \<Rightarrow> nat list) \<Rightarrow> (nat \<Rightarrow> nat list)" where
  "df_climb 0 dm b r d = d"
| "df_climb (Suc g) dm b r d =
     (if r \<noteq> dm b \<and> r \<noteq> M2R_UNDEF then df_climb g dm b (dm r) (df_add r b d) else d)"

definition step4_compute_df :: "m2r \<Rightarrow> m2r" where
  "step4_compute_df S =
     (let nb = m_num_blocks S in
      S\<lparr>df := for_loop 0 nb (\<lambda>b d.
           if length (preds S b) < 2 then d else fold (df_climb (2 * nb) (idom S) b) (preds S b) d)
         (\<lambda>b. if b < nb then [] else df S b)\<rparr>)"


subsection \<open>Step 5: phi placement\<close>

definition phi_pairs :: "nat list \<Rightarrow> u32 list" where
  "phi_pairs ps = concat (map (\<lambda>p. [word_of_nat p, BIR_VAL_NONE]) ps)"

text \<open>A phi over the given absolute predecessors; a failure leaves the slot cleared.\<close>

definition new_phi :: "bir_module \<Rightarrow> nat \<Rightarrow> nat list \<Rightarrow> bir_module \<times> nat option" where
  "new_phi M ptype ps =
     (let idx = num_insts M; need = length ps * 2;
          base = zero_inst\<lparr>i_op := BIR_PHI, i_type := ptype\<rparr>
      in if need \<le> BIR_OPERANDS_INLINE then
           (M\<lparr>num_insts := idx + 1, insts := (insts M)(idx := base\<lparr>i_num_operands := need,
                i_operands := paste (i_operands base) 0 (phi_pairs ps)\<rparr>)\<rparr>, Some idx)
         else if num_extra_ops M + need \<le> BIR_MAX_EXTRA_OPS then
           (M\<lparr>num_insts := idx + 1,
               insts := (insts M)(idx := base\<lparr>i_num_operands := BIR_OPERANDS_OVERFLOW, i_operands :=
                 (i_operands base)(0 := word_of_nat (num_extra_ops M), 1 := word_of_nat need)\<rparr>),
               extra_operands := paste (extra_operands M) (num_extra_ops M) (phi_pairs ps),
               num_extra_ops := num_extra_ops M + need\<rparr>, Some idx)
         else (bir_pfull (M\<lparr>insts := (insts M)(idx := base)\<rparr>) BIR_P_EXTRAOPS, None))"

definition has_store :: "m2r \<Rightarrow> nat \<Rightarrow> nat \<Rightarrow> bool" where
  "has_store S a bi =
     (let M = m_M S; B = blocks M (m_base_block S + bi)
      in list_ex (\<lambda>ii. ii < m_base_inst S + m_orig S \<and> i_op (insts M ii) = BIR_STORE \<and>
             get_alloca_ref M (insts M ii) True = a)
           [b_first_inst B..<b_first_inst B + b_num_insts B])"

definition def_blocks :: "m2r \<Rightarrow> nat \<Rightarrow> nat list" where
  "def_blocks S a = filter (has_store S a) [0..<m_num_blocks S]"

text \<open>The state of one slot's worklist: \<open>q_wt\<close> counts every block ever queued.\<close>

record phi_st =
  q_M :: bir_module
  q_phis :: "phi_rec list"
  q_has :: "nat \<Rightarrow> bool"
  q_in :: "nat \<Rightarrow> bool"
  q_wl :: "nat list"
  q_wt :: nat

definition phi_visit :: "m2r \<Rightarrow> nat \<Rightarrow> nat \<Rightarrow> nat \<Rightarrow> phi_st \<Rightarrow> phi_st" where
  "phi_visit S ai ptype d st =
     (if q_has st d then st
      else
        let st1 = st\<lparr>q_has := (q_has st)(d := True)\<rparr> in
        if num_insts (q_M st) \<ge> BIR_MAX_INSTS then st1\<lparr>q_M := bir_pfull (q_M st) BIR_P_INSTS\<rparr>
        else if length (q_phis st) \<ge> M2R_MAX_PHIS then st1\<lparr>q_M := bir_pfull (q_M st) BIR_P_PHIS\<rparr>
        else
          (case new_phi (q_M st) ptype (map (\<lambda>p. p + m_base_block S) (preds S d)) of
             (M1, None) \<Rightarrow> st1\<lparr>q_M := M1\<rparr>
           | (M1, Some idx) \<Rightarrow>
               (let st2 = st1\<lparr>q_M := M1, q_phis := q_phis st @ [(idx, d, ai)]\<rparr>
                in if \<not> q_in st d \<and> q_wt st < M2R_MAX_BLOCKS
                   then st2\<lparr>q_in := (q_in st)(d := True), q_wl := q_wl st @ [d], q_wt := q_wt st + 1\<rparr>
                   else st2)))"

lemma phi_visit_queue:
  "q_wt st \<le> q_wt (phi_visit S ai ptype d st) \<and>
   (q_wt (phi_visit S ai ptype d st) = q_wt st \<and> q_wl (phi_visit S ai ptype d st) = q_wl st \<or>
    q_wt st < q_wt (phi_visit S ai ptype d st) \<and> q_wt (phi_visit S ai ptype d st) \<le> M2R_MAX_BLOCKS)"
  by (auto simp: phi_visit_def Let_def split: prod.split option.split)

lemma phi_visits_queue:
  "q_wt st \<le> q_wt (fold (phi_visit S ai ptype) ds st) \<and>
   (q_wt (fold (phi_visit S ai ptype) ds st) = q_wt st \<and> q_wl (fold (phi_visit S ai ptype) ds st) = q_wl st \<or>
    q_wt st < q_wt (fold (phi_visit S ai ptype) ds st) \<and> q_wt (fold (phi_visit S ai ptype) ds st) \<le> M2R_MAX_BLOCKS)"
proof (induction ds arbitrary: st)
  case (Cons d ds)
  show ?case using Cons.IH [of "phi_visit S ai ptype d st"] phi_visit_queue [of st S ai ptype d] by auto
qed simp

function phi_loop :: "m2r \<Rightarrow> nat \<Rightarrow> nat \<Rightarrow> phi_st \<Rightarrow> phi_st" where
  "phi_loop S ai ptype st =
     (case q_wl st of
        [] \<Rightarrow> st
      | w # ws \<Rightarrow> phi_loop S ai ptype (fold (phi_visit S ai ptype) (df S w) (st\<lparr>q_wl := ws\<rparr>)))"
  by pat_completeness auto
termination
proof (relation "measures [\<lambda>(S, ai, ptype, st). M2R_MAX_BLOCKS - q_wt st, \<lambda>(S, ai, ptype, st). length (q_wl st)]", goal_cases)
  case (2 S ai ptype st w ws)
  then show ?case using phi_visits_queue [of "st\<lparr>q_wl := ws\<rparr>" S ai ptype "df S w"] by auto
qed simp

declare phi_loop.simps [simp del]

definition place_phis :: "nat \<Rightarrow> m2r \<Rightarrow> m2r" where
  "place_phis ai S =
     (let (a, ptype) = promote S ! ai; ds = def_blocks S a;
          st = phi_loop S ai ptype \<lparr>q_M = m_M S, q_phis = phis S, q_has = (\<lambda>_. False),
                 q_in = (\<lambda>b. b \<in> set ds), q_wl = ds, q_wt = length ds\<rparr>
      in S\<lparr>m_M := q_M st, phis := q_phis st\<rparr>)"

definition step5_insert_phis :: "m2r \<Rightarrow> m2r" where
  "step5_insert_phis S = for_loop 0 (length (promote S)) place_phis (S\<lparr>phis := []\<rparr>)"

subsection \<open>Step 6: renaming\<close>

definition set_phi_incoming :: "bir_module \<Rightarrow> nat \<Rightarrow> nat \<Rightarrow> u32 \<Rightarrow> bir_module" where
  "set_phi_incoming M phi pred v =
     (let I = insts M phi in
      if i_num_operands I = BIR_OPERANDS_OVERFLOW then
        let start = unat (i_operands I 0); count = unat (i_operands I 1)
        in (case find (\<lambda>k. unat (extra_operands M (start + 2 * k)) = pred) [0..<count div 2] of
              None \<Rightarrow> M
            | Some k \<Rightarrow> M\<lparr>extra_operands := (extra_operands M)(start + 2 * k + 1 := v)\<rparr>)
      else
        (case find (\<lambda>k. unat (i_operands I (2 * k)) = pred) [0..<i_num_operands I div 2] of
           None \<Rightarrow> M
         | Some k \<Rightarrow> M\<lparr>insts := (insts M)(phi := I\<lparr>i_operands := (i_operands I)(2 * k + 1 := v)\<rparr>)\<rparr>))"

definition save_val :: "nat \<Rightarrow> m2r \<Rightarrow> m2r" where
  "save_val ai S =
     (if length (changes S) < M2R_MAX_CHANGES then S\<lparr>changes := (ai, val_top S ai) # changes S\<rparr> else S)"

definition set_top :: "nat \<Rightarrow> u32 \<Rightarrow> m2r \<Rightarrow> m2r" where
  "set_top ai v S = (let S1 = save_val ai S in S1\<lparr>val_top := (val_top S1)(ai := v)\<rparr>)"

definition rename_phi :: "nat \<Rightarrow> phi_rec \<Rightarrow> m2r \<Rightarrow> m2r" where
  "rename_phi b r S = (let (pi, pb, ai) = r in if pb \<noteq> b then S else set_top ai (BIR_MAKE_VAL pi) S)"

definition rename_inst :: "nat \<Rightarrow> m2r \<Rightarrow> m2r" where
  "rename_inst ii S =
     (let M = m_M S; I = insts M ii in
      if i_op I = BIR_STORE then
        let dest = get_alloca_ref M I True in
        if dest = 0 then S
        else (case find_promote_idx (promote S) dest of
                None \<Rightarrow> S
              | Some ai \<Rightarrow> (let S1 = set_top ai (i_operands I 0) S in S1\<lparr>m_dead := (m_dead S1)(ii := True)\<rparr>))
      else if i_op I = BIR_LOAD then
        let src = get_alloca_ref M I False in
        if src = 0 then S
        else (case find_promote_idx (promote S) src of
                None \<Rightarrow> S
              | Some ai \<Rightarrow> S\<lparr>val_remap := (val_remap S)(ii := val_top S ai), m_dead := (m_dead S)(ii := True)\<rparr>)
      else S)"

definition fill_phi :: "nat \<Rightarrow> nat \<Rightarrow> phi_rec \<Rightarrow> m2r \<Rightarrow> m2r" where
  "fill_phi b s r S =
     (let (pi, pb, ai) = r in
      if pb \<noteq> s then S
      else S\<lparr>m_M := set_phi_incoming (m_M S) pi (m_base_block S + b) (val_top S ai)\<rparr>)"

definition rename_block :: "nat \<Rightarrow> m2r \<Rightarrow> m2r" where
  "rename_block b S =
     (let S1 = fold (rename_phi b) (phis S) S;
          B = blocks (m_M S1) (m_base_block S1 + b);
          S2 = for_loop 0 (b_num_insts B) (\<lambda>j. rename_inst (b_first_inst B + j)) S1
      in fold (\<lambda>s S. fold (fill_phi b s) (phis S) S) (local_succs S2 b) S2)"

fun undo :: "nat \<Rightarrow> (nat \<times> u32) list \<Rightarrow> (nat \<Rightarrow> u32) \<Rightarrow> (nat \<times> u32) list \<times> (nat \<Rightarrow> u32)" where
  "undo sv [] vt = ([], vt)"
| "undo sv (c # cs) vt = (if length (c # cs) > sv then undo sv cs (vt(fst c := snd c)) else (c # cs, vt))"

text \<open>One turn of the walk over the dominator tree; a frame is a block, its next child and its save point.\<close>

definition walk_step :: "m2r \<Rightarrow> nat \<times> nat \<times> nat \<Rightarrow> (nat \<times> nat \<times> nat) list \<Rightarrow> m2r \<times> (nat \<times> nat \<times> nat) list" where
  "walk_step S frame st =
     (let (b, child, save) = frame;
          (S1, c, sv) = (if child = M2R_UNVISITED then (rename_block b S, dt_child S b, length (changes S))
                         else (S, child, save))
      in if c \<noteq> M2R_UNDEF then
           (S1, if Suc (length st) < M2R_MAX_STACK then (c, M2R_UNVISITED, 0) # (b, dt_sibling S c, sv) # st
                else (b, dt_sibling S c, sv) # st)
         else
           let (cs, vt) = undo sv (changes S1) (val_top S1)
           in (S1\<lparr>changes := cs, val_top := vt\<rparr>, st))"

partial_function (option) walk :: "m2r \<Rightarrow> (nat \<times> nat \<times> nat) list \<Rightarrow> m2r option" where
  "walk S stack =
     (case stack of
        [] \<Rightarrow> Some S
      | frame # st \<Rightarrow> (case walk_step S frame st of (S1, st1) \<Rightarrow> walk S1 st1))"

definition init_top :: "nat \<Rightarrow> m2r \<Rightarrow> m2r" where
  "init_top ai S =
     (let (M, u) = make_undef (m_M S) (snd (promote S ! ai)) in S\<lparr>m_M := M, val_top := (val_top S)(ai := u)\<rparr>)"

definition rename_start :: "m2r \<Rightarrow> m2r" where
  "rename_start S =
     (let n = num_insts (m_M S);
          S1 = S\<lparr>val_remap := (\<lambda>i. if i < n then BIR_VAL_NONE else val_remap S i)\<rparr>;
          S2 = for_loop 0 (length (promote S)) init_top S1
      in S2\<lparr>changes := [], m_dead := (\<lambda>i. i \<in> fst ` set (promote S) \<or> m_dead S i)\<rparr>)"

definition step6_rename :: "m2r \<Rightarrow> m2r option" where
  "step6_rename S = walk (rename_start S) [(0, M2R_UNVISITED, 0)]"

subsection \<open>Step 7: compaction\<close>

fun resolve_val :: "nat \<Rightarrow> (nat \<Rightarrow> u32) \<Rightarrow> nat \<Rightarrow> u32 \<Rightarrow> u32" where
  "resolve_val 0 vr max_inst ref = ref"
| "resolve_val (Suc g) vr max_inst ref =
     (if ref = BIR_VAL_NONE \<or> BIR_VAL_IS_CONST ref then ref
      else let idx = BIR_VAL_INDEX ref in
        if idx \<ge> max_inst then ref
        else if vr idx = BIR_VAL_NONE then ref
        else resolve_val g vr max_inst (vr idx))"

definition m2r_remap_operand :: "(nat \<Rightarrow> u32) \<Rightarrow> (nat \<Rightarrow> nat option) \<Rightarrow> nat \<Rightarrow> u32 \<Rightarrow> u32" where
  "m2r_remap_operand vr renum max_inst ref =
     (if ref = BIR_VAL_NONE \<or> BIR_VAL_IS_CONST ref then ref
      else let r = resolve_val 64 vr max_inst ref in
        if r = BIR_VAL_NONE \<or> BIR_VAL_IS_CONST r then r
        else let idx = BIR_VAL_INDEX r in
          if idx < max_inst \<and> renum idx \<noteq> None then BIR_MAKE_VAL (the (renum idx)) else r)"

text \<open>The old positions in their new order: for each block its phis, then what survives of it.\<close>

definition block_layout :: "m2r \<Rightarrow> nat \<Rightarrow> nat list" where
  "block_layout S bi =
     (let B = blocks (m_M S) (m_base_block S + bi)
      in map fst (filter (\<lambda>r. fst (snd r) = bi) (phis S)) @
         filter (\<lambda>ii. \<not> m_dead S ii) [b_first_inst B..<b_first_inst B + b_num_insts B])"

definition layout :: "m2r \<Rightarrow> nat list" where
  "layout S = concat (map (block_layout S) [0..<m_num_blocks S])"

definition layout_renum :: "nat \<Rightarrow> nat list \<Rightarrow> (nat \<Rightarrow> nat option)" where
  "layout_renum base l = fold (\<lambda>k r. r(l ! k := Some (base + k))) [0..<length l] (\<lambda>_. None)"

definition set_bounds :: "m2r \<Rightarrow> nat \<Rightarrow> bir_module \<times> nat \<Rightarrow> bir_module \<times> nat" where
  "set_bounds S bi st =
     (let (M, cursor) = st; ab = m_base_block S + bi; count = length (block_layout S bi)
      in (M\<lparr>blocks := (blocks M)(ab := (blocks M ab)\<lparr>b_first_inst := cursor, b_num_insts := count\<rparr>)\<rparr>, cursor + count))"

definition step7_compact :: "m2r \<Rightarrow> m2r" where
  "step7_compact S =
     (let M = m_M S; old_num_insts = num_insts M; base = m_base_inst S; l = layout S;
          rn = layout_renum base l;
          M1 = M\<lparr>insts := paste (insts M) base (map (insts M) l), inst_lines := paste (inst_lines M) base (map (inst_lines M) l)\<rparr>;
          M2 = fst (for_loop 0 (m_num_blocks S) (set_bounds S) (M1, base));
          M3 = M2\<lparr>funcs := (funcs M2)(m_func_idx S := (funcs M2 (m_func_idx S))\<lparr>f_total_insts := length l\<rparr>)\<rparr>
      in S\<lparr>m_M := for_loop base (base + length l) (map_value_slots (m2r_remap_operand (val_remap S) rn old_num_insts)) M3\<rparr>)"

abbreviation m2iblk :: "nat \<Rightarrow> nat \<Rightarrow> bool" where "m2iblk \<equiv> is_inline_block_ref"
abbreviation m2xblk :: "nat \<Rightarrow> nat \<Rightarrow> bool" where "m2xblk \<equiv> is_extra_block_ref"

subsection \<open>The pass\<close>

definition m2r_start :: "nat \<Rightarrow> m2r \<Rightarrow> m2r" where
  "m2r_start fi S =
     (let F = funcs (m_M S) fi; base = b_first_inst (blocks (m_M S) (f_first_block F))
      in S\<lparr>m_func_idx := fi, m_base_block := f_first_block F, m_num_blocks := f_num_blocks F,
           m_base_inst := base, m_orig := f_total_insts F\<rparr>)"

definition m2r_run_func :: "nat \<Rightarrow> m2r \<Rightarrow> (m2r \<times> nat) option" where
  "m2r_run_func fi S =
     (if f_num_blocks (funcs (m_M S) fi) = 0 then Some (S, 0)
      else let S0 = m2r_start fi S in
        if m_num_blocks S0 > M2R_MAX_BLOCKS then Some (S0, 0)
        else let S1 = step1_find_promotable (S0\<lparr>m_dead :=
                 (\<lambda>i. if m_base_inst S0 \<le> i \<and> i < m_base_inst S0 + m_orig S0 then False else m_dead S0 i)\<rparr>) in
          if promote S1 = [] then Some (S1, 0)
          else
            map_option (\<lambda>S6. (step7_compact S6, length (promote S1)))
              (step6_rename (step5_insert_phis (step4_compute_df (step3_compute_dominators (step2_build_preds S1))))))"

fun m2r_funcs :: "nat list \<Rightarrow> m2r \<Rightarrow> nat \<Rightarrow> (m2r \<times> nat) option" where
  "m2r_funcs [] S tot = Some (S, tot)"
| "m2r_funcs (fi # fs) S tot =
     Option.bind (m2r_run_func fi S) (\<lambda>(S1, n). m2r_funcs fs S1 (tot + n))"

definition m2r_init :: "bir_module \<Rightarrow> m2r" where
  "m2r_init M = \<lparr>m_M = M, m_func_idx = 0, m_base_block = 0, m_num_blocks = 0, m_base_inst = 0, m_orig = 0,
     promote = [], preds = (\<lambda>_. []), idom = (\<lambda>_. 0), rpo = [], rpo_num = (\<lambda>_. 0), df = (\<lambda>_. []),
     dt_child = (\<lambda>_. 0), dt_sibling = (\<lambda>_. 0), phis = [], val_top = (\<lambda>_. 0), val_remap = (\<lambda>_. 0),
     m_dead = (\<lambda>_. False), changes = []\<rparr>"

definition bir_mem2reg :: "bir_module \<Rightarrow> (bir_module \<times> nat) option" where
  "bir_mem2reg M =
     map_option (\<lambda>(S, tot).
         if tot > 0 then
           let (M1, dst) = for_loop 0 (num_funcs M) close_gap (m_M S, 0) in (M1\<lparr>num_insts := dst\<rparr>, tot)
         else (m_M S, tot))
       (m2r_funcs [0..<num_funcs M] (m2r_init M) 0)"

end
