(* ===== verification/Bir_Mem2reg_Dom.thy ===== *)
theory Bir_Mem2reg_Dom
  imports Bir_Mem2reg
begin

text \<open>
  What the analysis steps of promotion compute: slots whose address never escapes, exact predecessor
  lists, the blocks reachable from the entry in reverse post-order, dominators, and dominance
  frontiers that follow the dominator tree.
\<close>

subsection \<open>Step 1\<close>

definition slots_ok :: "bir_module \<Rightarrow> nat \<Rightarrow> nat \<Rightarrow> (nat \<times> nat) list \<Rightarrow> bool" where
  "slots_ok M lo hi pr \<longleftrightarrow> distinct (map fst pr) \<and>
     (\<forall>(a, t) \<in> set pr. lo \<le> a \<and> a < hi \<and> i_op (insts M a) = BIR_ALLOCA \<and>
        t = ptr_inner M (i_type (insts M a)) \<and> is_scalar M t)"

lemma slots_ok_fst: "slots_ok M lo hi pr \<Longrightarrow> a \<in> fst ` set pr \<Longrightarrow> lo \<le> a \<and> a < hi \<and> i_op (insts M a) = BIR_ALLOCA"
  by (auto simp: slots_ok_def)

lemma find_allocas_ok:
  assumes "lo \<le> hi"
  shows "slots_ok M lo hi (find_allocas M lo hi)"
proof -
  let ?P = "\<lambda>i pr. slots_ok M lo hi pr \<and> (\<forall>x \<in> set pr. fst x < i)"
  have "?P hi (find_allocas M lo hi)"
    unfolding find_allocas_def
  proof (rule for_loop_inv [OF assms, where P = ?P])
    fix i pr
    assume i: "lo \<le> i" "i < hi" and P: "?P i pr"
    have "slots_ok M lo hi (pr @ [(i, ptr_inner M (i_type (insts M i)))])"
      if "i_op (insts M i) = BIR_ALLOCA" "is_scalar M (ptr_inner M (i_type (insts M i)))"
      using P i that by (auto simp: slots_ok_def)
    then show "?P (Suc i) (if length pr \<ge> M2R_MAX_PROMOTE then pr
       else if i_op (insts M i) \<noteq> BIR_ALLOCA then pr
       else let pointee = ptr_inner M (i_type (insts M i))
            in if is_scalar_type M pointee then pr @ [(i, pointee)] else pr)"
      using P by (auto simp: Let_def)
  qed (simp_all add: slots_ok_def)
  then show ?thesis by blast
qed

text \<open>Taking the last element's place drops exactly one slot.\<close>

lemma swap_remove:
  assumes "distinct (map fst pr)" "p < length pr"
  shows "distinct (map fst ((butlast pr)[p := last pr]))" "set ((butlast pr)[p := last pr]) = set pr - {pr ! p}"
proof -
  have "distinct (map fst ((butlast pr)[p := last pr])) \<and> set ((butlast pr)[p := last pr]) = set pr - {pr ! p}"
  proof (cases pr rule: rev_cases)
    case (snoc xs x)
    show ?thesis
    proof (cases "p < length xs")
      case True
      define ys zs where "ys = take p xs" and "zs = drop (Suc p) xs"
      have xs: "xs = ys @ xs ! p # zs" "length ys = p" using id_take_nth_drop [OF True] True by (simp_all add: ys_def zs_def)
      have u: "(butlast pr)[p := last pr] = ys @ x # zs" unfolding snoc using xs by (metis butlast_snoc last_snoc list_update_length)
      have pr: "pr = ys @ xs ! p # zs @ [x]" using xs(1) snoc by (metis append.assoc append_Cons)
      have n: "pr ! p = xs ! p" using True snoc by (simp add: nth_append)
      have "xs ! p \<notin> set (ys @ zs @ [x])" using assms(1) unfolding pr by auto
      then show ?thesis using assms(1) unfolding u n unfolding pr by auto
    next
      case False
      then have "p = length xs" using assms(2) snoc by simp
      then show ?thesis using snoc assms(1) by (auto simp: list_update_beyond)
    qed
  qed (use assms(2) in simp)
  then show "distinct (map fst ((butlast pr)[p := last pr]))" "set ((butlast pr)[p := last pr]) = set pr - {pr ! p}" by blast+
qed

lemma find_promote_Some:
  "find_promote_idx pr a = Some p \<Longrightarrow> p < length pr \<and> fst (pr ! p) = a"
  by (simp add: find_promote_idx_def find_upt_Some)

lemma find_promote_None: "find_promote_idx pr a = None \<longleftrightarrow> a \<notin> fst ` set pr"
  unfolding find_promote_idx_def find_upt_None set_map [symmetric] in_set_conv_nth by auto

lemma disqualify_ok:
  assumes "slots_ok M lo hi pr"
  shows "slots_ok M lo hi (disqualify M lo hi ref pr) \<and> set (disqualify M lo hi ref pr) \<subseteq> set pr \<and>
    (\<forall>a < 2 ^ 31. ref = BIR_MAKE_VAL a \<longrightarrow> a \<notin> fst ` set (disqualify M lo hi ref pr))"
proof (cases "disqualify M lo hi ref pr = pr")
  case True
  have "a \<notin> fst ` set pr" if a: "a < 2 ^ 31" "ref = BIR_MAKE_VAL a" for a
  proof
    assume m: "a \<in> fst ` set pr"
    then have r: "lo \<le> a" "a < hi" "i_op (insts M a) = BIR_ALLOCA" using slots_ok_fst [OF assms] by blast+
    obtain p where p: "find_promote_idx pr a = Some p" using m find_promote_None [of pr a] by auto
    note pp = find_promote_Some [OF p]
    have nc: "\<not> BIR_VAL_IS_CONST ref" "ref \<noteq> BIR_VAL_NONE"
      using a make_val_not_const [OF a(1)] by (auto simp: val_is_const_iff_ge)
    have "BIR_VAL_INDEX ref = a" using a by simp
    then have "disqualify M lo hi ref pr = (butlast pr)[p := last pr]"
      using r p nc by (simp add: disqualify_def Let_def)
    then show False using True pp by (metis (no_types) length_butlast length_list_update diff_less less_nat_zero_code
        less_numeral_extra(1) linorder_neqE_nat less_irrefl)
  qed
  then show ?thesis using assms unfolding True by blast
next
  case False
  then obtain p where p: "find_promote_idx pr (BIR_VAL_INDEX ref) = Some p"
      and e: "disqualify M lo hi ref pr = (butlast pr)[p := last pr]"
    by (auto simp: disqualify_def Let_def split: if_splits option.splits)
  note pp = find_promote_Some [OF p]
  have d: "distinct (map fst pr)" using assms by (simp add: slots_ok_def)
  note sr = swap_remove [OF d conjunct1 [OF pp]]
  have "a \<notin> fst ` (set pr - {pr ! p})" if "a < 2 ^ 31" "ref = BIR_MAKE_VAL a" for a
  proof
    assume "a \<in> fst ` (set pr - {pr ! p})"
    then obtain x where x: "x \<in> set pr" "x \<noteq> pr ! p" "fst x = a" by auto
    have "fst (pr ! p) = a" using pp that by simp
    then show False using x d pp by (metis distinct_map inj_on_def nth_mem)
  qed
  moreover have "slots_ok M lo hi ((butlast pr)[p := last pr])"
    using assms sr(1) unfolding slots_ok_def sr(2) by (intro conjI ballI) (auto dest: bspec)
  ultimately show ?thesis unfolding e sr(2) by blast
qed


lemma disqualify_all:
  assumes "slots_ok M lo hi pr"
  shows "slots_ok M lo hi (fold (disqualify M lo hi) refs pr) \<and> set (fold (disqualify M lo hi) refs pr) \<subseteq> set pr \<and>
    (\<forall>a < 2 ^ 31. BIR_MAKE_VAL a \<in> set refs \<longrightarrow> a \<notin> fst ` set (fold (disqualify M lo hi) refs pr))"
  using assms
proof (induction refs arbitrary: pr)
  case (Cons r refs)
  note d = disqualify_ok [OF Cons.prems, of r]
  let ?p1 = "disqualify M lo hi r pr"
  note IH = Cons.IH [OF conjunct1 [OF d]]
  have e: "fold (disqualify M lo hi) (r # refs) pr = fold (disqualify M lo hi) refs ?p1" by simp
  have "a \<notin> fst ` set (fold (disqualify M lo hi) refs ?p1)" if "a < 2 ^ 31" "BIR_MAKE_VAL a \<in> set (r # refs)" for a
  proof (cases "r = BIR_MAKE_VAL a")
    case True
    then have "a \<notin> fst ` set ?p1" using d that(1) by blast
    then show ?thesis using IH by blast
  next
    case False
    then have "BIR_MAKE_VAL a \<in> set refs" using that(2) by simp
    then show ?thesis using IH that(1) by blast
  qed
  then show ?case unfolding e using d IH by blast
qed simp

lemma step1_slots:
  defines "fin \<equiv> \<lambda>S. promote (step1_find_promotable S)"
  shows "slots_ok (m_M S) (m_base_inst S) (m_base_inst S + m_orig S) (fin S)"
    and "\<lbrakk>m_base_inst S \<le> i; i < m_base_inst S + m_orig S; a < 2 ^ 31; a \<in> fst ` set (fin S)\<rbrakk> \<Longrightarrow>
      BIR_MAKE_VAL a \<notin> set (escape_refs (m_M S) (insts (m_M S) i))"
proof -
  let ?M = "m_M S" and ?lo = "m_base_inst S" and ?hi = "m_base_inst S + m_orig S"
  let ?P = "\<lambda>n pr. slots_ok ?M ?lo ?hi pr \<and> (\<forall>i a. ?lo \<le> i \<longrightarrow> i < n \<longrightarrow> a < 2 ^ 31 \<longrightarrow>
    BIR_MAKE_VAL a \<in> set (escape_refs ?M (insts ?M i)) \<longrightarrow> a \<notin> fst ` set pr)"
  have fin: "fin S = for_loop ?lo ?hi (\<lambda>i. fold (disqualify ?M ?lo ?hi) (escape_refs ?M (insts ?M i))) (find_allocas ?M ?lo ?hi)"
    by (simp add: fin_def step1_find_promotable_def Let_def)
  have "?P ?hi (fin S)"
    unfolding fin
  proof (rule for_loop_inv [where P = ?P])
    show "?P ?lo (find_allocas ?M ?lo ?hi)" using find_allocas_ok by auto
  next
    fix n pr
    assume P: "?P n pr"
    let ?pr = "fold (disqualify ?M ?lo ?hi) (escape_refs ?M (insts ?M n)) pr"
    note d = disqualify_all [OF conjunct1 [OF P], of "escape_refs ?M (insts ?M n)"]
    have sub: "fst ` set ?pr \<subseteq> fst ` set pr" using d by blast
    show "?P (Suc n) ?pr"
    proof (intro conjI allI impI)
      show "slots_ok ?M ?lo ?hi ?pr" using d by blast
      fix i a
      assume i: "?lo \<le> i" "i < Suc n" "a < 2 ^ 31" "BIR_MAKE_VAL a \<in> set (escape_refs ?M (insts ?M i))"
      show "a \<notin> fst ` set ?pr"
      proof (cases "i = n")
        case True
        then show ?thesis using d i by blast
      next
        case False
        then have "a \<notin> fst ` set pr" using P i by simp
        then show ?thesis using sub by blast
      qed
    qed
  qed simp
  then show "slots_ok ?M ?lo ?hi (fin S)"
    and "\<lbrakk>?lo \<le> i; i < ?hi; a < 2 ^ 31; a \<in> fst ` set (fin S)\<rbrakk> \<Longrightarrow>
      BIR_MAKE_VAL a \<notin> set (escape_refs ?M (insts ?M i))"
    by blast+
qed



subsection \<open>Step 2\<close>

lemma add_preds:
  "fold (add_pred bi) ss pd b =
     (if b \<in> set ss \<and> length (pd b) < M2R_MAX_PREDS \<and> bi \<notin> set (pd b) then pd b @ [bi] else pd b)"
  by (induction ss arbitrary: pd) (auto simp: add_pred_def)

definition cfg_edge :: "m2r \<Rightarrow> nat \<Rightarrow> nat \<Rightarrow> bool" where
  "cfg_edge S p b \<longleftrightarrow> p < m_num_blocks S \<and> b \<in> set (local_succs S p)"

lemma cfg_edge_in: "cfg_edge S p b \<Longrightarrow> p < m_num_blocks S \<and> b < m_num_blocks S"
  by (auto simp: cfg_edge_def local_succs_def)

lemma preds_spec:
  assumes "b < m_num_blocks S"
  shows "distinct (preds (step2_build_preds S) b) \<and> length (preds (step2_build_preds S) b) \<le> M2R_MAX_PREDS \<and>
    set (preds (step2_build_preds S) b) \<subseteq> {p. cfg_edge S p b} \<and>
    (length (preds (step2_build_preds S) b) < M2R_MAX_PREDS \<longrightarrow> {p. cfg_edge S p b} \<subseteq> set (preds (step2_build_preds S) b))"
proof -
  let ?E = "\<lambda>n. {p. p < n \<and> b \<in> set (local_succs S p)}"
  let ?P = "\<lambda>n pd. distinct (pd b) \<and> length (pd b) \<le> M2R_MAX_PREDS \<and> set (pd b) \<subseteq> ?E n \<and>
    (length (pd b) < M2R_MAX_PREDS \<longrightarrow> ?E n \<subseteq> set (pd b))"
  have "?P (m_num_blocks S) (preds (step2_build_preds S))"
    unfolding step2_build_preds_def m2r.select_convs m2r.update_convs
  proof (rule ssubst [where P = "?P (m_num_blocks S)"], simp, rule for_loop_inv [where P = ?P])
    fix n pd
    assume P: "?P n pd"
    then have "n \<notin> set (pd b)" by auto
    then have f: "fold (add_pred n) (local_succs S n) pd b =
      (if b \<in> set (local_succs S n) \<and> length (pd b) < M2R_MAX_PREDS then pd b @ [n] else pd b)" by (simp add: add_preds)
    show "?P (Suc n) (fold (add_pred n) (local_succs S n) pd)"
    proof (cases "b \<in> set (local_succs S n) \<and> length (pd b) < M2R_MAX_PREDS")
      case True
      then show ?thesis using P \<open>n \<notin> set (pd b)\<close> unfolding f by (auto simp: less_Suc_eq)
    next
      case False
      then show ?thesis using P unfolding f if_not_P [OF False] by (auto simp: less_Suc_eq)
    qed
  qed (use assms in simp_all)
  then show ?thesis by (simp add: cfg_edge_def)
qed

text \<open>
  The predecessor lists are exact up to their bound: a list never repeats a block or
  holds one that is not a predecessor, and a list that is not full holds them all.
\<close>

theorem m2r_preds_exact:
  assumes "b < m_num_blocks S"
  shows "distinct (preds (step2_build_preds S) b) \<and> length (preds (step2_build_preds S) b) \<le> M2R_MAX_PREDS \<and>
    (\<forall>p. p \<in> set (preds (step2_build_preds S) b) \<longrightarrow> p < m_num_blocks S \<and> b \<in> set (local_succs S p)) \<and>
    (length (preds (step2_build_preds S) b) < M2R_MAX_PREDS \<longrightarrow>
       (\<forall>p < m_num_blocks S. b \<in> set (local_succs S p) \<longrightarrow> p \<in> set (preds (step2_build_preds S) b)))"
  using preds_spec [OF assms] unfolding cfg_edge_def by blast


subsection \<open>Step 3: reverse post-order\<close>

inductive live_block :: "m2r \<Rightarrow> nat \<Rightarrow> bool" for S where
  live_entry: "live_block S 0"
| live_step: "live_block S p \<Longrightarrow> cfg_edge S p b \<Longrightarrow> live_block S b"

text \<open>The search: a chain of edges from the entry on the stack, finished blocks in \<open>post\<close>.\<close>

fun edge_chain :: "m2r \<Rightarrow> nat list \<Rightarrow> bool" where
  "edge_chain S (b # p # st) \<longleftrightarrow> cfg_edge S p b \<and> edge_chain S (p # st)"
| "edge_chain S [b] \<longleftrightarrow> b = 0"
| "edge_chain S [] \<longleftrightarrow> True"

definition dfs_inv :: "m2r \<Rightarrow> (nat \<Rightarrow> bool) \<Rightarrow> nat list \<Rightarrow> nat list \<Rightarrow> bool" where
  "dfs_inv S vis st post \<longleftrightarrow> distinct (st @ post) \<and> {b. vis b} = set st \<union> set post \<and>
     (\<forall>b. vis b \<longrightarrow> b < m_num_blocks S \<and> live_block S b) \<and> edge_chain S st \<and> vis 0 \<and>
     (\<forall>p \<in> set post. \<forall>b. cfg_edge S p b \<longrightarrow> vis b) \<and>
     (\<forall>xs b ys. post = xs @ b # ys \<longrightarrow> b \<noteq> 0 \<longrightarrow> (\<exists>p \<in> set ys \<union> set st. cfg_edge S p b)) \<and>
     (st = [] \<longrightarrow> last post = 0)"

lemma distinct_below: "distinct xs \<Longrightarrow> set xs \<subseteq> {..<n} \<Longrightarrow> length xs \<le> (n :: nat)"
  by (metis card_lessThan card_mono distinct_card finite_lessThan)

lemma dfs_inv_push:
  assumes inv: "dfs_inv S vis (cur # st) post" and s: "s \<in> set (local_succs S cur)" "\<not> vis s"
  shows "dfs_inv S (vis(s := True)) (s # cur # st) post"
proof -
  have cur: "cur < m_num_blocks S" "live_block S cur" using inv by (auto simp: dfs_inv_def)
  then have e: "cfg_edge S cur s" using s by (simp add: cfg_edge_def)
  then have "live_block S s" "s < m_num_blocks S" using cur live_step cfg_edge_in by blast+
  then show ?thesis using inv s(2) e unfolding dfs_inv_def by (auto; blast)
qed

lemma dfs_inv_pop:
  assumes inv: "dfs_inv S vis (cur # st) post" and all: "\<And>b. cfg_edge S cur b \<Longrightarrow> vis b"
  shows "dfs_inv S vis st (post @ [cur])"
proof -
  have chain: "edge_chain S (cur # st)" and par: "\<And>xs b ys. post = xs @ b # ys \<Longrightarrow> b \<noteq> 0 \<Longrightarrow>
      \<exists>p \<in> set ys \<union> set (cur # st). cfg_edge S p b" using inv unfolding dfs_inv_def by blast+
  have "edge_chain S st" using chain by (cases st) auto
  moreover have "st = [] \<Longrightarrow> cur = 0" using chain by simp
  moreover have "\<exists>p \<in> set ys \<union> set st. cfg_edge S p b" if d: "post @ [cur] = xs @ b # ys" "b \<noteq> 0" for xs b ys
  proof (cases ys rule: rev_cases)
    case Nil
    then have "b = cur" using d by simp
    then obtain p st' where "st = p # st'" using chain d(2) by (cases st) auto
    then show ?thesis using chain \<open>b = cur\<close> by auto
  next
    case (snoc ys' y)
    then have "post = xs @ b # ys'" "y = cur" using d by auto
    then show ?thesis using par d(2) snoc by auto
  qed
  ultimately show ?thesis using inv all unfolding dfs_inv_def by (intro conjI) (auto; blast)+
qed


lemma rpo_dfs_inv:
  assumes "dfs_inv S vis st post" "m_num_blocks S \<le> M2R_MAX_BLOCKS"
  shows "\<exists>vis'. dfs_inv S vis' [] (rpo_dfs (local_succs S) (m_num_blocks S) vis st post)"
  using assms(1)
proof (induction "local_succs S" "m_num_blocks S" vis st post rule: rpo_dfs.induct)
  case (1 vis post)
  then show ?case by auto
next
  case (2 vis cur st post)
  let ?find = "find (\<lambda>s. s < m_num_blocks S \<and> \<not> vis s \<and> Suc (length st) < M2R_MAX_STACK) (local_succs S cur)"
  show ?case
  proof (cases ?find)
    case (Some s)
    then have s: "s \<in> set (local_succs S cur)" "\<not> vis s" by (auto simp: find_Some_iff)
    show ?thesis using 2(2) [OF Some dfs_inv_push [OF 2(3) s]] Some by simp
  next
    case None
    note inv = 2(3) [unfolded dfs_inv_def]
    have sub: "set ((cur # st) @ post) \<subseteq> {..<m_num_blocks S}" using inv by auto
    have all: "vis b" if e: "cfg_edge S cur b" for b
    proof (rule ccontr)
      assume n: "\<not> vis b"
      then have "distinct (b # (cur # st))" "set (b # (cur # st)) \<subseteq> {..<m_num_blocks S}"
        using inv sub cfg_edge_in [OF e] by auto
      from distinct_below [OF this] have "Suc (length st) < M2R_MAX_STACK" using assms(2) by simp
      then show False using None n cfg_edge_in [OF e] e by (auto simp: find_None_iff cfg_edge_def)
    qed
    have "length ((cur # st) @ post) \<le> m_num_blocks S" using inv sub by (intro distinct_below) auto
    then have len: "length post < m_num_blocks S" by simp
    from dfs_inv_pop [OF 2(3) all] have "dfs_inv S vis st (if length post < m_num_blocks S then post @ [cur] else post)"
      using len by simp
    from 2(1) [OF None this] show ?thesis using None by simp
  qed
qed

text \<open>
  The order starts with the entry, lists exactly the blocks reachable from it, once each, and every
  other block comes after some predecessor of it.
\<close>

lemma rpo_order_spec:
  assumes "0 < m_num_blocks S" "m_num_blocks S \<le> M2R_MAX_BLOCKS"
  shows "distinct (rpo_order S)" "set (rpo_order S) = {b. live_block S b}" "rpo_order S \<noteq> []" "hd (rpo_order S) = 0"
    "set (rpo_order S) \<subseteq> {..<m_num_blocks S}"
    "i < length (rpo_order S) \<Longrightarrow> 0 < i \<Longrightarrow> \<exists>j < i. cfg_edge S (rpo_order S ! j) (rpo_order S ! i)"
proof -
  let ?o = "rpo_order S"
  have "dfs_inv S (\<lambda>b. b = 0) [0] []" using assms(1) live_entry by (simp add: dfs_inv_def)
  then obtain vis where "dfs_inv S vis [] (rev ?o)"
    using rpo_dfs_inv [OF _ assms(2)] unfolding rpo_order_def rev_rev_ident by blast
  note inv = this [unfolded dfs_inv_def]
  show d: "distinct ?o" using inv by simp
  have vis: "vis b \<longleftrightarrow> b \<in> set ?o" for b using inv by auto
  have closed: "vis b" if "live_block S b" for b
    using that
  proof induction
    case (live_step p b)
    then show ?case using inv by (auto simp: vis)
  qed (use inv in simp)
  then show "set ?o = {b. live_block S b}" using inv vis by blast
  show ne: "?o \<noteq> []" using inv vis [of 0] by auto
  have "last (rev ?o) = 0" using inv by blast
  then show hd: "hd ?o = 0" by (simp add: last_rev)
  show "set ?o \<subseteq> {..<m_num_blocks S}" using inv vis by blast
  show "\<exists>j < i. cfg_edge S (?o ! j) (?o ! i)" if i: "i < length ?o" "0 < i"
  proof -
    have split: "rev ?o = rev (drop (Suc i) ?o) @ ?o ! i # rev (take i ?o)"
      using arg_cong [OF id_take_nth_drop [OF i(1)], of rev] by simp
    have "?o ! i \<noteq> 0" using d i hd ne by (metis hd_conv_nth length_greater_0_conv nat_less_le nth_eq_iff_index_eq)
    then obtain p where "p \<in> set (rev (take i ?o)) \<union> set []" "cfg_edge S p (?o ! i)" using inv split by blast
    then show ?thesis using i by (auto simp: in_set_conv_nth)
  qed
qed

text \<open>
  The block order of the dominator computation is what it needs: the entry first, every
  block reachable from it exactly once, none other, and each after one of its predecessors.
\<close>

theorem m2r_rpo:
  assumes "0 < m_num_blocks S" "m_num_blocks S \<le> M2R_MAX_BLOCKS"
  shows "distinct (rpo (step3_compute_dominators S)) \<and>
    set (rpo (step3_compute_dominators S)) = {b. live_block S b} \<and> rpo (step3_compute_dominators S) ! 0 = 0 \<and>
    (\<forall>i. 0 < i \<and> i < length (rpo (step3_compute_dominators S)) \<longrightarrow>
       (\<exists>j < i. cfg_edge S (rpo (step3_compute_dominators S) ! j) (rpo (step3_compute_dominators S) ! i)))"
proof -
  have e: "rpo (step3_compute_dominators S) = rpo_order S"
    by (simp add: step3_compute_dominators_def step3_order_def Let_def split: prod.split)
  show ?thesis
    using rpo_order_spec [OF assms] unfolding e by (auto simp: hd_conv_nth)
qed


subsection \<open>Step 3: dominators\<close>

text \<open>A partial dominator tree over the processed blocks \<open>D\<close>: parents have smaller numbers.\<close>

definition dom_tree :: "(nat \<Rightarrow> nat) \<Rightarrow> (nat \<Rightarrow> nat) \<Rightarrow> nat set \<Rightarrow> bool" where
  "dom_tree rn dm D \<longleftrightarrow> 0 \<in> D \<and> dm 0 = 0 \<and> rn 0 = 0 \<and> inj_on rn D \<and>
     (\<forall>b \<in> D. b \<noteq> 0 \<longrightarrow> dm b \<in> D \<and> rn (dm b) < rn b)"

definition anc :: "(nat \<Rightarrow> nat) \<Rightarrow> nat \<Rightarrow> nat \<Rightarrow> bool" where
  "anc dm a b \<longleftrightarrow> (\<exists>k. a = (dm ^^ k) b)"

lemma anc_refl [simp]: "anc dm a a"
  unfolding anc_def by (rule exI [of _ 0]) simp

lemma anc_parent: "anc dm a (dm b) \<Longrightarrow> anc dm a b"
  unfolding anc_def using funpow_Suc_right [of _ dm] by (metis comp_apply)

lemma anc_step: "anc dm a b \<Longrightarrow> a \<noteq> b \<Longrightarrow> anc dm a (dm b)"
  unfolding anc_def by (metis comp_apply funpow_0 funpow_Suc_right not0_implies_Suc)

lemma anc_trans: "anc dm a b \<Longrightarrow> anc dm b c \<Longrightarrow> anc dm a c"
  unfolding anc_def by (metis comp_apply funpow_add)

lemma dom_tree_parent: "dom_tree rn dm D \<Longrightarrow> a \<in> D \<Longrightarrow> rn b < rn a \<Longrightarrow> dm a \<in> D \<and> rn (dm a) < rn a"
  unfolding dom_tree_def by (metis less_nat_zero_code)

text \<open>Climbing pays with guard for every step down in the numbers.\<close>

lemma climb_spec:
  assumes t: "dom_tree rn dm D" and "a \<in> D" "climb rn dm g a b = (a', g')"
  shows "anc dm a' a \<and> a' \<in> D \<and> rn a' \<le> rn a \<and> max (rn a') (rn b) + g \<le> max (rn a) (rn b) + g' \<and>
    (rn a \<le> g + rn b \<longrightarrow> rn a' \<le> rn b)"
  using assms(2,3)
proof (induction g arbitrary: a)
  case (Suc g)
  show ?case
  proof (cases "rn a > rn b")
    case True
    note p = dom_tree_parent [OF t Suc.prems(1) True]
    from Suc.IH [OF conjunct1 [OF p]] Suc.prems(2) True
    show ?thesis using p anc_parent [of dm a' a] by auto
  qed (use Suc.prems in auto)
qed auto

text \<open>The guard of twice the number of blocks is enough: every climb lowers the larger number.\<close>

lemma intersect_spec:
  assumes t: "dom_tree rn dm D" and "a \<in> D" "b \<in> D" "2 * max (rn a) (rn b) \<le> g"
  shows "anc dm (intersect rn dm g a b) a \<and> anc dm (intersect rn dm g a b) b \<and> intersect rn dm g a b \<in> D"
  using assms(2-4)
proof (induction g arbitrary: a b rule: less_induct)
  case (less g)
  have inj: "a = b" if "rn a = rn b" using t less.prems that by (simp add: dom_tree_def inj_on_def)
  show ?case
  proof (cases "a = b \<or> g = 0")
    case True
    then have "a = b" using inj less.prems(3) by auto
    then show ?thesis using less.prems by (cases g) auto
  next
    case False
    then obtain k where k: "g = Suc k" by (cases g) auto
    have ne: "rn a \<noteq> rn b" using inj False by blast
    obtain a1 g1 where c1: "climb rn dm k a b = (a1, g1)" by (cases "climb rn dm k a b")
    obtain b1 g2 where c2: "climb rn dm g1 b a1 = (b1, g2)" by (cases "climb rn dm g1 b a1")
    have e: "intersect rn dm g a b = intersect rn dm g2 a1 b1" using False k c1 c2 by simp
    note s1 = climb_spec [OF t less.prems(1) c1] and s2 = climb_spec [OF t less.prems(2) c2]
    have r1: "rn a1 \<le> rn b" using s1 less.prems(3) k ne by auto
    have lo: "rn a1 + 1 \<le> max (rn a) (rn b)" using r1 s1 ne by auto
    have r2: "rn b1 \<le> rn a1" using s1 s2 r1 less.prems(3) k by auto
    have "2 * max (rn a1) (rn b1) \<le> g2" using s1 s2 r1 r2 lo less.prems(3) k by (simp add: max_def split: if_splits)
    moreover have "g2 < g" using climb_guard [of rn dm k a b] climb_guard [of rn dm g1 b a1] c1 c2 k by simp
    ultimately have "anc dm (intersect rn dm g2 a1 b1) a1 \<and> anc dm (intersect rn dm g2 a1 b1) b1 \<and> intersect rn dm g2 a1 b1 \<in> D"
      using less.IH s1 s2 by blast
    then show ?thesis unfolding e using s1 s2 anc_trans by blast
  qed
qed

text \<open>The new parent of a block is a common ancestor of its processed predecessors.\<close>

lemma new_idom_spec:
  assumes t: "dom_tree rn dm D" and D: "\<forall>p \<in> set ps. dm p \<noteq> M2R_UNDEF \<longleftrightarrow> p \<in> D"
    and nb: "\<forall>b \<in> D. rn b < nb" "M2R_UNDEF \<notin> D"
  shows "(new_idom nb rn dm ps = M2R_UNDEF \<longleftrightarrow> set ps \<inter> D = {}) \<and>
    (new_idom nb rn dm ps \<noteq> M2R_UNDEF \<longrightarrow> new_idom nb rn dm ps \<in> D \<and> (\<forall>p \<in> set ps \<inter> D. anc dm (new_idom nb rn dm ps) p))"
  using D
proof (induction ps rule: rev_induct)
  case Nil
  then show ?case by (simp add: new_idom_def)
next
  case (snoc p ps)
  let ?w = "new_idom nb rn dm ps"
  have e: "new_idom nb rn dm (ps @ [p]) =
    (if dm p = M2R_UNDEF then ?w else if ?w = M2R_UNDEF then p else intersect rn dm (2 * nb) ?w p)"
    by (simp add: new_idom_def)
  have IH: "(?w = M2R_UNDEF \<longleftrightarrow> set ps \<inter> D = {}) \<and> (?w \<noteq> M2R_UNDEF \<longrightarrow> ?w \<in> D \<and> (\<forall>q \<in> set ps \<inter> D. anc dm ?w q))"
    using snoc by simp
  have p: "dm p \<noteq> M2R_UNDEF \<longleftrightarrow> p \<in> D" using snoc.prems by simp
  show ?case
  proof (cases "p \<in> D")
    case False
    then show ?thesis using e p IH by simp
  next
    case True
    then have ne: "p \<noteq> M2R_UNDEF" "dm p \<noteq> M2R_UNDEF" using nb(2) p by auto
    show ?thesis
    proof (cases "?w = M2R_UNDEF")
      case u: True
      then show ?thesis using e ne IH True by auto
    next
      case w: False
      then have wD: "?w \<in> D" using IH by blast
      then have "2 * max (rn ?w) (rn p) \<le> 2 * nb" using nb(1) True by (simp add: less_imp_le)
      note i = intersect_spec [OF t wD True this]
      have e': "new_idom nb rn dm (ps @ [p]) = intersect rn dm (2 * nb) ?w p" using e ne w by simp
      have "intersect rn dm (2 * nb) ?w p \<noteq> M2R_UNDEF" using i nb(2) by auto
      then show ?thesis unfolding e' using i IH w True anc_trans by fastforce
    qed
  qed
qed


subsection \<open>The iteration\<close>

definition preds_exact :: "m2r \<Rightarrow> bool" where
  "preds_exact S \<longleftrightarrow> (\<forall>b < m_num_blocks S. set (preds S b) = {p. cfg_edge S p b})"

definition ordered :: "m2r \<Rightarrow> bool" where
  "ordered S \<longleftrightarrow> distinct (rpo S) \<and> set (rpo S) = {b. live_block S b} \<and> rpo S \<noteq> [] \<and> rpo S ! 0 = 0 \<and>
     set (rpo S) \<subseteq> {..<m_num_blocks S} \<and> m_num_blocks S \<le> M2R_MAX_BLOCKS \<and>
     (\<forall>i < length (rpo S). rpo_num S (rpo S ! i) = i \<and> (0 < i \<longrightarrow> (\<exists>j < i. cfg_edge S (rpo S ! j) (rpo S ! i))))"

definition processed :: "m2r \<Rightarrow> (nat \<Rightarrow> nat) \<Rightarrow> nat set" where
  "processed S dm = {b \<in> set (rpo S). dm b \<noteq> M2R_UNDEF}"

definition dom_inv :: "m2r \<Rightarrow> nat \<Rightarrow> (nat \<Rightarrow> nat) \<Rightarrow> bool" where
  "dom_inv S i dm \<longleftrightarrow> dom_tree (rpo_num S) dm (processed S dm) \<and> (\<forall>j < i. rpo S ! j \<in> processed S dm) \<and>
     (\<forall>b < m_num_blocks S. b \<notin> set (rpo S) \<longrightarrow> dm b = M2R_UNDEF)"

definition settled :: "m2r \<Rightarrow> (nat \<Rightarrow> nat) \<Rightarrow> nat \<Rightarrow> bool" where
  "settled S dm b \<longleftrightarrow> dm b \<in> processed S dm \<and> dm b = new_idom (m_num_blocks S) (rpo_num S) dm (preds S b) \<and> (\<forall>p \<in> set (preds S b) \<inter> processed S dm. anc dm (dm b) p)"

lemma ordered_num: "ordered S \<Longrightarrow> b \<in> set (rpo S) \<Longrightarrow> rpo_num S b < length (rpo S) \<and> rpo S ! rpo_num S b = b"
  unfolding ordered_def by (metis in_set_conv_nth)

lemma ordered_bounds:
  assumes "ordered S"
  shows "length (rpo S) \<le> m_num_blocks S" "b \<in> set (rpo S) \<Longrightarrow> rpo_num S b < m_num_blocks S" "M2R_UNDEF \<notin> processed S dm"
proof -
  show l: "length (rpo S) \<le> m_num_blocks S" using assms by (auto simp: ordered_def intro: distinct_below)
  show "rpo_num S b < m_num_blocks S" if "b \<in> set (rpo S)" using ordered_num [OF assms that] l by simp
  show "M2R_UNDEF \<notin> processed S dm" using assms by (auto simp: processed_def ordered_def M2R_UNDEF_def)
qed

lemma dom_visit_inv:
  assumes o: "ordered S" and pe: "preds_exact S" and inv: "dom_inv S i dm" and i: "0 < i" "i < length (rpo S)"
    and r: "dom_visit S (rpo S ! i) (dm, ch) = (dm', ch')"
  shows "dom_inv S (Suc i) dm'" "\<not> ch' \<Longrightarrow> dm' = dm \<and> \<not> ch \<and> settled S dm (rpo S ! i)"
proof -
  let ?b = "rpo S ! i" and ?D = "processed S dm" and ?nb = "m_num_blocks S" and ?rn = "rpo_num S"
  let ?w = "new_idom ?nb ?rn dm (preds S ?b)"
  have tree: "dom_tree ?rn dm ?D" and prev: "\<forall>j < i. rpo S ! j \<in> ?D"
    and undef: "\<forall>b < ?nb. b \<notin> set (rpo S) \<longrightarrow> dm b = M2R_UNDEF" using inv by (simp_all add: dom_inv_def)
  have b: "?b \<in> set (rpo S)" "?b < ?nb" "?rn ?b = i" using i o by (auto simp: ordered_def)
  have ps: "set (preds S ?b) = {p. cfg_edge S p ?b}" using pe b(2) by (simp add: preds_exact_def)
  have D: "\<forall>p \<in> set (preds S ?b). dm p \<noteq> M2R_UNDEF \<longleftrightarrow> p \<in> ?D"
    using undef cfg_edge_in [of S _ ?b] unfolding ps processed_def by blast
  have nb: "\<forall>p \<in> ?D. ?rn p < ?nb" using ordered_bounds(2) [OF o] by (simp add: processed_def)
  note w = new_idom_spec [OF tree D nb ordered_bounds(3) [OF o]]
  obtain j where j: "j < i" "cfg_edge S (rpo S ! j) ?b" using o i by (auto simp: ordered_def)
  then have jD: "rpo S ! j \<in> set (preds S ?b) \<inter> ?D" using prev ps by blast
  then have wne: "?w \<noteq> M2R_UNDEF" using w by blast
  have wD: "?w \<in> ?D" "\<forall>p \<in> set (preds S ?b) \<inter> ?D. anc dm ?w p" using w wne by blast+
  have jn: "?rn (rpo S ! j) = j" using j i o by (auto simp: ordered_def)
  have low: "?rn a \<le> ?rn x" if "anc dm a x" "x \<in> ?D" for a x
  proof -
    from that(1) obtain k where "a = (dm ^^ k) x" by (auto simp: anc_def)
    moreover have "(dm ^^ k) x \<in> ?D \<and> ?rn ((dm ^^ k) x) \<le> ?rn x" for k
    proof (induction k)
      case (Suc k)
      then show ?case using tree unfolding dom_tree_def by (cases "(dm ^^ k) x = 0") (auto dest!: bspec [of _ _ "(dm ^^ k) x"])
    qed (use that(2) in simp)
    ultimately show ?thesis by simp
  qed
  have wlt: "?rn ?w < ?rn ?b" using low [of ?w "rpo S ! j"] wD jD jn j(1) b(3) by simp
  have r': "(dm', ch') = (if ?w \<noteq> M2R_UNDEF \<and> dm ?b \<noteq> ?w then (dm(?b := ?w), True) else (dm, ch))"
    using r by (simp add: dom_visit_def Let_def)
  have keep: "settled S dm ?b" if "dm ?b = ?w" using that wD unfolding settled_def that by blast
  then show "dm' = dm \<and> \<not> ch \<and> settled S dm ?b" if "\<not> ch'" using r' wne that by (auto split: if_splits)
  show "dom_inv S (Suc i) dm'"
  proof (cases "dm ?b = ?w")
    case True
    then have "?b \<in> ?D" using b wne by (simp add: processed_def)
    then show ?thesis using inv r' True by (auto simp: dom_inv_def less_Suc_eq)
  next
    case False
    then have dm': "dm' = dm(?b := ?w)" using r' wne by simp
    have D': "processed S dm' = insert ?b ?D" using wne b by (auto simp: processed_def dm')
    have b0: "?b \<noteq> 0" using o i by (metis length_greater_0_conv less_nat_zero_code nth_eq_iff_index_eq ordered_def)
    have "inj_on ?rn (set (rpo S))"
      by (rule inj_onI) (metis ordered_num [OF o])
    then have "inj_on ?rn (insert ?b ?D)" by (rule inj_on_subset) (use b in \<open>auto simp: processed_def\<close>)
    then have "dom_tree ?rn dm' (insert ?b ?D)"
      using tree wD wlt b0 unfolding dom_tree_def dm' by auto
    then show ?thesis using prev undef b unfolding dom_inv_def D' by (auto simp: less_Suc_eq dm')
  qed
qed


lemma sweep_inv:
  assumes o: "ordered S" and pe: "preds_exact S" and inv: "dom_inv S 1 dm"
    and r: "fold (dom_visit S) (tl (rpo S)) (dm, False) = (dm', ch)"
  shows "dom_inv S (length (rpo S)) dm'" "\<not> ch \<Longrightarrow> dm' = dm \<and> (\<forall>b \<in> set (tl (rpo S)). settled S dm b)"
proof -
  let ?n = "length (rpo S)"
  have n: "1 \<le> ?n" using o by (cases "rpo S") (auto simp: ordered_def)
  have tl: "tl (rpo S) = map ((!) (rpo S)) [1..<?n]" by (rule nth_equalityI) (simp_all add: nth_tl)
  let ?P = "\<lambda>i st. dom_inv S i (fst st) \<and> (\<not> snd st \<longrightarrow> fst st = dm \<and> (\<forall>j. 0 < j \<longrightarrow> j < i \<longrightarrow> settled S dm (rpo S ! j)))"
  have "fold (dom_visit S) (tl (rpo S)) (dm, False) = for_loop 1 ?n (\<lambda>i. dom_visit S (rpo S ! i)) (dm, False)"
    unfolding tl fold_map for_loop_def by (simp add: comp_def)
  moreover have "?P ?n (for_loop 1 ?n (\<lambda>i. dom_visit S (rpo S ! i)) (dm, False))"
  proof (rule for_loop_inv [OF n, where P = ?P])
    fix i and st :: "(nat \<Rightarrow> nat) \<times> bool"
    assume i: "1 \<le> i" "i < ?n" and P: "?P i st"
    obtain d c where st: "st = (d, c)" by (cases st)
    obtain d' c' where v: "dom_visit S (rpo S ! i) (d, c) = (d', c')" by (cases "dom_visit S (rpo S ! i) (d, c)")
    have "dom_inv S i d" using P st by simp
    note vi = dom_visit_inv [OF o pe this _ i(2) v]
    show "?P (Suc i) (dom_visit S (rpo S ! i) st)"
      unfolding st v using vi P i(1) by (auto simp: st less_Suc_eq)
  qed (use inv in simp)
  ultimately have P: "?P ?n (dm', ch)" using r by simp
  then show "dom_inv S ?n dm'" by simp
  show "dm' = dm \<and> (\<forall>b \<in> set (tl (rpo S)). settled S dm b)" if "\<not> ch" using P that by (auto simp: tl)
qed

lemma dom_inv_mono: "dom_inv S n dm \<Longrightarrow> i \<le> n \<Longrightarrow> dom_inv S i dm"
  by (simp add: dom_inv_def)

lemma rounds_inv:
  assumes o: "ordered S" and pe: "preds_exact S" and "dom_inv S 1 dm" "dom_rounds g S dm = (dm', False)"
  shows "dom_inv S (length (rpo S)) dm' \<and> (\<forall>b \<in> set (tl (rpo S)). settled S dm' b)"
  using assms(3,4)
proof (induction g arbitrary: dm)
  case (Suc g)
  obtain d c where f: "fold (dom_visit S) (tl (rpo S)) (dm, False) = (d, c)"
    by (cases "fold (dom_visit S) (tl (rpo S)) (dm, False)")
  note s = sweep_inv [OF o pe Suc.prems(1) f]
  show ?case
  proof (cases c)
    case True
    have "1 \<le> length (rpo S)" using o by (cases "rpo S") (auto simp: ordered_def)
    then have "dom_inv S 1 d" using s(1) dom_inv_mono by blast
    then show ?thesis using Suc.IH Suc.prems(2) f True by simp
  next
    case False
    then show ?thesis using s Suc.prems(2) f by auto
  qed
qed simp

text \<open>A block that cannot be reached around \<open>d\<close> is dominated by it.\<close>

inductive around :: "m2r \<Rightarrow> nat \<Rightarrow> nat \<Rightarrow> bool" for S d where
  around_entry: "d \<noteq> 0 \<Longrightarrow> around S d 0"
| around_step: "around S d p \<Longrightarrow> cfg_edge S p b \<Longrightarrow> b \<noteq> d \<Longrightarrow> around S d b"

definition dominates :: "m2r \<Rightarrow> nat \<Rightarrow> nat \<Rightarrow> bool" where
  "dominates S d b \<longleftrightarrow> \<not> around S d b"

lemma around_live: "around S d b \<Longrightarrow> live_block S b"
  by (induction rule: around.induct) (auto intro: live_block.intros)

lemma anc_dominates:
  assumes o: "ordered S" and pe: "preds_exact S" and inv: "dom_inv S (length (rpo S)) dm"
    and settled: "\<forall>b \<in> set (tl (rpo S)). settled S dm b" and "around S d b"
  shows "\<not> anc dm d b"
  using assms(5)
proof induction
  case around_entry
  have "dm 0 = 0" using inv by (simp add: dom_inv_def dom_tree_def)
  then have "(dm ^^ k) 0 = 0" for k by (induction k) simp_all
  then show ?case using around_entry by (simp add: anc_def)
next
  case (around_step p b)
  have live: "p \<in> set (rpo S)" "b \<in> set (rpo S)"
    using around_live [OF around_step(1)] live_step around_step(2) o by (auto simp: ordered_def)
  have all: "x \<in> processed S dm" if "x \<in> set (rpo S)" for x
    using inv ordered_num [OF o that] unfolding dom_inv_def by metis
  show ?case
  proof
    assume a: "anc dm d b"
    then have up: "anc dm d (dm b)" using anc_step around_step(3) by blast
    have "rpo S ! 0 = 0" "rpo S \<noteq> []" using o by (simp_all add: ordered_def)
    then consider "b = 0" | "b \<in> set (tl (rpo S))" using live(2) by (cases "rpo S") auto
    then show False
    proof cases
      case 1
      have "dm 0 = 0" using inv by (simp add: dom_inv_def dom_tree_def)
      then have "(dm ^^ k) 0 = 0" for k by (induction k) simp_all
      then show False using a 1 around_step(3) by (auto simp: anc_def)
    next
      case 2
      have "p \<in> set (preds S b)" using pe cfg_edge_in [OF around_step(2)] around_step(2) by (simp add: preds_exact_def)
      then have "anc dm (dm b) p" using settled 2 all [OF live(1)] by (auto simp: settled_def)
      then show False using up anc_trans around_step(4) by blast
    qed
  qed
qed

lemma local_succs_cong:
  "m_M S' = m_M S \<Longrightarrow> m_base_block S' = m_base_block S \<Longrightarrow> m_num_blocks S' = m_num_blocks S \<Longrightarrow>
    local_succs S' = local_succs S"
  by (intro ext) (simp add: local_succs_def get_succs_def)

lemma cfg_cong:
  assumes "m_M S' = m_M S" "m_base_block S' = m_base_block S" "m_num_blocks S' = m_num_blocks S"
  shows "cfg_edge S' = cfg_edge S" "live_block S' = live_block S" "around S' = around S" "rpo_order S' = rpo_order S"
proof -
  show e: "cfg_edge S' = cfg_edge S" by (intro ext) (simp add: cfg_edge_def local_succs_cong [OF assms] assms)
  show "live_block S' = live_block S"
  proof (intro ext iffI)
    fix b
    show "live_block S' b \<Longrightarrow> live_block S b" by (induction rule: live_block.induct) (auto simp: e intro: live_block.intros)
    show "live_block S b \<Longrightarrow> live_block S' b" by (induction rule: live_block.induct) (auto simp: e intro: live_block.intros)
  qed
  show "around S' = around S"
  proof (intro ext iffI)
    fix d b
    show "around S' d b \<Longrightarrow> around S d b" by (induction rule: around.induct) (auto simp: e intro: around.intros)
    show "around S d b \<Longrightarrow> around S' d b" by (induction rule: around.induct) (auto simp: e intro: around.intros)
  qed
  show "rpo_order S' = rpo_order S" by (simp add: rpo_order_def local_succs_cong [OF assms] assms)
qed


lemma step3_order_fields [simp]:
  "m_M (step3_order S) = m_M S" "m_base_block (step3_order S) = m_base_block S"
  "m_num_blocks (step3_order S) = m_num_blocks S" "preds (step3_order S) = preds S" "rpo (step3_order S) = rpo_order S"
  by (simp_all add: step3_order_def Let_def)

lemma step3_ordered:
  assumes "0 < m_num_blocks S" "m_num_blocks S \<le> M2R_MAX_BLOCKS"
  shows "ordered (step3_order S)"
proof -
  note o = rpo_order_spec [OF assms]
  note c = cfg_cong [of "step3_order S" S, OF step3_order_fields(1,2,3)]
  have "rpo_num (step3_order S) (rpo_order S ! i) = i" if "i < length (rpo_order S)" for i
  proof -
    have "find (\<lambda>k. rpo_order S ! k = rpo_order S ! i) [0..<length (rpo_order S)] = Some i"
      using that o(1) by (auto simp: find_upt_Some nth_eq_iff_index_eq)
    then show ?thesis by (simp add: step3_order_def rpo_numbers_def Let_def)
  qed
  then show ?thesis using o assms unfolding ordered_def c by (simp add: hd_conv_nth)
qed

text \<open>The dominator loop ended because a sweep changed nothing.\<close>

definition converged :: "m2r \<Rightarrow> bool" where
  "converged S \<longleftrightarrow> \<not> snd (dominator_loop (step3_order S))"

lemma step3_fields:
  "m_M (step3_compute_dominators S) = m_M S" "m_base_block (step3_compute_dominators S) = m_base_block S"
  "m_num_blocks (step3_compute_dominators S) = m_num_blocks S" "preds (step3_compute_dominators S) = preds S"
  "rpo (step3_compute_dominators S) = rpo_order S" "rpo_num (step3_compute_dominators S) = rpo_num (step3_order S)"
  "idom (step3_compute_dominators S) = fst (dominator_loop (step3_order S))"
  "promote (step3_compute_dominators S) = promote S" "m_base_inst (step3_compute_dominators S) = m_base_inst S"
  "m_orig (step3_compute_dominators S) = m_orig S"
  by (simp_all add: step3_compute_dominators_def step3_order_def Let_def split: prod.split)

lemma step3_tree:
  assumes "0 < m_num_blocks S" "m_num_blocks S \<le> M2R_MAX_BLOCKS" "preds_exact S" "converged S"
  defines "S1 \<equiv> step3_order S" and "dm \<equiv> idom (step3_compute_dominators S)"
  shows "dom_inv S1 (length (rpo S1)) dm" "\<forall>b \<in> set (tl (rpo S1)). settled S1 dm b" "ordered S1" "preds_exact S1"
proof -
  have o: "ordered S1" using step3_ordered assms(1,2) by (simp add: S1_def)
  have pe: "preds_exact S1"
    using assms(3) cfg_cong(1) [of S1 S] by (simp add: preds_exact_def S1_def)
  let ?init = "\<lambda>b. if b = 0 then 0 else if b < m_num_blocks S1 then M2R_UNDEF else idom S1 b"
  have z: "0 \<in> set (rpo S1)" using o by (metis length_greater_0_conv nth_mem ordered_def)
  have "processed S1 ?init = {0}"
    using z o by (auto simp: processed_def ordered_def M2R_UNDEF_def)
  moreover have "rpo_num S1 0 = 0" using o by (metis length_greater_0_conv ordered_def)
  ultimately have "dom_inv S1 1 ?init" using z o by (auto simp: dom_inv_def dom_tree_def ordered_def)
  moreover have "dom_rounds (m_num_blocks S1 * 4 + 16) S1 ?init = (dm, False)"
    using assms(4) unfolding converged_def dm_def step3_fields dominator_loop_def S1_def Let_def by (simp add: prod_eq_iff)
  ultimately show "dom_inv S1 (length (rpo S1)) dm" "\<forall>b \<in> set (tl (rpo S1)). settled S1 dm b"
    using rounds_inv [OF o pe] by blast+
  show "ordered S1" "preds_exact S1" by fact+
qed

text \<open>
  Property C4.  The dominator tree is sound: once the iteration has settled, the parent recorded for a
  block reachable from the entry is another reachable block, earlier in the order, through which
  every path from the entry to the block goes, and so are the parent's parents.
\<close>

theorem m2r_idom_dominates:
  assumes "0 < m_num_blocks S" "m_num_blocks S \<le> M2R_MAX_BLOCKS"
    and "\<forall>b < m_num_blocks S. length (preds (step2_build_preds S) b) < M2R_MAX_PREDS"
    and "converged (step2_build_preds S)" "live_block S b" "b \<noteq> 0"
  defines "dm \<equiv> idom (step3_compute_dominators (step2_build_preds S))"
  shows "dm b \<noteq> b \<and> live_block S (dm b) \<and> dominates S (dm b) b \<and>
    (\<forall>k. dominates S ((dm ^^ k) b) b) \<and> (\<exists>k. (dm ^^ k) b = 0)"
proof -
  let ?S = "step2_build_preds S" and ?S1 = "step3_order (step2_build_preds S)"
  have f: "m_M ?S = m_M S" "m_base_block ?S = m_base_block S" "m_num_blocks ?S = m_num_blocks S"
    by (simp_all add: step2_build_preds_def)
  note c = cfg_cong [OF f] and c1 = cfg_cong [of ?S1 S, unfolded step3_order_fields, OF f]
  have pe: "preds_exact ?S" using preds_spec [of _ S] assms(3) unfolding preds_exact_def c f by blast
  have b: "b \<in> set (rpo ?S1)"
    using rpo_order_spec(2) [of S] assms(1,2,5) cfg_cong(4) [OF f] by simp
  note t = step3_tree [of ?S, unfolded f, OF assms(1,2) pe assms(4), folded dm_def]
  note tree = t(1) [unfolded dom_inv_def dom_tree_def]
  have all: "x \<in> processed ?S1 dm" if "x \<in> set (rpo ?S1)" for x
    using t(1) ordered_num [OF t(3) that] unfolding dom_inv_def by metis
  have up: "dm x \<in> processed ?S1 dm \<and> rpo_num ?S1 (dm x) < rpo_num ?S1 x" if "x \<in> processed ?S1 dm" "x \<noteq> 0" for x
    using tree that by blast
  have dom: "dominates S ((dm ^^ k) b) b" for k
    using anc_dominates [OF t(3,4,1,2), of "(dm ^^ k) b" b] unfolding dominates_def c1 by (auto simp: anc_def)
  have chain: "(dm ^^ k) b \<in> processed ?S1 dm" for k
  proof (induction k)
    case (Suc k)
    then show ?case using up [of "(dm ^^ k) b"] tree by (cases "(dm ^^ k) b = 0") auto
  qed (use all b in simp)
  have "\<exists>k. (dm ^^ k) x = 0" if "x \<in> processed ?S1 dm" for x
    using that
  proof (induction "rpo_num ?S1 x" arbitrary: x rule: less_induct)
    case less
    show ?case
    proof (cases "x = 0")
      case False
      from less.hyps [of "dm x"] up [OF less.prems False] obtain k where "(dm ^^ k) (dm x) = 0" by blast
      then show ?thesis by (intro exI [of _ "Suc k"]) (simp add: funpow_swap1)
    qed (auto intro: exI [of _ 0])
  qed
  moreover have "live_block S (dm b)"
    using chain [of 1] rpo_order_spec(2) [of S] assms(1,2) cfg_cong(4) [OF f] by (auto simp: processed_def)
  moreover have "dm b \<noteq> b" using up [OF all [OF b] assms(6)] by auto
  ultimately show ?thesis using dom dom [of 1] all [OF b] by simp
qed


subsection \<open>Step 4: dominance frontiers\<close>

text \<open>The blocks a runner started at \<open>r\<close> passes on its way up to the parent of \<open>b\<close>.\<close>

fun passes :: "nat \<Rightarrow> (nat \<Rightarrow> nat) \<Rightarrow> nat \<Rightarrow> nat \<Rightarrow> nat list" where
  "passes 0 dm b r = []"
| "passes (Suc g) dm b r = (if r \<noteq> dm b \<and> r \<noteq> M2R_UNDEF then r # passes g dm b (dm r) else [])"

lemma df_climb_passes: "df_climb g dm b r d = fold (\<lambda>x. df_add x b) (passes g dm b r) d"
  by (induction g dm b r d rule: df_climb.induct) auto

lemma passes_iff:
  "r \<in> set (passes g dm b p) \<longleftrightarrow> (\<exists>k < g. r = (dm ^^ k) p \<and> (\<forall>j \<le> k. (dm ^^ j) p \<noteq> dm b \<and> (dm ^^ j) p \<noteq> M2R_UNDEF))"
proof (induction g dm b p rule: passes.induct)
  case (2 g dm b p)
  let ?ok = "\<lambda>x. x \<noteq> dm b \<and> x \<noteq> M2R_UNDEF"
  have "(\<exists>k < Suc g. r = (dm ^^ k) p \<and> (\<forall>j \<le> k. ?ok ((dm ^^ j) p))) \<longleftrightarrow>
      ?ok p \<and> (r = p \<or> (\<exists>k < g. r = (dm ^^ k) (dm p) \<and> (\<forall>j \<le> k. ?ok ((dm ^^ j) (dm p)))))"
    (is "?L \<longleftrightarrow> ?R")
  proof
    assume ?L
    then obtain k where k: "k < Suc g" "r = (dm ^^ k) p" "\<forall>j \<le> k. ?ok ((dm ^^ j) p)" by blast
    have "?ok ((dm ^^ 0) p)" using k(3) by blast
    then have "?ok p" by simp
    moreover have "\<exists>k < g. r = (dm ^^ k) (dm p) \<and> (\<forall>j \<le> k. ?ok ((dm ^^ j) (dm p)))" if ne: "r \<noteq> p"
    proof -
      obtain m where m: "k = Suc m" using k(2) ne by (cases k) auto
      have "?ok ((dm ^^ j) (dm p))" if "j \<le> m" for j
        using k(3) [rule_format, of "Suc j"] that m by (simp add: funpow_swap1)
      then show ?thesis using k m by (intro exI [of _ m]) (simp add: funpow_swap1)
    qed
    ultimately show ?R by blast
  next
    assume R: ?R
    then show ?L
    proof (cases "r = p")
      case True
      then show ?thesis using R by (intro exI [of _ 0]) simp
    next
      case False
      then obtain k where k: "k < g" "r = (dm ^^ k) (dm p)" "\<forall>j \<le> k. ?ok ((dm ^^ j) (dm p))" using R by blast
      have "?ok ((dm ^^ j) p)" if "j \<le> Suc k" for j
        using R k(3) that by (cases j) (simp_all add: funpow_swap1)
      then show ?thesis using k by (intro exI [of _ "Suc k"]) (simp add: funpow_swap1)
    qed
  qed
  then show ?case using 2 by (cases "p \<noteq> dm b \<and> p \<noteq> M2R_UNDEF") (simp_all only: passes.simps if_True if_False list.set set_simps simp_thms insert_iff empty_iff)
qed simp

text \<open>A bounded list that grew by the elements of \<open>X\<close>, up to its bound.\<close>

definition grew :: "nat set \<Rightarrow> nat list \<Rightarrow> nat list \<Rightarrow> bool" where
  "grew X l l' \<longleftrightarrow> set l' \<subseteq> set l \<union> X \<and> (length l' < M2R_MAX_DF \<longrightarrow> length l < M2R_MAX_DF \<and> set l' = set l \<union> X)"

lemma grew_empty: "grew {} l l"
  by (simp add: grew_def)

lemma grew_trans: "grew X l l' \<Longrightarrow> grew Y l' l'' \<Longrightarrow> grew (X \<union> Y) l l''"
  unfolding grew_def by blast

lemma df_adds: "grew (if r \<in> set xs then {b} else {}) (d r) (fold (\<lambda>x. df_add x b) xs d r)"
proof (induction xs arbitrary: d)
  case Nil
  show ?case by (simp add: grew_empty)
next
  case (Cons x xs)
  have "grew (if r = x then {b} else {}) (d r) (df_add x b d r)" by (auto simp: df_add_def grew_def)
  from grew_trans [OF this Cons.IH [of "df_add x b d"]]
  show ?case by (simp split: if_splits)
qed

text \<open>The frontier of \<open>r\<close>: the joins some predecessor of which leads up through \<open>r\<close> before the join's parent.\<close>

definition frontier :: "m2r \<Rightarrow> nat \<Rightarrow> nat set" where
  "frontier S r = {b. b < m_num_blocks S \<and> length (preds S b) \<ge> 2 \<and>
     (\<exists>p \<in> set (preds S b). r \<in> set (passes (2 * m_num_blocks S) (idom S) b p))}"

lemma step4_frontier:
  assumes "r < m_num_blocks S"
  shows "grew (frontier S r) [] (df (step4_compute_df S) r)"
proof -
  let ?nb = "m_num_blocks S"
  let ?up = "\<lambda>b ps. if \<exists>p \<in> set ps. r \<in> set (passes (2 * ?nb) (idom S) b p) then {b} else {}"
  have many: "grew (?up b ps) (d r) (fold (df_climb (2 * ?nb) (idom S) b) ps d r)" for b ps d
  proof (induction ps arbitrary: d)
    case Nil
    show ?case by (simp add: grew_empty)
  next
    case (Cons p ps)
    from grew_trans [OF df_adds [of r "passes (2 * ?nb) (idom S) b p" b d, folded df_climb_passes]
        Cons.IH [of "df_climb (2 * ?nb) (idom S) b p d"]]
    have "grew ((if r \<in> set (passes (2 * ?nb) (idom S) b p) then {b} else {}) \<union> ?up b ps) (d r)
      (fold (df_climb (2 * ?nb) (idom S) b) (p # ps) d r)" by simp
    moreover have "?up b (p # ps) = (if r \<in> set (passes (2 * ?nb) (idom S) b p) then {b} else {}) \<union> ?up b ps"
      by simp
    ultimately show ?case by (simp only:)
  qed
  have e: "df (step4_compute_df S) = for_loop 0 ?nb (\<lambda>b d. if length (preds S b) < 2 then d
        else fold (df_climb (2 * ?nb) (idom S) b) (preds S b) d) (\<lambda>b. if b < ?nb then [] else df S b)"
    by (simp add: step4_compute_df_def Let_def)
  let ?F = "\<lambda>n. {b \<in> frontier S r. b < n}"
  have "grew (?F ?nb) [] (df (step4_compute_df S) r)"
    unfolding e
  proof (rule for_loop_inv [where P = "\<lambda>n d. grew (?F n) [] (d r)"])
    fix b d
    assume b: "b < ?nb" and P: "grew (?F b) [] (d r)"
    have F: "?F (Suc b) = ?F b \<union> (if length (preds S b) < 2 then {} else ?up b (preds S b))"
      using b by (auto simp: frontier_def less_Suc_eq)
    have "grew (if length (preds S b) < 2 then {} else ?up b (preds S b)) (d r)
      ((if length (preds S b) < 2 then d else fold (df_climb (2 * ?nb) (idom S) b) (preds S b) d) r)"
      using many [where b = b and ps = "preds S b" and d = d] by (simp add: grew_empty)
    from grew_trans [OF P this] show "grew (?F (Suc b)) []
      ((if length (preds S b) < 2 then d else fold (df_climb (2 * ?nb) (idom S) b) (preds S b) d) r)"
      unfolding F .
  qed (use assms in \<open>simp_all add: grew_empty\<close>)
  moreover have "?F ?nb = frontier S r" by (auto simp: frontier_def)
  ultimately show ?thesis by simp
qed


text \<open>
  The frontier lists are the dominance frontiers read off the tree: block \<open>b\<close> is in the list of
  \<open>r\<close> only if it is a join and some predecessor of it leads up the tree through \<open>r\<close> before the parent of
  \<open>b\<close>, and a list that is not full has all of these.
\<close>

theorem m2r_frontiers:
  assumes "r < m_num_blocks S"
  shows "let fr = {b. b < m_num_blocks S \<and> length (preds S b) \<ge> 2 \<and>
      (\<exists>p \<in> set (preds S b). \<exists>k < 2 * m_num_blocks S. r = (idom S ^^ k) p \<and>
        (\<forall>j \<le> k. (idom S ^^ j) p \<noteq> idom S b \<and> (idom S ^^ j) p \<noteq> M2R_UNDEF))}
    in set (df (step4_compute_df S) r) \<subseteq> fr \<and>
       (length (df (step4_compute_df S) r) < M2R_MAX_DF \<longrightarrow> set (df (step4_compute_df S) r) = fr)"
proof -
  have "r \<in> set (passes g (idom S) b p) \<longleftrightarrow> (\<exists>k < g. r = (idom S ^^ k) p \<and>
      (\<forall>j \<le> k. (idom S ^^ j) p \<noteq> idom S b \<and> (idom S ^^ j) p \<noteq> M2R_UNDEF))" for g b p
    by (rule passes_iff)
  then show ?thesis
    using step4_frontier [OF assms] unfolding grew_def frontier_def Let_def by simp
qed

end
