(* ===== verification/Bir_Mem2reg_Phi.thy ===== *)
theory Bir_Mem2reg_Phi
  imports Bir_Mem2reg_Dom
begin

text \<open>
  Phi placement: every phi the worklist adds is a well-formed instruction over the predecessors of its
  block, apart from every other, and the blocks with a store or a phi of a slot have a phi of that slot
  at each block of their frontier.
\<close>

subsection \<open>One phi\<close>

text \<open>A phi with the keys \<open>ps\<close>, inline or with its own cells above \<open>E\<close> in the overflow pool.\<close>

definition phi_wf :: "nat \<Rightarrow> bir_module \<Rightarrow> nat \<Rightarrow> nat list \<Rightarrow> bool" where
  "phi_wf E M idx ps \<longleftrightarrow> i_op (insts M idx) = BIR_PHI \<and>
     (if length ps * 2 \<le> BIR_OPERANDS_INLINE
      then i_num_operands (insts M idx) = length ps * 2 \<and>
        (\<forall>k < length ps. i_operands (insts M idx) (2 * k) = word_of_nat (ps ! k))
      else overflow (insts M idx) \<and> unat (i_operands (insts M idx) 1) = length ps * 2 \<and>
        E \<le> unat (i_operands (insts M idx) 0) \<and> unat (i_operands (insts M idx) 0) + length ps * 2 \<le> num_extra_ops M \<and>
        (\<forall>k < length ps. extra_operands M (unat (i_operands (insts M idx) 0) + 2 * k) = word_of_nat (ps ! k)))"

lemma phi_pairs_length [simp]: "length (phi_pairs ps) = length ps * 2"
  by (induction ps) (simp_all add: phi_pairs_def)

lemma phi_pairs_key: "k < length ps \<Longrightarrow> phi_pairs ps ! (2 * k) = word_of_nat (ps ! k)"
proof (induction ps arbitrary: k)
  case (Cons p ps)
  have e: "phi_pairs (p # ps) = word_of_nat p # BIR_VAL_NONE # phi_pairs ps" by (simp add: phi_pairs_def)
  show ?case
  proof (cases k)
    case (Suc m)
    then show ?thesis using Cons.IH [of m] Cons.prems unfolding e by simp
  qed (simp add: e)
qed simp

lemma unat_word_small: "n < 2 ^ 32 \<Longrightarrow> unat (word_of_nat n :: u32) = n"
  by (simp add: unat_of_nat take_bit_nat_eq_self)

lemma new_phi_spec:
  assumes "new_phi M t ps = (M', Some idx)" "length ps \<le> M2R_MAX_PREDS" "E \<le> num_extra_ops M"
  shows "idx = num_insts M" "num_insts M' = num_insts M + 1" "phi_wf E M' idx ps"
    "\<forall>i. i \<noteq> idx \<longrightarrow> insts M' i = insts M i" "\<forall>x < num_extra_ops M. extra_operands M' x = extra_operands M x"
    "num_extra_ops M \<le> num_extra_ops M'" "blocks M' = blocks M"
    "ext_cells (insts M' idx) \<subseteq> {num_extra_ops M..<num_extra_ops M'}" "pool_full M' = pool_full M"
    "i_type (insts M' idx) = t"
proof -
  have lt: "num_extra_ops M < 2 ^ 32" if "num_extra_ops M + length ps * 2 \<le> BIR_MAX_EXTRA_OPS" using that by simp
  have u: "unat (word_of_nat (length ps * 2) :: u32) = length ps * 2"
    using assms(2) by (intro unat_word_small) simp
  have ue: "unat (word_of_nat (num_extra_ops M) :: u32) = num_extra_ops M"
    if "num_extra_ops M + length ps * 2 \<le> BIR_MAX_EXTRA_OPS"
    using lt [OF that] by (rule unat_word_small)
  show "idx = num_insts M" "num_insts M' = num_insts M + 1" "\<forall>i. i \<noteq> idx \<longrightarrow> insts M' i = insts M i"
    "\<forall>x < num_extra_ops M. extra_operands M' x = extra_operands M x" "num_extra_ops M \<le> num_extra_ops M'"
    "blocks M' = blocks M" "pool_full M' = pool_full M" "i_type (insts M' idx) = t"
    using assms(1) by (auto simp: new_phi_def Let_def split: if_splits)
  show "phi_wf E M' idx ps"
    using assms(1,3) u ue phi_pairs_key [of _ ps]
    by (auto simp: new_phi_def Let_def phi_wf_def split: if_splits)
  show "ext_cells (insts M' idx) \<subseteq> {num_extra_ops M..<num_extra_ops M'}"
    using assms(1) u ue by (auto simp: new_phi_def Let_def ext_cells_def split: if_splits)
qed

lemma new_phi_flag: "new_phi M t ps = (M', Some idx) \<Longrightarrow> pool_full M' = pool_full M"
  by (auto simp: new_phi_def Let_def split: if_splits)

lemma new_phi_refused:
  assumes "new_phi M t ps = (M', None)"
  shows "num_insts M' = num_insts M" "\<forall>i. i \<noteq> num_insts M \<longrightarrow> insts M' i = insts M i" "extra_operands M' = extra_operands M"
    "num_extra_ops M' = num_extra_ops M" "blocks M' = blocks M" "pool_full M' \<noteq> 0"
proof -
  have M': "M' = bir_pfull (M\<lparr>insts := (insts M)(num_insts M := zero_inst\<lparr>i_op := BIR_PHI, i_type := t\<rparr>)\<rparr>) BIR_P_EXTRAOPS"
    using assms by (simp add: new_phi_def Let_def split: if_splits)
  have "bit (pool_full M') 8" by (simp add: M' bir_pfull_def bit_simps)
  then show "pool_full M' \<noteq> 0" by auto
  show "num_insts M' = num_insts M" "\<forall>i. i \<noteq> num_insts M \<longrightarrow> insts M' i = insts M i" "extra_operands M' = extra_operands M"
    "num_extra_ops M' = num_extra_ops M" "blocks M' = blocks M"
    by (simp_all add: M' bir_pfull_def)
qed


subsection \<open>All phis\<close>

definition abs_preds :: "m2r \<Rightarrow> nat \<Rightarrow> nat list" where
  "abs_preds S d = map (\<lambda>p. p + m_base_block S) (preds S d)"

text \<open>The module with the phis added to \<open>M0\<close>: old code untouched, phis well formed and apart.\<close>

definition phis_ok :: "m2r \<Rightarrow> bir_module \<Rightarrow> bir_module \<Rightarrow> phi_rec list \<Rightarrow> bool" where
  "phis_ok S M0 M ph \<longleftrightarrow> blocks M = blocks M0 \<and> num_insts M0 \<le> num_insts M \<and> num_extra_ops M0 \<le> num_extra_ops M \<and>
     (\<forall>i < num_insts M0. insts M i = insts M0 i) \<and> (\<forall>x < num_extra_ops M0. extra_operands M x = extra_operands M0 x) \<and>
     distinct (map fst ph) \<and> {num_insts M0..<num_insts M} \<subseteq> fst ` set ph \<and>
     (\<forall>r \<in> set ph. num_insts M0 \<le> fst r \<and> fst r < num_insts M \<and> phi_wf (num_extra_ops M0) M (fst r) (abs_preds S (fst (snd r))) \<and>
        ext_cells (insts M (fst r)) \<subseteq> {num_extra_ops M0..<num_extra_ops M}) \<and>
     (\<forall>r \<in> set ph. \<forall>r' \<in> set ph. fst r \<noteq> fst r' \<longrightarrow> ext_cells (insts M (fst r)) \<inter> ext_cells (insts M (fst r')) = {})"

lemma phi_wf_cong:
  assumes "phi_wf E M idx ps" "insts M' idx = insts M idx" "\<forall>x < num_extra_ops M. extra_operands M' x = extra_operands M x"
    "num_extra_ops M \<le> num_extra_ops M'"
  shows "phi_wf E M' idx ps"
  using assms unfolding phi_wf_def by (auto split: if_splits)

lemma phis_ok_cong:
  assumes ok: "phis_ok S M0 M ph" and M': "blocks M' = blocks M" "num_insts M' = num_insts M"
    "\<forall>i < num_insts M. insts M' i = insts M i" "extra_operands M' = extra_operands M" "num_extra_ops M' = num_extra_ops M"
  shows "phis_ok S M0 M' ph"
proof -
  have same: "insts M' (fst r) = insts M (fst r)" if "r \<in> set ph" for r using ok M'(3) that unfolding phis_ok_def by blast
  have "phi_wf (num_extra_ops M0) M' (fst r) (abs_preds S (fst (snd r)))" if "r \<in> set ph" for r
    using ok phi_wf_cong [OF _ same [OF that]] M' that unfolding phis_ok_def by (metis order_refl)
  then show ?thesis using ok M' same unfolding phis_ok_def by (auto simp: same)
qed

lemma phis_ok_add:
  assumes ok: "phis_ok S M0 M ph" and n: "new_phi M t (abs_preds S d) = (M', Some idx)" and len: "length (preds S d) \<le> M2R_MAX_PREDS"
  shows "phis_ok S M0 M' (ph @ [(idx, d, ai)])"
proof -
  have E: "num_extra_ops M0 \<le> num_extra_ops M" using ok by (simp add: phis_ok_def)
  have "length (abs_preds S d) \<le> M2R_MAX_PREDS" using len by (simp add: abs_preds_def)
  note s = new_phi_spec [OF n this E]
  have old: "fst r < num_insts M" "insts M' (fst r) = insts M (fst r)" if "r \<in> set ph" for r
    using ok s(1,4) that unfolding phis_ok_def by auto
  have wf: "phi_wf (num_extra_ops M0) M' (fst r) (abs_preds S (fst (snd r)))" if "r \<in> set ph" for r
    using ok phi_wf_cong [OF _ old(2) [OF that] s(5,6)] that unfolding phis_ok_def by blast
  have cells: "ext_cells (insts M (fst r)) \<subseteq> {num_extra_ops M0..<num_extra_ops M}" if "r \<in> set ph" for r
    using ok that unfolding phis_ok_def by blast
  have apart: "ext_cells (insts M (fst r)) \<inter> ext_cells (insts M' idx) = {}" if "r \<in> set ph" for r
    using cells [OF that] s(8) by (meson disjoint_iff ivl_disj_int_two(3) subset_iff)
  have "fst r \<noteq> idx" if "r \<in> set ph" for r using old(1) [OF that] s(1) by simp
  then have d: "distinct (map fst (ph @ [(idx, d, ai)]))" using ok by (auto simp: phis_ok_def)
  have apart2: "\<forall>r \<in> set (ph @ [(idx, d, ai)]). \<forall>r' \<in> set (ph @ [(idx, d, ai)]). fst r \<noteq> fst r' \<longrightarrow>
      ext_cells (insts M' (fst r)) \<inter> ext_cells (insts M' (fst r')) = {}"
  proof (intro ballI impI)
    fix r r'
    assume r: "r \<in> set (ph @ [(idx, d, ai)])" "r' \<in> set (ph @ [(idx, d, ai)])" "fst r \<noteq> fst r'"
    have both: "ext_cells (insts M (fst r)) \<inter> ext_cells (insts M (fst r')) = {}" if "r \<in> set ph" "r' \<in> set ph"
      using ok r(3) that unfolding phis_ok_def by blast
    consider "r \<in> set ph" "r' \<in> set ph" | "r \<in> set ph" "r' = (idx, d, ai)" | "r = (idx, d, ai)" "r' \<in> set ph"
      using r by auto
    then show "ext_cells (insts M' (fst r)) \<inter> ext_cells (insts M' (fst r')) = {}"
    proof cases
      case 1
      then show ?thesis using both by (simp only: old(2))
    next
      case 2
      then show ?thesis using apart [of r] by (simp only: old(2) fst_conv)
    next
      case 3
      then show ?thesis using apart [of r'] by (simp only: old(2) fst_conv Int_commute)
    qed
  qed
  have each: "num_insts M0 \<le> fst r \<and> fst r < num_insts M' \<and> phi_wf (num_extra_ops M0) M' (fst r) (abs_preds S (fst (snd r))) \<and>
        ext_cells (insts M' (fst r)) \<subseteq> {num_extra_ops M0..<num_extra_ops M'}" if r: "r \<in> set (ph @ [(idx, d, ai)])" for r
  proof (cases "r \<in> set ph")
    case True
    have "num_insts M0 \<le> fst r" "fst r < num_insts M" using ok True unfolding phis_ok_def by blast+
    then show ?thesis using wf [OF True] cells [OF True] s(2,6) by (auto simp: old(2) [OF True])
  next
    case False
    then have "r = (idx, d, ai)" using r by simp
    then show ?thesis using s(1,2,3,8) E ok by (fastforce simp: phis_ok_def)
  qed
  have "{num_insts M0..<num_insts M'} \<subseteq> fst ` set (ph @ [(idx, d, ai)])"
    using ok s(1,2) by (auto simp: phis_ok_def less_Suc_eq image_iff subset_iff)
  then show ?thesis
    using ok s(1,2,4,5,6,7) d each apart2 E unfolding phis_ok_def by (intro conjI) (auto simp: abs_preds_def)
qed


subsection \<open>The worklist\<close>

text \<open>Nothing was refused so far: the module's flag word is clear.\<close>

abbreviation clean :: "bir_module \<Rightarrow> bool" where "clean M \<equiv> pool_full M = 0"

definition df_blocks :: "m2r \<Rightarrow> nat set" where
  "df_blocks S = (\<Union>w < m_num_blocks S. set (df S w))"

definition list_inv :: "m2r \<Rightarrow> nat \<Rightarrow> nat set \<Rightarrow> phi_rec list \<Rightarrow> phi_st \<Rightarrow> bool" where
  "list_inv S ai ds ph0 st \<longleftrightarrow> set (q_wl st) \<subseteq> {b. q_in st b} \<and> ds \<subseteq> {b. q_in st b} \<and> {b. q_in st b} \<subseteq> {..<m_num_blocks S} \<and>
     q_wt st = card {b. q_in st b} \<and>
     (clean (q_M st) \<longrightarrow> (\<exists>new. q_phis st = ph0 @ new \<and> (\<forall>r \<in> set new. snd (snd r) = ai) \<and>
        distinct (map (\<lambda>r. fst (snd r)) new) \<and> {b. q_has st b} = (\<lambda>r. fst (snd r)) ` set new \<and> {b. q_has st b} \<subseteq> {b. q_in st b} \<and>
        {b. q_has st b} \<subseteq> df_blocks S))"

lemma pfull_flag:
  "pool_full (bir_pfull M BIR_P_INSTS) \<noteq> 0" "pool_full (bir_pfull M BIR_P_PHIS) \<noteq> 0"
proof -
  have "bit (pool_full (bir_pfull M BIR_P_INSTS)) 4" "bit (pool_full (bir_pfull M BIR_P_PHIS)) 9"
    by (simp_all add: bir_pfull_def bit_simps)
  then show "pool_full (bir_pfull M BIR_P_INSTS) \<noteq> 0" "pool_full (bir_pfull M BIR_P_PHIS) \<noteq> 0" by auto
qed

lemma phi_visit_cases:
  obtains (seen) "q_has st d" "phi_visit S ai t d st = st"
  | (refused) M' where "\<not> q_has st d" "phi_visit S ai t d st = st\<lparr>q_has := (q_has st)(d := True), q_M := M'\<rparr>" "pool_full M' \<noteq> 0"
      "M' = bir_pfull (q_M st) BIR_P_INSTS \<or> M' = bir_pfull (q_M st) BIR_P_PHIS \<or> new_phi (q_M st) t (abs_preds S d) = (M', None)"
  | (added) M' idx where "\<not> q_has st d" "new_phi (q_M st) t (abs_preds S d) = (M', Some idx)"
      "phi_visit S ai t d st = (let st2 = st\<lparr>q_has := (q_has st)(d := True), q_M := M', q_phis := q_phis st @ [(idx, d, ai)]\<rparr>
        in if \<not> q_in st d \<and> q_wt st < M2R_MAX_BLOCKS
           then st2\<lparr>q_in := (q_in st)(d := True), q_wl := q_wl st @ [d], q_wt := q_wt st + 1\<rparr> else st2)"
proof -
  consider "q_has st d" | "\<not> q_has st d" "num_insts (q_M st) \<ge> BIR_MAX_INSTS"
    | "\<not> q_has st d" "num_insts (q_M st) < BIR_MAX_INSTS" "length (q_phis st) \<ge> M2R_MAX_PHIS"
    | "\<not> q_has st d" "num_insts (q_M st) < BIR_MAX_INSTS" "length (q_phis st) < M2R_MAX_PHIS" by linarith
  then show thesis
  proof cases
    case 1
    then show thesis by (intro seen) (simp_all add: phi_visit_def)
  next
    case 2
    then show thesis using pfull_flag by (intro refused [of "bir_pfull (q_M st) BIR_P_INSTS"]) (simp_all add: phi_visit_def Let_def)
  next
    case 3
    then show thesis using pfull_flag by (intro refused [of "bir_pfull (q_M st) BIR_P_PHIS"]) (simp_all add: phi_visit_def Let_def)
  next
    case 4
    obtain M' r where n: "new_phi (q_M st) t (abs_preds S d) = (M', r)" by (cases "new_phi (q_M st) t (abs_preds S d)")
    show thesis
    proof (cases r)
      case None
      then have "pool_full M' \<noteq> 0" using new_phi_refused(6) n by blast
      then show thesis using 4 n None by (intro refused [of M']) (simp_all add: phi_visit_def Let_def abs_preds_def)
    next
      case (Some idx)
      then show thesis using 4 n by (intro added [of M' idx]) (simp_all add: phi_visit_def Let_def abs_preds_def)
    qed
  qed
qed

lemma phi_visit_marks: "q_has (phi_visit S ai t d st) d" "q_has st b \<Longrightarrow> q_has (phi_visit S ai t d st) b"
  by (cases rule: phi_visit_cases [of st d S ai t]; simp add: Let_def)+

lemma phi_visit_clean: "clean (q_M (phi_visit S ai t d st)) \<Longrightarrow> clean (q_M st)"
  by (cases rule: phi_visit_cases [of st d S ai t]) (auto simp: Let_def new_phi_flag split: if_splits)

lemma phi_visit_inv:
  assumes inv: "list_inv S ai ds ph0 st" and d: "d < m_num_blocks S" "d \<in> df_blocks S" and nb: "m_num_blocks S \<le> M2R_MAX_BLOCKS"
  shows "list_inv S ai ds ph0 (phi_visit S ai t d st)"
proof (cases rule: phi_visit_cases [of st d S ai t])
  case seen
  then show ?thesis using inv by simp
next
  case (refused M')
  then show ?thesis using inv by (auto simp: list_inv_def)
next
  case (added M' idx)
  have pf: "pool_full M' = pool_full (q_M st)"
    using added(2) by (rule new_phi_flag)
  have fin: "finite {b. q_in st b}" using inv by (auto simp: list_inv_def intro: finite_subset)
  have wt: "q_wt st < M2R_MAX_BLOCKS" if "\<not> q_in st d"
  proof -
    have "{b. q_in st b} \<subset> {..<m_num_blocks S}" using inv d that by (auto simp: list_inv_def)
    then have "card {b. q_in st b} < card {..<m_num_blocks S}" by (intro psubset_card_mono) auto
    then show ?thesis using inv nb by (simp add: list_inv_def)
  qed
  let ?st = "phi_visit S ai t d st"
  have ins: "{b. q_in ?st b} = insert d {b. q_in st b}" "q_has ?st = (q_has st)(d := True)" "q_M ?st = M'"
    "q_phis ?st = q_phis st @ [(idx, d, ai)]"
    using wt unfolding added(3) by (auto simp: Let_def)
  have wl: "set (q_wl ?st) \<subseteq> insert d (set (q_wl st))" unfolding added(3) by (auto simp: Let_def)
  have cnt: "q_wt ?st = card {b. q_in ?st b}"
    unfolding ins using wt fin inv unfolding added(3) by (auto simp: Let_def list_inv_def card_insert_if)
  have ph: "\<exists>new. q_phis ?st = ph0 @ new \<and> (\<forall>r \<in> set new. snd (snd r) = ai) \<and>
        distinct (map (\<lambda>r. fst (snd r)) new) \<and> {b. q_has ?st b} = (\<lambda>r. fst (snd r)) ` set new \<and> {b. q_has ?st b} \<subseteq> {b. q_in ?st b} \<and>
        {b. q_has ?st b} \<subseteq> df_blocks S"
    if "clean (q_M ?st)"
  proof -
    have "clean (q_M st)" using that ins(3) pf by simp
    then obtain new where new: "q_phis st = ph0 @ new" "\<forall>r \<in> set new. snd (snd r) = ai" "distinct (map (\<lambda>r. fst (snd r)) new)"
        "{b. q_has st b} = (\<lambda>r. fst (snd r)) ` set new" "{b. q_has st b} \<subseteq> {b. q_in st b}" "{b. q_has st b} \<subseteq> df_blocks S"
      using inv by (auto simp: list_inv_def)
    have "d \<notin> (\<lambda>r. fst (snd r)) ` set new" using added(1) new(4) by blast
    moreover have h: "{b. q_has ?st b} = insert d {b. q_has st b}" unfolding ins by auto
    ultimately show ?thesis
      unfolding ins(1,4) h
    proof (intro exI [of _ "new @ [(idx, d, ai)]"] conjI)
      show "insert d {b. q_has st b} = (\<lambda>r. fst (snd r)) ` set (new @ [(idx, d, ai)])" unfolding new(4) by simp
      show "insert d {b. q_has st b} \<subseteq> insert d {b. q_in st b}" using new(5) by blast
      show "insert d {b. q_has st b} \<subseteq> df_blocks S" using new(6) d(2) by blast
    qed (use new(1-3) in simp_all)
  qed
  have old: "set (q_wl st) \<subseteq> {b. q_in st b}" "ds \<subseteq> {b. q_in st b}" "{b. q_in st b} \<subseteq> {..<m_num_blocks S}"
    using inv unfolding list_inv_def by blast+
  show ?thesis
    unfolding list_inv_def
  proof (intro conjI impI)
    show "set (q_wl ?st) \<subseteq> {b. q_in ?st b}" "ds \<subseteq> {b. q_in ?st b}" "{b. q_in ?st b} \<subseteq> {..<m_num_blocks S}"
      unfolding ins(1) using old wl d by auto
  qed (fact cnt, fact ph)
qed


lemma phi_visit_ok:
  assumes "phis_ok S M0 (q_M st) (q_phis st)" "length (preds S d) \<le> M2R_MAX_PREDS"
  shows "phis_ok S M0 (q_M (phi_visit S ai t d st)) (q_phis (phi_visit S ai t d st))"
proof (cases rule: phi_visit_cases [of st d S ai t])
  case (refused M')
  have "phis_ok S M0 M' (q_phis st)"
    using refused(4) new_phi_refused [of "q_M st" t "abs_preds S d" M']
    by (intro phis_ok_cong [OF assms(1)]) (auto simp: bir_pfull_def)
  then show ?thesis unfolding refused(2) by simp
next
  case (added M' idx)
  then show ?thesis using phis_ok_add [OF assms(1) added(2) assms(2)] by (simp add: Let_def)
qed (use assms in simp)

text \<open>Everything at once over a list of blocks, and over the whole worklist.\<close>

definition loop_ok :: "m2r \<Rightarrow> nat \<Rightarrow> nat set \<Rightarrow> phi_rec list \<Rightarrow> bir_module \<Rightarrow> phi_st \<Rightarrow> bool" where
  "loop_ok S ai ds ph0 M0 st \<longleftrightarrow> list_inv S ai ds ph0 st \<and> phis_ok S M0 (q_M st) (q_phis st)"

definition visited_all :: "nat set \<Rightarrow> phi_st \<Rightarrow> phi_st \<Rightarrow> bool" where
  "visited_all ds st st' \<longleftrightarrow> (\<forall>d \<in> ds. q_has st' d) \<and> (\<forall>b. q_has st b \<longrightarrow> q_has st' b) \<and> (clean (q_M st') \<longrightarrow> clean (q_M st)) \<and>
     (\<forall>b. q_in st' b \<longrightarrow> q_in st b \<or> b \<in> set (q_wl st')) \<and> set (q_wl st) \<subseteq> set (q_wl st')"

lemma visited_all_visit: "visited_all {d} st (phi_visit S ai t d st)"
proof -
  have "\<forall>b. q_in (phi_visit S ai t d st) b \<longrightarrow> q_in st b \<or> b \<in> set (q_wl (phi_visit S ai t d st))"
    "set (q_wl st) \<subseteq> set (q_wl (phi_visit S ai t d st))"
    by (cases rule: phi_visit_cases [of st d S ai t]; auto simp: Let_def split: if_splits)+
  then show ?thesis using phi_visit_marks phi_visit_clean unfolding visited_all_def by simp
qed

lemma visited_all_trans:
  "visited_all X a b \<Longrightarrow> visited_all Y b c \<Longrightarrow> visited_all (X \<union> Y) a c"
  unfolding visited_all_def by blast

lemma phi_visits:
  assumes "loop_ok S ai ds ph0 M0 st" "\<forall>d \<in> set xs. d < m_num_blocks S \<and> d \<in> df_blocks S \<and> length (preds S d) \<le> M2R_MAX_PREDS"
    "m_num_blocks S \<le> M2R_MAX_BLOCKS"
  shows "loop_ok S ai ds ph0 M0 (fold (phi_visit S ai t) xs st) \<and> visited_all (set xs) st (fold (phi_visit S ai t) xs st)"
  using assms(1,2)
proof (induction xs arbitrary: st)
  case (Cons d xs)
  let ?s = "phi_visit S ai t d st"
  have ok: "loop_ok S ai ds ph0 M0 ?s"
    using Cons.prems phi_visit_inv [OF _ _ _ assms(3)] phi_visit_ok unfolding loop_ok_def by simp
  have tl: "\<forall>d \<in> set xs. d < m_num_blocks S \<and> d \<in> df_blocks S \<and> length (preds S d) \<le> M2R_MAX_PREDS" using Cons.prems(2) by simp
  note IH = Cons.IH [OF ok tl]
  show ?case using IH visited_all_trans [OF visited_all_visit conjunct2 [OF IH]] by simp
qed (simp add: visited_all_def)

lemma phi_loop_spec:
  assumes "loop_ok S ai ds ph0 M0 st" "m_num_blocks S \<le> M2R_MAX_BLOCKS"
    and df: "\<forall>w < m_num_blocks S. \<forall>d \<in> set (df S w). d < m_num_blocks S \<and> length (preds S d) \<le> M2R_MAX_PREDS"
    and "\<forall>w. q_in st w \<longrightarrow> w \<notin> set (q_wl st) \<longrightarrow> (\<forall>d \<in> set (df S w). q_has st d)"
  shows "loop_ok S ai ds ph0 M0 (phi_loop S ai t st) \<and>
    (\<forall>w. q_in (phi_loop S ai t st) w \<longrightarrow> (\<forall>d \<in> set (df S w). q_has (phi_loop S ai t st) d)) \<and>
    (clean (q_M (phi_loop S ai t st)) \<longrightarrow> clean (q_M st))"
  using assms
proof (induction S ai t st rule: phi_loop.induct)
  case (1 S ai t st)
  show ?case
  proof (cases "q_wl st")
    case Nil
    then have "phi_loop S ai t st = st" by (subst phi_loop.simps) simp
    then show ?thesis using 1 Nil by simp
  next
    case (Cons w ws)
    let ?st = "st\<lparr>q_wl := ws\<rparr>" and ?st2 = "fold (phi_visit S ai t) (df S w) (st\<lparr>q_wl := ws\<rparr>)"
    have e: "phi_loop S ai t st = phi_loop S ai t ?st2" by (subst phi_loop.simps) (simp add: Cons)
    have w: "w < m_num_blocks S" using 1(2) Cons by (auto simp: loop_ok_def list_inv_def)
    have "loop_ok S ai ds ph0 M0 ?st" using 1(2) Cons by (auto simp: loop_ok_def list_inv_def)
    moreover have "set (df S w) \<subseteq> df_blocks S" using w by (auto simp: df_blocks_def)
    ultimately
    have v: "loop_ok S ai ds ph0 M0 ?st2" "visited_all (set (df S w)) ?st ?st2"
      using phi_visits [OF _ _ 1(3), of ai ds ph0 M0 ?st "df S w" t] 1(4) w by blast+
    have "q_has ?st2 d" if "q_in ?st2 u" "u \<notin> set (q_wl ?st2)" "d \<in> set (df S u)" for u d
    proof (cases "u = w")
      case True
      then show ?thesis using v(2) that(3) by (simp add: visited_all_def)
    next
      case False
      then have "q_in st u" "u \<notin> set (q_wl st)" using v(2) that Cons by (auto simp: visited_all_def)
      then show ?thesis using 1(5) that(3) v(2) by (auto simp: visited_all_def)
    qed
    then have closed: "\<forall>u. q_in ?st2 u \<longrightarrow> u \<notin> set (q_wl ?st2) \<longrightarrow> (\<forall>d \<in> set (df S u). q_has ?st2 d)" by blast
    show ?thesis using 1(1) [OF Cons v(1) 1(3,4) closed] v(2) unfolding e by (simp add: visited_all_def)
  qed
qed


subsection \<open>All slots\<close>

definition has_phi :: "phi_rec list \<Rightarrow> nat \<Rightarrow> nat \<Rightarrow> bool" where
  "has_phi ph b ai \<longleftrightarrow> (b, ai) \<in> snd ` set ph"

lemma get_alloca_ref_ok:
  assumes "phis_ok S M0 M ph"
  shows "get_alloca_ref M I st = get_alloca_ref M0 I st"
proof -
  have "i_op (insts M i) = BIR_PHI" if i: "num_insts M0 \<le> i" "i < num_insts M" for i
  proof -
    have "i \<in> fst ` set ph" using assms i unfolding phis_ok_def by auto
    then obtain r where "r \<in> set ph" "i = fst r" by blast
    then show ?thesis using assms unfolding phis_ok_def phi_wf_def by blast
  qed
  moreover have "insts M i = insts M0 i" if "i < num_insts M0" for i using assms that unfolding phis_ok_def by blast
  moreover have "num_insts M0 \<le> num_insts M" using assms by (simp add: phis_ok_def)
  ultimately show ?thesis unfolding get_alloca_ref_def Let_def by (auto simp: not_le)
qed

lemma def_blocks_ok:
  assumes "phis_ok S M0 (m_M S') (phis S')" "m_base_inst S + m_orig S \<le> num_insts M0" "m_M S = M0"
    "m_base_block S' = m_base_block S" "m_base_inst S' = m_base_inst S" "m_orig S' = m_orig S" "m_num_blocks S' = m_num_blocks S"
  shows "def_blocks S' a = def_blocks S a"
proof -
  have b: "blocks (m_M S') = blocks M0" and i: "\<forall>i < num_insts M0. insts (m_M S') i = insts M0 i"
    using assms(1) by (simp_all add: phis_ok_def)
  have "has_store S' a bi = has_store S a bi" for bi
    unfolding has_store_def Let_def list_ex_iff get_alloca_ref_ok [OF assms(1)] assms(3-7) b
    using assms(2) i by (intro bex_cong refl) auto
  then have "has_store S' a = has_store S a" by (rule ext)
  then show ?thesis by (simp add: def_blocks_def assms(7))
qed

definition slot_closed :: "m2r \<Rightarrow> phi_rec list \<Rightarrow> nat \<Rightarrow> bool" where
  "slot_closed S ph ai \<longleftrightarrow> (\<forall>w. w \<in> set (def_blocks S (fst (promote S ! ai))) \<or> has_phi ph w ai \<longrightarrow>
     (\<forall>d \<in> set (df S w). has_phi ph d ai))"

definition placed :: "m2r \<Rightarrow> nat \<Rightarrow> m2r \<Rightarrow> bool" where
  "placed S k S' \<longleftrightarrow> (\<exists>M ph. S' = S\<lparr>m_M := M, phis := ph\<rparr>) \<and> phis_ok S (m_M S) (m_M S') (phis S') \<and>
     (clean (m_M S') \<longrightarrow> clean (m_M S) \<and> (\<forall>r \<in> set (phis S'). snd (snd r) < k) \<and> distinct (map snd (phis S')) \<and>
        (\<forall>ai < k. slot_closed S (phis S') ai) \<and>
        (\<forall>r \<in> set (phis S'). fst (snd r) < m_num_blocks S \<and> fst (snd r) \<in> df_blocks S))"

lemma place_phis_placed:
  assumes nb: "m_num_blocks S \<le> M2R_MAX_BLOCKS" and len: "m_base_inst S + m_orig S \<le> num_insts (m_M S)"
    and df: "\<forall>w < m_num_blocks S. \<forall>d \<in> set (df S w). d < m_num_blocks S \<and> length (preds S d) \<le> M2R_MAX_PREDS"
    and P: "placed S k S'"
  shows "placed S (Suc k) (place_phis k S')"
proof -
  obtain M0 ph0 where S': "S' = S\<lparr>m_M := M0, phis := ph0\<rparr>" using P by (auto simp: placed_def)
  have ok: "phis_ok S (m_M S) M0 ph0" using P by (simp add: placed_def S')
  obtain a t where at: "promote S ! k = (a, t)" by (cases "promote S ! k")
  let ?ds = "def_blocks S a"
  have ds: "def_blocks S' a = ?ds"
    by (rule def_blocks_ok [of S "m_M S"]) (use ok len in \<open>simp_all add: S'\<close>)
  let ?st = "\<lparr>q_M = M0, q_phis = ph0, q_has = (\<lambda>_. False), q_in = (\<lambda>b. b \<in> set ?ds), q_wl = ?ds, q_wt = length ?ds\<rparr>"
  let ?r = "phi_loop S' k t ?st"
  have same: "phis_ok S' = phis_ok S" by (intro ext) (simp add: phis_ok_def abs_preds_def S')
  have f: "m_num_blocks S' = m_num_blocks S" "df S' = df S" "preds S' = preds S" by (simp_all add: S')
  have dd: "distinct ?ds" "set ?ds \<subseteq> {..<m_num_blocks S}" by (auto simp: def_blocks_def)
  then have "loop_ok S' k (set ?ds) ph0 (m_M S) ?st"
    using ok unfolding loop_ok_def list_inv_def same f by (auto simp: distinct_card)
  from phi_loop_spec [OF this, unfolded f, OF nb df, of t]
  have L: "loop_ok S' k (set ?ds) ph0 (m_M S) ?r" "\<forall>w. q_in ?r w \<longrightarrow> (\<forall>d \<in> set (df S w). q_has ?r d)"
    "clean (q_M ?r) \<longrightarrow> clean M0" by simp_all
  have e: "place_phis k S' = S\<lparr>m_M := q_M ?r, phis := q_phis ?r\<rparr>"
  proof -
    have "promote S' ! k = (a, t)" "m_M S' = M0" "phis S' = ph0" by (simp_all add: S' at)
    then have "place_phis k S' = S'\<lparr>m_M := q_M ?r, phis := q_phis ?r\<rparr>" by (simp add: place_phis_def ds Let_def)
    moreover have "S'\<lparr>m_M := x, phis := y\<rparr> = S\<lparr>m_M := x, phis := y\<rparr>" for x y by (simp add: S')
    ultimately show ?thesis by simp
  qed
  have ok2: "phis_ok S (m_M S) (q_M ?r) (q_phis ?r)" using L(1) by (simp add: loop_ok_def same)
  have "clean (m_M S) \<and> (\<forall>r \<in> set (q_phis ?r). snd (snd r) < Suc k) \<and> distinct (map snd (q_phis ?r)) \<and>
        (\<forall>ai < Suc k. slot_closed S (q_phis ?r) ai) \<and> (\<forall>r \<in> set (q_phis ?r). fst (snd r) < m_num_blocks S \<and> fst (snd r) \<in> df_blocks S)" if c: "clean (q_M ?r)"
  proof -
    have "clean M0" using c L(3) by simp
    then have old: "clean (m_M S)" "\<forall>r \<in> set ph0. snd (snd r) < k" "distinct (map snd ph0)" "\<forall>ai < k. slot_closed S ph0 ai"
        "\<forall>r \<in> set ph0. fst (snd r) < m_num_blocks S \<and> fst (snd r) \<in> df_blocks S"
      using P by (simp_all add: placed_def S')
    obtain new where new: "q_phis ?r = ph0 @ new" "\<forall>r \<in> set new. snd (snd r) = k" "distinct (map (\<lambda>r. fst (snd r)) new)"
        "{b. q_has ?r b} = (\<lambda>r. fst (snd r)) ` set new" "{b. q_has ?r b} \<subseteq> {b. q_in ?r b}" "{b. q_has ?r b} \<subseteq> df_blocks S'"
      using L(1) c unfolding loop_ok_def list_inv_def by blast
    have "{b. q_in ?r b} \<subseteq> {..<m_num_blocks S}" using L(1) unfolding loop_ok_def list_inv_def f by blast
    then have "(\<lambda>r. fst (snd r)) ` set new \<subseteq> {..<m_num_blocks S} \<inter> df_blocks S" using new(4,5,6) by (auto simp: df_blocks_def f)
    then have blk: "\<forall>r \<in> set (q_phis ?r). fst (snd r) < m_num_blocks S \<and> fst (snd r) \<in> df_blocks S" using old(5) unfolding new(1) by auto
    have in_ds: "set ?ds \<subseteq> {b. q_in ?r b}" using L(1) unfolding loop_ok_def list_inv_def by blast
    have other: "has_phi (q_phis ?r) b ai \<longleftrightarrow> has_phi ph0 b ai" if "ai < k" for b ai
      using new(2) that unfolding has_phi_def new(1) by force
    have this_slot: "has_phi (q_phis ?r) b k \<longleftrightarrow> q_has ?r b" for b
    proof -
      have "has_phi ph0 b k = False" using old(2) unfolding has_phi_def by force
      moreover have "(b, k) \<in> snd ` set new \<longleftrightarrow> b \<in> (\<lambda>r. fst (snd r)) ` set new" using new(2) by force
      ultimately show ?thesis using new(4) unfolding has_phi_def new(1) by auto
    qed
    have "slot_closed S (q_phis ?r) k"
      using L(2) in_ds new(5) unfolding slot_closed_def this_slot at fst_conv by blast
    moreover have "slot_closed S (q_phis ?r) ai" if "ai < k" for ai
      using old(4) that unfolding slot_closed_def other [OF that] by blast
    moreover have "distinct (map snd (q_phis ?r))"
    proof -
      have "distinct (map snd new)" using new(3) distinct_map [of fst "map snd new"] by (simp add: comp_def)
      moreover have "snd ` set ph0 \<inter> snd ` set new = {}" using old(2) new(2) by force
      ultimately show ?thesis using old(3) unfolding new(1) by simp
    qed
    moreover have "\<forall>r \<in> set (q_phis ?r). snd (snd r) < Suc k" using old(2) new(2) unfolding new(1) by auto
    ultimately show ?thesis using old(1) less_Suc_eq blk by blast
  qed
  then show ?thesis unfolding placed_def e using ok2 by auto
qed


lemma step5_placed:
  assumes "m_num_blocks S \<le> M2R_MAX_BLOCKS" "m_base_inst S + m_orig S \<le> num_insts (m_M S)"
    and "\<forall>w < m_num_blocks S. \<forall>d \<in> set (df S w). d < m_num_blocks S \<and> length (preds S d) \<le> M2R_MAX_PREDS"
  shows "placed S (length (promote S)) (step5_insert_phis S)"
  unfolding step5_insert_phis_def
proof (rule for_loop_inv [where P = "placed S"])
  show "placed S 0 (S\<lparr>phis := []\<rparr>)"
    unfolding placed_def by (auto simp: phis_ok_def intro!: exI [of _ "m_M S"] m2r.equality)
qed (use place_phis_placed [OF assms] in auto)

text \<open>
  Property C13.  Phi placement is complete and tidy: if no pool overflowed, every promoted slot has a phi at
  each frontier block of every block that stores to it or has a phi of it, at most one per block and
  slot; every phi is new, has one value slot for each predecessor of its block and shares no
  operand cell with another; and the code that was there is untouched.
\<close>

theorem m2r_phis_placed:
  assumes "m_num_blocks S \<le> M2R_MAX_BLOCKS" "m_base_inst S + m_orig S \<le> num_insts (m_M S)"
    and "\<forall>w < m_num_blocks S. \<forall>d \<in> set (df S w). d < m_num_blocks S \<and> length (preds S d) \<le> M2R_MAX_PREDS"
    and "pool_full (m_M (step5_insert_phis S)) = 0"
  defines "S5 \<equiv> step5_insert_phis S"
  shows "(\<forall>ai < length (promote S). \<forall>w d. (w \<in> set (def_blocks S (fst (promote S ! ai))) \<or> (\<exists>i. (i, w, ai) \<in> set (phis S5))) \<longrightarrow>
      d \<in> set (df S w) \<longrightarrow> (\<exists>i. (i, d, ai) \<in> set (phis S5))) \<and>
    distinct (map snd (phis S5)) \<and> distinct (map fst (phis S5)) \<and>
    (\<forall>(i, d, ai) \<in> set (phis S5). ai < length (promote S) \<and> num_insts (m_M S) \<le> i \<and> i < num_insts (m_M S5) \<and>
       phi_wf (num_extra_ops (m_M S)) (m_M S5) i (map (\<lambda>p. p + m_base_block S) (preds S d)) \<and>
       (\<forall>(j, _) \<in> set (phis S5). i \<noteq> j \<longrightarrow> ext_cells (insts (m_M S5) i) \<inter> ext_cells (insts (m_M S5) j) = {})) \<and>
    (\<forall>i < num_insts (m_M S). insts (m_M S5) i = insts (m_M S) i) \<and>
    (\<forall>x < num_extra_ops (m_M S). extra_operands (m_M S5) x = extra_operands (m_M S) x)"
proof -
  have P: "placed S (length (promote S)) S5" unfolding S5_def using step5_placed [OF assms(1-3)] .
  have ok: "phis_ok S (m_M S) (m_M S5) (phis S5)" using P by (simp add: placed_def)
  have ok_each: "\<forall>r \<in> set (phis S5). num_insts (m_M S) \<le> fst r \<and> fst r < num_insts (m_M S5) \<and>
      phi_wf (num_extra_ops (m_M S)) (m_M S5) (fst r) (abs_preds S (fst (snd r))) \<and>
      ext_cells (insts (m_M S5) (fst r)) \<subseteq> {num_extra_ops (m_M S)..<num_extra_ops (m_M S5)}"
    and ok_apart: "\<forall>r \<in> set (phis S5). \<forall>r' \<in> set (phis S5). fst r \<noteq> fst r' \<longrightarrow>
      ext_cells (insts (m_M S5) (fst r)) \<inter> ext_cells (insts (m_M S5) (fst r')) = {}"
    and ok_rest: "distinct (map fst (phis S5))" "\<forall>i < num_insts (m_M S). insts (m_M S5) i = insts (m_M S) i"
      "\<forall>x < num_extra_ops (m_M S). extra_operands (m_M S5) x = extra_operands (m_M S) x"
    using ok unfolding phis_ok_def by blast+
  have c: "\<forall>r \<in> set (phis S5). snd (snd r) < length (promote S)" "distinct (map snd (phis S5))"
    "\<forall>ai < length (promote S). slot_closed S (phis S5) ai"
    using P assms(4) unfolding placed_def S5_def by blast+
  have has: "has_phi (phis S5) b ai \<longleftrightarrow> (\<exists>i. (i, b, ai) \<in> set (phis S5))" for b ai
    by (force simp: has_phi_def image_iff)
  have one: "\<exists>i. (i, d, ai) \<in> set (phis S5)"
    if "ai < length (promote S)" "w \<in> set (def_blocks S (fst (promote S ! ai))) \<or> (\<exists>i. (i, w, ai) \<in> set (phis S5))" "d \<in> set (df S w)"
    for ai w d
    using c(3) that unfolding slot_closed_def has by blast
  have all: "ai < length (promote S) \<and> num_insts (m_M S) \<le> i \<and> i < num_insts (m_M S5) \<and>
       phi_wf (num_extra_ops (m_M S)) (m_M S5) i (map (\<lambda>p. p + m_base_block S) (preds S d)) \<and>
       (\<forall>(j, _) \<in> set (phis S5). i \<noteq> j \<longrightarrow> ext_cells (insts (m_M S5) i) \<inter> ext_cells (insts (m_M S5) j) = {})"
    if r: "(i, d, ai) \<in> set (phis S5)" for i d ai
  proof -
    have "num_insts (m_M S) \<le> i \<and> i < num_insts (m_M S5) \<and>
       phi_wf (num_extra_ops (m_M S)) (m_M S5) i (map (\<lambda>p. p + m_base_block S) (preds S d))"
      using bspec [OF ok_each r] by (simp add: abs_preds_def)
    moreover have "ext_cells (insts (m_M S5) i) \<inter> ext_cells (insts (m_M S5) (fst r')) = {}"
      if "r' \<in> set (phis S5)" "i \<noteq> fst r'" for r'
      using bspec [OF bspec [OF ok_apart r] that(1)] that(2) by simp
    ultimately show ?thesis using bspec [OF c(1) r] unfolding case_prod_beta by simp
  qed
  show ?thesis
    by (intro conjI allI impI; (fact one | fact c(2) | fact ok_rest)?) (use one all ok_rest in \<open>blast+\<close>)
qed

end
