(* ===== verification/Bir_Mem2reg_Rename.thy ===== *)
theory Bir_Mem2reg_Rename
  imports Bir_Mem2reg_Phi
begin

text \<open>
  Renaming: the walk over the dominator tree gives every load of a promoted slot the value the slot holds
  there, and every phi the value the slot holds at the end of each predecessor.
\<close>

subsection \<open>The value slots of a phi\<close>

definition phi_incoming :: "bir_module \<Rightarrow> nat \<Rightarrow> nat \<Rightarrow> u32 option" where
  "phi_incoming M phi pred =
     (let I = insts M phi in
      if overflow I then
        map_option (\<lambda>k. extra_operands M (unat (i_operands I 0) + 2 * k + 1))
          (find (\<lambda>k. unat (extra_operands M (unat (i_operands I 0) + 2 * k)) = pred) [0..<unat (i_operands I 1) div 2])
      else
        map_option (\<lambda>k. i_operands I (2 * k + 1))
          (find (\<lambda>k. unat (i_operands I (2 * k)) = pred) [0..<i_num_operands I div 2]))"

lemma phi_key_find:
  assumes "phi_wf E M phi ps" "\<forall>p \<in> set ps. p < 2 ^ 32"
  shows "(if overflow (insts M phi)
      then find (\<lambda>k. unat (extra_operands M (unat (i_operands (insts M phi) 0) + 2 * k)) = pred) [0..<unat (i_operands (insts M phi) 1) div 2]
      else find (\<lambda>k. unat (i_operands (insts M phi) (2 * k)) = pred) [0..<i_num_operands (insts M phi) div 2])
    = find (\<lambda>k. ps ! k = pred) [0..<length ps]"
proof -
  have u: "unat (word_of_nat (ps ! k) :: u32) = ps ! k" if "k < length ps" for k
    using assms(2) that by (intro unat_word_small) simp
  have c: "find P [0..<n] = find Q [0..<n]" if "\<And>k. k < n \<Longrightarrow> P k = Q k" for P Q and n :: nat
    by (rule find_cong) (use that in auto)
  show ?thesis
  proof (cases "length ps * 2 \<le> BIR_OPERANDS_INLINE")
    case True
    then have h: "\<not> overflow (insts M phi)" "i_num_operands (insts M phi) div 2 = length ps"
      "\<And>k. k < length ps \<Longrightarrow> i_operands (insts M phi) (2 * k) = word_of_nat (ps ! k)"
      using assms(1) by (simp_all add: phi_wf_def)
    show ?thesis unfolding if_not_P [OF h(1)] h(2) by (rule c) (simp only: h(3) u)
  next
    case False
    then have h: "overflow (insts M phi)" "unat (i_operands (insts M phi) 1) div 2 = length ps"
      "\<And>k. k < length ps \<Longrightarrow> extra_operands M (unat (i_operands (insts M phi) 0) + 2 * k) = word_of_nat (ps ! k)"
      using assms(1) by (simp_all add: phi_wf_def)
    show ?thesis unfolding if_P [OF h(1)] h(2) by (rule c) (simp only: h(3) u)
  qed
qed

lemma find_key:
  "pred \<in> set ps \<Longrightarrow> \<exists>k < length ps. find (\<lambda>k. ps ! k = pred) [0..<length ps] = Some k \<and> ps ! k = pred"
  "pred \<notin> set ps \<Longrightarrow> find (\<lambda>k. ps ! k = pred) [0..<length ps] = None"
proof -
  assume "pred \<in> set ps"
  then obtain k where "k < length ps" "ps ! k = pred" by (auto simp: in_set_conv_nth)
  then have "find (\<lambda>k. ps ! k = pred) [0..<length ps] \<noteq> None" by (auto simp: find_upt_None)
  then show "\<exists>k < length ps. find (\<lambda>k. ps ! k = pred) [0..<length ps] = Some k \<and> ps ! k = pred"
    by (auto simp: find_upt_Some)
next
  assume "pred \<notin> set ps"
  then show "find (\<lambda>k. ps ! k = pred) [0..<length ps] = None" by (auto simp: find_upt_None)
qed

text \<open>Setting one value slot.\<close>

lemma set_phi_incoming_spec:
  fixes v :: u32
  assumes wf: "phi_wf E M phi ps" and small: "\<forall>p \<in> set ps. p < 2 ^ 32" and pred: "pred \<in> set ps"
  defines "M' \<equiv> set_phi_incoming M phi pred v"
  shows "phi_wf E M' phi ps" "phi_incoming M' phi pred = Some v" "\<And>q. q \<noteq> pred \<Longrightarrow> phi_incoming M' phi q = phi_incoming M phi q"
    "\<And>i. i \<noteq> phi \<Longrightarrow> insts M' i = insts M i" "ext_cells (insts M' phi) = ext_cells (insts M phi)"
    "\<And>x. x \<notin> ext_cells (insts M phi) \<Longrightarrow> extra_operands M' x = extra_operands M x"
    "num_insts M' = num_insts M" "num_extra_ops M' = num_extra_ops M" "blocks M' = blocks M" "i_op (insts M' i) = i_op (insts M i)"
proof -
  obtain k where k: "k < length ps" "find (\<lambda>k. ps ! k = pred) [0..<length ps] = Some k" "ps ! k = pred"
    using find_key(1) [OF pred] by blast
  have odd: "2 * j \<noteq> Suc (2 * k)" for j by presburger
  have q: "find (\<lambda>k. ps ! k = q) [0..<length ps] \<noteq> Some k" if "q \<noteq> pred" for q using k(3) that by (auto simp: find_upt_Some)
  have main: "phi_wf E M' phi ps \<and> phi_incoming M' phi pred = Some v \<and> (\<forall>q. q \<noteq> pred \<longrightarrow> phi_incoming M' phi q = phi_incoming M phi q) \<and>
    (\<forall>i. i \<noteq> phi \<longrightarrow> insts M' i = insts M i) \<and> ext_cells (insts M' phi) = ext_cells (insts M phi) \<and>
    (\<forall>x. x \<notin> ext_cells (insts M phi) \<longrightarrow> extra_operands M' x = extra_operands M x) \<and>
    num_insts M' = num_insts M \<and> num_extra_ops M' = num_extra_ops M \<and> blocks M' = blocks M \<and> i_op (insts M' i) = i_op (insts M i)"
  proof (cases "overflow (insts M phi)")
    case True
    let ?st = "unat (i_operands (insts M phi) 0)"
    have M': "M' = M\<lparr>extra_operands := (extra_operands M)(?st + 2 * k + 1 := v)\<rparr>"
      using phi_key_find [OF wf small, of pred] True k(2) unfolding M'_def set_phi_incoming_def by (simp add: Let_def)
    have big: "\<not> length ps * 2 \<le> BIR_OPERANDS_INLINE" using wf True by (auto simp: phi_wf_def)
    then have len: "unat (i_operands (insts M phi) 1) = length ps * 2" using wf by (simp add: phi_wf_def)
    have cell: "?st + 2 * k + 1 \<in> ext_cells (insts M phi)" using True len k(1) by (simp add: ext_cells_def)
    have wf': "phi_wf E M' phi ps" using wf big odd unfolding M' phi_wf_def by simp
    have inc: "phi_incoming X phi q = map_option (\<lambda>k. extra_operands X (?st + 2 * k + 1)) (find (\<lambda>k. ps ! k = q) [0..<length ps])"
      if "phi_wf E X phi ps" "insts X phi = insts M phi" for X q
      using phi_key_find [OF that(1) small, of q] that(2) True unfolding phi_incoming_def by (simp add: Let_def)
    have M'i: "insts M' phi = insts M phi" by (simp add: M')
    have other: "phi_incoming M' phi q = phi_incoming M phi q" if "q \<noteq> pred" for q
      unfolding inc [OF wf' M'i] inc [OF wf refl] using q [OF that] by (cases "find (\<lambda>k. ps ! k = q) [0..<length ps]") (auto simp: M')
    show ?thesis using wf' cell other inc [OF wf' M'i, of pred] k(2) by (auto simp: M')
  next
    case False
    have M': "M' = M\<lparr>insts := (insts M)(phi := (insts M phi)\<lparr>i_operands := (i_operands (insts M phi))(2 * k + 1 := v)\<rparr>)\<rparr>"
      using phi_key_find [OF wf small, of pred] False k(2) unfolding M'_def set_phi_incoming_def by (simp add: Let_def)
    have little: "length ps * 2 \<le> BIR_OPERANDS_INLINE" using wf False by (auto simp: phi_wf_def split: if_splits)
    have wf': "phi_wf E M' phi ps" using wf little odd unfolding M' phi_wf_def by simp
    have inc: "phi_incoming X phi q = map_option (\<lambda>k. i_operands (insts X phi) (2 * k + 1)) (find (\<lambda>k. ps ! k = q) [0..<length ps])"
      if "phi_wf E X phi ps" "\<not> overflow (insts X phi)" for X q
      using phi_key_find [OF that(1) small, of q] that(2) unfolding phi_incoming_def by (simp add: Let_def)
    have n': "\<not> overflow (insts M' phi)" using False by (simp add: M')
    have other: "phi_incoming M' phi q = phi_incoming M phi q" if "q \<noteq> pred" for q
      unfolding inc [OF wf' n'] inc [OF wf False] using q [OF that] by (cases "find (\<lambda>k. ps ! k = q) [0..<length ps]") (auto simp: M')
    show ?thesis using wf' False other inc [OF wf' n', of pred] k(2) by (auto simp: M' ext_cells_def)
  qed
  then show "phi_wf E M' phi ps" "phi_incoming M' phi pred = Some v" "\<And>q. q \<noteq> pred \<Longrightarrow> phi_incoming M' phi q = phi_incoming M phi q"
    "\<And>i. i \<noteq> phi \<Longrightarrow> insts M' i = insts M i" "ext_cells (insts M' phi) = ext_cells (insts M phi)"
    "\<And>x. x \<notin> ext_cells (insts M phi) \<Longrightarrow> extra_operands M' x = extra_operands M x"
    "num_insts M' = num_insts M" "num_extra_ops M' = num_extra_ops M" "blocks M' = blocks M" "i_op (insts M' i) = i_op (insts M i)"
    by blast+
qed


subsection \<open>The values of the slots along a block\<close>

definition binsts :: "m2r \<Rightarrow> nat \<Rightarrow> nat list" where
  "binsts S b = (let B = blocks (m_M S) (m_base_block S + b) in [b_first_inst B..<b_first_inst B + b_num_insts B])"

text \<open>The slot a store or a load of the promoted slots is about.\<close>

definition store_slot :: "m2r \<Rightarrow> nat \<Rightarrow> nat option" where
  "store_slot S ii =
     (let dest = get_alloca_ref (m_M S) (insts (m_M S) ii) True in
      if i_op (insts (m_M S) ii) = BIR_STORE \<and> dest \<noteq> 0 then find_promote_idx (promote S) dest else None)"

definition load_slot :: "m2r \<Rightarrow> nat \<Rightarrow> nat option" where
  "load_slot S ii =
     (let src = get_alloca_ref (m_M S) (insts (m_M S) ii) False in
      if i_op (insts (m_M S) ii) = BIR_LOAD \<and> src \<noteq> 0 then find_promote_idx (promote S) src else None)"

definition phi_top :: "phi_rec list \<Rightarrow> nat \<Rightarrow> (nat \<Rightarrow> u32) \<Rightarrow> (nat \<Rightarrow> u32)" where
  "phi_top ph b vt = fold (\<lambda>(pi, pb, ai) vt. if pb = b then vt(ai := BIR_MAKE_VAL pi) else vt) ph vt"

definition inst_top :: "m2r \<Rightarrow> nat \<Rightarrow> (nat \<Rightarrow> u32) \<Rightarrow> (nat \<Rightarrow> u32)" where
  "inst_top S ii vt = (case store_slot S ii of None \<Rightarrow> vt | Some ai \<Rightarrow> vt(ai := i_operands (insts (m_M S) ii) 0))"

definition top_before :: "m2r \<Rightarrow> nat \<Rightarrow> (nat \<Rightarrow> u32) \<Rightarrow> nat \<Rightarrow> (nat \<Rightarrow> u32)" where
  "top_before S b vt ii = fold (inst_top S) (filter (\<lambda>i. i < ii) (binsts S b)) (phi_top (phis S) b vt)"

definition block_out :: "m2r \<Rightarrow> nat \<Rightarrow> (nat \<Rightarrow> u32) \<Rightarrow> (nat \<Rightarrow> u32)" where
  "block_out S b vt = fold (inst_top S) (binsts S b) (phi_top (phis S) b vt)"

subsection \<open>Saving and restoring\<close>

text \<open>A state whose log leads back to an earlier one, at most \<open>n\<close> entries longer.\<close>

definition logged :: "nat \<Rightarrow> m2r \<Rightarrow> m2r \<Rightarrow> bool" where
  "logged n S S' \<longleftrightarrow> (\<exists>cs. changes S' = cs @ changes S \<and> length cs \<le> n \<and>
     fold (\<lambda>c vt. vt(fst c := snd c)) cs (val_top S') = val_top S)"

lemma logged_refl: "logged 0 S S"
  by (simp add: logged_def)

lemma logged_trans: "logged m S S' \<Longrightarrow> logged n S' S'' \<Longrightarrow> logged (m + n) S S''"
  unfolding logged_def by (elim exE conjE) (rule_tac x = "csa @ cs" in exI, simp)

lemma logged_mono: "logged m S S' \<Longrightarrow> m \<le> n \<Longrightarrow> logged n S S'"
  unfolding logged_def by (meson order_trans)

lemma logged_length: "logged n S S' \<Longrightarrow> length (changes S') \<le> length (changes S) + n"
  by (auto simp: logged_def)

lemma undo_append: "undo (length l) (cs @ l) vt = (l, fold (\<lambda>c vt. vt(fst c := snd c)) cs vt)"
proof (induction cs arbitrary: vt)
  case Nil
  show ?case by (cases l) simp_all
qed simp

lemma logged_undo: "logged n S S' \<Longrightarrow> undo (length (changes S)) (changes S') (val_top S') = (changes S, val_top S)"
  unfolding logged_def by (elim exE conjE) (simp only: undo_append)

lemma set_top_logged:
  assumes "length (changes S) < M2R_MAX_CHANGES"
  shows "logged 1 S (set_top ai v S)" "val_top (set_top ai v S) = (val_top S)(ai := v)"
    "\<exists>vt cs. set_top ai v S = S\<lparr>val_top := vt, changes := cs\<rparr>"
proof -
  have e: "set_top ai v S = S\<lparr>changes := (ai, val_top S ai) # changes S, val_top := (val_top S)(ai := v)\<rparr>"
    using assms by (simp add: set_top_def save_val_def Let_def)
  show "logged 1 S (set_top ai v S)" "val_top (set_top ai v S) = (val_top S)(ai := v)"
    by (simp_all add: e logged_def)
  show "\<exists>vt cs. set_top ai v S = S\<lparr>val_top := vt, changes := cs\<rparr>"
    unfolding e by (intro exI [of _ "(val_top S)(ai := v)"] exI [of _ "(ai, val_top S ai) # changes S"]) simp
qed

subsection \<open>What renaming leaves alone\<close>

text \<open>A module that differs from the start of renaming only in value slots of phis.\<close>

definition code_sim :: "nat \<Rightarrow> m2r \<Rightarrow> bir_module \<Rightarrow> bool" where
  "code_sim E B M \<longleftrightarrow> blocks M = blocks (m_M B) \<and> num_insts M = num_insts (m_M B) \<and> num_extra_ops M = num_extra_ops (m_M B) \<and>
     (\<forall>i. i \<notin> fst ` set (phis B) \<longrightarrow> insts M i = insts (m_M B) i) \<and> (\<forall>i. i_op (insts M i) = i_op (insts (m_M B) i)) \<and>
     (\<forall>r \<in> set (phis B). phi_wf E M (fst r) (abs_preds B (fst (snd r))) \<and> ext_cells (insts M (fst r)) = ext_cells (insts (m_M B) (fst r))) \<and>
     (\<forall>x < E. extra_operands M x = extra_operands (m_M B) x)"

definition sim :: "nat \<Rightarrow> m2r \<Rightarrow> m2r \<Rightarrow> bool" where
  "sim E B S \<longleftrightarrow> S = B\<lparr>m_M := m_M S, val_top := val_top S, val_remap := val_remap S, m_dead := m_dead S, changes := changes S\<rparr> \<and>
     code_sim E B (m_M S)"

lemma sim_fields:
  assumes "sim E B S"
  shows "m_base_block S = m_base_block B" "m_num_blocks S = m_num_blocks B" "promote S = promote B" "phis S = phis B"
    "dt_child S = dt_child B" "dt_sibling S = dt_sibling B" "preds S = preds B" "blocks (m_M S) = blocks (m_M B)"
proof -
  note e = assms [unfolded sim_def, THEN conjunct1]
  show "m_base_block S = m_base_block B" "m_num_blocks S = m_num_blocks B" "promote S = promote B" "phis S = phis B"
    "dt_child S = dt_child B" "dt_sibling S = dt_sibling B" "preds S = preds B"
    by (subst e, simp)+
  show "blocks (m_M S) = blocks (m_M B)" using assms by (simp add: sim_def code_sim_def)
qed

lemma sim_update:
  assumes "sim E B S"
  shows "sim E B (S\<lparr>val_top := vt, changes := cs, val_remap := vr, m_dead := dd\<rparr>)"
proof -
  obtain M vt' vr' dd' cs' where "S = B\<lparr>m_M := M, val_top := vt', val_remap := vr', m_dead := dd', changes := cs'\<rparr>"
    using assms unfolding sim_def by blast
  then show ?thesis using assms by (simp add: sim_def)
qed

lemma sim_module:
  assumes "sim E B S" "code_sim E B M"
  shows "sim E B (S\<lparr>m_M := M\<rparr>)"
proof -
  obtain M' vt' vr' dd' cs' where "S = B\<lparr>m_M := M', val_top := vt', val_remap := vr', m_dead := dd', changes := cs'\<rparr>"
    using assms unfolding sim_def by blast
  then show ?thesis using assms(2) by (simp add: sim_def)
qed

text \<open>The setting: code below \<open>N\<close> in disjoint blocks, phis from \<open>N\<close> on with their own cells from \<open>E\<close> on.\<close>

definition rn_ok :: "nat \<Rightarrow> nat \<Rightarrow> m2r \<Rightarrow> bool" where
  "rn_ok E N B \<longleftrightarrow> distinct (map fst (phis B)) \<and> distinct (map snd (phis B)) \<and>
     (\<forall>r \<in> set (phis B). N \<le> fst r \<and> fst (snd r) < m_num_blocks B \<and> phi_wf E (m_M B) (fst r) (abs_preds B (fst (snd r))) \<and>
        (\<forall>x \<in> ext_cells (insts (m_M B) (fst r)). E \<le> x)) \<and>
     (\<forall>r \<in> set (phis B). \<forall>r' \<in> set (phis B). fst r \<noteq> fst r' \<longrightarrow>
        ext_cells (insts (m_M B) (fst r)) \<inter> ext_cells (insts (m_M B) (fst r')) = {}) \<and>
     (\<forall>b < m_num_blocks B. \<forall>ii \<in> set (binsts B b). ii < N \<and>
        (overflow (insts (m_M B) ii) \<longrightarrow> unat (i_operands (insts (m_M B) ii) 0) + unat (i_operands (insts (m_M B) ii) 1) \<le> E)) \<and>
     (\<forall>b < m_num_blocks B. \<forall>c < m_num_blocks B. b \<noteq> c \<longrightarrow> set (binsts B b) \<inter> set (binsts B c) = {}) \<and>
     m_base_block B + m_num_blocks B \<le> 2 ^ 32 \<and> preds_exact B"

lemma rn_code:
  assumes "rn_ok E N B" "sim E B S" "b < m_num_blocks B" "ii \<in> set (binsts B b)"
  shows "insts (m_M S) ii = insts (m_M B) ii" "ii < N"
proof -
  show n: "ii < N" using assms(1,3,4) by (simp add: rn_ok_def)
  have "ii \<notin> fst ` set (phis B)" using assms(1) n by (auto simp: rn_ok_def)
  then show "insts (m_M S) ii = insts (m_M B) ii" using assms(2) by (simp add: sim_def code_sim_def)
qed

lemma rn_slots:
  assumes "rn_ok E N B" "sim E B S" "b < m_num_blocks B" "ii \<in> set (binsts B b)"
  shows "store_slot S ii = store_slot B ii" "load_slot S ii = load_slot B ii" "inst_top S ii = inst_top B ii"
proof -
  note f = sim_fields [OF assms(2)] and i = rn_code(1) [OF assms]
  have "num_insts (m_M S) = num_insts (m_M B)" "\<And>i. i_op (insts (m_M S) i) = i_op (insts (m_M B) i)"
    using assms(2) by (simp_all add: sim_def code_sim_def)
  then have g: "get_alloca_ref (m_M S) I st = get_alloca_ref (m_M B) I st" for I st
    by (simp add: get_alloca_ref_def Let_def)
  show s: "store_slot S ii = store_slot B ii" "load_slot S ii = load_slot B ii"
    unfolding store_slot_def load_slot_def g i f by (rule refl)+
  then show "inst_top S ii = inst_top B ii" by (intro ext) (simp add: inst_top_def i split: option.split)
qed

text \<open>Two states with the same code of a block have the same successors of it.\<close>

lemma local_succs_same:
  assumes f: "blocks (m_M S) = blocks (m_M B)" "m_base_block S = m_base_block B" "m_num_blocks S = m_num_blocks B"
    and i: "\<forall>ii \<in> set (binsts B b). insts (m_M S) ii = insts (m_M B) ii"
    and w: "\<forall>ii \<in> set (binsts B b). overflow (insts (m_M B) ii) \<longrightarrow>
      unat (i_operands (insts (m_M B) ii) 0) + unat (i_operands (insts (m_M B) ii) 1) \<le> E"
    and x: "\<forall>x < E. extra_operands (m_M S) x = extra_operands (m_M B) x"
  shows "local_succs S b = local_succs B b"
proof -
  let ?Bl = "blocks (m_M B) (m_base_block B + b)"
  let ?l = "b_first_inst ?Bl + b_num_insts ?Bl - 1"
  have "get_succs S b = get_succs B b"
  proof (cases "b_num_insts ?Bl = 0")
    case False
    then have l: "?l \<in> set (binsts B b)" by (simp add: binsts_def Let_def)
    note i = bspec [OF i l]
    have sw: "map (\<lambda>j. unat (extra_operands (m_M S) (unat (i_operands (insts (m_M B) ?l) 0) + j)))
          (1 # filter odd [3..<unat (i_operands (insts (m_M B) ?l) 1)]) =
        map (\<lambda>j. unat (extra_operands (m_M B) (unat (i_operands (insts (m_M B) ?l) 0) + j)))
          (1 # filter odd [3..<unat (i_operands (insts (m_M B) ?l) 1)])"
      if "overflow (insts (m_M B) ?l)" "unat (i_operands (insts (m_M B) ?l) 1) \<ge> 2"
    proof (rule map_cong [OF refl])
      fix j
      assume "j \<in> set (1 # filter odd [3..<unat (i_operands (insts (m_M B) ?l) 1)])"
      then have "j < unat (i_operands (insts (m_M B) ?l) 1)" using that(2) by auto
      then have "unat (i_operands (insts (m_M B) ?l) 0) + j < E" using w l that(1) by fastforce
      then show "unat (extra_operands (m_M S) (unat (i_operands (insts (m_M B) ?l) 0) + j)) =
          unat (extra_operands (m_M B) (unat (i_operands (insts (m_M B) ?l) 0) + j))"
        using x by simp
    qed
    show ?thesis
      unfolding get_succs_def f Let_def i by (intro if_cong refl) (simp only: sw)
  qed (simp add: get_succs_def f Let_def)
  then show ?thesis by (simp add: local_succs_def f)
qed

lemma rn_succs:
  assumes "rn_ok E N B" "sim E B S" "b < m_num_blocks B"
  shows "local_succs S b = local_succs B b"
proof (rule local_succs_same [where E = E])
  note f = sim_fields [OF assms(2)]
  show "blocks (m_M S) = blocks (m_M B)" "m_base_block S = m_base_block B" "m_num_blocks S = m_num_blocks B" by (simp_all add: f)
  show "\<forall>ii \<in> set (binsts B b). insts (m_M S) ii = insts (m_M B) ii" using rn_code(1) [OF assms] by blast
  show "\<forall>ii \<in> set (binsts B b). overflow (insts (m_M B) ii) \<longrightarrow>
      unat (i_operands (insts (m_M B) ii) 0) + unat (i_operands (insts (m_M B) ii) 1) \<le> E"
    using assms(1,3) unfolding rn_ok_def by blast
  show "\<forall>x < E. extra_operands (m_M S) x = extra_operands (m_M B) x" using assms(2) by (simp add: sim_def code_sim_def)
qed


subsection \<open>One block\<close>

lemma phis_renamed:
  assumes "length (changes S) + length (filter (\<lambda>r. fst (snd r) = b) ph) \<le> M2R_MAX_CHANGES"
  shows "(\<exists>vt cs. fold (rename_phi b) ph S = S\<lparr>val_top := vt, changes := cs\<rparr>) \<and>
    val_top (fold (rename_phi b) ph S) = phi_top ph b (val_top S) \<and>
    logged (length (filter (\<lambda>r. fst (snd r) = b) ph)) S (fold (rename_phi b) ph S)"
  using assms
proof (induction ph arbitrary: S)
  case Nil
  have "S = S\<lparr>val_top := val_top S, changes := changes S\<rparr>" by simp
  then have "\<exists>vt cs. S = S\<lparr>val_top := vt, changes := cs\<rparr>" by blast
  then show ?case by (simp add: phi_top_def logged_refl)
next
  case (Cons r ph)
  obtain pi pb ai where r: "r = (pi, pb, ai)" by (cases r)
  show ?case
  proof (cases "pb = b")
    case False
    then show ?thesis using Cons by (simp add: r rename_phi_def phi_top_def)
  next
    case True
    let ?S = "set_top ai (BIR_MAKE_VAL pi) S"
    have e: "fold (rename_phi b) (r # ph) S = fold (rename_phi b) ph ?S" using True by (simp add: r rename_phi_def)
    have l: "length (changes S) < M2R_MAX_CHANGES" using Cons.prems True by (simp add: r)
    note t = set_top_logged [OF l, of ai "BIR_MAKE_VAL pi"]
    have "length (changes ?S) \<le> length (changes S) + 1" by (rule logged_length [OF t(1)])
    then have "length (changes ?S) + length (filter (\<lambda>r. fst (snd r) = b) ph) \<le> M2R_MAX_CHANGES"
      using Cons.prems True by (simp add: r)
    note IH = Cons.IH [OF this]
    obtain vt cs vt' cs' where "?S = S\<lparr>val_top := vt, changes := cs\<rparr>" "fold (rename_phi b) ph ?S = ?S\<lparr>val_top := vt', changes := cs'\<rparr>"
      using t(3) IH by blast
    then have "fold (rename_phi b) ph ?S = S\<lparr>val_top := vt', changes := cs'\<rparr>" by simp
    moreover have "val_top (fold (rename_phi b) ph ?S) = phi_top (r # ph) b (val_top S)"
      using IH t(2) True by (simp add: phi_top_def r del: fun_upd_apply)
    moreover have "logged (length (filter (\<lambda>r. fst (snd r) = b) (r # ph))) S (fold (rename_phi b) ph ?S)"
      using logged_trans [OF t(1)] IH True by (simp add: r)
    ultimately show ?thesis unfolding e by blast
  qed
qed

lemma rename_inst_slots:
  "rename_inst ii S =
     (case store_slot S ii of
        Some ai \<Rightarrow> (set_top ai (i_operands (insts (m_M S) ii) 0) S)\<lparr>m_dead := (m_dead (set_top ai (i_operands (insts (m_M S) ii) 0) S))(ii := True)\<rparr>
      | None \<Rightarrow> (case load_slot S ii of
          Some ai \<Rightarrow> S\<lparr>val_remap := (val_remap S)(ii := val_top S ai), m_dead := (m_dead S)(ii := True)\<rparr>
        | None \<Rightarrow> S))"
  unfolding rename_inst_def store_slot_def load_slot_def Let_def by (simp split: option.split)

definition renamed :: "m2r \<Rightarrow> nat list \<Rightarrow> m2r \<Rightarrow> m2r \<Rightarrow> bool" where
  "renamed B xs S S' \<longleftrightarrow> (\<exists>vt cs vr dd. S' = S\<lparr>val_top := vt, changes := cs, val_remap := vr, m_dead := dd\<rparr>) \<and>
     val_top S' = fold (inst_top B) xs (val_top S) \<and> logged (length xs) S S' \<and>
     (\<forall>ii. val_remap S' ii = (if ii \<in> set xs then (case load_slot B ii of None \<Rightarrow> val_remap S ii
          | Some ai \<Rightarrow> fold (inst_top B) (filter (\<lambda>i. i < ii) xs) (val_top S) ai) else val_remap S ii)) \<and>
     (\<forall>ii. m_dead S' ii \<longleftrightarrow> m_dead S ii \<or> ii \<in> set xs \<and> (store_slot B ii \<noteq> None \<or> load_slot B ii \<noteq> None))"

lemma renamed_snoc:
  assumes a: "renamed B xs S S1" and b: "renamed B [ii] S1 S2" and lt: "\<forall>i \<in> set xs. i < ii"
  shows "renamed B (xs @ [ii]) S S2"
proof -
  obtain vt cs vr dd vt' cs' vr' dd' where "S1 = S\<lparr>val_top := vt, changes := cs, val_remap := vr, m_dead := dd\<rparr>"
    "S2 = S1\<lparr>val_top := vt', changes := cs', val_remap := vr', m_dead := dd'\<rparr>"
    using a b unfolding renamed_def by blast
  then have "S2 = S\<lparr>val_top := vt', changes := cs', val_remap := vr', m_dead := dd'\<rparr>" by simp
  then have "\<exists>vt cs vr dd. S2 = S\<lparr>val_top := vt, changes := cs, val_remap := vr, m_dead := dd\<rparr>" by blast
  moreover have "val_top S2 = fold (inst_top B) (xs @ [ii]) (val_top S)" using a b by (simp add: renamed_def)
  moreover have "logged (length (xs @ [ii])) S S2"
    using a b logged_trans [of "length xs" S S1 1 S2] by (simp add: renamed_def)
  moreover have "val_remap S2 jj = (if jj \<in> set (xs @ [ii]) then (case load_slot B jj of None \<Rightarrow> val_remap S jj
          | Some ai \<Rightarrow> fold (inst_top B) (filter (\<lambda>i. i < jj) (xs @ [ii])) (val_top S) ai) else val_remap S jj)" for jj
  proof (cases "jj = ii")
    case True
    have "jj \<notin> set xs" using lt True by auto
    moreover have "filter (\<lambda>i. i < jj) (xs @ [ii]) = xs" using lt True by (simp add: filter_id_conv)
    ultimately show ?thesis using a b True unfolding renamed_def by (simp split: option.split)
  next
    case False
    have "filter (\<lambda>i. i < jj) (xs @ [ii]) = filter (\<lambda>i. i < jj) xs" if "jj \<in> set xs"
      using lt that by (auto dest: bspec)
    then show ?thesis using a b False unfolding renamed_def by (simp split: option.split)
  qed
  moreover have "m_dead S2 jj \<longleftrightarrow> m_dead S jj \<or> jj \<in> set (xs @ [ii]) \<and> (store_slot B jj \<noteq> None \<or> load_slot B jj \<noteq> None)" for jj
    using a b unfolding renamed_def by auto
  ultimately show ?thesis unfolding renamed_def by blast
qed

lemma insts_renamed:
  assumes ok: "rn_ok E N B" and sim: "sim E B S" and b: "b < m_num_blocks B"
    and sub: "{f..<f + n} \<subseteq> set (binsts B b)" and room: "length (changes S) + n \<le> M2R_MAX_CHANGES"
  shows "renamed B [f..<f + n] S (fold rename_inst [f..<f + n] S)"
  using sub room
proof (induction n)
  case 0
  have "S = S\<lparr>val_top := val_top S, changes := changes S, val_remap := val_remap S, m_dead := m_dead S\<rparr>" by simp
  then have "\<exists>vt cs vr dd. S = S\<lparr>val_top := vt, changes := cs, val_remap := vr, m_dead := dd\<rparr>" by blast
  then show ?case by (simp add: renamed_def logged_refl)
next
  case (Suc n)
  let ?xs = "[f..<f + n]" and ?ii = "f + n"
  let ?S = "fold rename_inst ?xs S"
  have "{f..<f + n} \<subseteq> {f..<f + Suc n}" by auto
  from Suc.IH [OF subset_trans [OF this Suc.prems(1)]] have IH: "renamed B ?xs S ?S" using Suc.prems(2) by simp
  obtain vt cs vr dd where e: "?S = S\<lparr>val_top := vt, changes := cs, val_remap := vr, m_dead := dd\<rparr>"
    using IH unfolding renamed_def by blast
  have simS: "sim E B ?S" using sim unfolding e by (rule sim_update)
  have ii: "?ii \<in> set (binsts B b)" using Suc.prems(1) by auto
  note sl = rn_slots [OF ok simS b ii] and cd = rn_code(1) [OF ok simS b ii]
  have l: "length (changes ?S) < M2R_MAX_CHANGES"
    using logged_length [of n S ?S] IH Suc.prems(2) by (simp add: renamed_def)
  have one: "renamed B [?ii] ?S (rename_inst ?ii ?S)"
  proof (cases "store_slot B ?ii")
    case (Some ai)
    then have ld: "load_slot B ?ii = None" by (auto simp: store_slot_def load_slot_def Let_def split: if_splits)
    let ?v = "i_operands (insts (m_M B) ?ii) 0"
    let ?T = "set_top ai ?v ?S"
    have r: "rename_inst ?ii ?S = ?T\<lparr>m_dead := (m_dead ?T)(?ii := True)\<rparr>"
      unfolding rename_inst_slots sl cd Some by simp
    note t = set_top_logged [OF l, of ai ?v]
    obtain vt cs where T: "?T = ?S\<lparr>val_top := vt, changes := cs\<rparr>" using t(3) by blast
    have "\<exists>vt cs vr dd. ?T\<lparr>m_dead := (m_dead ?T)(?ii := True)\<rparr> = ?S\<lparr>val_top := vt, changes := cs, val_remap := vr, m_dead := dd\<rparr>"
      unfolding T by (intro exI [of _ vt] exI [of _ cs] exI [of _ "val_remap ?S"] exI [of _ "(m_dead ?S)(?ii := True)"]) simp
    moreover have "val_top (?T\<lparr>m_dead := (m_dead ?T)(?ii := True)\<rparr>) = inst_top B ?ii (val_top ?S)"
      using t(2) Some by (simp add: inst_top_def)
    moreover have "logged 1 ?S (?T\<lparr>m_dead := (m_dead ?T)(?ii := True)\<rparr>)" using t(1) by (simp add: logged_def)
    moreover have "m_dead ?T = m_dead ?S" "val_remap ?T = val_remap ?S" by (simp_all add: T)
    ultimately show ?thesis unfolding r renamed_def using Some ld by simp
  next
    case None
    show ?thesis
    proof (cases "load_slot B ?ii")
      case load: None
      have "rename_inst ?ii ?S = ?S" unfolding rename_inst_slots sl None load by simp
      moreover have "\<exists>vt cs vr dd. ?S = ?S\<lparr>val_top := vt, changes := cs, val_remap := vr, m_dead := dd\<rparr>"
        by (intro exI [of _ "val_top ?S"] exI [of _ "changes ?S"] exI [of _ "val_remap ?S"] exI [of _ "m_dead ?S"]) simp
      ultimately show ?thesis unfolding renamed_def using None load logged_mono [OF logged_refl, of 1 ?S]
        by (auto simp: inst_top_def)
    next
      case load: (Some ai)
      have r: "rename_inst ?ii ?S = ?S\<lparr>val_remap := (val_remap ?S)(?ii := val_top ?S ai), m_dead := (m_dead ?S)(?ii := True)\<rparr>"
        unfolding rename_inst_slots sl None load by simp
      have "\<exists>vt cs vr dd. ?S\<lparr>val_remap := (val_remap ?S)(?ii := val_top ?S ai), m_dead := (m_dead ?S)(?ii := True)\<rparr> =
          ?S\<lparr>val_top := vt, changes := cs, val_remap := vr, m_dead := dd\<rparr>"
        by (intro exI [of _ "val_top ?S"] exI [of _ "changes ?S"] exI [of _ "(val_remap ?S)(?ii := val_top ?S ai)"]
            exI [of _ "(m_dead ?S)(?ii := True)"]) simp
      moreover have "logged 1 ?S (?S\<lparr>val_remap := vr, m_dead := dd\<rparr>)" for vr dd by (simp add: logged_def)
      moreover have "inst_top B ?ii = (\<lambda>vt. vt)" by (simp add: inst_top_def None fun_eq_iff)
      ultimately show ?thesis unfolding r renamed_def using load None by simp
    qed
  qed
  have "renamed B (?xs @ [?ii]) S (rename_inst ?ii ?S)" by (rule renamed_snoc [OF IH one]) simp
  then show ?case by simp
qed


text \<open>Filling in the phis of the successors.\<close>

lemma phi_cells_same:
  assumes "insts M' phi = insts M phi" "\<forall>x \<in> ext_cells (insts M phi). extra_operands M' x = extra_operands M x"
    "num_extra_ops M' = num_extra_ops M" "phi_wf E M phi ps" "\<forall>p \<in> set ps. p < 2 ^ 32"
  shows "phi_wf E M' phi ps" "phi_incoming M' phi q = phi_incoming M phi q"
proof -
  have cell: "extra_operands M' (unat (i_operands (insts M phi) 0) + j) = extra_operands M (unat (i_operands (insts M phi) 0) + j)"
    if "overflow (insts M phi)" "j < unat (i_operands (insts M phi) 1)" for j
    using assms(2) that by (simp add: ext_cells_def)
  show wf: "phi_wf E M' phi ps"
    using assms(4) cell unfolding phi_wf_def assms(1,3) by (auto split: if_splits)
  note k = phi_key_find [OF assms(4,5), of q] and k' = phi_key_find [OF wf assms(5), of q, unfolded assms(1)]
  show "phi_incoming M' phi q = phi_incoming M phi q"
  proof (cases "overflow (insts M phi)")
    case True
    have big: "unat (i_operands (insts M phi) 1) = length ps * 2" using assms(4) True by (auto simp: phi_wf_def split: if_splits)
    show ?thesis
    proof (cases "find (\<lambda>k. ps ! k = q) [0..<length ps]")
      case None
      then show ?thesis using k k' True by (simp add: phi_incoming_def assms(1) Let_def)
    next
      case (Some j)
      then have "2 * j + 1 < unat (i_operands (insts M phi) 1)" using big by (auto simp: find_upt_Some)
      then show ?thesis using k k' True Some cell [OF True, of "2 * j + 1"] by (simp add: phi_incoming_def assms(1) Let_def)
    qed
  next
    case False
    then show ?thesis by (simp add: phi_incoming_def assms(1))
  qed
qed

definition filled :: "m2r \<Rightarrow> nat \<Rightarrow> phi_rec set \<Rightarrow> (nat \<Rightarrow> u32) \<Rightarrow> bir_module \<Rightarrow> bir_module \<Rightarrow> bool" where
  "filled B b R vt M M' \<longleftrightarrow> (\<forall>r \<in> set (phis B). \<forall>q. phi_incoming M' (fst r) q =
     (if q = m_base_block B + b \<and> r \<in> R then Some (vt (snd (snd r))) else phi_incoming M (fst r) q))"

lemma filled_trans: "filled B b R vt M M' \<Longrightarrow> filled B b Q vt M' M'' \<Longrightarrow> filled B b (R \<union> Q) vt M M''"
  unfolding filled_def by auto

lemma abs_preds_small:
  assumes "rn_ok E N B" "d < m_num_blocks B"
  shows "\<forall>p \<in> set (abs_preds B d). p < 2 ^ 32"
proof
  fix p
  assume "p \<in> set (abs_preds B d)"
  then obtain q where q: "q \<in> set (preds B d)" "p = q + m_base_block B" by (auto simp: abs_preds_def)
  then have "q < m_num_blocks B" using assms cfg_edge_in [of B q d] by (auto simp: rn_ok_def preds_exact_def)
  then show "p < 2 ^ 32" using q(2) assms(1) by (simp add: rn_ok_def)
qed

lemma phi_filled:
  fixes vt :: "nat \<Rightarrow> u32"
  assumes ok: "rn_ok E N B" and cs: "code_sim E B M" and r: "r \<in> set (phis B)" and e: "cfg_edge B b (fst (snd r))"
  defines "M' \<equiv> set_phi_incoming M (fst r) (m_base_block B + b) (vt (snd (snd r)))"
  shows "code_sim E B M' \<and> filled B b {r} vt M M'"
proof -
  let ?d = "fst (snd r)"
  have d: "?d < m_num_blocks B" using ok r by (simp add: rn_ok_def)
  have wf: "phi_wf E M (fst r) (abs_preds B ?d)" using cs r by (simp add: code_sim_def)
  have "b \<in> set (preds B ?d)" using ok e d by (simp add: rn_ok_def preds_exact_def)
  then have pred: "m_base_block B + b \<in> set (abs_preds B ?d)" by (auto simp: abs_preds_def)
  note s = set_phi_incoming_spec [OF wf abs_preds_small [OF ok d] pred, where v = "vt (snd (snd r))", folded M'_def]
  have cells: "ext_cells (insts M (fst x)) = ext_cells (insts (m_M B) (fst x))" if "x \<in> set (phis B)" for x
    using cs that by (simp add: code_sim_def)
  have other: "phi_wf E M' (fst x) (abs_preds B (fst (snd x)))" "phi_incoming M' (fst x) q = phi_incoming M (fst x) q"
      "insts M' (fst x) = insts M (fst x)"
    if x: "x \<in> set (phis B)" "x \<noteq> r" for x q
  proof -
    have ne: "fst x \<noteq> fst r" using ok r x by (auto simp: rn_ok_def distinct_map inj_on_def)
    have "ext_cells (insts (m_M B) (fst x)) \<inter> ext_cells (insts (m_M B) (fst r)) = {}" using ok r x(1) ne by (simp add: rn_ok_def)
    then have keep: "\<forall>y \<in> ext_cells (insts M (fst x)). extra_operands M' y = extra_operands M y"
      using s(6) unfolding cells [OF x(1)] cells [OF r] by blast
    have wfx: "phi_wf E M (fst x) (abs_preds B (fst (snd x)))" using cs x(1) by (simp add: code_sim_def)
    have dx: "fst (snd x) < m_num_blocks B" using ok x(1) by (simp add: rn_ok_def)
    note c = phi_cells_same [OF s(4) [OF ne] keep s(8) wfx abs_preds_small [OF ok dx]]
    show "phi_wf E M' (fst x) (abs_preds B (fst (snd x)))" "phi_incoming M' (fst x) q = phi_incoming M (fst x) q"
      "insts M' (fst x) = insts M (fst x)" by (fact c(1), fact c(2), fact s(4) [OF ne])
  qed
  have "code_sim E B M'"
  proof -
    have "E \<le> x" if "x \<in> ext_cells (insts M (fst r))" for x using ok r that cells [OF r] by (simp add: rn_ok_def)
    then have low: "extra_operands M' x = extra_operands (m_M B) x" if "x < E" for x
      using s(6) [of x] cs that by (fastforce simp: code_sim_def)
    have "insts M' i = insts (m_M B) i" if "i \<notin> fst ` set (phis B)" for i
      using s(4) [of i] that r cs by (auto simp: code_sim_def)
    moreover have "phi_wf E M' (fst x) (abs_preds B (fst (snd x))) \<and> ext_cells (insts M' (fst x)) = ext_cells (insts (m_M B) (fst x))"
      if "x \<in> set (phis B)" for x
      using that other(1) [OF that] other(3) [OF that] cells [OF that] s(1,5) by (cases "x = r") simp_all
    ultimately show ?thesis using cs s(7,8,9,10) low unfolding code_sim_def by simp
  qed
  moreover have "filled B b {r} vt M M'"
    unfolding filled_def
  proof (intro ballI allI)
    fix x q
    assume x: "x \<in> set (phis B)"
    show "phi_incoming M' (fst x) q = (if q = m_base_block B + b \<and> x \<in> {r} then Some (vt (snd (snd x))) else phi_incoming M (fst x) q)"
      using s(2,3) other(2) [OF x] by (cases "x = r") auto
  qed
  ultimately show ?thesis by blast
qed


lemma filled_none: "filled B b {} vt M M"
  by (simp add: filled_def)

lemma phis_filled:
  assumes ok: "rn_ok E N B" and e: "cfg_edge B b s" and "sim E B S" "set ph \<subseteq> set (phis B)"
  shows "\<exists>M'. fold (fill_phi b s) ph S = S\<lparr>m_M := M'\<rparr> \<and> code_sim E B M' \<and>
    filled B b {r \<in> set ph. fst (snd r) = s} (val_top S) (m_M S) M'"
  using assms(3,4)
proof (induction ph arbitrary: S)
  case Nil
  have "S = S\<lparr>m_M := m_M S\<rparr>" by simp
  then show ?case using Nil(1) filled_none by (intro exI [of _ "m_M S"]) (simp add: sim_def)
next
  case (Cons r ph)
  show ?case
  proof (cases "fst (snd r) = s")
    case False
    then have "fill_phi b s r S = S" by (cases r) (simp add: fill_phi_def)
    moreover have "{x \<in> set (r # ph). fst (snd x) = s} = {x \<in> set ph. fst (snd x) = s}" using False by auto
    ultimately show ?thesis using Cons.IH [OF Cons.prems(1)] Cons.prems(2) by simp
  next
    case True
    let ?M = "set_phi_incoming (m_M S) (fst r) (m_base_block B + b) (val_top S (snd (snd r)))"
    have f: "fill_phi b s r S = S\<lparr>m_M := ?M\<rparr>"
      using True sim_fields(1) [OF Cons.prems(1)] by (cases r) (simp add: fill_phi_def)
    have "code_sim E B (m_M S)" using Cons.prems(1) by (simp add: sim_def)
    from phi_filled [OF ok this, of r b "val_top S"] Cons.prems(2) e True
    have p: "code_sim E B ?M" "filled B b {r} (val_top S) (m_M S) ?M" by auto
    from Cons.IH [OF sim_module [OF Cons.prems(1) p(1)]] Cons.prems(2) obtain M' where
      M': "fold (fill_phi b s) ph (S\<lparr>m_M := ?M\<rparr>) = S\<lparr>m_M := M'\<rparr>" "code_sim E B M'"
        "filled B b {x \<in> set ph. fst (snd x) = s} (val_top S) ?M M'" by auto
    have "{r} \<union> {x \<in> set ph. fst (snd x) = s} = {x \<in> set (r # ph). fst (snd x) = s}" using True by auto
    with filled_trans [OF p(2) M'(3)]
    have "filled B b {x \<in> set (r # ph). fst (snd x) = s} (val_top S) (m_M S) M'" by simp
    then show ?thesis using M'(1,2) f by (intro exI [of _ M']) simp
  qed
qed

lemma succs_filled:
  assumes ok: "rn_ok E N B" and "\<forall>s \<in> set ss. cfg_edge B b s" "sim E B S"
  shows "\<exists>M'. fold (\<lambda>s S. fold (fill_phi b s) (phis S) S) ss S = S\<lparr>m_M := M'\<rparr> \<and> code_sim E B M' \<and>
    filled B b {r \<in> set (phis B). fst (snd r) \<in> set ss} (val_top S) (m_M S) M'"
  using assms(2,3)
proof (induction ss arbitrary: S)
  case Nil
  have "S = S\<lparr>m_M := m_M S\<rparr>" by simp
  then show ?case using Nil(2) filled_none by (intro exI [of _ "m_M S"]) (simp add: sim_def)
next
  case (Cons s ss)
  have e: "cfg_edge B b s" using Cons.prems(1) by simp
  from phis_filled [OF ok e Cons.prems(2) order_refl] obtain M1 where
    M1: "fold (fill_phi b s) (phis B) S = S\<lparr>m_M := M1\<rparr>" "code_sim E B M1"
      "filled B b {r \<in> set (phis B). fst (snd r) = s} (val_top S) (m_M S) M1" by blast
  from Cons.IH [OF _ sim_module [OF Cons.prems(2) M1(2)]] Cons.prems(1) obtain M2 where
    M2: "fold (\<lambda>s S. fold (fill_phi b s) (phis S) S) ss (S\<lparr>m_M := M1\<rparr>) = S\<lparr>m_M := M2\<rparr>" "code_sim E B M2"
      "filled B b {r \<in> set (phis B). fst (snd r) \<in> set ss} (val_top S) M1 M2" by auto
  have "{r \<in> set (phis B). fst (snd r) = s} \<union> {r \<in> set (phis B). fst (snd r) \<in> set ss} =
      {r \<in> set (phis B). fst (snd r) \<in> set (s # ss)}" by auto
  with filled_trans [OF M1(3) M2(3)]
  have "filled B b {r \<in> set (phis B). fst (snd r) \<in> set (s # ss)} (val_top S) (m_M S) M2" by simp
  then show ?case using M1(1) M2(1,2) sim_fields(4) [OF Cons.prems(2)] by (intro exI [of _ M2]) simp
qed

definition rcost :: "m2r \<Rightarrow> nat \<Rightarrow> nat" where
  "rcost B b = length (filter (\<lambda>r. fst (snd r) = b) (phis B)) + length (binsts B b)"

definition block_done :: "m2r \<Rightarrow> nat \<Rightarrow> (nat \<Rightarrow> u32) \<Rightarrow> m2r \<Rightarrow> m2r \<Rightarrow> bool" where
  "block_done B b vt S S' \<longleftrightarrow>
     (\<forall>ii. val_remap S' ii = (if ii \<in> set (binsts B b) then (case load_slot B ii of None \<Rightarrow> val_remap S ii
          | Some ai \<Rightarrow> top_before B b vt ii ai) else val_remap S ii)) \<and>
     (\<forall>ii. m_dead S' ii \<longleftrightarrow> m_dead S ii \<or> ii \<in> set (binsts B b) \<and> (store_slot B ii \<noteq> None \<or> load_slot B ii \<noteq> None)) \<and>
     filled B b {r \<in> set (phis B). fst (snd r) \<in> set (local_succs B b)} (block_out B b vt) (m_M S) (m_M S')"

lemma rename_block_spec:
  assumes ok: "rn_ok E N B" and sim: "sim E B S" and b: "b < m_num_blocks B"
    and room: "length (changes S) + rcost B b \<le> M2R_MAX_CHANGES"
  shows "sim E B (rename_block b S)" "val_top (rename_block b S) = block_out B b (val_top S)"
    "logged (rcost B b) S (rename_block b S)" "block_done B b (val_top S) S (rename_block b S)"
proof -
  note f = sim_fields [OF sim]
  let ?n = "length (filter (\<lambda>r. fst (snd r) = b) (phis B))"
  let ?S1 = "fold (rename_phi b) (phis B) S"
  have "length (changes S) + ?n \<le> M2R_MAX_CHANGES" using room by (simp add: rcost_def)
  note p = phis_renamed [OF this]
  obtain vt cs where S1: "?S1 = S\<lparr>val_top := vt, changes := cs\<rparr>" using p by blast
  have vt1: "val_top ?S1 = phi_top (phis B) b (val_top S)" and l1: "logged ?n S ?S1" using p by blast+
  have sim1: "sim E B ?S1"
    using sim_update [OF sim, where vt = vt and cs = cs and vr = "val_remap S" and dd = "m_dead S"] unfolding S1 by simp
  note f1 = sim_fields [OF sim1]
  let ?Bl = "blocks (m_M B) (m_base_block B + b)"
  let ?lo = "b_first_inst ?Bl" and ?k = "b_num_insts ?Bl"
  have bi: "binsts B b = [?lo..<?lo + ?k]" by (simp add: binsts_def Let_def)
  let ?S2 = "fold rename_inst [?lo..<?lo + ?k] ?S1"
  have "length (changes ?S1) + ?k \<le> M2R_MAX_CHANGES" using logged_length [OF l1] room bi by (simp add: rcost_def)
  from insts_renamed [OF ok sim1 b _ this, of ?lo]
  have r: "renamed B (binsts B b) ?S1 ?S2" unfolding bi by simp
  obtain vt2 cs2 vr2 dd2 where S2: "?S2 = ?S1\<lparr>val_top := vt2, changes := cs2, val_remap := vr2, m_dead := dd2\<rparr>"
    using r unfolding renamed_def by blast
  have sim2: "sim E B ?S2" by (subst S2) (rule sim_update [OF sim1])
  have s1: "val_remap ?S1 = val_remap S" "m_dead ?S1 = m_dead S" "m_M ?S1 = m_M S" by (subst S1, simp)+
  have M2: "m_M ?S2 = m_M S" by (subst S2) (simp add: s1(3))
  have out: "val_top ?S2 = block_out B b (val_top S)" using r vt1 by (simp add: renamed_def block_out_def)
  have succ: "local_succs ?S2 b = local_succs B b" by (rule rn_succs [OF ok sim2 b])
  have "\<forall>s \<in> set (local_succs B b). cfg_edge B b s" using b by (simp add: cfg_edge_def)
  from succs_filled [OF ok this sim2] obtain M' where
    M': "fold (\<lambda>s S. fold (fill_phi b s) (phis S) S) (local_succs B b) ?S2 = ?S2\<lparr>m_M := M'\<rparr>" "code_sim E B M'"
      "filled B b {r \<in> set (phis B). fst (snd r) \<in> set (local_succs B b)} (block_out B b (val_top S)) (m_M S) M'"
    unfolding out M2 by blast
  have off: "for_loop 0 ?k (\<lambda>j. rename_inst (?lo + j)) ?S1 = ?S2"
    by (simp only: for_loop_offset) (simp only: for_loop_def)
  have e: "rename_block b S = ?S2\<lparr>m_M := M'\<rparr>"
    unfolding rename_block_def Let_def f f1 off succ by (rule M'(1))
  show "sim E B (rename_block b S)" unfolding e by (rule sim_module [OF sim2 M'(2)])
  show "val_top (rename_block b S) = block_out B b (val_top S)" unfolding e using out by simp
  have "logged (?n + length (binsts B b)) S ?S2" using logged_trans [OF l1] r by (simp add: renamed_def)
  then show "logged (rcost B b) S (rename_block b S)" unfolding e rcost_def by (simp add: logged_def)
  show "block_done B b (val_top S) S (rename_block b S)"
    using r M'(3) unfolding e block_done_def renamed_def top_before_def vt1 s1 by simp
qed

end
