(* ===== verification/Bir_Mem2reg_Walk.thy ===== *)
theory Bir_Mem2reg_Walk
  imports Bir_Mem2reg_Rename
begin

text \<open>
  The walk over the dominator tree: it visits every block below the entry, restores the reaching values
  when it leaves a block, and so enters each block with the values at the end of its parent.
\<close>

subsection \<open>The child lists\<close>

fun links :: "(nat \<Rightarrow> nat) \<Rightarrow> nat \<Rightarrow> nat list \<Rightarrow> bool" where
  "links sib x [] \<longleftrightarrow> x = M2R_UNDEF"
| "links sib x (c # cs) \<longleftrightarrow> x = c \<and> c \<noteq> M2R_UNDEF \<and> c \<noteq> M2R_UNVISITED \<and> links sib (sib c) cs"

lemma links_update: "i \<notin> set cs \<Longrightarrow> links (sib(i := v)) x cs = links sib x cs"
  by (induction cs arbitrary: x) auto

lemma dt_lists_links:
  assumes "dt_lists nb dm st = (ch, sib)" "nb \<le> M2R_MAX_BLOCKS" "b < nb"
  shows "\<exists>cs. links sib (ch b) cs \<and> set cs = {c. 0 < c \<and> c < nb \<and> dm c = b \<and> c \<noteq> b}"
proof -
  let ?K = "\<lambda>n. {c. 0 < c \<and> c < n \<and> dm c = b \<and> c \<noteq> b}"
  let ?P = "\<lambda>n s. \<exists>cs. links (snd s) (fst s b) cs \<and> set cs = ?K n"
  have "?P nb (dt_lists nb dm st)"
    unfolding dt_lists_def
  proof (rule for_loop_inv [where P = ?P])
    show "1 \<le> nb" using assms(3) by simp
    show "?P 1 ((\<lambda>i. if i < nb then M2R_UNDEF else fst st i), (\<lambda>i. if i < nb then M2R_UNDEF else snd st i))"
      using assms(3) by (intro exI [of _ "[]"]) auto
  next
    fix i s
    assume i: "1 \<le> i" "i < nb" and P: "?P i s"
    obtain ch sib where s: "s = (ch, sib)" by (cases s)
    obtain cs where cs: "links sib (ch b) cs" "set cs = ?K i" using P s by auto
    have ne: "i \<noteq> M2R_UNDEF" "i \<noteq> M2R_UNVISITED" using i assms(2) by (auto simp: M2R_UNDEF_def M2R_UNVISITED_def)
    have up: "links (sib(i := v)) (ch b) cs" for v using cs by (simp add: links_update)
    show "?P (Suc i) ((\<lambda>(ch, sib). if dm i \<noteq> M2R_UNDEF \<and> dm i \<noteq> i then (ch(dm i := i), sib(i := ch (dm i))) else (ch, sib)) s)"
    proof (cases "dm i = b \<and> i \<noteq> b")
      case True
      have bu: "b \<noteq> M2R_UNDEF" using assms(2,3) by (auto simp: M2R_UNDEF_def)
      have "0 < i" using i(1) by simp
      then have k: "set (i # cs) = ?K (Suc i)" using True unfolding list.set cs(2) less_Suc_eq by blast
      have l: "links (sib(i := ch b)) i (i # cs)" using ne up by (simp del: fun_upd_apply) simp
      have e: "(\<lambda>(ch, sib). if dm i \<noteq> M2R_UNDEF \<and> dm i \<noteq> i then (ch(dm i := i), sib(i := ch (dm i))) else (ch, sib)) s =
          (ch(b := i), sib(i := ch b))" using True bu by (auto simp: s)
      show ?thesis unfolding e fst_conv snd_conv fun_upd_same using k l by blast
    next
      case False
      then have k: "?K (Suc i) = ?K i" unfolding less_Suc_eq by blast
      show ?thesis
      proof (cases "dm i \<noteq> M2R_UNDEF \<and> dm i \<noteq> i")
        case upd: True
        then have "dm i \<noteq> b" using False by auto
        moreover have "(\<lambda>(ch, sib). if dm i \<noteq> M2R_UNDEF \<and> dm i \<noteq> i then (ch(dm i := i), sib(i := ch (dm i))) else (ch, sib)) s =
            (ch(dm i := i), sib(i := ch (dm i)))" using upd by (simp add: s)
        ultimately show ?thesis using up cs(2) k by (simp only: fst_conv snd_conv fun_upd_other) blast
      next
        case False
        then have "(\<lambda>(ch, sib). if dm i \<noteq> M2R_UNDEF \<and> dm i \<noteq> i then (ch(dm i := i), sib(i := ch (dm i))) else (ch, sib)) s = (ch, sib)"
          by (auto simp: s)
        then show ?thesis using cs k by (simp only: fst_conv snd_conv) blast
      qed
    qed
  qed
  then show ?thesis using assms(1) by simp
qed

subsection \<open>The values at block entries\<close>

definition kids :: "m2r \<Rightarrow> nat \<Rightarrow> nat set" where
  "kids B b = {c. 0 < c \<and> c < m_num_blocks B \<and> idom B c = b \<and> c \<noteq> b}"

text \<open>The dominator tree as the walk sees it, with ranks that grow downwards.\<close>

definition tree_ok :: "(nat \<Rightarrow> nat) \<Rightarrow> m2r \<Rightarrow> bool" where
  "tree_ok rn B \<longleftrightarrow> 0 < m_num_blocks B \<and> m_num_blocks B \<le> M2R_MAX_BLOCKS \<and>
     (\<forall>b < m_num_blocks B. \<exists>cs. links (dt_sibling B) (dt_child B b) cs \<and> set cs = kids B b) \<and>
     (\<forall>b < m_num_blocks B. \<forall>c \<in> kids B b. rn b < rn c) \<and> (\<forall>b < m_num_blocks B. rn b \<le> M2R_UNDEF)"

inductive top_in :: "m2r \<Rightarrow> (nat \<Rightarrow> u32) \<Rightarrow> nat \<Rightarrow> (nat \<Rightarrow> u32) \<Rightarrow> bool" for B vt0 where
  top_root: "top_in B vt0 0 vt0"
| top_kid: "top_in B vt0 b vt \<Longrightarrow> c \<in> kids B b \<Longrightarrow> top_in B vt0 c (block_out B b vt)"

lemma top_in_unique: "top_in B vt0 b vt \<Longrightarrow> top_in B vt0 b vt' \<Longrightarrow> vt' = vt"
proof (induction arbitrary: vt' rule: top_in.induct)
  case top_root
  then show ?case by (cases rule: top_in.cases) (auto simp: kids_def)
next
  case (top_kid b vt c)
  from top_kid.prems top_kid.hyps(2) obtain vt2 where "top_in B vt0 b vt2" "vt' = block_out B b vt2"
    by (cases rule: top_in.cases) (auto simp: kids_def)
  then show ?case using top_kid.IH by simp
qed

text \<open>What renaming owes a block entered with the values \<open>vt\<close>.\<close>

definition good :: "m2r \<Rightarrow> m2r \<Rightarrow> nat \<Rightarrow> (nat \<Rightarrow> u32) \<Rightarrow> bool" where
  "good B S x vt \<longleftrightarrow>
     (\<forall>ii \<in> set (binsts B x). \<forall>ai. load_slot B ii = Some ai \<longrightarrow> val_remap S ii = top_before B x vt ii ai) \<and>
     (\<forall>ii \<in> set (binsts B x). store_slot B ii \<noteq> None \<or> load_slot B ii \<noteq> None \<longrightarrow> m_dead S ii) \<and>
     (\<forall>r \<in> set (phis B). fst (snd r) \<in> set (local_succs B x) \<longrightarrow>
        phi_incoming (m_M S) (fst r) (m_base_block B + x) = Some (block_out B x vt (snd (snd r))))"

lemma block_done_good: "block_done B b vt S S' \<Longrightarrow> good B S' b vt"
  unfolding block_done_def good_def filled_def by simp

lemma block_done_frame:
  assumes "rn_ok E N B" "block_done B b vt S S'" "x < m_num_blocks B" "b < m_num_blocks B" "x \<noteq> b" "good B S x vt'"
  shows "good B S' x vt'"
proof -
  have "set (binsts B x) \<inter> set (binsts B b) = {}" using assms(1,3,4,5) by (simp add: rn_ok_def)
  then have "ii \<notin> set (binsts B b)" if "ii \<in> set (binsts B x)" for ii using that by blast
  then show ?thesis using assms(2,5,6) unfolding good_def block_done_def filled_def by simp
qed

text \<open>The effect of visiting the blocks \<open>V\<close>.\<close>

definition visits :: "m2r \<Rightarrow> (nat \<Rightarrow> u32) \<Rightarrow> nat set \<Rightarrow> m2r \<Rightarrow> m2r \<Rightarrow> bool" where
  "visits B vt0 V S S' \<longleftrightarrow> V \<subseteq> {..<m_num_blocks B} \<and> (\<forall>x \<in> V. \<exists>vt. top_in B vt0 x vt \<and> good B S' x vt) \<and>
     (\<forall>x vt. x < m_num_blocks B \<longrightarrow> x \<notin> V \<longrightarrow> good B S x vt \<longrightarrow> good B S' x vt) \<and>
     (\<forall>ii. m_dead S' ii \<longrightarrow> m_dead S ii \<or> (\<exists>x \<in> V. ii \<in> set (binsts B x)) \<and> (store_slot B ii \<noteq> None \<or> load_slot B ii \<noteq> None)) \<and>
     (\<forall>ii. val_remap S' ii \<noteq> val_remap S ii \<longrightarrow> load_slot B ii \<noteq> None)"

lemma visitsD:
  assumes "visits B vt0 V S S'"
  shows "x \<in> V \<Longrightarrow> \<exists>vt. top_in B vt0 x vt \<and> good B S' x vt" "x < m_num_blocks B \<Longrightarrow> x \<notin> V \<Longrightarrow> good B S x vt \<Longrightarrow> good B S' x vt"
    "m_dead S' ii \<Longrightarrow> m_dead S ii \<or> (\<exists>x \<in> V. ii \<in> set (binsts B x)) \<and> (store_slot B ii \<noteq> None \<or> load_slot B ii \<noteq> None)"
    "val_remap S' ii \<noteq> val_remap S ii \<Longrightarrow> load_slot B ii \<noteq> None" "V \<subseteq> {..<m_num_blocks B}"
  using assms unfolding visits_def by simp_all

lemma visits_none: "visits B vt0 {} S S"
  by (simp add: visits_def)

lemma visits_trans:
  assumes a: "visits B vt0 V S S'" and b: "visits B vt0 W S' S''"
  shows "visits B vt0 (V \<union> W) S S''"
  unfolding visits_def
proof (intro conjI ballI allI impI)
  note A = visitsD [OF a] and C = visitsD [OF b]
  show "V \<union> W \<subseteq> {..<m_num_blocks B}" using A(5) C(5) by simp
  show "\<exists>vt. top_in B vt0 x vt \<and> good B S'' x vt" if x: "x \<in> V \<union> W" for x
  proof (cases "x \<in> W")
    case False
    then have "x \<in> V" "x < m_num_blocks B" using x A(5) by auto
    from A(1) [OF this(1)] obtain vt where "top_in B vt0 x vt" "good B S' x vt" by blast
    then show ?thesis using C(2) [OF \<open>x < m_num_blocks B\<close> False] by blast
  qed (rule C(1))
  show "good B S'' x vt" if "x < m_num_blocks B" "x \<notin> V \<union> W" "good B S x vt" for x vt
  proof -
    have "x \<notin> V" "x \<notin> W" using that(2) by simp_all
    then show ?thesis using C(2) [OF that(1)] A(2) [OF that(1) _ that(3)] by simp
  qed
  show "m_dead S ii \<or> (\<exists>x \<in> V \<union> W. ii \<in> set (binsts B x)) \<and> (store_slot B ii \<noteq> None \<or> load_slot B ii \<noteq> None)"
    if "m_dead S'' ii" for ii
    using C(3) [OF that] A(3) [of ii] by auto
  show "load_slot B ii \<noteq> None" if "val_remap S'' ii \<noteq> val_remap S ii" for ii
    using C(4) [of ii] A(4) [of ii] that by metis
qed


subsection \<open>The walk\<close>

definition subtree_ok :: "nat \<Rightarrow> (nat \<Rightarrow> nat) \<Rightarrow> m2r \<Rightarrow> (nat \<Rightarrow> u32) \<Rightarrow> nat \<Rightarrow> bool" where
  "subtree_ok E rn B vt0 b \<longleftrightarrow> (\<forall>S st A. sim E B S \<longrightarrow> finite A \<longrightarrow> card A = length st \<longrightarrow> A \<subseteq> {..<m_num_blocks B} \<longrightarrow>
     (\<forall>a \<in> A. rn a < rn b) \<longrightarrow> top_in B vt0 b (val_top S) \<longrightarrow> length (changes S) \<le> (\<Sum>a \<in> A. rcost B a) \<longrightarrow>
     (\<exists>S' V. walk S ((b, M2R_UNVISITED, 0) # st) = walk S' st \<and> sim E B S' \<and> val_top S' = val_top S \<and> changes S' = changes S \<and>
        visits B vt0 V S S' \<and> b \<in> V \<and> (\<forall>x \<in> V. rn b \<le> rn x) \<and> (\<forall>x \<in> V. kids B x \<subseteq> V)))"

lemma subtree_okD:
  assumes "subtree_ok E rn B vt0 b" "sim E B S" "finite A" "card A = length st" "A \<subseteq> {..<m_num_blocks B}"
    "\<forall>a \<in> A. rn a < rn b" "top_in B vt0 b (val_top S)" "length (changes S) \<le> (\<Sum>a \<in> A. rcost B a)"
  shows "\<exists>S' V. walk S ((b, M2R_UNVISITED, 0) # st) = walk S' st \<and> sim E B S' \<and> val_top S' = val_top S \<and> changes S' = changes S \<and>
        visits B vt0 V S S' \<and> b \<in> V \<and> (\<forall>x \<in> V. rn b \<le> rn x) \<and> (\<forall>x \<in> V. kids B x \<subseteq> V)"
  using assms(1) [unfolded subtree_ok_def, rule_format, OF assms(2-5) _ assms(7,8)] assms(6) by blast

lemma walk_Cons: "walk_step S frame st = (S1, st1) \<Longrightarrow> walk S (frame # st) = walk S1 st1"
  by (subst walk.simps) simp

lemma walk_kids:
  assumes tree: "tree_ok rn B" and b: "b < m_num_blocks B" "card A = length st" "finite A" "A \<subseteq> {..<m_num_blocks B}"
      "\<forall>a \<in> A. rn a < rn b" "top_in B vt0 b vt"
    and "\<forall>c \<in> set cs. subtree_ok E rn B vt0 c" "set cs \<subseteq> kids B b" "links (dt_sibling B) ch cs"
    and "sim E B S" "val_top S = block_out B b vt" "length (changes S) \<le> (\<Sum>a \<in> insert b A. rcost B a)"
  shows "\<exists>S' V. walk S ((b, ch, sv) # st) = walk S' ((b, M2R_UNDEF, sv) # st) \<and> sim E B S' \<and> val_top S' = val_top S \<and>
    changes S' = changes S \<and> visits B vt0 V S S' \<and> set cs \<subseteq> V \<and> (\<forall>x \<in> V. rn b < rn x) \<and> (\<forall>x \<in> V. kids B x \<subseteq> V)"
  using assms(8-)
proof (induction cs arbitrary: ch S)
  case Nil
  then have "ch = M2R_UNDEF" by simp
  then show ?case using Nil visits_none by (intro exI [of _ S] exI [of _ "{}"]) simp
next
  case (Cons c cs)
  have c: "ch = c" "c \<noteq> M2R_UNDEF" "c \<noteq> M2R_UNVISITED" "links (dt_sibling B) (dt_sibling B c) cs" "c \<in> kids B b"
    using Cons.prems(2,3) by auto
  have bA: "b \<notin> A" using b(5) by auto
  have lt: "rn b < rn c" using tree b(1) c(5) by (simp add: tree_ok_def)
  have rank: "\<forall>a \<in> insert b A. rn a < rn c" using lt b(5) by auto
  have cnb: "c < m_num_blocks B" "c \<notin> insert b A" using c(5) rank by (auto simp: kids_def)
  have "card (insert c (insert b A)) \<le> card {..<m_num_blocks B}" using b cnb by (intro card_mono) auto
  then have room: "Suc (length st) < M2R_MAX_STACK" using tree cnb(2) bA b(2,3) by (simp add: tree_ok_def)
  have step: "walk S ((b, ch, sv) # st) = walk S ((c, M2R_UNVISITED, 0) # (b, dt_sibling B c, sv) # st)"
    by (rule walk_Cons) (use c room sim_fields(6) [OF Cons.prems(4)] in \<open>simp add: walk_step_def\<close>)
  have "top_in B vt0 c (val_top S)" unfolding Cons.prems(5) using b(6) c(5) by (rule top_kid)
  moreover have "card (insert b A) = length ((b, dt_sibling B c, sv) # st)" using b(2,3) bA by simp
  moreover have "subtree_ok E rn B vt0 c" using Cons.prems(1) by simp
  ultimately obtain S1 V1 where S1: "walk S ((c, M2R_UNVISITED, 0) # (b, dt_sibling B c, sv) # st) = walk S1 ((b, dt_sibling B c, sv) # st)"
      "sim E B S1" "val_top S1 = val_top S" "changes S1 = changes S" "visits B vt0 V1 S S1" "c \<in> V1"
      "\<forall>x \<in> V1. rn c \<le> rn x" "\<forall>x \<in> V1. kids B x \<subseteq> V1"
    using subtree_okD [of E rn B vt0 c S "insert b A" "(b, dt_sibling B c, sv) # st"] Cons.prems(4,6) rank b(1,3,4) by auto
  have "\<forall>c \<in> set cs. subtree_ok E rn B vt0 c" "set cs \<subseteq> kids B b" using Cons.prems(1,2) by auto
  from Cons.IH [OF this c(4) S1(2)] Cons.prems(5,6) S1(3,4) obtain S2 V2 where
    S2: "walk S1 ((b, dt_sibling B c, sv) # st) = walk S2 ((b, M2R_UNDEF, sv) # st)" "sim E B S2" "val_top S2 = val_top S1"
      "changes S2 = changes S1" "visits B vt0 V2 S1 S2" "set cs \<subseteq> V2" "\<forall>x \<in> V2. rn b < rn x" "\<forall>x \<in> V2. kids B x \<subseteq> V2"
    by auto
  have "\<forall>x \<in> V1 \<union> V2. rn b < rn x" using S1(7) S2(7) lt by (auto intro: less_le_trans)
  then show ?case
    using step S1 S2 visits_trans [OF S1(5) S2(5)] by (intro exI [of _ S2] exI [of _ "V1 \<union> V2"]) auto
qed

lemma walk_subtree:
  assumes ok: "rn_ok E N B" and tree: "tree_ok rn B" and total: "(\<Sum>b < m_num_blocks B. rcost B b) \<le> M2R_MAX_CHANGES"
    and "b < m_num_blocks B"
  shows "subtree_ok E rn B vt0 b"
  using assms(4)
proof (induction "M2R_UNDEF - rn b" arbitrary: b rule: less_induct)
  case less
  show ?case
    unfolding subtree_ok_def
  proof (intro allI impI)
    fix S and st :: "(nat \<times> nat \<times> nat) list" and A
    assume sim: "sim E B S" and A: "finite A" "card A = length st" "A \<subseteq> {..<m_num_blocks B}" "\<forall>a \<in> A. rn a < rn b"
      and top: "top_in B vt0 b (val_top S)" and len: "length (changes S) \<le> (\<Sum>a \<in> A. rcost B a)"
    have bA: "b \<notin> A" using A(4) by auto
    have sum: "(\<Sum>a \<in> insert b A. rcost B a) = rcost B b + (\<Sum>a \<in> A. rcost B a)" using A(1) bA by simp
    have "(\<Sum>a \<in> insert b A. rcost B a) \<le> (\<Sum>b < m_num_blocks B. rcost B b)"
      by (rule sum_mono2) (use A(3) less.prems in auto)
    then have room: "length (changes S) + rcost B b \<le> M2R_MAX_CHANGES" using len sum total by simp
    let ?S1 = "rename_block b S"
    note r = rename_block_spec [OF ok sim less.prems room]
    obtain cs where cs: "links (dt_sibling B) (dt_child B b) cs" "set cs = kids B b"
      using tree less.prems unfolding tree_ok_def by blast
    have "subtree_ok E rn B vt0 c" if "c \<in> set cs" for c
    proof -
      have c: "c < m_num_blocks B" "rn b < rn c" using that cs(2) tree less.prems by (auto simp: kids_def tree_ok_def)
      then have "rn c \<le> M2R_UNDEF" using tree by (simp add: tree_ok_def)
      then have "M2R_UNDEF - rn c < M2R_UNDEF - rn b" using c(2) by simp
      then show ?thesis using less.hyps c(1) by blast
    qed
    then have kids: "\<forall>c \<in> set cs. subtree_ok E rn B vt0 c" by blast
    have "length (changes ?S1) \<le> (\<Sum>a \<in> insert b A. rcost B a)" using logged_length [OF r(3)] len sum by simp
    note len1 = this
    have kb: "set cs \<subseteq> kids B b" using cs(2) by simp
    from walk_kids [OF tree less.prems A(2,1,3,4) top kids kb cs(1) r(1,2) len1, where sv = "length (changes S)"]
    obtain S2 V where S2: "walk ?S1 ((b, dt_child B b, length (changes S)) # st) = walk S2 ((b, M2R_UNDEF, length (changes S)) # st)"
        "sim E B S2" "val_top S2 = val_top ?S1" "changes S2 = changes ?S1" "visits B vt0 V ?S1 S2" "set cs \<subseteq> V"
        "\<forall>x \<in> V. rn b < rn x" "\<forall>x \<in> V. kids B x \<subseteq> V"
      by auto
    let ?S3 = "S2\<lparr>changes := changes S, val_top := val_top S\<rparr>"
    have ne: "M2R_UNDEF \<noteq> M2R_UNVISITED" by (simp add: M2R_UNDEF_def M2R_UNVISITED_def)
    have leave: "walk S2 ((b, M2R_UNDEF, length (changes S)) # st) = walk ?S3 st"
      by (rule walk_Cons) (use ne logged_undo [OF r(3)] S2(3,4) in \<open>simp add: walk_step_def\<close>)
    have enter: "walk S ((b, M2R_UNVISITED, 0) # st) = walk ?S1 ((b, dt_child B b, length (changes S)) # st)"
    proof -
      have first: "walk ?S1 ((b, dt_child B b, length (changes S)) # st) = walk (fst (walk_step ?S1 (b, dt_child B b, length (changes S)) st))
          (snd (walk_step ?S1 (b, dt_child B b, length (changes S)) st))" by (rule walk_Cons) simp
      have ch: "dt_child B b \<noteq> M2R_UNVISITED" using cs(1) ne by (cases cs) auto
      have "walk_step S (b, M2R_UNVISITED, 0) st = walk_step ?S1 (b, dt_child B b, length (changes S)) st"
        using ch sim_fields(5,6) [OF sim] sim_fields(6) [OF r(1)] by (simp add: walk_step_def)
      then show ?thesis unfolding first by (intro walk_Cons) simp
    qed
    have "?S3 = S2\<lparr>val_top := val_top S, changes := changes S, val_remap := val_remap S2, m_dead := m_dead S2\<rparr>"
      by (cases S2) simp
    then have sim3: "sim E B ?S3" using sim_update [OF S2(2)] by metis
    have own: "visits B vt0 {b} S ?S1"
      unfolding visits_def
    proof (intro conjI ballI allI impI)
      show "{b} \<subseteq> {..<m_num_blocks B}" using less.prems by simp
      show "\<exists>vt. top_in B vt0 x vt \<and> good B ?S1 x vt" if "x \<in> {b}" for x
        using that top block_done_good [OF r(4)] by blast
      show "good B ?S1 x vt" if "x < m_num_blocks B" "x \<notin> {b}" "good B S x vt" for x vt
        using that(2) by (intro block_done_frame [OF ok r(4) that(1) less.prems _ that(3)]) simp
      show "m_dead S ii \<or> (\<exists>x \<in> {b}. ii \<in> set (binsts B x)) \<and> (store_slot B ii \<noteq> None \<or> load_slot B ii \<noteq> None)"
        if "m_dead ?S1 ii" for ii using that r(4) unfolding block_done_def by simp
      show "load_slot B ii \<noteq> None" if "val_remap ?S1 ii \<noteq> val_remap S ii" for ii
      proof
        assume "load_slot B ii = None"
        then have "val_remap ?S1 ii = val_remap S ii" using r(4) unfolding block_done_def by simp
        then show False using that by simp
      qed
    qed
    have "visits B vt0 ({b} \<union> V) S S2" by (rule visits_trans [OF own S2(5)])
    moreover have "good B ?S3 = good B S2" "m_dead ?S3 = m_dead S2" "val_remap ?S3 = val_remap S2"
      by (simp_all add: good_def fun_eq_iff)
    then have "visits B vt0 ({b} \<union> V) S ?S3 = visits B vt0 ({b} \<union> V) S S2" unfolding visits_def by (simp only:)
    ultimately have v: "visits B vt0 ({b} \<union> V) S ?S3" by simp
    show "\<exists>S' V. walk S ((b, M2R_UNVISITED, 0) # st) = walk S' st \<and> sim E B S' \<and> val_top S' = val_top S \<and> changes S' = changes S \<and>
        visits B vt0 V S S' \<and> b \<in> V \<and> (\<forall>x \<in> V. rn b \<le> rn x) \<and> (\<forall>x \<in> V. kids B x \<subseteq> V)"
      using enter S2(1) leave sim3 v S2(6,7,8) cs(2)
      by (intro exI [of _ ?S3] exI [of _ "{b} \<union> V"]) (auto intro: less_imp_le)
  qed
qed

end
