(* ===== verification/Bir_Mem2reg_Correct.thy ===== *)
theory Bir_Mem2reg_Correct
  imports Bir_Mem2reg_Walk
begin

text \<open>
  Promotion is correct: along every execution, a load of a promoted slot reads the value that renaming
  put in its place.
\<close>

subsection \<open>Dominance\<close>

lemma around_self: "around S d x \<Longrightarrow> x \<noteq> d"
  by (induction rule: around.induct) auto

lemma around_either:
  assumes "live_block S x" "a \<noteq> b"
  shows "around S a x \<and> around S b x \<or> around S b a \<or> around S a b"
  using assms(1)
proof induction
  case live_entry
  then show ?case using assms(2) by (cases "a = 0"; cases "b = 0") (auto intro: around.intros)
next
  case (live_step p x)
  then show ?case using assms(2) around_step [of S a p x] around_step [of S b p x] by (cases "x = a"; cases "x = b") auto
qed

lemma dominates_antisym: "live_block S b \<Longrightarrow> dominates S a b \<Longrightarrow> dominates S b a \<Longrightarrow> a = b"
  using around_either [of S b a b] around_self [of S b b] unfolding dominates_def by blast

subsection \<open>From the tree to the edges\<close>

text \<open>The working state after step 5, as renaming starts on it.\<close>

definition after_placement :: "m2r \<Rightarrow> m2r" where
  "after_placement S = step5_insert_phis (step4_compute_df (step3_compute_dominators (step2_build_preds S)))"

text \<open>The function as the pass finds it, and the limits within which its tables are exact.\<close>

definition func_wf :: "m2r \<Rightarrow> bool" where
  "func_wf S \<longleftrightarrow> 0 < m_num_blocks S \<and> m_num_blocks S \<le> M2R_MAX_BLOCKS \<and> m_base_block S + m_num_blocks S \<le> 2 ^ 32 \<and>
     m_base_inst S + m_orig S \<le> num_insts (m_M S) \<and>
     (\<forall>b < m_num_blocks S. \<forall>ii \<in> set (binsts S b). ii < m_base_inst S + m_orig S \<and>
        (overflow (insts (m_M S) ii) \<longrightarrow> unat (i_operands (insts (m_M S) ii) 0) + unat (i_operands (insts (m_M S) ii) 1) \<le> num_extra_ops (m_M S))) \<and>
     (\<forall>b < m_num_blocks S. \<forall>c < m_num_blocks S. b \<noteq> c \<longrightarrow> set (binsts S b) \<inter> set (binsts S c) = {}) \<and>
     (\<forall>p. \<not> cfg_edge S p 0)"

definition within_limits :: "m2r \<Rightarrow> bool" where
  "within_limits S \<longleftrightarrow>
     (\<forall>b < m_num_blocks S. length (preds (step2_build_preds S) b) < M2R_MAX_PREDS) \<and> converged (step2_build_preds S) \<and>
     (\<forall>b < m_num_blocks S. length (df (step4_compute_df (step3_compute_dominators (step2_build_preds S))) b) < M2R_MAX_DF) \<and>
     pool_full (m_M (rename_start (after_placement S))) = 0 \<and> num_insts (m_M (after_placement S)) \<le> BIR_MAX_INSTS \<and>
     (\<Sum>b < m_num_blocks S. rcost (rename_start (after_placement S)) b) \<le> M2R_MAX_CHANGES"

lemma make_undef_code:
  "\<exists>cs n f. fst (make_undef M t) = M\<lparr>bir_consts := cs, num_consts := n, pool_full := f\<rparr> \<and> (f = 0 \<longrightarrow> pool_full M = 0 \<and> BIR_VAL_IS_CONST (snd (make_undef M t)))"
proof -
  have pf: "pool_full (bir_pfull M BIR_P_CONSTS) \<noteq> 0"
  proof -
    have "bit (pool_full (bir_pfull M BIR_P_CONSTS)) 3" by (simp add: bir_pfull_def bit_simps)
    then show ?thesis by auto
  qed
  show ?thesis
  proof (cases "find (\<lambda>i. c_kind (bir_consts M i) = BIR_CONST_UNDEF \<and> c_type (bir_consts M i) = t) [0..<num_consts M]")
    case (Some i)
    then show ?thesis
      by (intro exI [of _ "bir_consts M"] exI [of _ "num_consts M"] exI [of _ "pool_full M"]) (simp add: make_undef_def)
  next
    case None
    show ?thesis
    proof (cases "num_consts M \<ge> BIR_MAX_CONSTS")
      case True
      then have e: "make_undef M t = (bir_pfull M BIR_P_CONSTS, BIR_VAL_NONE)" using None by (simp add: make_undef_def)
      show ?thesis unfolding e using pf
        by (intro exI [of _ "bir_consts M"] exI [of _ "num_consts M"] exI [of _ "pool_full (bir_pfull M BIR_P_CONSTS)"])
          (simp add: bir_pfull_def)
    next
      case False
      then show ?thesis using None
        by (intro exI [of _ "(bir_consts M)(num_consts M := \<lparr>c_kind = BIR_CONST_UNDEF, c_type = t, c_d = 0\<rparr>)"]
            exI [of _ "num_consts M + 1"] exI [of _ "pool_full M"]) (simp add: make_undef_def)
    qed
  qed
qed

text \<open>The start of renaming: the code of the placement with undefined constants added.\<close>

definition started :: "m2r \<Rightarrow> nat \<Rightarrow> m2r \<Rightarrow> bool" where
  "started S k S' \<longleftrightarrow> (\<exists>cs n f vt. S' = S\<lparr>m_M := (m_M S)\<lparr>bir_consts := cs, num_consts := n, pool_full := f\<rparr>, val_top := vt\<rparr> \<and>
     (f = 0 \<longrightarrow> pool_full (m_M S) = 0 \<and> (\<forall>ai < k. BIR_VAL_IS_CONST (vt ai))))"

lemma init_top_started:
  assumes "started S k S'"
  shows "started S (Suc k) (init_top k S')"
proof -
  obtain cs n f vt where S': "S' = S\<lparr>m_M := (m_M S)\<lparr>bir_consts := cs, num_consts := n, pool_full := f\<rparr>, val_top := vt\<rparr>"
      and c: "f = 0 \<longrightarrow> pool_full (m_M S) = 0 \<and> (\<forall>ai < k. BIR_VAL_IS_CONST (vt ai))"
    using assms unfolding started_def by blast
  let ?M = "(m_M S)\<lparr>bir_consts := cs, num_consts := n, pool_full := f\<rparr>" and ?t = "snd (promote S ! k)"
  obtain cs2 n2 f2 where u: "fst (make_undef ?M ?t) = ?M\<lparr>bir_consts := cs2, num_consts := n2, pool_full := f2\<rparr>"
      "f2 = 0 \<longrightarrow> pool_full ?M = 0 \<and> BIR_VAL_IS_CONST (snd (make_undef ?M ?t))"
    using make_undef_code by blast
  have e: "init_top k S' = S'\<lparr>m_M := fst (make_undef ?M ?t), val_top := vt(k := snd (make_undef ?M ?t))\<rparr>"
    unfolding init_top_def S' by (simp add: case_prod_beta)
  show ?thesis
    unfolding started_def e unfolding S' u(1)
    by (rule exI [of _ cs2], rule exI [of _ n2], rule exI [of _ f2], rule exI [of _ "vt(k := snd (make_undef ?M ?t))"])
      (use c u(2) in \<open>auto simp: less_Suc_eq\<close>)
qed

lemma rename_start_spec:
  fixes S :: m2r
  defines "B \<equiv> rename_start S"
  shows "\<exists>cs n f vt vr dd. B = S\<lparr>m_M := (m_M S)\<lparr>bir_consts := cs, num_consts := n, pool_full := f\<rparr>, val_top := vt, val_remap := vr,
        m_dead := dd, changes := []\<rparr> \<and> (f = 0 \<longrightarrow> pool_full (m_M S) = 0 \<and> (\<forall>ai < length (promote S). BIR_VAL_IS_CONST (vt ai)))"
proof -
  let ?S1 = "S\<lparr>val_remap := (\<lambda>i. if i < num_insts (m_M S) then BIR_VAL_NONE else val_remap S i)\<rparr>"
  have "started ?S1 (length (promote S)) (for_loop 0 (length (promote S)) init_top ?S1)"
  proof (rule for_loop_inv [where P = "started ?S1"])
    show "started ?S1 0 ?S1"
      unfolding started_def
      by (rule exI [of _ "bir_consts (m_M S)"], rule exI [of _ "num_consts (m_M S)"], rule exI [of _ "pool_full (m_M S)"],
          rule exI [of _ "val_top S"]) simp
  qed (auto intro: init_top_started)
  then obtain cs n f vt where e: "for_loop 0 (length (promote S)) init_top ?S1 =
        ?S1\<lparr>m_M := (m_M S)\<lparr>bir_consts := cs, num_consts := n, pool_full := f\<rparr>, val_top := vt\<rparr>"
      and c: "f = 0 \<longrightarrow> pool_full (m_M S) = 0 \<and> (\<forall>ai < length (promote S). BIR_VAL_IS_CONST (vt ai))"
    unfolding started_def by auto
  have "B = S\<lparr>m_M := (m_M S)\<lparr>bir_consts := cs, num_consts := n, pool_full := f\<rparr>, val_top := vt,
      val_remap := (\<lambda>i. if i < num_insts (m_M S) then BIR_VAL_NONE else val_remap S i),
      m_dead := (\<lambda>i. i \<in> fst ` set (promote S) \<or> m_dead S i), changes := []\<rparr>"
    unfolding B_def rename_start_def Let_def e by simp
  then show ?thesis using c by blast
qed


text \<open>What the earlier steps leave in the state renaming starts on.\<close>

abbreviation (input) after_tree :: "m2r \<Rightarrow> m2r" where
  "after_tree S \<equiv> step3_compute_dominators (step2_build_preds S)"

abbreviation (input) ready :: "m2r \<Rightarrow> m2r" where "ready S \<equiv> rename_start (after_placement S)"

lemma tree_fields:
  "m_M (after_tree S) = m_M S" "m_base_block (after_tree S) = m_base_block S" "m_num_blocks (after_tree S) = m_num_blocks S"
  "promote (after_tree S) = promote S" "m_base_inst (after_tree S) = m_base_inst S" "m_orig (after_tree S) = m_orig S"
  "preds (after_tree S) = preds (step2_build_preds S)"
  by (simp_all add: step3_fields step2_build_preds_def)

lemma step4_fields:
  "m_M (step4_compute_df S) = m_M S" "m_base_block (step4_compute_df S) = m_base_block S" "m_num_blocks (step4_compute_df S) = m_num_blocks S"
  "promote (step4_compute_df S) = promote S" "m_base_inst (step4_compute_df S) = m_base_inst S" "m_orig (step4_compute_df S) = m_orig S"
  "preds (step4_compute_df S) = preds S" "idom (step4_compute_df S) = idom S" "dt_child (step4_compute_df S) = dt_child S"
  "dt_sibling (step4_compute_df S) = dt_sibling S"
  by (simp_all add: step4_compute_df_def Let_def)

lemma df_in:
  assumes "r < m_num_blocks S" "d \<in> set (df (step4_compute_df S) r)"
  shows "d < m_num_blocks S" "length (df (step4_compute_df S) r) < M2R_MAX_DF \<Longrightarrow> set (df (step4_compute_df S) r) = frontier S r"
  using step4_frontier [OF assms(1)] assms(2) by (auto simp: grew_def frontier_def)

lemma after_placed:
  assumes "func_wf S"
  shows "placed (step4_compute_df (after_tree S)) (length (promote S)) (after_placement S)"
proof -
  let ?S4 = "step4_compute_df (after_tree S)"
  have w: "m_num_blocks ?S4 \<le> M2R_MAX_BLOCKS" "m_base_inst ?S4 + m_orig ?S4 \<le> num_insts (m_M ?S4)"
    using assms by (simp_all add: func_wf_def step4_fields tree_fields)
  have "d < m_num_blocks ?S4 \<and> length (preds ?S4 d) \<le> M2R_MAX_PREDS" if "w < m_num_blocks ?S4" "d \<in> set (df ?S4 w)" for w d
  proof -
    have "d < m_num_blocks S" using df_in(1) [of w "after_tree S" d] that by (simp add: step4_fields tree_fields)
    then show ?thesis using preds_spec [of d S] by (simp add: step4_fields tree_fields)
  qed
  then show ?thesis using step5_placed [OF w] by (simp add: after_placement_def step4_fields tree_fields)
qed

lemma ready_fields:
  assumes "func_wf S"
  shows "m_base_block (ready S) = m_base_block S" "m_num_blocks (ready S) = m_num_blocks S" "promote (ready S) = promote S"
    "preds (ready S) = preds (step2_build_preds S)" "idom (ready S) = idom (after_tree S)" "dt_child (ready S) = dt_child (after_tree S)"
    "dt_sibling (ready S) = dt_sibling (after_tree S)" "phis (ready S) = phis (after_placement S)" "changes (ready S) = []"
    "blocks (m_M (ready S)) = blocks (m_M (after_placement S))" "insts (m_M (ready S)) = insts (m_M (after_placement S))"
    "extra_operands (m_M (ready S)) = extra_operands (m_M (after_placement S))" "num_insts (m_M (ready S)) = num_insts (m_M (after_placement S))"
    "num_extra_ops (m_M (ready S)) = num_extra_ops (m_M (after_placement S))"
    "pool_full (m_M (ready S)) = 0 \<Longrightarrow> pool_full (m_M (after_placement S)) = 0 \<and> (\<forall>ai < length (promote S). BIR_VAL_IS_CONST (val_top (ready S) ai))"
proof -
  let ?S4 = "step4_compute_df (after_tree S)"
  obtain M ph where S5: "after_placement S = ?S4\<lparr>m_M := M, phis := ph\<rparr>" using after_placed [OF assms] unfolding placed_def by blast
  have f: "m_base_block (after_placement S) = m_base_block S" "m_num_blocks (after_placement S) = m_num_blocks S"
    "promote (after_placement S) = promote S" "preds (after_placement S) = preds (step2_build_preds S)"
    "idom (after_placement S) = idom (after_tree S)" "dt_child (after_placement S) = dt_child (after_tree S)"
    "dt_sibling (after_placement S) = dt_sibling (after_tree S)"
    by (simp_all add: S5 step4_fields tree_fields)
  from rename_start_spec [of "after_placement S"] obtain cs n g vt vr dd where
    e: "ready S = (after_placement S)\<lparr>m_M := (m_M (after_placement S))\<lparr>bir_consts := cs, num_consts := n, pool_full := g\<rparr>, val_top := vt,
          val_remap := vr, m_dead := dd, changes := []\<rparr>"
      "g = 0 \<longrightarrow> pool_full (m_M (after_placement S)) = 0 \<and> (\<forall>ai < length (promote (after_placement S)). BIR_VAL_IS_CONST (vt ai))"
    by blast
  show "m_base_block (ready S) = m_base_block S" "m_num_blocks (ready S) = m_num_blocks S" "promote (ready S) = promote S"
    "preds (ready S) = preds (step2_build_preds S)" "idom (ready S) = idom (after_tree S)" "dt_child (ready S) = dt_child (after_tree S)"
    "dt_sibling (ready S) = dt_sibling (after_tree S)" "phis (ready S) = phis (after_placement S)" "changes (ready S) = []"
    "blocks (m_M (ready S)) = blocks (m_M (after_placement S))" "insts (m_M (ready S)) = insts (m_M (after_placement S))"
    "extra_operands (m_M (ready S)) = extra_operands (m_M (after_placement S))" "num_insts (m_M (ready S)) = num_insts (m_M (after_placement S))"
    "num_extra_ops (m_M (ready S)) = num_extra_ops (m_M (after_placement S))"
    by (simp_all add: e(1) f)
  show "pool_full (m_M (after_placement S)) = 0 \<and> (\<forall>ai < length (promote S). BIR_VAL_IS_CONST (val_top (ready S) ai))"
    if "pool_full (m_M (ready S)) = 0"
  proof -
    have "g = 0" "val_top (ready S) = vt" using that by (simp_all add: e(1))
    then show ?thesis using e(2) by (simp add: f)
  qed
qed


lemma ready_code:
  assumes "func_wf S"
  shows "blocks (m_M (ready S)) = blocks (m_M S)" "\<forall>i < num_insts (m_M S). insts (m_M (ready S)) i = insts (m_M S) i"
    "\<forall>x < num_extra_ops (m_M S). extra_operands (m_M (ready S)) x = extra_operands (m_M S) x" "binsts (ready S) b = binsts S b"
    "num_insts (m_M S) \<le> num_insts (m_M (ready S))"
proof -
  let ?S4 = "step4_compute_df (after_tree S)"
  note r = ready_fields [OF assms]
  have ok: "phis_ok ?S4 (m_M S) (m_M (after_placement S)) (phis (after_placement S))"
    using after_placed [OF assms] by (simp add: placed_def step4_fields tree_fields)
  show b: "blocks (m_M (ready S)) = blocks (m_M S)" and "\<forall>i < num_insts (m_M S). insts (m_M (ready S)) i = insts (m_M S) i"
    "\<forall>x < num_extra_ops (m_M S). extra_operands (m_M (ready S)) x = extra_operands (m_M S) x"
    "num_insts (m_M S) \<le> num_insts (m_M (ready S))"
    using ok unfolding r phis_ok_def by simp_all
  show "binsts (ready S) b = binsts S b" by (simp add: binsts_def b r)
qed

lemma func_wfD:
  assumes "func_wf S"
  shows "0 < m_num_blocks S" "m_num_blocks S \<le> M2R_MAX_BLOCKS" "m_base_block S + m_num_blocks S \<le> 2 ^ 32"
    "m_base_inst S + m_orig S \<le> num_insts (m_M S)" "b < m_num_blocks S \<Longrightarrow> ii \<in> set (binsts S b) \<Longrightarrow> ii < num_insts (m_M S)"
    "b < m_num_blocks S \<Longrightarrow> ii \<in> set (binsts S b) \<Longrightarrow> ii < m_base_inst S + m_orig S"
    "b < m_num_blocks S \<Longrightarrow> ii \<in> set (binsts S b) \<Longrightarrow> overflow (insts (m_M S) ii) \<Longrightarrow>
      unat (i_operands (insts (m_M S) ii) 0) + unat (i_operands (insts (m_M S) ii) 1) \<le> num_extra_ops (m_M S)"
    "b < m_num_blocks S \<Longrightarrow> c < m_num_blocks S \<Longrightarrow> b \<noteq> c \<Longrightarrow> set (binsts S b) \<inter> set (binsts S c) = {}" "\<not> cfg_edge S p 0"
  using assms unfolding func_wf_def by (simp_all, fastforce)

lemma ready_succs:
  assumes "func_wf S"
  shows "b < m_num_blocks S \<Longrightarrow> local_succs (ready S) b = local_succs S b" "cfg_edge (ready S) = cfg_edge S"
proof -
  note r = ready_fields [OF assms] and c = ready_code [OF assms] and w = func_wfD [OF assms]
  show l: "local_succs (ready S) b = local_succs S b" if b: "b < m_num_blocks S" for b
  proof (rule local_succs_same [where E = "num_extra_ops (m_M S)"])
    show "\<forall>ii \<in> set (binsts S b). insts (m_M (ready S)) ii = insts (m_M S) ii" using c(2) w(5) [OF b] by blast
    show "\<forall>ii \<in> set (binsts S b). overflow (insts (m_M S) ii) \<longrightarrow>
      unat (i_operands (insts (m_M S) ii) 0) + unat (i_operands (insts (m_M S) ii) 1) \<le> num_extra_ops (m_M S)"
      using w(7) [OF b] by blast
  qed (fact c(1) c(3) r(1,2))+
  show "cfg_edge (ready S) = cfg_edge S" using l by (auto simp: fun_eq_iff cfg_edge_def r)
qed

lemma step2_exact:
  assumes "\<forall>b < m_num_blocks S. length (preds (step2_build_preds S) b) < M2R_MAX_PREDS"
  shows "preds_exact (step2_build_preds S)"
proof -
  have f: "m_M (step2_build_preds S) = m_M S" "m_base_block (step2_build_preds S) = m_base_block S"
    "m_num_blocks (step2_build_preds S) = m_num_blocks S" by (simp_all add: step2_build_preds_def)
  show ?thesis using preds_spec [of _ S] assms unfolding preds_exact_def cfg_cong(1) [OF f] f(3) by blast
qed

lemma ready_ok:
  assumes wf: "func_wf S" and lim: "within_limits S"
  shows "rn_ok (num_extra_ops (m_M S)) (num_insts (m_M S)) (ready S)"
proof -
  let ?S4 = "step4_compute_df (after_tree S)" and ?B = "ready S"
  note r = ready_fields [OF wf] and c = ready_code [OF wf] and w = func_wfD [OF wf]
  have P: "placed ?S4 (length (promote S)) (after_placement S)" by (rule after_placed [OF wf])
  then have ok: "phis_ok ?S4 (m_M S) (m_M (after_placement S)) (phis ?B)"
    by (simp add: placed_def step4_fields tree_fields r)
  have "clean (m_M ?B)" using lim by (simp add: within_limits_def)
  then have cl: "clean (m_M (after_placement S))" using r(15) by blast
  have d: "distinct (map snd (phis ?B))" and blk: "\<forall>x \<in> set (phis ?B). fst (snd x) < m_num_blocks S"
    using P cl unfolding placed_def r step4_fields tree_fields by blast+
  have abs: "abs_preds ?S4 = abs_preds ?B" by (intro ext) (simp add: abs_preds_def step4_fields tree_fields r)
  have each: "\<forall>x \<in> set (phis ?B). num_insts (m_M S) \<le> fst x \<and> fst (snd x) < m_num_blocks ?B \<and>
      phi_wf (num_extra_ops (m_M S)) (m_M ?B) (fst x) (abs_preds ?B (fst (snd x))) \<and>
      (\<forall>y \<in> ext_cells (insts (m_M ?B) (fst x)). num_extra_ops (m_M S) \<le> y)"
  proof
    fix x
    assume x: "x \<in> set (phis ?B)"
    have o: "num_insts (m_M S) \<le> fst x" "phi_wf (num_extra_ops (m_M S)) (m_M (after_placement S)) (fst x) (abs_preds ?B (fst (snd x)))"
      "ext_cells (insts (m_M (after_placement S)) (fst x)) \<subseteq> {num_extra_ops (m_M S)..<num_extra_ops (m_M (after_placement S))}"
      using ok x unfolding phis_ok_def abs by blast+
    have "phi_wf (num_extra_ops (m_M S)) (m_M ?B) (fst x) (abs_preds ?B (fst (snd x)))"
      using o(2) unfolding phi_wf_def r .
    moreover have "fst (snd x) < m_num_blocks ?B" using blk x by (simp add: r)
    ultimately show "num_insts (m_M S) \<le> fst x \<and> fst (snd x) < m_num_blocks ?B \<and>
      phi_wf (num_extra_ops (m_M S)) (m_M ?B) (fst x) (abs_preds ?B (fst (snd x))) \<and>
      (\<forall>y \<in> ext_cells (insts (m_M ?B) (fst x)). num_extra_ops (m_M S) \<le> y)" using o(1,3) by (auto simp: r)
  qed
  have apart: "\<forall>x \<in> set (phis ?B). \<forall>y \<in> set (phis ?B). fst x \<noteq> fst y \<longrightarrow>
        ext_cells (insts (m_M ?B) (fst x)) \<inter> ext_cells (insts (m_M ?B) (fst y)) = {}"
    using ok unfolding phis_ok_def r(11) by blast
  have code: "\<forall>b < m_num_blocks ?B. \<forall>ii \<in> set (binsts ?B b). ii < num_insts (m_M S) \<and>
        (overflow (insts (m_M ?B) ii) \<longrightarrow> unat (i_operands (insts (m_M ?B) ii) 0) + unat (i_operands (insts (m_M ?B) ii) 1) \<le> num_extra_ops (m_M S))"
    using w(5,7) c(2) unfolding c(4) r(2) by metis
  have pe: "preds_exact ?B"
  proof -
    have "preds_exact (step2_build_preds S)" by (rule step2_exact) (use lim in \<open>simp add: within_limits_def\<close>)
    moreover have "cfg_edge (step2_build_preds S) = cfg_edge S" by (rule cfg_cong(1)) (simp_all add: step2_build_preds_def)
    ultimately show ?thesis unfolding preds_exact_def r ready_succs(2) [OF wf] by (simp add: step2_build_preds_def)
  qed
  have "distinct (map fst (phis ?B))" using ok by (simp add: phis_ok_def)
  moreover have "\<forall>b < m_num_blocks ?B. \<forall>c < m_num_blocks ?B. b \<noteq> c \<longrightarrow> set (binsts ?B b) \<inter> set (binsts ?B c) = {}"
    using w(8) unfolding c(4) r(2) by blast
  moreover have "m_base_block ?B + m_num_blocks ?B \<le> 2 ^ 32" using w(3) by (simp add: r)
  ultimately show ?thesis unfolding rn_ok_def using d each apart code pe by (intro conjI)
qed


subsection \<open>The tree renaming walks\<close>

definition rank :: "m2r \<Rightarrow> nat \<Rightarrow> nat" where
  "rank S = rpo_num (step3_order (step2_build_preds S))"

lemma tree_facts:
  assumes wf: "func_wf S" and lim: "within_limits S"
  defines "dm \<equiv> idom (ready S)"
  shows "live_block S b \<Longrightarrow> b < m_num_blocks S \<and> rank S b < m_num_blocks S"
    "live_block S b \<Longrightarrow> b \<noteq> 0 \<Longrightarrow> live_block S (dm b) \<and> rank S (dm b) < rank S b"
    "b < m_num_blocks S \<Longrightarrow> \<not> live_block S b \<Longrightarrow> dm b = M2R_UNDEF \<and> rank S b = M2R_UNDEF"
    "live_block S b \<Longrightarrow> b \<noteq> 0 \<Longrightarrow> cfg_edge S p b \<Longrightarrow> live_block S p \<Longrightarrow> anc dm (dm b) p"
    "live_block S b \<Longrightarrow> b \<noteq> 0 \<Longrightarrow> preds (ready S) b = [p] \<Longrightarrow> dm b = p"
    "live_block S b \<Longrightarrow> anc dm a b \<Longrightarrow> dominates S a b" "dm 0 = 0"
proof -
  let ?S2 = "step2_build_preds S" and ?S1 = "step3_order (step2_build_preds S)"
  note r = ready_fields [OF wf] and w = func_wfD [OF wf]
  have f: "m_M ?S2 = m_M S" "m_base_block ?S2 = m_base_block S" "m_num_blocks ?S2 = m_num_blocks S"
    by (simp_all add: step2_build_preds_def)
  note c1 = cfg_cong [of ?S1 S, unfolded step3_order_fields, OF f]
  have pe: "preds_exact ?S2" by (rule step2_exact) (use lim in \<open>simp add: within_limits_def\<close>)
  have dm: "dm = idom (step3_compute_dominators ?S2)" unfolding dm_def r ..
  have cv: "converged ?S2" using lim by (simp add: within_limits_def)
  note t = step3_tree [of ?S2, unfolded f, OF w(1,2) pe cv, folded dm]
  have rp: "set (rpo ?S1) = {b. live_block S b}" using t(3) unfolding ordered_def c1 by blast
  have proc: "b \<in> processed ?S1 dm" if "live_block S b" for b
  proof -
    have b: "b \<in> set (rpo ?S1)" using that rp by simp
    have "rpo ?S1 ! rpo_num ?S1 b \<in> processed ?S1 dm" using t(1) ordered_num [OF t(3) b] unfolding dom_inv_def by blast
    then show ?thesis using ordered_num [OF t(3) b] by simp
  qed
  have procl: "live_block S b" if "b \<in> processed ?S1 dm" for b using that rp by (simp add: processed_def)
  have tree: "dom_tree (rpo_num ?S1) dm (processed ?S1 dm)" using t(1) by (simp add: dom_inv_def)
  have tl: "b \<in> set (tl (rpo ?S1))" if "live_block S b" "b \<noteq> 0" for b
  proof -
    have "hd (rpo ?S1) = 0" "rpo ?S1 \<noteq> []" using t(3) by (simp_all add: ordered_def hd_conv_nth)
    then have "set (rpo ?S1) = insert 0 (set (tl (rpo ?S1)))" by (cases "rpo ?S1") auto
    then have "b \<in> insert 0 (set (tl (rpo ?S1)))" using that(1) rp by blast
    then show ?thesis using that(2) by blast
  qed
  have sett: "settled ?S1 dm b" if "live_block S b" "b \<noteq> 0" for b using t(2) tl [OF that] by blast
  have pr: "preds ?S1 = preds (ready S)" by (simp add: r)
  show "dm 0 = 0" using tree by (simp add: dom_tree_def)
  show "b < m_num_blocks S \<and> rank S b < m_num_blocks S" if "live_block S b"
    using that rp t(3) ordered_bounds(2) [OF t(3), of b] by (auto simp: ordered_def rank_def f)
  show "live_block S (dm b) \<and> rank S (dm b) < rank S b" if "live_block S b" "b \<noteq> 0"
    using tree proc [OF that(1)] that(2) procl unfolding dom_tree_def rank_def by blast
  show "dm b = M2R_UNDEF \<and> rank S b = M2R_UNDEF" if "b < m_num_blocks S" "\<not> live_block S b"
  proof
    have nb: "b \<notin> set (rpo ?S1)" using that(2) rp by simp
    show "dm b = M2R_UNDEF" using t(1) that(1) nb by (simp add: dom_inv_def f)
    have "find (\<lambda>i. rpo_order ?S2 ! i = b) [0..<length (rpo_order ?S2)] = None"
      using nb by (simp add: find_upt_None in_set_conv_nth)
    then show "rank S b = M2R_UNDEF" using that(1) by (simp add: rank_def step3_order_def rpo_numbers_def f Let_def)
  qed
  show "anc dm (dm b) p" if "live_block S b" "b \<noteq> 0" "cfg_edge S p b" "live_block S p"
  proof -
    have "b < m_num_blocks S" using cfg_edge_in [OF that(3)] by simp
    then have "p \<in> set (preds ?S1 b)" using t(4) that(3) unfolding preds_exact_def c1 by (simp add: f)
    then show ?thesis using sett [OF that(1,2)] proc [OF that(4)] unfolding settled_def by blast
  qed
  show "dm b = p" if "live_block S b" "b \<noteq> 0" "preds (ready S) b = [p]"
  proof -
    have s: "dm b \<in> processed ?S1 dm" "dm b = new_idom (m_num_blocks S) (rpo_num ?S1) dm [p]"
      using sett [OF that(1,2)] unfolding settled_def pr that(3) unfolding step3_order_fields(3) f by blast+
    have "dm b \<noteq> M2R_UNDEF" using s(1) ordered_bounds(3) [OF t(3)] by metis
    then show ?thesis using s(2) by (simp add: new_idom_def split: if_splits)
  qed
  show "dominates S a b" if "live_block S b" "anc dm a b"
    using anc_dominates [OF t(3,4,1,2), of a b] that(2) unfolding dominates_def c1 by blast
qed

lemma ready_tree:
  assumes wf: "func_wf S" and lim: "within_limits S"
  shows "tree_ok (rank S) (ready S)"
proof -
  note r = ready_fields [OF wf] and w = func_wfD [OF wf] and tf = tree_facts [OF wf lim]
  let ?S2 = "step2_build_preds S"
  have f: "m_num_blocks ?S2 = m_num_blocks S" by (simp add: step2_build_preds_def)
  obtain ch sib where l: "dt_lists (m_num_blocks S) (idom (ready S)) (dt_child ?S2, dt_sibling ?S2) = (ch, sib)"
    by (cases "dt_lists (m_num_blocks S) (idom (ready S)) (dt_child ?S2, dt_sibling ?S2)")
  have d: "dt_child (ready S) = ch" "dt_sibling (ready S) = sib"
    using l unfolding r step3_fields by (simp_all add: step3_compute_dominators_def f Let_def)
  have "\<exists>cs. links (dt_sibling (ready S)) (dt_child (ready S) b) cs \<and> set cs = kids (ready S) b" if "b < m_num_blocks S" for b
    using dt_lists_links [OF l w(2) that] unfolding kids_def d r(2) .
  moreover have "rank S b < rank S c" if "b < m_num_blocks S" "c \<in> kids (ready S) b" for b c
  proof -
    have c: "c < m_num_blocks S" "idom (ready S) c = b" "c \<noteq> 0" using that(2) by (auto simp: kids_def r)
    have "b \<noteq> M2R_UNDEF" using that(1) w(2) by (auto simp: M2R_UNDEF_def)
    then have "live_block S c" using tf(3) [OF c(1)] c(2) by blast
    then show ?thesis using tf(2) [of c] c by simp
  qed
  moreover have "rank S b \<le> M2R_UNDEF" if "b < m_num_blocks S" for b
    using tf(1) [of b] tf(3) [of b] that w(2) by (cases "live_block S b") (simp_all add: M2R_UNDEF_def)
  ultimately show ?thesis using w(1,2) unfolding tree_ok_def r(2) by blast
qed


lemma step6_result:
  assumes wf: "func_wf S" and lim: "within_limits S"
  shows "\<exists>S6. step6_rename (after_placement S) = Some S6 \<and> phis S6 = phis (ready S) \<and> val_top S6 = val_top (ready S) \<and>
    m_base_block S6 = m_base_block S \<and>
    (\<forall>b. live_block S b \<longrightarrow> (\<exists>vt. top_in (ready S) (val_top (ready S)) b vt \<and> good (ready S) S6 b vt))"
proof -
  let ?B = "ready S" and ?E = "num_extra_ops (m_M S)" and ?N = "num_insts (m_M S)"
  note r = ready_fields [OF wf] and w = func_wfD [OF wf] and tf = tree_facts [OF wf lim]
  have ok: "rn_ok ?E ?N ?B" by (rule ready_ok [OF wf lim])
  have tot: "(\<Sum>b < m_num_blocks ?B. rcost ?B b) \<le> M2R_MAX_CHANGES" using lim by (simp add: within_limits_def r)
  have z: "0 < m_num_blocks ?B" using w(1) by (simp add: r)
  have sim: "sim ?E ?B ?B" using ok by (simp add: sim_def code_sim_def rn_ok_def)
  have so: "subtree_ok ?E (rank S) ?B (val_top ?B) 0" by (rule walk_subtree [OF ok ready_tree [OF wf lim] tot z])
  have t0: "top_in ?B (val_top ?B) 0 (val_top ?B)" by (rule top_root)
  have l0: "length (changes ?B) \<le> (\<Sum>a \<in> {}. rcost ?B a)" by (simp add: r(9))
  obtain S6 V where S6: "walk ?B [(0, M2R_UNVISITED, 0)] = walk S6 []" "visits ?B (val_top ?B) V ?B S6" "0 \<in> V" "\<forall>x \<in> V. kids ?B x \<subseteq> V"
      "sim ?E ?B S6" "val_top S6 = val_top ?B"
    using subtree_okD [OF so sim, of "{}" "[]", OF finite.emptyI _ _ _ t0 l0] by fastforce
  have "b \<in> V" if "live_block S b" for b
    using that
  proof (induction "rank S b" arbitrary: b rule: less_induct)
    case less
    show ?case
    proof (cases "b = 0")
      case False
      note up = tf(2) [OF less.prems False]
      have "idom ?B b \<in> V" using less.hyps up by blast
      moreover have "b \<in> kids ?B (idom ?B b)" using tf(1) [OF less.prems] False up by (auto simp: kids_def r)
      ultimately show ?thesis using S6(4) by blast
    qed (use S6(3) in simp)
  qed
  then have "\<forall>b. live_block S b \<longrightarrow> (\<exists>vt. top_in ?B (val_top ?B) b vt \<and> good ?B S6 b vt)"
    using visitsD(1) [OF S6(2)] by blast
  moreover have "walk S6 [] = Some S6" by (subst walk.simps) simp
  moreover have "phis S6 = phis ?B" "m_base_block S6 = m_base_block S" using sim_fields(1,4) [OF S6(5)] by (simp_all add: r)
  ultimately show ?thesis using S6(1,6) unfolding step6_rename_def by simp
qed

subsection \<open>The values on the edges\<close>

lemma phi_top_none: "\<not> has_phi ph b ai \<Longrightarrow> phi_top ph b vt ai = vt ai"
  by (induction ph arbitrary: vt) (force simp: phi_top_def has_phi_def)+

lemma phi_top_at: "distinct (map snd ph) \<Longrightarrow> (i, b, ai) \<in> set ph \<Longrightarrow> phi_top ph b vt ai = BIR_MAKE_VAL i"
proof (induction ph arbitrary: vt)
  case (Cons r ph)
  obtain pi pb aj where r: "r = (pi, pb, aj)" by (cases r)
  show ?case
  proof (cases "(i, b, ai) \<in> set ph")
    case True
    then show ?thesis using Cons by (simp add: phi_top_def r)
  next
    case False
    then have e: "pi = i" "pb = b" "aj = ai" "\<not> has_phi ph b ai" using Cons.prems by (auto simp: r has_phi_def)
    have "phi_top (r # ph) b vt = phi_top ph b (vt(ai := BIR_MAKE_VAL i))" using e by (simp add: phi_top_def r)
    then show ?thesis using phi_top_none [OF e(4)] by simp
  qed
qed simp


lemma inst_tops_keep:
  "\<forall>ii \<in> set xs. store_slot B ii \<noteq> Some ai \<Longrightarrow> fold (inst_top B) xs vt ai = vt ai"
proof (induction xs arbitrary: vt)
  case (Cons x xs)
  have "inst_top B x vt ai = vt ai" using Cons.prems by (auto simp: inst_top_def split: option.split)
  then show ?case using Cons by simp
qed simp

lemma block_out_keeps:
  "\<not> has_phi (phis B) b ai \<Longrightarrow> \<forall>ii \<in> set (binsts B b). store_slot B ii \<noteq> Some ai \<Longrightarrow> block_out B b vt ai = vt ai"
  by (simp add: block_out_def inst_tops_keep phi_top_none)

lemma ready_alloca_ref:
  assumes "func_wf S"
  shows "get_alloca_ref (m_M (ready S)) I st = get_alloca_ref (m_M S) I st"
proof -
  note r = ready_fields [OF assms]
  have "get_alloca_ref (m_M (ready S)) I st = get_alloca_ref (m_M (after_placement S)) I st"
    by (simp add: get_alloca_ref_def r Let_def)
  also have "\<dots> = get_alloca_ref (m_M S) I st"
    by (rule get_alloca_ref_ok [where S = "step4_compute_df (after_tree S)" and ph = "phis (after_placement S)"])
      (use after_placed [OF assms] in \<open>simp add: placed_def step4_fields tree_fields\<close>)
  finally show ?thesis .
qed

text \<open>A promoted slot's stores are all in its defining blocks.\<close>

lemma store_in_def:
  assumes wf: "func_wf S" and b: "b < m_num_blocks S" "ii \<in> set (binsts S b)" "store_slot (ready S) ii = Some ai"
  shows "b \<in> set (def_blocks (step4_compute_df (after_tree S)) (fst (promote S ! ai)))"
proof -
  note r = ready_fields [OF wf] and w = func_wfD [OF wf]
  have i: "insts (m_M (ready S)) ii = insts (m_M S) ii" using ready_code(2) [OF wf] w(5) [OF b(1,2)] by blast
  have s: "i_op (insts (m_M S) ii) = BIR_STORE" "find_promote_idx (promote S) (get_alloca_ref (m_M S) (insts (m_M S) ii) True) = Some ai"
    using b(3) unfolding store_slot_def ready_alloca_ref [OF wf] i r(3) by (auto simp: Let_def split: if_splits)
  have "get_alloca_ref (m_M S) (insts (m_M S) ii) True = fst (promote S ! ai)" using find_promote_Some [OF s(2)] by simp
  then show ?thesis
    using s(1) b(1,2) w(6) [OF b(1,2)]
    by (auto simp: def_blocks_def has_store_def step4_fields tree_fields Let_def list_ex_iff binsts_def)
qed

lemma slots_closed:
  assumes wf: "func_wf S" and lim: "within_limits S" and ai: "ai < length (promote S)" and x: "x < m_num_blocks S"
    and fr: "b \<in> frontier (after_tree S) x" and none: "\<not> has_phi (phis (ready S)) b ai"
  shows "\<not> has_phi (phis (ready S)) x ai" "\<forall>ii \<in> set (binsts S x). store_slot (ready S) ii \<noteq> Some ai"
proof -
  let ?S4 = "step4_compute_df (after_tree S)"
  note r = ready_fields [OF wf]
  have "clean (m_M (after_placement S))" using lim r(15) by (simp add: within_limits_def)
  then have cl: "slot_closed ?S4 (phis (ready S)) ai" using after_placed [OF wf] ai by (simp add: placed_def r)
  have "length (df ?S4 x) < M2R_MAX_DF" using lim x by (simp add: within_limits_def)
  moreover have "x < m_num_blocks (after_tree S)" using x by (simp add: tree_fields)
  ultimately have "b \<in> set (df ?S4 x)" using step4_frontier [of x "after_tree S"] fr by (simp add: grew_def)
  then have n: "x \<notin> set (def_blocks ?S4 (fst (promote ?S4 ! ai)))" "\<not> has_phi (phis (ready S)) x ai"
    using cl none unfolding slot_closed_def by blast+
  show "\<not> has_phi (phis (ready S)) x ai" by fact
  show "\<forall>ii \<in> set (binsts S x). store_slot (ready S) ii \<noteq> Some ai"
    using store_in_def [OF wf x] n(1) by (auto simp: step4_fields tree_fields)
qed

lemma top_in_parent:
  assumes "top_in B vt0 b vt" "b \<noteq> 0"
  obtains vt' where "top_in B vt0 (idom B b) vt'" "vt = block_out B (idom B b) vt'"
  using assms by (cases rule: top_in.cases) (auto simp: kids_def)

lemma edge_value:
  assumes wf: "func_wf S" and lim: "within_limits S" and ai: "ai < length (promote S)"
    and p: "live_block S p" "cfg_edge S p b" "top_in (ready S) vt0 p vp" and b: "top_in (ready S) vt0 b vb" "\<not> has_phi (phis (ready S)) b ai"
  shows "vb ai = block_out (ready S) p vp ai"
proof -
  let ?B = "ready S" and ?dm = "idom (ready S)"
  let ?x = "\<lambda>j. (?dm ^^ j) p"
  note r = ready_fields [OF wf] and w = func_wfD [OF wf] and tf = tree_facts [OF wf lim]
  have b0: "b \<noteq> 0" using p(2) w(9) by metis
  have lb: "live_block S b" using p(1,2) by (rule live_step)
  obtain vd where vd: "top_in ?B vt0 (?dm b) vd" "vb = block_out ?B (?dm b) vd" using top_in_parent [OF b(1) b0] .
  have pr: "set (preds ?B b) = {q. cfg_edge S q b}"
    using ready_ok [OF wf lim] cfg_edge_in [OF p(2)] unfolding rn_ok_def preds_exact_def ready_succs(2) [OF wf] r(2) by blast
  define k where "k = (LEAST k. ?dm b = ?x k)"
  have "\<exists>k. ?dm b = ?x k" using tf(4) [OF lb b0 p(2,1)] by (simp add: anc_def)
  then have k: "?dm b = ?x k" unfolding k_def by (rule LeastI_ex)
  have least: "?x j \<noteq> ?dm b" if "j < k" for j using that not_less_Least unfolding k_def by metis
  have zero: "?x (j + i) = 0" if "?x j = 0" for j i
    using that tf(7) by (induction i) simp_all
  have nz: "?x j \<noteq> 0" if "j < k" for j
  proof
    assume j: "?x j = 0"
    then have "?x k = 0" using zero [OF j, of "k - j"] that by simp
    then show False using least [OF that] k j by simp
  qed
  have chain: "live_block S (?x j) \<and> j + rank S (?x j) \<le> rank S p" if "j \<le> k" for j
    using that
  proof (induction j)
    case (Suc j)
    then show ?case using tf(2) [of "?x j"] nz [of j] by fastforce
  qed (use p(1) in simp)
  have main: "\<exists>v. top_in ?B vt0 (?x j) v \<and> block_out ?B p vp ai = block_out ?B (?x j) v ai"
    if "j \<le> k" "2 \<le> length (preds ?B b)" for j
    using that(1)
  proof (induction j)
    case (Suc j)
    then obtain v where v: "top_in ?B vt0 (?x j) v" "block_out ?B p vp ai = block_out ?B (?x j) v ai" by auto
    obtain v' where v': "top_in ?B vt0 (?dm (?x j)) v'" "v = block_out ?B (?dm (?x j)) v'"
      using top_in_parent [OF v(1) nz] Suc.prems by auto
    have x: "?x j < m_num_blocks S" using chain [of j] tf(1) Suc.prems by simp
    have "j < 2 * m_num_blocks S" using chain [of k] tf(1) [OF p(1)] Suc.prems by simp
    moreover have "\<forall>i \<le> j. ?x i \<noteq> ?dm b \<and> ?x i \<noteq> M2R_UNDEF"
    proof (intro allI impI)
      fix i
      assume "i \<le> j"
      then have "i < k" using Suc.prems by simp
      then show "?x i \<noteq> ?dm b \<and> ?x i \<noteq> M2R_UNDEF"
        using least chain [of i] tf(1) [of "?x i"] w(2) by (auto simp: M2R_UNDEF_def)
    qed
    ultimately have "?x j \<in> set (passes (2 * m_num_blocks S) ?dm b p)" unfolding passes_iff by blast
    then have "b \<in> frontier (after_tree S) (?x j)"
      using that(2) cfg_edge_in [OF p(2)] pr p(2) unfolding frontier_def tree_fields r by auto
    note c = slots_closed [OF wf lim ai x this b(2)]
    have "block_out ?B (?x j) v ai = v ai"
      by (rule block_out_keeps) (use c ready_code(4) [OF wf] in simp_all)
    then show ?case using v v' by auto
  qed (use p(3) in auto)
  have "\<exists>v. top_in ?B vt0 (?dm b) v \<and> block_out ?B p vp ai = block_out ?B (?dm b) v ai"
  proof (cases "2 \<le> length (preds ?B b)")
    case True
    then show ?thesis using main [of k] k by simp
  next
    case False
    have "p \<in> set (preds ?B b)" using pr p(2) by simp
    moreover have "length (preds ?B b) = 0 \<or> length (preds ?B b) = 1" using False by linarith
    ultimately have "preds ?B b = [p]" by (auto simp: length_Suc_conv)
    then have "?dm b = p" using tf(5) [OF lb b0] by simp
    then show ?thesis using p(3) by auto
  qed
  then show ?thesis using vd top_in_unique by metis
qed


subsection \<open>Where a value comes from\<close>

lemma around_trans: "around S a x \<Longrightarrow> around S b x \<or> around S a b"
proof (induction rule: around.induct)
  case around_entry
  then show ?case by (cases "b = 0") (auto intro: around.intros)
next
  case (around_step p x)
  then show ?case using around.around_step [of S b p x] around.around_step [of S a p x] by (cases "x = b") auto
qed

lemma dominates_trans: "dominates S a b \<Longrightarrow> dominates S b c \<Longrightarrow> dominates S a c"
  using around_trans [of S a c b] unfolding dominates_def by blast

text \<open>
  The value a slot holds before position \<open>ii\<close> of block \<open>b\<close>: undefined, a phi of the slot, or what a
  store wrote earlier in the block or in a block that dominates it.
\<close>

definition origin :: "m2r \<Rightarrow> nat \<Rightarrow> nat \<Rightarrow> nat \<Rightarrow> u32 \<Rightarrow> bool" where
  "origin S b ii ai v \<longleftrightarrow> v = val_top (ready S) ai \<or> (\<exists>i c. (i, c, ai) \<in> set (phis (ready S)) \<and> v = BIR_MAKE_VAL i) \<or>
     (\<exists>a s. a < m_num_blocks S \<and> s \<in> set (binsts S a) \<and> i_op (insts (m_M S) s) = BIR_STORE \<and> v = i_operands (insts (m_M S) s) 0 \<and>
        (a = b \<and> s < ii \<or> a \<noteq> b \<and> dominates S a b))"

lemma inst_tops_from:
  "fold (inst_top B) xs vt ai = vt ai \<or>
   (\<exists>s \<in> set xs. store_slot B s = Some ai \<and> fold (inst_top B) xs vt ai = i_operands (insts (m_M B) s) 0)"
proof (induction xs arbitrary: vt)
  case (Cons x xs)
  have "inst_top B x vt ai = vt ai \<or> store_slot B x = Some ai \<and> inst_top B x vt ai = i_operands (insts (m_M B) x) 0"
    by (auto simp: inst_top_def split: option.split)
  then show ?case using Cons.IH [of "inst_top B x vt"] by auto
qed simp

lemma store_slot_store: "store_slot B s = Some ai \<Longrightarrow> i_op (insts (m_M B) s) = BIR_STORE"
  by (auto simp: store_slot_def Let_def split: if_splits)

lemma origin_along:
  assumes wf: "func_wf S" and b: "b < m_num_blocks S" and v: "origin S b 0 ai (vt ai)" and xs: "set xs \<subseteq> set (binsts S b)" "\<forall>s \<in> set xs. s < ii"
    and d: "distinct (map snd (phis (ready S)))"
  shows "origin S b ii ai (fold (inst_top (ready S)) xs (phi_top (phis (ready S)) b vt) ai)"
proof -
  let ?B = "ready S"
  have p: "origin S b ii ai (phi_top (phis ?B) b vt ai)"
  proof (cases "has_phi (phis ?B) b ai")
    case True
    then obtain i where i: "(i, b, ai) \<in> set (phis ?B)" by (auto simp: has_phi_def)
    then show ?thesis unfolding origin_def phi_top_at [OF d i] by blast
  next
    case False
    then show ?thesis using v unfolding origin_def phi_top_none [OF False] not_less_zero by blast
  qed
  consider "fold (inst_top ?B) xs (phi_top (phis ?B) b vt) ai = phi_top (phis ?B) b vt ai"
    | s where "s \<in> set xs" "store_slot ?B s = Some ai"
      "fold (inst_top ?B) xs (phi_top (phis ?B) b vt) ai = i_operands (insts (m_M ?B) s) 0"
    using inst_tops_from by metis
  then show ?thesis
  proof cases
    case 2
    have s: "s \<in> set (binsts S b)" "s < ii" using 2(1) xs by auto
    have i: "insts (m_M ?B) s = insts (m_M S) s" using ready_code(2) [OF wf] func_wfD(5) [OF wf b s(1)] by blast
    then have "i_op (insts (m_M S) s) = BIR_STORE" using store_slot_store [OF 2(2)] by simp
    then show ?thesis using s b unfolding origin_def 2(3) i by blast
  qed (use p in simp)
qed

lemma origin_top:
  assumes wf: "func_wf S" and lim: "within_limits S" and "top_in (ready S) (val_top (ready S)) b vt"
  shows "origin S b 0 ai (vt ai) \<and> live_block S b"
  using assms(3)
proof induction
  case top_root
  then show ?case by (simp add: origin_def live_entry)
next
  case (top_kid b vt c)
  let ?B = "ready S"
  note r = ready_fields [OF wf] and w = func_wfD [OF wf] and tf = tree_facts [OF wf lim]
  have d: "distinct (map snd (phis ?B))" using ready_ok [OF wf lim] by (simp add: rn_ok_def)
  have c: "c < m_num_blocks S" "idom ?B c = b" "c \<noteq> b" using top_kid.hyps(2) by (auto simp: kids_def r)
  have b: "b < m_num_blocks S" using tf(1) top_kid.IH by blast
  then have "b \<noteq> M2R_UNDEF" using w(2) by (auto simp: M2R_UNDEF_def)
  then have lc: "live_block S c" using tf(3) [OF c(1)] c(2) by blast
  have dom: "dominates S b c" using tf(6) [OF lc, of b] c(2) anc_parent [of "idom ?B" b c] by simp
  let ?n = "Suc (Max (set (0 # binsts S b)))"
  have "origin S b ?n ai (block_out ?B b vt ai)"
    unfolding block_out_def
  proof (rule origin_along [OF wf b _ _ _ d])
    show "set (binsts ?B b) \<subseteq> set (binsts S b)" using ready_code(4) [OF wf] by simp
    have "s \<le> Max (set (0 # binsts S b))" if "s \<in> set (binsts S b)" for s using that by (intro Max_ge) auto
    then show "\<forall>s \<in> set (binsts ?B b). s < ?n" using ready_code(4) [OF wf] by (simp add: less_Suc_eq_le)
  qed (use top_kid.IH in blast)
  moreover have "a \<noteq> c \<and> dominates S a c" if "a \<noteq> b" "dominates S a b" for a
    using dominates_trans [OF that(2) dom] dominates_antisym [OF lc dom] c(3) that(2) by metis
  ultimately have "origin S c 0 ai (block_out ?B b vt ai)" using dom c(3) unfolding origin_def by blast
  then show ?case using lc by blast
qed


subsection \<open>Executions\<close>

text \<open>
  Executions of the function with the phis of the pass: \<open>mem\<close> holds the promoted slots, \<open>env\<close> the value of
  every instruction that has run, \<open>cv\<close> the constants.  An instruction that neither stores to nor loads from
  an alloca gives any value and leaves the promoted slots alone, since their addresses do not
  escape from step 1.  On an edge the phis of the target take their values at once.
\<close>

definition slot_addr :: "bir_module \<Rightarrow> u32 \<Rightarrow> nat option" where
  "slot_addr M ref =
     (if BIR_VAL_IS_CONST ref \<or> BIR_VAL_INDEX ref \<ge> num_insts M \<or> i_op (insts M (BIR_VAL_INDEX ref)) \<noteq> BIR_ALLOCA then None
      else Some (BIR_VAL_INDEX ref))"

definition val_of :: "(u32 \<Rightarrow> 'v) \<Rightarrow> (nat \<Rightarrow> 'v) \<Rightarrow> u32 \<Rightarrow> 'v" where
  "val_of cv env ref = (if BIR_VAL_IS_CONST ref then cv ref else env (BIR_VAL_INDEX ref))"

definition stores_to :: "m2r \<Rightarrow> nat \<Rightarrow> nat option" where
  "stores_to S ii = (if i_op (insts (m_M S) ii) = BIR_STORE then slot_addr (m_M S) (i_operands (insts (m_M S) ii) 1) else None)"

definition loads_from :: "m2r \<Rightarrow> nat \<Rightarrow> nat option" where
  "loads_from S ii = (if i_op (insts (m_M S) ii) = BIR_LOAD then slot_addr (m_M S) (i_operands (insts (m_M S) ii) 0) else None)"

definition inst_effect :: "m2r \<Rightarrow> (u32 \<Rightarrow> 'v) \<Rightarrow> nat \<Rightarrow> (nat \<Rightarrow> 'v) \<Rightarrow> (nat \<Rightarrow> 'v) \<Rightarrow> (nat \<Rightarrow> 'v) \<Rightarrow> (nat \<Rightarrow> 'v) \<Rightarrow> bool" where
  "inst_effect S cv ii mem env mem' env' \<longleftrightarrow>
     (case stores_to S ii of
        Some a \<Rightarrow> mem' = mem(a := val_of cv env (i_operands (insts (m_M S) ii) 0)) \<and> env' = env
      | None \<Rightarrow>
          (case loads_from S ii of
             Some a \<Rightarrow> mem' = mem \<and> env' = env(ii := mem a)
           | None \<Rightarrow> (\<forall>a \<in> fst ` set (promote S). mem' a = mem a) \<and> (\<forall>i. i \<noteq> ii \<longrightarrow> env' i = env i)))"

definition enter :: "m2r \<Rightarrow> (u32 \<Rightarrow> 'v) \<Rightarrow> nat \<Rightarrow> nat \<Rightarrow> (nat \<Rightarrow> 'v) \<Rightarrow> (nat \<Rightarrow> 'v)" where
  "enter S6 cv p b env =
     (\<lambda>i. if i \<in> fst ` {r \<in> set (phis S6). fst (snd r) = b} then val_of cv env (the (phi_incoming (m_M S6) i (m_base_block S6 + p))) else env i)"

inductive run :: "m2r \<Rightarrow> m2r \<Rightarrow> (u32 \<Rightarrow> 'v) \<Rightarrow> nat \<Rightarrow> nat \<Rightarrow> (nat \<Rightarrow> 'v) \<Rightarrow> (nat \<Rightarrow> 'v) \<Rightarrow> bool" for S S6 cv where
  run_start: "\<forall>ai < length (promote S). mem (fst (promote S ! ai)) = cv (val_top S6 ai) \<Longrightarrow> run S S6 cv 0 0 mem env"
| run_inst: "run S S6 cv b j mem env \<Longrightarrow> j < length (binsts S b) \<Longrightarrow> inst_effect S cv (binsts S b ! j) mem env mem' env' \<Longrightarrow>
    run S S6 cv b (Suc j) mem' env'"
| run_edge: "run S S6 cv p (length (binsts S p)) mem env \<Longrightarrow> cfg_edge S p b \<Longrightarrow> run S S6 cv b 0 mem (enter S6 cv p b env)"

text \<open>A value is computed before a store uses it: earlier in the block, or in a block that dominates it.\<close>

definition ssa_stores :: "m2r \<Rightarrow> bool" where
  "ssa_stores S \<longleftrightarrow> (\<forall>a < m_num_blocks S. \<forall>s \<in> set (binsts S a). \<forall>v. i_op (insts (m_M S) s) = BIR_STORE \<longrightarrow>
     v = i_operands (insts (m_M S) s) 0 \<longrightarrow> \<not> BIR_VAL_IS_CONST v \<longrightarrow> BIR_VAL_INDEX v < num_insts (m_M S) \<and>
     (\<forall>c < m_num_blocks S. BIR_VAL_INDEX v \<in> set (binsts S c) \<longrightarrow> c = a \<and> BIR_VAL_INDEX v < s \<or> c \<noteq> a \<and> dominates S c a))"

lemma ready_store_slot:
  assumes wf: "func_wf S" and z: "0 \<notin> fst ` set (promote S)" and ii: "b < m_num_blocks S" "ii \<in> set (binsts S b)"
  shows "store_slot (ready S) ii = Option.bind (stores_to S ii) (find_promote_idx (promote S))"
    "load_slot (ready S) ii = Option.bind (loads_from S ii) (find_promote_idx (promote S))"
proof -
  note r = ready_fields [OF wf]
  have i: "insts (m_M (ready S)) ii = insts (m_M S) ii" using ready_code(2) [OF wf] func_wfD(5) [OF wf ii] by blast
  have z: "find_promote_idx (promote S) 0 = None" using z by (simp add: find_promote_None)
  have g: "get_alloca_ref (m_M S) I st = (case slot_addr (m_M S) (if st then i_operands I 1 else i_operands I 0) of None \<Rightarrow> 0 | Some a \<Rightarrow> a)" for I st
    by (auto simp: get_alloca_ref_def slot_addr_def Let_def)
  show "store_slot (ready S) ii = Option.bind (stores_to S ii) (find_promote_idx (promote S))"
    unfolding store_slot_def stores_to_def ready_alloca_ref [OF wf] i r(3) g using z by (auto simp: Let_def split: option.split)
  show "load_slot (ready S) ii = Option.bind (loads_from S ii) (find_promote_idx (promote S))"
    unfolding load_slot_def loads_from_def ready_alloca_ref [OF wf] i r(3) g using z by (auto simp: Let_def split: option.split)
qed

text \<open>The values of the slots before the \<open>j\<close>-th instruction of a block.\<close>

definition tops_at :: "m2r \<Rightarrow> nat \<Rightarrow> nat \<Rightarrow> (nat \<Rightarrow> u32) \<Rightarrow> (nat \<Rightarrow> u32)" where
  "tops_at S b j vt = fold (inst_top (ready S)) (take j (binsts S b)) (phi_top (phis (ready S)) b vt)"

lemma binsts_nth: "j < length (binsts S b) \<Longrightarrow> filter (\<lambda>i. i < binsts S b ! j) (binsts S b) = take j (binsts S b)"
proof -
  have "filter (\<lambda>i. i < lo + j) [lo..<hi] = take j [lo..<hi]" if "lo + j < hi" for lo hi
  proof -
    have "[lo..<hi] = [lo..<lo + j] @ [lo + j..<hi]" using that upt_add_eq_append [of lo "lo + j" "hi - (lo + j)"] by simp
    then show ?thesis by simp
  qed
  then show "j < length (binsts S b) \<Longrightarrow> ?thesis" by (simp add: binsts_def Let_def)
qed


text \<open>Values keep their meaning while what they refer to is not computed again.\<close>

lemma val_of_same:
  "\<lbrakk>\<not> BIR_VAL_IS_CONST v \<Longrightarrow> env' (BIR_VAL_INDEX v) = env (BIR_VAL_INDEX v)\<rbrakk> \<Longrightarrow> val_of cv env' v = val_of cv env v"
  by (simp add: val_of_def)

lemma ready_phi:
  assumes wf: "func_wf S" and lim: "within_limits S" and i: "(i, c, ai) \<in> set (phis (ready S))"
  shows "num_insts (m_M S) \<le> i" "i < 2 ^ 31" "2 \<le> length (preds (ready S) c)"
proof -
  note r = ready_fields [OF wf]
  let ?S4 = "step4_compute_df (after_tree S)"
  have "clean (m_M (ready S))" using lim by (simp add: within_limits_def)
  then have "\<forall>x \<in> set (phis (ready S)). fst (snd x) \<in> df_blocks ?S4"
    using after_placed [OF wf] r(15) unfolding placed_def r(8) by blast
  from bspec [OF this i] obtain x where "x < m_num_blocks S" "c \<in> set (df ?S4 x)"
    by (auto simp: df_blocks_def step4_fields tree_fields)
  then have "c \<in> frontier (after_tree S) x" using step4_frontier [of x "after_tree S"] by (auto simp: grew_def tree_fields)
  then show "2 \<le> length (preds (ready S) c)" by (simp add: frontier_def tree_fields r)
  have "num_insts (m_M S) \<le> i" "i < num_insts (m_M (after_placement S))"
      using after_placed [OF wf] i unfolding placed_def phis_ok_def r step4_fields tree_fields by fastforce+
  moreover have "num_insts (m_M (after_placement S)) \<le> BIR_MAX_INSTS" using lim by (simp add: within_limits_def)
  ultimately show "num_insts (m_M S) \<le> i" "i < 2 ^ 31" by simp_all
qed

lemma origin_fresh:
  assumes wf: "func_wf S" and lim: "within_limits S" and ssa: "ssa_stores S" and b: "live_block S b" "ii \<in> set (binsts S b)"
    and v: "origin S b ii ai v" "\<not> BIR_VAL_IS_CONST v" "ai < length (promote S)"
  shows "BIR_VAL_INDEX v \<noteq> ii"
proof
  assume e: "BIR_VAL_INDEX v = ii"
  note r = ready_fields [OF wf] and w = func_wfD [OF wf] and tf = tree_facts [OF wf lim]
  have nb: "b < m_num_blocks S" using tf(1) [OF b(1)] by simp
  have iN: "ii < num_insts (m_M S)" using w(5) [OF nb b(2)] .
  have "clean (m_M (ready S))" using lim by (simp add: within_limits_def)
  then have "BIR_VAL_IS_CONST (val_top (ready S) ai)" using r(15) v(3) by blast
  then consider i c where "(i, c, ai) \<in> set (phis (ready S))" "v = BIR_MAKE_VAL i"
    | a s where "a < m_num_blocks S" "s \<in> set (binsts S a)" "i_op (insts (m_M S) s) = BIR_STORE" "v = i_operands (insts (m_M S) s) 0"
        "a = b \<and> s < ii \<or> a \<noteq> b \<and> dominates S a b"
    using v(1,2) unfolding origin_def by blast
  then show False
  proof cases
    case 1
    then show False using ready_phi [OF wf lim 1(1)] e iN by simp
  next
    case 2
    have "b = a \<and> ii < s \<or> b \<noteq> a \<and> dominates S b a"
      using ssa [unfolded ssa_stores_def, rule_format, OF 2(1,2,3,4) v(2)] nb b(2) e by blast
    then show False using 2(5) dominates_antisym [OF b(1)] by fastforce
  qed
qed

definition agree :: "m2r \<Rightarrow> (u32 \<Rightarrow> 'v) \<Rightarrow> (nat \<Rightarrow> u32) \<Rightarrow> (nat \<Rightarrow> 'v) \<Rightarrow> (nat \<Rightarrow> 'v) \<Rightarrow> bool" where
  "agree S cv tp mem env \<longleftrightarrow> (\<forall>a ai. find_promote_idx (promote S) a = Some ai \<longrightarrow> mem a = val_of cv env (tp ai))"

lemma inst_agree:
  assumes wf: "func_wf S" and lim: "within_limits S" and ssa: "ssa_stores S" and z: "0 \<notin> fst ` set (promote S)"
    and b: "live_block S b" "j < length (binsts S b)" "top_in (ready S) (val_top (ready S)) b vt"
    and ag: "agree S cv (tops_at S b j vt) mem env" and ef: "inst_effect S cv (binsts S b ! j) mem env mem' env'"
  shows "agree S cv (tops_at S b (Suc j) vt) mem' env'"
proof -
  let ?ii = "binsts S b ! j" and ?T = "tops_at S b j vt"
  note r = ready_fields [OF wf] and w = func_wfD [OF wf] and tf = tree_facts [OF wf lim]
  have nb: "b < m_num_blocks S" using tf(1) [OF b(1)] by simp
  have ii: "?ii \<in> set (binsts S b)" using b(2) by simp
  note ss = ready_store_slot(1) [OF wf z nb ii]
  have i: "insts (m_M (ready S)) ?ii = insts (m_M S) ?ii" using ready_code(2) [OF wf] w(5) [OF nb ii] by blast
  have T': "tops_at S b (Suc j) vt = inst_top (ready S) ?ii ?T"
    unfolding tops_at_def by (simp add: take_Suc_conv_app_nth b(2))
  have org: "origin S b ?ii ai (?T ai)" for ai
    unfolding tops_at_def
  proof (rule origin_along [OF wf nb])
    show "origin S b 0 ai (vt ai)" using origin_top [OF wf lim b(3)] by blast
    show "set (take j (binsts S b)) \<subseteq> set (binsts S b)" by (rule set_take_subset)
    show "\<forall>s \<in> set (take j (binsts S b)). s < ?ii" unfolding binsts_nth [OF b(2), symmetric] by simp
    show "distinct (map snd (phis (ready S)))" using ready_ok [OF wf lim] by (simp add: rn_ok_def)
  qed
  have keep: "val_of cv env' (?T ai) = val_of cv env (?T ai)" if "\<forall>x. x \<noteq> ?ii \<longrightarrow> env' x = env x" "ai < length (promote S)" for ai
    by (rule val_of_same) (use that origin_fresh [OF wf lim ssa b(1) ii org _ that(2)] in blast)
  show ?thesis
    unfolding agree_def
  proof (intro allI impI)
    fix a ai
    assume a: "find_promote_idx (promote S) a = Some ai"
    have ai: "ai < length (promote S)" "fst (promote S ! ai) = a" using find_promote_Some [OF a] by simp_all
    have ap: "a \<in> fst ` set (promote S)" using ai by (metis nth_mem image_eqI)
    have old: "mem a = val_of cv env (?T ai)" using ag a unfolding agree_def by blast
    show "mem' a = val_of cv env' (tops_at S b (Suc j) vt ai)"
    proof (cases "stores_to S ?ii")
      case (Some d)
      then have ef: "mem' = mem(d := val_of cv env (i_operands (insts (m_M S) ?ii) 0))" "env' = env"
        using ef by (simp_all add: inst_effect_def)
      show ?thesis
      proof (cases "d = a")
        case True
        then have "store_slot (ready S) ?ii = Some ai" using ss Some a by simp
        then show ?thesis unfolding T' ef by (simp add: inst_top_def i True)
      next
        case False
        have "store_slot (ready S) ?ii \<noteq> Some ai"
          using ss Some False find_promote_Some [of "promote S" d ai] ai(2) by auto
        then have "inst_top (ready S) ?ii ?T ai = ?T ai" by (auto simp: inst_top_def split: option.split)
        then show ?thesis unfolding T' ef using old False by simp
      qed
    next
      case None
      then have T: "tops_at S b (Suc j) vt = ?T" unfolding T' using ss by (simp add: inst_top_def fun_eq_iff)
      show ?thesis
      proof (cases "loads_from S ?ii")
        case (Some d)
        then have "mem' = mem" "env' = env(?ii := mem d)" using ef None by (simp_all add: inst_effect_def)
        then show ?thesis unfolding T using old keep [OF _ ai(1)] by simp
      next
        case l: None
        then have "\<forall>a \<in> fst ` set (promote S). mem' a = mem a" "\<forall>x. x \<noteq> ?ii \<longrightarrow> env' x = env x"
          using ef None by (simp_all add: inst_effect_def)
        then have "mem' a = mem a" "val_of cv env' (?T ai) = val_of cv env (?T ai)" using ap keep [OF _ ai(1)] by blast+
        then show ?thesis unfolding T using old by simp
      qed
    qed
  qed
qed


lemma edge_agree:
  assumes wf: "func_wf S" and lim: "within_limits S" and ssa: "ssa_stores S"
    and S6: "phis S6 = phis (ready S)" "m_base_block S6 = m_base_block S" "good (ready S) S6 p vp"
    and p: "live_block S p" "cfg_edge S p b" "top_in (ready S) (val_top (ready S)) p vp" and b: "top_in (ready S) (val_top (ready S)) b vb"
    and ag: "agree S cv (tops_at S p (length (binsts S p)) vp) mem env"
  shows "agree S cv (tops_at S b 0 vb) mem (enter S6 cv p b env)"
  unfolding agree_def
proof (intro allI impI)
  fix a ai
  assume a: "find_promote_idx (promote S) a = Some ai"
  let ?B = "ready S"
  note r = ready_fields [OF wf] and w = func_wfD [OF wf] and tf = tree_facts [OF wf lim]
  have ok: "rn_ok (num_extra_ops (m_M S)) (num_insts (m_M S)) ?B" by (rule ready_ok [OF wf lim])
  then have d: "distinct (map fst (phis ?B))" "distinct (map snd (phis ?B))" by (simp_all add: rn_ok_def)
  have ai: "ai < length (promote S)" using find_promote_Some [OF a] by simp
  have np: "p < m_num_blocks S" using cfg_edge_in [OF p(2)] by simp
  have out: "tops_at S p (length (binsts S p)) vp = block_out ?B p vp" by (simp add: tops_at_def block_out_def ready_code(4) [OF wf])
  have old: "mem a = val_of cv env (block_out ?B p vp ai)" using ag a unfolding agree_def out by blast
  have t0: "tops_at S b 0 vb ai = phi_top (phis ?B) b vb ai" by (simp add: tops_at_def)
  show "mem a = val_of cv (enter S6 cv p b env) (tops_at S b 0 vb ai)"
  proof (cases "has_phi (phis ?B) b ai")
    case True
    then obtain i where i: "(i, b, ai) \<in> set (phis ?B)" by (auto simp: has_phi_def)
    have "b \<in> set (local_succs ?B p)" using p(2) ready_succs(1) [OF wf np] by (simp add: cfg_edge_def)
    then have "phi_incoming (m_M S6) i (m_base_block S + p) = Some (block_out ?B p vp ai)"
      using S6(3) i unfolding good_def r(1) by force
    moreover have "i \<in> fst ` {r \<in> set (phis ?B). fst (snd r) = b}" using i by force
    ultimately have "enter S6 cv p b env i = val_of cv env (block_out ?B p vp ai)" by (simp add: enter_def S6)
    then show ?thesis unfolding t0 phi_top_at [OF d(2) i] using old ready_phi(2) [OF wf lim i] by (simp add: val_of_def)
  next
    case False
    have v: "vb ai = block_out ?B p vp ai" by (rule edge_value [OF wf lim ai p b False])
    let ?n = "Suc (Max (set (0 # binsts S p)))"
    have org: "origin S p ?n ai (block_out ?B p vp ai)"
      unfolding out [symmetric] tops_at_def
    proof (rule origin_along [OF wf np])
      show "origin S p 0 ai (vp ai)" using origin_top [OF wf lim p(3)] by blast
      have "s \<le> Max (set (0 # binsts S p))" if "s \<in> set (binsts S p)" for s using that by (intro Max_ge) auto
      then show "\<forall>s \<in> set (take (length (binsts S p)) (binsts S p)). s < ?n" by (simp add: less_Suc_eq_le)
    qed (simp_all add: d(2))
    have "enter S6 cv p b env (BIR_VAL_INDEX (block_out ?B p vp ai)) = env (BIR_VAL_INDEX (block_out ?B p vp ai))"
      if nc: "\<not> BIR_VAL_IS_CONST (block_out ?B p vp ai)"
    proof -
      have "clean (m_M ?B)" using lim by (simp add: within_limits_def)
      then have "BIR_VAL_IS_CONST (val_top ?B ai)" using r(15) ai by blast
      then consider i c where "(i, c, ai) \<in> set (phis ?B)" "block_out ?B p vp ai = BIR_MAKE_VAL i"
        | x s where "x < m_num_blocks S" "s \<in> set (binsts S x)" "i_op (insts (m_M S) s) = BIR_STORE"
          "block_out ?B p vp ai = i_operands (insts (m_M S) s) 0"
        using org nc unfolding origin_def by metis
      then have "BIR_VAL_INDEX (block_out ?B p vp ai) \<notin> fst ` {r \<in> set (phis ?B). fst (snd r) = b}"
      proof cases
        case 1
        have "r = (i, c, ai)" if "r \<in> set (phis ?B)" "fst r = i" for r
          using d(1) 1(1) that by (force simp: distinct_map inj_on_def)
        then have "c = b" if "i \<in> fst ` {r \<in> set (phis ?B). fst (snd r) = b}" using that by force
        moreover have "c \<noteq> b" using 1(1) False by (force simp: has_phi_def)
        ultimately show ?thesis using 1(2) ready_phi(2) [OF wf lim 1(1)] by auto
      next
        case 2
        have "BIR_VAL_INDEX (block_out ?B p vp ai) < num_insts (m_M S)"
          using ssa [unfolded ssa_stores_def, rule_format, OF 2(1-4) nc] by blast
        moreover have "num_insts (m_M S) \<le> i" if "i \<in> fst ` set (phis ?B)" for i
          using that ready_phi(1) [OF wf lim] by force
        ultimately show ?thesis by fastforce
      qed
      then show ?thesis by (simp add: enter_def S6)
    qed
    then show ?thesis unfolding t0 phi_top_none [OF False] v old by (intro val_of_same [symmetric]) 
  qed
qed

lemma run_agree:
  assumes wf: "func_wf S" and lim: "within_limits S" and ssa: "ssa_stores S" and z: "0 \<notin> fst ` set (promote S)"
    and S6: "phis S6 = phis (ready S)" "val_top S6 = val_top (ready S)" "m_base_block S6 = m_base_block S"
      "\<And>b. live_block S b \<Longrightarrow> \<exists>vt. top_in (ready S) (val_top (ready S)) b vt \<and> good (ready S) S6 b vt"
    and "run S S6 cv b j mem env"
  shows "live_block S b \<and> j \<le> length (binsts S b) \<and>
    (\<exists>vt. top_in (ready S) (val_top (ready S)) b vt \<and> good (ready S) S6 b vt \<and> agree S cv (tops_at S b j vt) mem env)"
  using assms(9)
proof induction
  case (run_start mem env)
  note r = ready_fields [OF wf] and w = func_wfD [OF wf]
  obtain vt where vt: "top_in (ready S) (val_top (ready S)) 0 vt" "good (ready S) S6 0 vt" using S6(4) live_entry by blast
  then have v0: "vt = val_top (ready S)" using top_in_unique top_root by metis
  have "\<not> has_phi (phis (ready S)) 0 ai" for ai
  proof
    assume "has_phi (phis (ready S)) 0 ai"
    then obtain i where i: "(i, 0, ai) \<in> set (phis (ready S))" by (auto simp: has_phi_def)
    have "set (preds (ready S) 0) \<noteq> {}" using ready_phi(3) [OF wf lim i] by (cases "preds (ready S) 0") simp_all
    moreover have "set (preds (ready S) 0) = {p. cfg_edge S p 0}"
      using ready_ok [OF wf lim] w(1) by (simp add: rn_ok_def preds_exact_def ready_succs(2) [OF wf] r(2))
    ultimately obtain p where "cfg_edge S p 0" by auto
    then show False using w(9) by simp
  qed
  then have t: "tops_at S 0 0 vt ai = val_top (ready S) ai" for ai by (simp add: tops_at_def phi_top_none v0)
  have cl: "clean (m_M (ready S))" using lim by (simp add: within_limits_def)
  have "agree S cv (tops_at S 0 0 vt) mem env"
    unfolding agree_def t
  proof (intro allI impI)
    fix a ai
    assume "find_promote_idx (promote S) a = Some ai"
    note f = find_promote_Some [OF this]
    then have "BIR_VAL_IS_CONST (val_top (ready S) ai)" using r(15) [OF cl] by blast
    then show "mem a = val_of cv env (val_top (ready S) ai)" using f run_start S6(2) by (auto simp: val_of_def)
  qed
  then show ?case using vt live_entry by auto
next
  case (run_inst b j mem env mem' env')
  then show ?case using inst_agree [OF wf lim ssa z] by (meson Suc_leI)
next
  case (run_edge p mem env b)
  from run_edge.IH obtain vp where vp: "live_block S p" "top_in (ready S) (val_top (ready S)) p vp" "good (ready S) S6 p vp"
    "agree S cv (tops_at S p (length (binsts S p)) vp) mem env" by blast
  have lb: "live_block S b" using vp(1) run_edge.hyps(2) by (rule live_step)
  then obtain vb where vb: "top_in (ready S) (val_top (ready S)) b vb" "good (ready S) S6 b vb" using S6(4) by blast
  show ?case using lb vb edge_agree [OF wf lim ssa S6(1,3) vp(3,1) run_edge.hyps(2) vp(2) vb(1) vp(4)] by auto
qed


text \<open>
  Property C3.  Promotion is correct.  Within the pass's limits renaming succeeds, and along every execution
  of the function, a load of a promoted slot reads the value of the operand that renaming put in its
  place; the promoted loads and stores are marked dead.
\<close>

theorem m2r_promotion_correct:
  assumes "func_wf S" "within_limits S" "ssa_stores S" "0 \<notin> fst ` set (promote S)"
  shows "\<exists>S6. step6_rename (after_placement S) = Some S6 \<and>
    (\<forall>(cv :: u32 \<Rightarrow> 'v) b j mem env a. run S S6 cv b j mem env \<longrightarrow> j < length (binsts S b) \<longrightarrow> a \<in> fst ` set (promote S) \<longrightarrow>
       loads_from S (binsts S b ! j) = Some a \<longrightarrow>
       mem a = val_of cv env (val_remap S6 (binsts S b ! j)) \<and> m_dead S6 (binsts S b ! j)) \<and>
    (\<forall>b j a. live_block S b \<longrightarrow> j < length (binsts S b) \<longrightarrow> a \<in> fst ` set (promote S) \<longrightarrow> stores_to S (binsts S b ! j) = Some a \<longrightarrow>
       m_dead S6 (binsts S b ! j))"
proof -
  note wf = assms(1) and lim = assms(2)
  obtain S6 where S6: "step6_rename (after_placement S) = Some S6" "phis S6 = phis (ready S)" "val_top S6 = val_top (ready S)"
      "m_base_block S6 = m_base_block S" "\<And>b. live_block S b \<Longrightarrow> \<exists>vt. top_in (ready S) (val_top (ready S)) b vt \<and> good (ready S) S6 b vt"
    using step6_result [OF wf lim] by blast
  have idx: "\<exists>ai. find_promote_idx (promote S) a = Some ai" if "a \<in> fst ` set (promote S)" for a
    using that find_promote_None [of "promote S" a] by auto
  have load: "mem a = val_of cv env (val_remap S6 (binsts S b ! j)) \<and> m_dead S6 (binsts S b ! j)"
    if x: "run S S6 cv b j mem env" "j < length (binsts S b)" "a \<in> fst ` set (promote S)" "loads_from S (binsts S b ! j) = Some a"
    for cv :: "u32 \<Rightarrow> 'v" and b j mem env a
  proof -
    obtain vt where vt: "live_block S b" "good (ready S) S6 b vt" "agree S cv (tops_at S b j vt) mem env"
      using run_agree [OF assms S6(2-5) x(1)] by blast
    obtain ai where ai: "find_promote_idx (promote S) a = Some ai" using idx [OF x(3)] by blast
    have ii: "binsts S b ! j \<in> set (binsts S b)" using x(2) by simp
    have nb: "b < m_num_blocks S" using tree_facts(1) [OF wf lim vt(1)] by simp
    have l: "load_slot (ready S) (binsts S b ! j) = Some ai" using ready_store_slot(2) [OF wf assms(4) nb ii] x(4) ai by simp
    have "top_before (ready S) b vt (binsts S b ! j) = tops_at S b j vt"
      unfolding top_before_def tops_at_def ready_code(4) [OF wf] binsts_nth [OF x(2)] ..
    then have "val_remap S6 (binsts S b ! j) = tops_at S b j vt ai" "m_dead S6 (binsts S b ! j)"
      using vt(2) l ii unfolding good_def ready_code(4) [OF wf] by auto
    then show ?thesis using vt(3) ai unfolding agree_def by simp
  qed
  have store: "m_dead S6 (binsts S b ! j)"
    if x: "live_block S b" "j < length (binsts S b)" "a \<in> fst ` set (promote S)" "stores_to S (binsts S b ! j) = Some a" for b j a
  proof -
    obtain vt where vt: "good (ready S) S6 b vt" using S6(5) [OF x(1)] by blast
    obtain ai where ai: "find_promote_idx (promote S) a = Some ai" using idx [OF x(3)] by blast
    have ii: "binsts S b ! j \<in> set (binsts S b)" using x(2) by simp
    have nb: "b < m_num_blocks S" using tree_facts(1) [OF wf lim x(1)] by simp
    have l: "store_slot (ready S) (binsts S b ! j) = Some ai" using ready_store_slot(1) [OF wf assms(4) nb ii] x(4) ai by simp
    show ?thesis using vt l ii unfolding good_def ready_code(4) [OF wf] by auto
  qed
  show ?thesis using S6(1) load store by blast
qed

end
