(* ===== verification/Bir_Mem2reg_Sample.thy ===== *)
theory Bir_Mem2reg_Sample
  imports Bir_Mem2reg_Correct
begin

text \<open>
  A function with a loop around a promoted slot, and the theorems on it.
\<close>

definition loop_module :: bir_module where
  "loop_module = (cleared_module ((\<lambda>_. zero_inst)(
       0 := zero_inst\<lparr>i_op := BIR_PARAM\<rparr>,
       1 := zero_inst\<lparr>i_op := BIR_ALLOCA, i_type := 1\<rparr>,
       2 := zero_inst\<lparr>i_op := BIR_STORE, i_num_operands := 2, i_operands := ops_of [BIR_MAKE_CONST 0, 1]\<rparr>,
       3 := zero_inst\<lparr>i_op := BIR_BR, i_num_operands := 1, i_operands := ops_of [1]\<rparr>,
       4 := zero_inst\<lparr>i_op := BIR_LOAD, i_num_operands := 1, i_operands := ops_of [1]\<rparr>,
       5 := zero_inst\<lparr>i_op := BIR_BR_COND, i_num_operands := 3, i_operands := ops_of [4, 2, 3]\<rparr>,
       6 := zero_inst\<lparr>i_op := BIR_STORE, i_num_operands := 2, i_operands := ops_of [0, 1]\<rparr>,
       7 := zero_inst\<lparr>i_op := BIR_BR, i_num_operands := 1, i_operands := ops_of [1]\<rparr>,
       8 := zero_inst\<lparr>i_op := BIR_RET, i_num_operands := 1, i_operands := ops_of [4]\<rparr>)))\<lparr>num_insts := 9,
       types := (\<lambda>_. zero_type)(0 := zero_type\<lparr>t_kind := BIR_TYPE_INT, t_width := 32\<rparr>,
         1 := zero_type\<lparr>t_kind := BIR_TYPE_PTR, t_inner := 0\<rparr>), num_types := 2, num_consts := 1,
       blocks := (\<lambda>_. zero_block)(0 := zero_block\<lparr>b_num_insts := 4\<rparr>,
         1 := zero_block\<lparr>b_first_inst := 4, b_num_insts := 2\<rparr>, 2 := zero_block\<lparr>b_first_inst := 6, b_num_insts := 2\<rparr>,
         3 := zero_block\<lparr>b_first_inst := 8, b_num_insts := 1\<rparr>), num_blocks := 4,
       funcs := (\<lambda>_. zero_func\<lparr>f_num_blocks := 4, f_total_insts := 9\<rparr>), num_funcs := 1\<rparr>"

definition loop_func :: m2r where
  "loop_func = step1_find_promotable (m2r_start 0 (m2r_init loop_module))"

lemmas loop_module_eval = loop_module_def cleared_module_def zero_inst_def zero_type_def zero_const_def zero_block_def zero_func_def
  ops_of_def

lemma loop_insts:
  "insts loop_module 0 = zero_inst\<lparr>i_op := BIR_PARAM\<rparr>"
  "insts loop_module (Suc 0) = zero_inst\<lparr>i_op := BIR_ALLOCA, i_type := 1\<rparr>"
  "insts loop_module 2 = zero_inst\<lparr>i_op := BIR_STORE, i_num_operands := 2, i_operands := ops_of [0x80000000, 1]\<rparr>"
  "insts loop_module 3 = zero_inst\<lparr>i_op := BIR_BR, i_num_operands := 1, i_operands := ops_of [1]\<rparr>"
  "insts loop_module 4 = zero_inst\<lparr>i_op := BIR_LOAD, i_num_operands := 1, i_operands := ops_of [1]\<rparr>"
  "insts loop_module 5 = zero_inst\<lparr>i_op := BIR_BR_COND, i_num_operands := 3, i_operands := ops_of [4, 2, 3]\<rparr>"
  "insts loop_module 6 = zero_inst\<lparr>i_op := BIR_STORE, i_num_operands := 2, i_operands := ops_of [0, 1]\<rparr>"
  "insts loop_module 7 = zero_inst\<lparr>i_op := BIR_BR, i_num_operands := 1, i_operands := ops_of [1]\<rparr>"
  "insts loop_module 8 = zero_inst\<lparr>i_op := BIR_RET, i_num_operands := 1, i_operands := ops_of [4]\<rparr>"
  by (simp_all add: loop_module_def cleared_module_def BIR_MAKE_CONST_def)

lemma loop_rest:
  "num_insts loop_module = 9" "num_types loop_module = 2" "num_funcs loop_module = 1" "num_extra_ops loop_module = 0"
  "types loop_module 0 = zero_type\<lparr>t_kind := BIR_TYPE_INT, t_width := 32\<rparr>" "types loop_module (Suc 0) = zero_type\<lparr>t_kind := BIR_TYPE_PTR, t_inner := 0\<rparr>"
  "blocks loop_module 0 = zero_block\<lparr>b_num_insts := 4\<rparr>" "blocks loop_module (Suc 0) = zero_block\<lparr>b_first_inst := 4, b_num_insts := 2\<rparr>"
  "blocks loop_module 2 = zero_block\<lparr>b_first_inst := 6, b_num_insts := 2\<rparr>" "blocks loop_module 3 = zero_block\<lparr>b_first_inst := 8, b_num_insts := 1\<rparr>"
  "funcs loop_module 0 = zero_func\<lparr>f_num_blocks := 4, f_total_insts := 9\<rparr>" "num_consts loop_module = 1" "pool_full loop_module = 0"
  by (simp_all add: loop_module_def cleared_module_def)

lemma upt4: "[0..<4] = [0, Suc 0, 2, 3]" and upt9: "[0..<9] = [0, Suc 0, 2, 3, 4, 5, 6, 7, 8]"
  by (simp_all add: upt_rec)

lemmas zero_defs = zero_inst_def zero_type_def zero_const_def zero_block_def zero_func_def ops_of_def

lemma loop_fields:
  "m_M loop_func = loop_module" "m_base_block loop_func = 0" "m_num_blocks loop_func = 4" "m_base_inst loop_func = 0" "m_orig loop_func = 9"
  by (simp_all add: loop_func_def step1_find_promotable_def m2r_start_def m2r_init_def loop_rest zero_defs Let_def)

lemma loop_promote: "promote loop_func = [(Suc 0, 0)]"
proof -
  have a: "find_allocas loop_module 0 9 = [(Suc 0, 0)]"
    by (simp add: find_allocas_def for_loop_def upt9 loop_insts zero_defs ptr_inner_def loop_rest is_scalar_def)
  show ?thesis
    by (simp add: loop_func_def step1_find_promotable_def m2r_start_def m2r_init_def loop_rest Let_def a zero_defs for_loop_def upt9
      loop_insts escape_refs_def disqualify_def BIR_VAL_IS_CONST_def BIR_VAL_INDEX_def)
qed

lemma loop_binsts: "binsts loop_func 0 = [0, Suc 0, 2, 3]" "binsts loop_func (Suc 0) = [4, 5]" "binsts loop_func 2 = [6, 7]" "binsts loop_func 3 = [8]"
  by (simp_all add: binsts_def loop_fields loop_rest zero_defs upt_rec del: add_2_eq_Suc')

lemma loop_succs: "local_succs loop_func 0 = [Suc 0]" "local_succs loop_func (Suc 0) = [2, 3]" "local_succs loop_func 2 = [Suc 0]" "local_succs loop_func 3 = []"
  by (simp_all add: local_succs_def get_succs_def loop_fields loop_insts loop_rest zero_defs Let_def del: add_2_eq_Suc')

lemma below4: "(\<forall>b < 4. P b) \<longleftrightarrow> P 0 \<and> P (Suc 0) \<and> P 2 \<and> P (3 :: nat)"
  by (auto simp: less_Suc_eq numeral_eq_Suc)

lemma loop_preds:
  "preds (step2_build_preds loop_func) 0 = []" "preds (step2_build_preds loop_func) (Suc 0) = [0, 2]"
  "preds (step2_build_preds loop_func) 2 = [Suc 0]" "preds (step2_build_preds loop_func) 3 = [Suc 0]"
  by (simp_all add: step2_build_preds_def for_loop_def loop_fields upt4 loop_succs add_pred_def)


abbreviation (input) "loop2 \<equiv> step2_build_preds loop_func"

lemma loop2_fields: "m_M loop2 = loop_module" "m_base_block loop2 = 0" "m_num_blocks loop2 = 4" "local_succs loop2 = local_succs loop_func"
  using local_succs_cong [of loop2 loop_func] by (simp_all add: step2_build_preds_def loop_fields)

lemma loop_order: "rpo_order loop2 = [0, Suc 0, 3, 2]"
  by (simp add: rpo_order_def loop2_fields loop_succs)

lemma loop_rank: "rpo_num (step3_order loop2) 0 = 0" "rpo_num (step3_order loop2) (Suc 0) = Suc 0"
    "rpo_num (step3_order loop2) 3 = 2" "rpo_num (step3_order loop2) 2 = 3"
  by (simp_all add: step3_order_def rpo_numbers_def loop_order Let_def upt4 upt_rec)

text \<open>The guarded loops at a numeral guard.\<close>

lemma dom_rounds_numeral:
  "dom_rounds (numeral k) S dm =
     (let (dm', changed) = fold (dom_visit S) (tl (rpo S)) (dm, False)
      in if changed then dom_rounds (pred_numeral k) S dm' else (dm', False))"
  by (simp add: numeral_eq_Suc)

lemma climb_numeral:
  "climb rn dm (numeral k) a b = (if rn a > rn b then climb rn dm (pred_numeral k) (dm a) b else (a, numeral k))"
  by (simp add: numeral_eq_Suc)

lemma intersect_numeral:
  "intersect rn dm (numeral k) a b =
     (if a = b then a
      else intersect rn dm (snd (climb rn dm (snd (climb rn dm (pred_numeral k) a b)) b (fst (climb rn dm (pred_numeral k) a b))))
        (fst (climb rn dm (pred_numeral k) a b)) (fst (climb rn dm (snd (climb rn dm (pred_numeral k) a b)) b (fst (climb rn dm (pred_numeral k) a b)))))"
  by (simp add: numeral_eq_Suc)

lemma df_climb_numeral:
  "df_climb (numeral k) dm b r d = (if r \<noteq> dm b \<and> r \<noteq> M2R_UNDEF then df_climb (pred_numeral k) dm b (dm r) (df_add r b d) else d)"
  by (simp add: numeral_eq_Suc)

lemmas guard_numerals = dom_rounds_numeral climb_numeral intersect_numeral df_climb_numeral

lemma loop_doms:
  "snd (dominator_loop (step3_order loop2)) = False" "fst (dominator_loop (step3_order loop2)) 0 = 0"
  "fst (dominator_loop (step3_order loop2)) (Suc 0) = 0" "fst (dominator_loop (step3_order loop2)) 2 = Suc 0"
  "fst (dominator_loop (step3_order loop2)) 3 = Suc 0"
  by (simp_all add: dominator_loop_def loop2_fields loop_order dom_visit_def new_idom_def loop_preds M2R_UNDEF_def guard_numerals loop_rank)

lemma loop_tree:
  "idom (step3_compute_dominators loop2) = fst (dominator_loop (step3_order loop2))"
  "preds (step3_compute_dominators loop2) = preds loop2" "m_num_blocks (step3_compute_dominators loop2) = 4"
  by (simp_all add: step3_fields loop2_fields)

lemma loop_df:
  "df (step4_compute_df (step3_compute_dominators loop2)) 0 = []" "df (step4_compute_df (step3_compute_dominators loop2)) (Suc 0) = [Suc 0]"
  "df (step4_compute_df (step3_compute_dominators loop2)) 2 = [Suc 0]" "df (step4_compute_df (step3_compute_dominators loop2)) 3 = []"
  by (simp_all add: step4_compute_df_def Let_def loop_tree for_loop_def upt4 loop_preds loop_doms guard_numerals df_add_def M2R_UNDEF_def)


abbreviation (input) "loop4 \<equiv> step4_compute_df (step3_compute_dominators loop2)"

lemma loop4_fields:
  "m_M loop4 = loop_module" "m_base_block loop4 = 0" "m_num_blocks loop4 = 4" "m_base_inst loop4 = 0" "m_orig loop4 = 9"
  "promote loop4 = [(Suc 0, 0)]" "preds loop4 = preds loop2"
  by (simp_all add: step4_fields tree_fields loop_fields loop_promote)

lemma has_store_binsts:
  "has_store S a bi = list_ex (\<lambda>ii. ii < m_base_inst S + m_orig S \<and> i_op (insts (m_M S) ii) = BIR_STORE \<and>
     get_alloca_ref (m_M S) (insts (m_M S) ii) True = a) (binsts S bi)"
  by (simp add: has_store_def binsts_def Let_def)

lemma loop4_binsts: "binsts loop4 = binsts loop_func"
  by (simp add: fun_eq_iff binsts_def loop4_fields loop_fields)

lemma loop_defs: "def_blocks loop4 (Suc 0) = [0, 2]"
  by (simp add: def_blocks_def loop4_fields upt4 has_store_binsts loop4_binsts loop_binsts loop_rest loop_insts get_alloca_ref_def zero_defs
    BIR_VAL_IS_CONST_def BIR_VAL_INDEX_def)

definition loop_phi :: bir_inst where
  "loop_phi = zero_inst\<lparr>i_op := BIR_PHI, i_num_operands := 4,
     i_operands := paste (i_operands zero_inst) 0 [0, BIR_VAL_NONE, 2, BIR_VAL_NONE]\<rparr>"

definition loop_placed :: bir_module where
  "loop_placed = loop_module\<lparr>num_insts := 10, insts := (insts loop_module)(9 := loop_phi)\<rparr>"

lemma loop_new_phi: "new_phi loop_module 0 [0, 2] = (loop_placed, Some 9)"
  by (simp add: new_phi_def loop_rest phi_pairs_def loop_placed_def loop_phi_def Let_def) (simp add: zero_inst_def)

lemma loop_placement: "after_placement loop_func = loop4\<lparr>m_M := loop_placed, phis := [(9, Suc 0, 0)]\<rparr>"
proof -
  have "place_phis 0 (loop4\<lparr>phis := []\<rparr>) = loop4\<lparr>m_M := loop_placed, phis := [(9, Suc 0, 0)]\<rparr>"
  proof -
    have d: "def_blocks (loop4\<lparr>phis := []\<rparr>) (Suc 0) = [0, 2]"
      using loop_defs by (simp add: def_blocks_def has_store_def cong: filter_cong)
    show ?thesis
      by (simp add: place_phis_def loop4_fields d Let_def phi_loop.simps loop_df phi_visit_def loop_rest loop_preds loop_new_phi)
  qed
  then show ?thesis by (simp add: after_placement_def step5_insert_phis_def loop4_fields for_loop_def)
qed


lemma loop_ready:
  "pool_full (m_M (ready loop_func)) = 0" "phis (ready loop_func) = [(9, Suc 0, 0)]" "binsts (ready loop_func) = binsts loop_func"
  "m_num_blocks (ready loop_func) = 4"
proof -
  have z: "c_kind (bir_consts loop_module 0) \<noteq> BIR_CONST_UNDEF" by (simp add: loop_module_def cleared_module_def zero_const_def)
  have "pool_full (fst (make_undef loop_placed 0)) = 0"
    using z by (simp add: make_undef_def loop_placed_def loop_rest split: option.split)
  then show "pool_full (m_M (ready loop_func)) = 0"
    by (simp add: rename_start_def loop_placement loop4_fields for_loop_def init_top_def case_prod_beta Let_def)
  obtain cs n f vt vr dd where e: "ready loop_func = (after_placement loop_func)\<lparr>m_M := (m_M (after_placement loop_func))\<lparr>bir_consts := cs,
      num_consts := n, pool_full := f\<rparr>, val_top := vt, val_remap := vr, m_dead := dd, changes := []\<rparr>"
    using rename_start_spec by blast
  show "phis (ready loop_func) = [(9, Suc 0, 0)]" "binsts (ready loop_func) = binsts loop_func" "m_num_blocks (ready loop_func) = 4"
    unfolding e by (simp_all add: loop_placement loop4_fields fun_eq_iff binsts_def loop_fields loop_placed_def)
qed

lemma loop_wf: "func_wf loop_func"
proof -
  have "\<not> cfg_edge loop_func p 0" for p
    using below4 [of "\<lambda>p. 0 \<notin> set (local_succs loop_func p)"] by (auto simp: cfg_edge_def loop_fields loop_succs)
  moreover have "\<forall>b < 4. \<forall>ii \<in> set (binsts loop_func b). ii < 9 \<and> \<not> overflow (insts loop_module ii)"
    unfolding below4 by (simp add: loop_binsts loop_insts zero_defs)
  moreover have "\<forall>b < 4. \<forall>c < 4. b \<noteq> c \<longrightarrow> set (binsts loop_func b) \<inter> set (binsts loop_func c) = {}"
    unfolding below4 by (simp add: loop_binsts)
  ultimately show ?thesis by (simp add: func_wf_def loop_fields loop_rest)
qed

lemma loop_limits: "within_limits loop_func"
proof -
  have "\<forall>b < 4. length (preds loop2 b) < M2R_MAX_PREDS" unfolding below4 by (simp add: loop_preds)
  moreover have "\<forall>b < 4. length (df loop4 b) < M2R_MAX_DF" unfolding below4 by (simp add: loop_df)
  moreover have "(\<Sum>b < 4. rcost (ready loop_func) b) \<le> M2R_MAX_CHANGES"
    by (simp add: lessThan_nat_numeral rcost_def loop_ready loop_binsts)
  moreover have "num_insts (m_M (after_placement loop_func)) = 10" by (simp add: loop_placement loop_placed_def)
  ultimately show ?thesis using loop_doms(1) by (simp add: within_limits_def loop_fields loop_ready converged_def)
qed

lemma loop_ssa: "ssa_stores loop_func"
proof -
  have "dominates loop_func 0 b" for b
  proof -
    have "\<not> around loop_func 0 b"
    proof
      assume "around loop_func 0 b"
      then show False
      proof induction
        case (around_step p x)
        then show False by simp
      qed simp
    qed
    then show ?thesis by (simp add: dominates_def)
  qed
  then have "\<forall>a < 4. \<forall>s \<in> set (binsts loop_func a). \<forall>v. i_op (insts loop_module s) = BIR_STORE \<longrightarrow>
     v = i_operands (insts loop_module s) 0 \<longrightarrow> \<not> BIR_VAL_IS_CONST v \<longrightarrow> BIR_VAL_INDEX v < 9 \<and>
     (\<forall>c < 4. BIR_VAL_INDEX v \<in> set (binsts loop_func c) \<longrightarrow> c = a \<and> BIR_VAL_INDEX v < s \<or> c \<noteq> a \<and> dominates loop_func c a)"
    unfolding below4 by (simp add: loop_binsts loop_insts zero_defs BIR_VAL_IS_CONST_def BIR_VAL_INDEX_def)
  then show ?thesis by (simp add: ssa_stores_def loop_fields loop_rest)
qed


subsection \<open>The theorems on the sample\<close>


lemma m2r_preds_exact_witness: "0 \<in> set (preds (step2_build_preds loop_func) 1)"
  using m2r_preds_exact [of 1 loop_func] by (simp add: loop_fields loop_preds loop_succs)

lemma m2r_rpo_witness: "set (rpo (step3_compute_dominators loop_func)) = {b. live_block loop_func b}"
  using m2r_rpo [of loop_func] by (simp add: loop_fields)

lemma loop_live: "live_block loop_func 3"
proof -
  have "cfg_edge loop_func 0 1" "cfg_edge loop_func 1 3" by (simp_all add: cfg_edge_def loop_fields loop_succs)
  then show ?thesis by (meson live_entry live_step)
qed

lemma m2r_idom_dominates_witness: "dominates loop_func 1 3"
proof -
  have "\<forall>b < 4. length (preds loop2 b) < M2R_MAX_PREDS" unfolding below4 by (simp add: loop_preds)
  then show ?thesis
    using m2r_idom_dominates [of loop_func 3] loop_live loop_doms by (simp add: loop_fields converged_def step3_fields)
qed

lemma m2r_frontiers_witness: "1 \<in> set (df (step4_compute_df (step3_compute_dominators loop2)) 2)"
proof -
  have "length (df loop4 2) < M2R_MAX_DF" by (simp add: loop_df)
  moreover have "\<exists>k < 8. 2 = ((fst (dominator_loop (step3_order loop2))) ^^ k) 2 \<and>
      (\<forall>j \<le> k. ((fst (dominator_loop (step3_order loop2))) ^^ j) 2 \<noteq> 0 \<and> ((fst (dominator_loop (step3_order loop2))) ^^ j) 2 \<noteq> M2R_UNDEF)"
    by (rule exI [of _ 0]) (simp add: M2R_UNDEF_def)
  ultimately show ?thesis
    using m2r_frontiers [of 2 "step3_compute_dominators loop2"] by (simp add: loop_tree loop_preds loop_doms Let_def)
qed

lemma m2r_phis_placed_witness: "\<exists>i. (i, 1, 0) \<in> set (phis (step5_insert_phis loop4))"
proof -
  have "\<forall>w < 4. \<forall>d \<in> set (df loop4 w). d < 4 \<and> length (preds loop2 d) \<le> M2R_MAX_PREDS"
    unfolding below4 by (simp add: loop_df loop_preds)
  moreover have "pool_full (m_M (step5_insert_phis loop4)) = 0"
    using loop_placement by (simp add: after_placement_def loop_placed_def loop_rest)
  ultimately have "\<forall>ai < 1. \<forall>w d. (w \<in> set (def_blocks loop4 (fst (promote loop4 ! ai))) \<or> (\<exists>i. (i, w, ai) \<in> set (phis (step5_insert_phis loop4)))) \<longrightarrow>
      d \<in> set (df loop4 w) \<longrightarrow> (\<exists>i. (i, d, ai) \<in> set (phis (step5_insert_phis loop4)))"
    using m2r_phis_placed [of loop4] by (simp add: loop4_fields loop_rest)
  from this [rule_format, of 0 2 1] show ?thesis by (simp add: loop4_fields loop_defs loop_df)
qed

text \<open>A run to the load in the loop header, before the first turn: it reads the constant stored first.\<close>

definition cval :: "u32 \<Rightarrow> int" where "cval c = (if c = 0x80000000 then 7 else 0)"

lemma loop_effects:
  "stores_to loop_func 0 = None" "loads_from loop_func 0 = None" "stores_to loop_func (Suc 0) = None" "loads_from loop_func (Suc 0) = None"
  "stores_to loop_func 2 = Some (Suc 0)" "stores_to loop_func 3 = None" "loads_from loop_func 3 = None" "loads_from loop_func 4 = Some (Suc 0)"
  by (simp_all add: stores_to_def loads_from_def slot_addr_def loop_fields loop_insts loop_rest zero_defs BIR_VAL_IS_CONST_def BIR_VAL_INDEX_def)

lemma loop_run:
  "\<exists>mem env. run loop_func S6 cval 1 0 mem env \<and> mem (Suc 0) = 7"
proof -
  let ?m = "\<lambda>_. cval (val_top S6 0)" and ?e = "\<lambda>_. 0" and ?B = "binsts loop_func 0"
  have "run loop_func S6 cval 0 0 ?m ?e" by (rule run_start) (simp add: loop_promote)
  then have "run loop_func S6 cval 0 (Suc 0) ?m ?e"
    by (rule run_inst) (simp_all add: loop_binsts inst_effect_def loop_effects)
  then have "run loop_func S6 cval 0 (Suc (Suc 0)) ?m ?e"
    by (rule run_inst) (simp_all add: loop_binsts inst_effect_def loop_effects)
  then have "run loop_func S6 cval 0 (Suc (Suc (Suc 0))) (?m(Suc 0 := 7)) ?e"
    by (rule run_inst) (simp_all add: loop_binsts inst_effect_def loop_effects loop_fields loop_insts zero_defs val_of_def cval_def BIR_VAL_IS_CONST_def)
  then have "run loop_func S6 cval 0 (Suc (Suc (Suc (Suc 0)))) (?m(Suc 0 := 7)) ?e"
    by (rule run_inst) (use loop_effects(6,7) in \<open>simp_all add: loop_binsts inst_effect_def numeral_3_eq_3\<close>)
  moreover have "Suc (Suc (Suc (Suc 0))) = length ?B" by (simp add: loop_binsts)
  ultimately have "run loop_func S6 cval 0 (length ?B) (?m(Suc 0 := 7)) ?e" by (simp only:)
  moreover have "cfg_edge loop_func 0 1" by (simp add: cfg_edge_def loop_fields loop_succs)
  ultimately have "run loop_func S6 cval 1 0 (?m(Suc 0 := 7)) (enter S6 cval 0 1 ?e)" by (rule run_edge)
  then show ?thesis by (intro exI [of _ "?m(Suc 0 := 7)"] exI [of _ "enter S6 cval 0 1 ?e"]) simp
qed

lemma m2r_promotion_correct_witness:
  "\<exists>S6 mem env. step6_rename (after_placement loop_func) = Some S6 \<and> run loop_func S6 cval 1 0 mem env \<and>
     val_of cval env (val_remap S6 4) = 7 \<and> m_dead S6 4"
proof -
  have "0 \<notin> fst ` set (promote loop_func)" by (simp add: loop_promote)
  from m2r_promotion_correct [OF loop_wf loop_limits loop_ssa this, where 'v = int] obtain S6 where
    S6: "step6_rename (after_placement loop_func) = Some S6"
      "\<forall>(cv :: u32 \<Rightarrow> int) b j mem env a. run loop_func S6 cv b j mem env \<longrightarrow> j < length (binsts loop_func b) \<longrightarrow>
         a \<in> fst ` set (promote loop_func) \<longrightarrow> loads_from loop_func (binsts loop_func b ! j) = Some a \<longrightarrow>
         mem a = val_of cv env (val_remap S6 (binsts loop_func b ! j)) \<and> m_dead S6 (binsts loop_func b ! j)"
    by blast
  obtain mem env where r: "run loop_func S6 cval 1 0 mem env" "mem (Suc 0) = 7" using loop_run by blast
  have "mem (Suc 0) = val_of cval env (val_remap S6 4) \<and> m_dead S6 4"
    using S6(2) [rule_format, OF r(1), of "Suc 0"] by (simp add: loop_binsts loop_promote loop_effects)
  then show ?thesis using S6(1) r by auto
qed

end
