(* ===== verification/Spec2Isabelle.thy ===== *)
theory Spec2Isabelle
  imports Bir_Verify_Sound Bir_Sizes Bir_Cfold_Correct Bir_Dce_Correct Bir_Insert
    Soft_Float_Value Tdf_Fission Tdf_Place
    Lexer_Correct Tn_Lex_Correct Bir_Mem2reg_Sample
begin

text \<open>
  Booth is a compiler written in C.  It reads CUDA, HIP or Triton kernels, lowers them to BIR, an
  SSA intermediate representation kept in fixed arenas, runs passes over it, and emits code for
  AMD, NVIDIA, Metal, CPU and Tenstorrent Tensix targets.  This library models the core of it:
  the representation and the passes every target shares, and the part of the Tensix backend that
  ends in RISC-V machine words, down to the execution of those words.

  \<^bold>\<open>Parts and theories.\<close>
  \<^item> \<open>Booth_Prelude\<close>: word types, counted loops (\<open>for_loop\<close> is the C loop over a half-open range),
    the interface \<open>bounded_arena\<close> of an append-only array that refuses when full.
  \<^item> \<open>Bir_Module\<close>: the module of \<open>src/src/ir/bir.h\<close> as a record.  An arena is a total function with a
    count; an instruction keeps its inline operands and the overflow form as the source has it, with
    operands as 32-bit words whose top bit marks a constant.
  \<^item> \<open>Bir_Pools\<close> (\<open>src/src/ir/bir.c\<close>): interning of types, constants and strings, with the refusal
    paths of full pools.  The interface \<open>intern_pool\<close> is interpreted on the pools; the lemmas show
    that interning finds or appends, keeps what was there, and is idempotent.
  \<^item> \<open>Bir_Sizes\<close> (\<open>bir.c\<close>): sizes, alignments and field offsets with their explicit stacks and 32-bit
    arithmetic; offsets are aligned and fields disjoint below the wrap.
  \<^item> \<open>Bir_Verify\<close>, \<open>Bir_Verify_Sound\<close> (\<open>bir.c\<close>, from \<open>vfnm\<close> to \<open>bir_vchk\<close>): the module verifier and its
    soundness.
  \<^item> \<open>Bir_Cfold\<close>, \<open>Bir_Cfold_Correct\<close> (\<open>bir_cfold.c\<close>): constant folding against a reference arithmetic at
    the instruction's width, branch folding and its phi edges, and what the pass leaves alone.
  \<^item> \<open>Bir_Dce\<close>, \<open>Bir_Dce_Correct\<close> (\<open>bir_dce.c\<close>): reachability marking, phi trimming, removal of unused
    pure instructions, compaction with renumbering, closing the gaps between functions.
  \<^item> \<open>Bir_Insert\<close> (\<open>bir_insert.c\<close>): insertion of instructions with the remap of every operand.  The
    classification of operand slots is proved to agree with the verifier's.
  \<^item> \<open>Bir_Sroa\<close> (\<open>bir_sroa.c\<close>): splitting of struct allocas into scalar ones.  A run of the function over
    the split allocas reads what the run over the struct's cells reads; the unguarded driver loop ends.
  \<^item> \<open>Bir_Mem2reg\<close> (\<open>bir_mem2reg.c\<close>): promotion of stack slots to SSA values, the whole pass.  The working
    state \<open>m2r_t\<close> is a record, block numbers are local as in the source.  Its proofs follow the seven steps:
    \<open>Bir_Mem2reg_Dom\<close> (slots, predecessors, block order, dominators, frontiers), \<open>Bir_Mem2reg_Phi\<close> (phi
    placement), \<open>Bir_Mem2reg_Rename\<close> (one block) and \<open>Bir_Mem2reg_Walk\<close> (the walk over the dominator tree).
    \<open>Bir_Mem2reg_Correct\<close> puts them together over an inductive step relation of executions: along every
    run, a load of a promoted slot reads the value that renaming put in its place.
    \<open>Bir_Mem2reg_Sample\<close> applies the theorems to a function with a loop.
  \<^item> \<open>Soft_Float\<close>, \<open>Soft_Float_Round\<close>, \<open>Soft_Float_Value\<close> (\<open>src/runtime/device/soft_fp.c\<close>): the device
    library for 32-bit floats over bit patterns, related to the real numbers: addition,
    multiplication and division are correctly rounded, conversions truncate or round as they
    should, comparisons decide the order.
  \<^item> \<open>Rv_Enc\<close> (\<open>src/src/tensix/rv_enc.c\<close>) and \<open>Rv_Buf\<close> (\<open>rv_buf.c\<close>): the RV32IM encoders, inverse to a
    decoder written from the instruction tables, and the word buffer.  \<open>Rv_Buf\<close> also has a small
    execution model (registers, memory, a log of stores) that fetches and decodes buffer words.
  \<^item> \<open>Tensix_Noc\<close> (\<open>noc.c\<close>): the generators of NoC transfers, semaphores and circular-buffer operations.
    Their theorems run the emitted words; the credit protocol is an inductive step relation.
  \<^item> \<open>Tdf\<close>, \<open>Tdf_Fission\<close>, \<open>Tdf_Place\<close> (\<open>src/src/tdf\<close>): the tile-dataflow graph and its builders, the
    fission of a kernel into reader, compute and writer, lowering, L1 placement, NoC routing and the
    tile-transfer loop.
  \<^item> \<open>Lexer\<close>, \<open>Lexer_Correct\<close> (\<open>src/src/fe/lexer.c\<close>): the CUDA lexer.  The binary search over the keyword
    table is a lookup; tokenizing ends and cuts the source into gaps and well-formed tokens with
    their lines and columns.
  \<^item> \<open>Tn_Lex\<close>, \<open>Tn_Lex_Correct\<close> (\<open>src/src/triton/lex.c\<close>): the Triton lexer.  Its guard is never reached, it
    cuts the source into gaps and tokens, indents and dedents nest, operators are the longest of the
    name table.  \<open>Source_Text\<close> has the lines and slices of a source both lexers use.

  \<^bold>\<open>How the parts meet.\<close>  Folding and elimination work on the module record and use the pools;
  insertion is stated with the verifier's operand classes.  Scalar replacement inserts its allocas with
  the insertion pass and feeds promotion, whose last sweep is the gap closing of elimination.  Fission reads a BIR module; placement
  and the emitters use the graph, the NoC generators, the buffer and the encoders.

  \<^bold>\<open>Conventions.\<close>  Indices into arenas are natural numbers, stored words are words of the C width.
  The C code's out-of-memory refusals, error returns and the division trap are values.  Messages on
  \<open>stderr\<close> are dropped, except that the verifier's diagnostics are a list.  Loops over arenas are
  \<open>for_loop\<close>; loops with a guard carry the guard of the source: 99 rounds of elimination, \<open>nb + 1\<close>
  rounds of marking (proved to be enough), 16 steps of address tracing, the size walk's
  \<open>4 * BIR_MAX_TYPE_FIELDS\<close> steps, and in promotion \<open>4 * nb + 16\<close> dominator rounds, \<open>2 * nb\<close> steps of
  tree climbing (proved to be enough for intersections and frontiers) and 64 links of value
  resolution.  No other fuel is used.  Promotion is proved within the limits of its tables
  (\<open>within_limits\<close>): fewer than 16 predecessors and 64 frontier blocks per block, a settled dominator
  iteration, no pool refusal, and a value log that does not overflow; and for a function whose entry
  has no predecessor, whose stored values are computed before they are stored, and whose
  promoted slots are not instruction 0 of the module (\<open>func_wf\<close>, \<open>ssa_stores\<close>).

  \<^bold>\<open>Parameters.\<close>  The host's double arithmetic in constant folding is the record \<open>fpu\<close>; the value of
  the verifier's uninitialised flag is a function \<open>hg\<close>; the selected chip is an argument.

  \<^bold>\<open>Not modelled.\<close>  The preprocessor, parser and semantic analysis of the CUDA
  frontend (\<open>fe\<close>), the Triton parser and analysis, and the lowering from their trees
  (\<open>bir_lower.c\<close>); the structuriser and the inliner (\<open>bir_struct.c\<close>, \<open>bir_inline.c\<close>); the printer and parser of BIR text; the AMD, NVIDIA, Metal, Intel and
  CPU backends; Tensix instruction selection and ELF output; host runtime, executor and build driver,
  which are calls into drivers and files.
\<close>

end
